(* ===== verification/Cnet_Prelude.thy ===== *)
theory Cnet_Prelude
  imports Complex_Main "HOL-Library.Word" "HOL-Library.Monad_Syntax" "HOL-Library.Signed_Division"
    "HOL-Library.Char_ord" "HOL-Library.List_Lexorder"
begin

text \<open>
  Shared vocabulary of the development.

  \<^item> A run of the debug build that hits a failed \<^verbatim>\<open>assert\<close> or a \<^verbatim>\<open>LOG_FATAL\<close> stops the
    process. Such operations return an \<open>option\<close>: \<open>None\<close> is the abort, and \<open>assertm\<close> is the
    \<^verbatim>\<open>assert\<close> macro.
  \<^item> Text and memory are lists of \<open>char\<close> (8-bit bytes). A pair of a pointer and a length is
    the list of the bytes it covers; a pointer into a buffer is its offset.
  \<^item> \<open>std_find\<close>, \<open>search_crlf\<close> and \<open>overwrite\<close> are the parts of the C++ standard library the
    sources use on such ranges (\<^verbatim>\<open>std::find\<close>/\<^verbatim>\<open>memchr\<close>, \<^verbatim>\<open>std::search\<close>,
    \<^verbatim>\<open>std::copy\<close>/\<^verbatim>\<open>memcpy\<close>); \<open>dec_nat\<close> and \<open>dec_int\<close> are \<^verbatim>\<open>printf\<close>'s \<^verbatim>\<open>%d\<close>.
  \<^item> \<open>smap_insert\<close> and \<open>smap_erase\<close> are \<^verbatim>\<open>std::map\<close> with its iteration order: an
    association list sorted by key.
\<close>

section \<open>Collections of facts\<close>

named_theorems buffer_simps \<open>effect of the buffer operations on the readable bytes\<close>
named_theorems cnet_inv \<open>preservation of the components' invariants\<close>

section \<open>Assertions\<close>

text \<open>Local variables of the source are \<open>let\<close>s of the model and are inlined by the simplifier.\<close>

declare Let_def [simp]

definition assertm :: "bool \<Rightarrow> unit option" where
  "assertm P = (if P then Some () else None)"

lemma assertm_simps [simp]:
  "assertm True = Some ()"
  "assertm False = None"
  "assertm P = Some u \<longleftrightarrow> P"
  "assertm P = None \<longleftrightarrow> \<not> P"
  by (simp_all add: assertm_def)

lemma assertm_bind [simp]:
  "(assertm P \<bind> f) = (if P then f () else None)"
  by (simp add: assertm_def)

lemma assertm_bind_Some:
  "(assertm P \<bind> f) = Some r \<longleftrightarrow> P \<and> f () = Some r"
  by simp

lemma bind_SomeE:
  assumes "(m \<bind> f) = Some r"
  obtains x where "m = Some x" and "f x = Some r"
  using assms by (cases m) auto

lemma disjoint_images:
  assumes "\<And>x y. x \<in> A \<Longrightarrow> y \<in> B \<Longrightarrow> f x \<noteq> g y"
  shows "f ` A \<inter> g ` B = {}"
  using assms by force

section \<open>Ranges of bytes\<close>

text \<open>\<^verbatim>\<open>std::find(first, last, c)\<close> as an offset from \<^verbatim>\<open>first\<close>; the length when absent.\<close>

fun std_find :: "'a \<Rightarrow> 'a list \<Rightarrow> nat" where
  "std_find c [] = 0"
| "std_find c (x # xs) = (if x = c then 0 else Suc (std_find c xs))"

lemma std_find_le [simp]: "std_find c xs \<le> length xs"
  by (induction xs) auto

lemma std_find_takeWhile: "std_find c xs = length (takeWhile (\<lambda>x. x \<noteq> c) xs)"
  by (induction xs) auto

lemma std_find_eq_length: "std_find c xs = length xs \<longleftrightarrow> c \<notin> set xs"
  by (induction xs) auto

lemma std_find_less: "std_find c xs < length xs \<longleftrightarrow> c \<in> set xs"
  by (induction xs) auto

lemma std_find_nth: "std_find c xs < length xs \<Longrightarrow> xs ! std_find c xs = c"
  by (induction xs) (auto split: if_splits)

lemma std_find_take_notin: "c \<notin> set (take (std_find c xs) xs)"
  by (induction xs) auto

lemma std_find_append:
  "std_find c (xs @ ys) = (if c \<in> set xs then std_find c xs else length xs + std_find c ys)"
  by (induction xs) auto

lemma std_find_append_hit [simp]:
  "c \<notin> set xs \<Longrightarrow> std_find c (xs @ c # ys) = length xs"
  by (simp add: std_find_append)

text \<open>\<^verbatim>\<open>std::search(first, last, kCRLF, kCRLF+2)\<close> as an offset; the length when absent.\<close>

definition CR :: char where "CR = CHR 0x0D"
definition LF :: char where "LF = CHR 0x0A"
definition CRLF :: string where "CRLF = [CR, LF]"

fun search_crlf :: "string \<Rightarrow> nat" where
  "search_crlf [] = 0"
| "search_crlf (x # xs) =
     (if x = CR \<and> (case xs of [] \<Rightarrow> False | y # _ \<Rightarrow> y = LF) then 0 else Suc (search_crlf xs))"

lemma search_crlf_le [simp]: "search_crlf xs \<le> length xs"
  by (induction xs) auto

lemma CR_neq_LF [simp]: "CR \<noteq> LF" "LF \<noteq> CR"
  by (simp_all add: CR_def LF_def)

lemma length_CRLF [simp]: "length CRLF = 2"
  by (simp add: CRLF_def)

lemma search_crlf_hit:
  "search_crlf xs < length xs \<Longrightarrow>
   Suc (search_crlf xs) < length xs \<and> take 2 (drop (search_crlf xs) xs) = CRLF"
proof (induction xs)
  case (Cons x xs)
  then show ?case
    by (cases xs) (auto simp: CRLF_def split: if_splits)
qed simp

lemma search_crlf_split:
  assumes "search_crlf xs < length xs"
  shows "xs = take (search_crlf xs) xs @ CRLF @ drop (search_crlf xs + 2) xs"
proof -
  have "take 2 (drop (search_crlf xs) xs) = CRLF"
    using search_crlf_hit [OF assms] by simp
  then show ?thesis
    by (metis append_take_drop_id drop_drop add.commute)
qed

lemma search_crlf_first [simp]:
  assumes "CR \<notin> set xs"
  shows "search_crlf (xs @ CRLF @ ys) = length xs"
  using assms
proof (induction xs)
  case Nil
  then show ?case by (simp add: CRLF_def)
next
  case (Cons x xs)
  then show ?case by (cases xs) auto
qed

lemma search_crlf_min: "search_crlf (pre @ CRLF @ post) \<le> length pre"
proof (induction pre)
  case Nil
  then show ?case by (simp add: CRLF_def)
next
  case (Cons x pre)
  then show ?case by auto
qed

lemma search_crlf_absent:
  "search_crlf xs = length xs \<longleftrightarrow> (\<nexists>pre post. xs = pre @ CRLF @ post)"
proof
  assume all: "search_crlf xs = length xs"
  show "\<nexists>pre post. xs = pre @ CRLF @ post"
  proof clarify
    fix pre post
    assume "xs = pre @ CRLF @ post"
    then show False
      using all search_crlf_min [of pre post] by simp
  qed
next
  assume "\<nexists>pre post. xs = pre @ CRLF @ post"
  then show "search_crlf xs = length xs"
    using search_crlf_split search_crlf_le le_neq_implies_less by metis
qed

lemma search_crlf_none:
  assumes "CR \<notin> set xs"
  shows "search_crlf xs = length xs"
  using assms by (induction xs) auto

text \<open>Writing \<open>ys\<close> over \<open>xs\<close> from offset \<open>i\<close> (\<^verbatim>\<open>std::copy\<close>, \<^verbatim>\<open>memcpy\<close>).\<close>

definition overwrite :: "'a list \<Rightarrow> nat \<Rightarrow> 'a list \<Rightarrow> 'a list" where
  "overwrite xs i ys = take i xs @ ys @ drop (i + length ys) xs"

lemma length_overwrite [simp]:
  "i + length ys \<le> length xs \<Longrightarrow> length (overwrite xs i ys) = length xs"
  by (simp add: overwrite_def)

lemma take_overwrite [simp]:
  "n \<le> i \<Longrightarrow> i \<le> length xs \<Longrightarrow> take n (overwrite xs i ys) = take n xs"
  by (simp add: overwrite_def min_def)

lemma drop_overwrite [simp]:
  assumes "i + length ys \<le> length xs"
  shows "drop (i + length ys) (overwrite xs i ys) = drop (i + length ys) xs"
  using assms by (simp add: overwrite_def)

lemma overwrite_Nil [simp]: "overwrite xs i [] = xs"
  by (simp add: overwrite_def)

text \<open>The bytes between two offsets.\<close>

definition slice :: "nat \<Rightarrow> nat \<Rightarrow> 'a list \<Rightarrow> 'a list" where
  "slice i j xs = take (j - i) (drop i xs)"

lemma length_slice [simp]: "j \<le> length xs \<Longrightarrow> length (slice i j xs) = j - i"
  by (simp add: slice_def)

lemma slice_same [simp]: "slice i i xs = []"
  by (simp add: slice_def)

lemma slice_append:
  assumes "i \<le> j" and "j \<le> k"
  shows "slice i j xs @ slice j k xs = slice i k xs"
proof -
  from assms have "k - i = (j - i) + (k - j)" and "drop j xs = drop (j - i) (drop i xs)"
    by simp_all
  then show ?thesis
    by (simp only: slice_def take_add)
qed

lemma slice_overwrite_same [simp]:
  "i + length ys \<le> length xs \<Longrightarrow> slice i (i + length ys) (overwrite xs i ys) = ys"
  by (simp add: slice_def overwrite_def)

lemma slice_overwrite_below:
  "j \<le> k \<Longrightarrow> k \<le> length xs \<Longrightarrow> slice i j (overwrite xs k ys) = slice i j xs"
  by (simp add: slice_def overwrite_def drop_take [symmetric] take_drop min_def)

lemma slice_overwrite_above:
  "k + length ys \<le> i \<Longrightarrow> k + length ys \<le> length xs \<Longrightarrow>
   slice i j (overwrite xs k ys) = slice i j xs"
  by (simp add: slice_def overwrite_def)

lemma drop_slice: "drop n (slice i j xs) = slice (i + n) j xs"
  by (simp add: slice_def drop_take add.commute)

lemma take_slice: "n \<le> j - i \<Longrightarrow> take n (slice i j xs) = slice i (i + n) xs"
  by (simp add: slice_def min_def)

section \<open>Decimal output\<close>

definition digit_char :: "nat \<Rightarrow> char" where
  "digit_char d = char_of (48 + d)"

fun dec_nat :: "nat \<Rightarrow> string" where
  "dec_nat n = (if n < 10 then [digit_char n] else dec_nat (n div 10) @ [digit_char (n mod 10)])"

declare dec_nat.simps [simp del]

definition dec_int :: "int \<Rightarrow> string" where
  "dec_int i = (if i < 0 then ''-'' @ dec_nat (nat (- i)) else dec_nat (nat i))"

text \<open>\<^verbatim>\<open>%0<w>d\<close>: the sign counts for the width.\<close>

definition pad_left :: "char \<Rightarrow> nat \<Rightarrow> string \<Rightarrow> string" where
  "pad_left c w s = replicate (w - length s) c @ s"

definition dec_int0 :: "nat \<Rightarrow> int \<Rightarrow> string" where
  "dec_int0 w i =
     (if i < 0 then ''-'' @ pad_left (CHR ''0'') (w - 1) (dec_nat (nat (- i)))
      else pad_left (CHR ''0'') w (dec_nat (nat i)))"

lemma of_char_digit_char [simp]: "d < 10 \<Longrightarrow> of_char (digit_char d) = (48 + d :: nat)"
  by (simp add: digit_char_def)

lemma digit_char_inj: "d < 10 \<Longrightarrow> e < 10 \<Longrightarrow> digit_char d = digit_char e \<Longrightarrow> d = e"
  by (metis add_left_cancel of_char_digit_char)

lemma digit_char_numerals [simp]:
  "digit_char 0 = CHR ''0''" "digit_char (Suc 0) = CHR ''1''" "digit_char 1 = CHR ''1''" "digit_char 2 = CHR ''2''"
  "digit_char 3 = CHR ''3''" "digit_char 4 = CHR ''4''" "digit_char 5 = CHR ''5''"
  "digit_char 6 = CHR ''6''" "digit_char 7 = CHR ''7''" "digit_char 8 = CHR ''8''" "digit_char 9 = CHR ''9''"
  by code_simp+

lemma dec_nat_nonempty [simp]: "dec_nat n \<noteq> []"
  by (subst dec_nat.simps) simp

text \<open>Reading decimal digits back (the digits loop of \<^verbatim>\<open>strtoull\<close>, \<^verbatim>\<open>atoi\<close>).\<close>

definition is_digit :: "char \<Rightarrow> bool" where
  "is_digit c \<longleftrightarrow> 48 \<le> (of_char c :: nat) \<and> (of_char c :: nat) \<le> 57"

definition digit_val :: "char \<Rightarrow> nat" where
  "digit_val c = of_char c - 48"

definition nat_of_digits :: "string \<Rightarrow> nat" where
  "nat_of_digits s = foldl (\<lambda>n c. 10 * n + digit_val c) 0 s"

definition isspace :: "char \<Rightarrow> bool" where
  "isspace c \<longleftrightarrow> (of_char c :: nat) \<in> {9, 10, 11, 12, 13, 32}"

lemma is_digit_digit_char [simp]: "d < 10 \<Longrightarrow> is_digit (digit_char d)"
  by (simp add: is_digit_def)

lemma digit_val_digit_char [simp]: "d < 10 \<Longrightarrow> digit_val (digit_char d) = d"
  by (simp add: digit_val_def)

lemma dec_nat_digits: "\<forall>c \<in> set (dec_nat n). is_digit c"
proof (induction n rule: dec_nat.induct)
  case (1 n)
  then show ?case
    by (cases "n < 10") (auto simp: dec_nat.simps [of n])
qed

lemma nat_of_digits_dec_nat [simp]: "nat_of_digits (dec_nat n) = n"
proof (induction n rule: dec_nat.induct)
  case (1 n)
  then show ?case
    by (cases "n < 10") (auto simp: dec_nat.simps [of n] nat_of_digits_def)
qed

lemma dec_nat_inj: "dec_nat m = dec_nat n \<Longrightarrow> m = n"
  by (metis nat_of_digits_dec_nat)

lemma length_dec_nat_le: "0 < k \<Longrightarrow> n < 10 ^ k \<Longrightarrow> length (dec_nat n) \<le> k"
proof (induction n arbitrary: k rule: dec_nat.induct)
  case (1 n)
  show ?case
  proof (cases "n < 10")
    case False
    then obtain k' where k': "k = Suc k'" "0 < k'"
      using 1 by (cases k; cases "k - 1") auto
    then show ?thesis
      using 1 False by (simp add: dec_nat.simps [of n] less_mult_imp_div_less mult.commute)
  qed (use 1 in \<open>simp add: dec_nat.simps [of n]\<close>)
qed

section \<open>Ordered maps\<close>

fun smap_insert :: "'k::linorder \<Rightarrow> 'v \<Rightarrow> ('k \<times> 'v) list \<Rightarrow> ('k \<times> 'v) list" where
  "smap_insert k v [] = [(k, v)]"
| "smap_insert k v ((k', v') # m) =
     (if k < k' then (k, v) # (k', v') # m
      else if k = k' then (k, v) # m
      else (k', v') # smap_insert k v m)"

definition smap_erase :: "'k \<Rightarrow> ('k \<times> 'v) list \<Rightarrow> ('k \<times> 'v) list" where
  "smap_erase k m = filter (\<lambda>e. fst e \<noteq> k) m"

abbreviation smap_ok :: "('k::linorder \<times> 'v) list \<Rightarrow> bool" where
  "smap_ok m \<equiv> sorted_wrt (<) (map fst m)"

lemma map_of_smap_insert [simp]: "map_of (smap_insert k v m) = (map_of m)(k \<mapsto> v)"
  by (induction k v m rule: smap_insert.induct) (auto simp: fun_eq_iff)

lemma keys_smap_insert [simp]:
  "fst ` set (smap_insert k v m) = insert k (fst ` set m)"
  by (induction k v m rule: smap_insert.induct) auto

lemma set_smap_insert: "set (smap_insert k v m) \<subseteq> insert (k, v) (set m)"
  by (induction k v m rule: smap_insert.induct) auto

lemma set_smap_erase: "set (smap_erase k m) \<subseteq> set m"
  by (auto simp: smap_erase_def)

lemma smap_ok_insert [cnet_inv]: "smap_ok m \<Longrightarrow> smap_ok (smap_insert k v m)"
proof (induction k v m rule: smap_insert.induct)
  case (2 k v k' v' m)
  have keys: "set (map fst (smap_insert k v m)) = insert k (set (map fst m))"
    by (metis keys_smap_insert set_map)
  from 2 show ?case
    by (auto simp: keys [unfolded set_map])
qed simp

lemma smap_ok_distinct: "smap_ok m \<Longrightarrow> distinct (map fst m)"
  by (simp add: strict_sorted_iff)

lemma smap_ok_erase [cnet_inv]: "smap_ok m \<Longrightarrow> smap_ok (smap_erase k m)"
  by (induction m) (auto simp: smap_erase_def)

lemma map_of_smap_erase [simp]: "map_of (smap_erase k m) = (map_of m)(k := None)"
  by (induction m) (auto simp: smap_erase_def fun_eq_iff)

end
