(* ===== verification/Endian.thy ===== *)
theory Endian
  imports Cnet_Prelude
begin

text \<open>
  Integers in memory (\<^verbatim>\<open>cnet/net/Endian.h\<close> and the \<^verbatim>\<open>memcpy\<close> of integers in
  \<^verbatim>\<open>cnet/net/Buffer.h\<close>). The host is little-endian (x86, the only target of the build):
  \<open>le_bytes n w\<close> is the object representation of an \<open>n\<close>-byte integer, \<open>word_of_le\<close> reads one
  back, and \<^verbatim>\<open>htobe\<close>/\<^verbatim>\<open>betoh\<close> swap the bytes. The lemmas show that a value written in network
  order is the big-endian byte string of the integer and is read back unchanged.
\<close>

section \<open>Object representation\<close>

definition le_bytes :: "nat \<Rightarrow> 'a::len word \<Rightarrow> char list" where
  "le_bytes n w = map (\<lambda>i. char_of (unat w div 256 ^ i)) [0..<n]"

definition word_of_le :: "char list \<Rightarrow> 'a::len word" where
  "word_of_le bs = of_nat (horner_sum of_char 256 bs)"

definition byte_swap :: "nat \<Rightarrow> 'a::len word \<Rightarrow> 'a word" where
  "byte_swap n w = word_of_le (rev (le_bytes n w))"

section \<open>Conversions of Endian.h\<close>

definition hostToNetwork64 :: "64 word \<Rightarrow> 64 word" where
  "hostToNetwork64 host64 = byte_swap 8 host64"

definition hostToNetwork32 :: "32 word \<Rightarrow> 32 word" where
  "hostToNetwork32 host32 = byte_swap 4 host32"

definition hostToNetwork16 :: "16 word \<Rightarrow> 16 word" where
  "hostToNetwork16 host16 = byte_swap 2 host16"

definition networkToHost64 :: "64 word \<Rightarrow> 64 word" where
  "networkToHost64 net64 = byte_swap 8 net64"

definition networkToHost32 :: "32 word \<Rightarrow> 32 word" where
  "networkToHost32 net32 = byte_swap 4 net32"

definition networkToHost16 :: "16 word \<Rightarrow> 16 word" where
  "networkToHost16 net16 = byte_swap 2 net16"

section \<open>Reading back what was written\<close>

lemma length_le_bytes [simp]: "length (le_bytes n w) = n"
  by (simp add: le_bytes_def)

lemma horner_char_div:
  "horner_sum of_char 256 (map (\<lambda>i. char_of (m div 256 ^ i)) [0..<n]) = (m :: nat) mod 256 ^ n"
proof (induction n)
  case (Suc n)
  have "m mod (256 ^ n * 256) = 256 ^ n * (m div 256 ^ n mod 256) + m mod 256 ^ n"
    by (rule mod_mult2_eq)
  with Suc show ?case
    by (simp add: horner_sum_append mult.commute)
qed simp

lemma horner_char_bound: "horner_sum of_char 256 bs < (256 :: nat) ^ length bs"
proof (induction bs)
  case (Cons b bs)
  have "of_char b < (256 :: nat)"
    by (metis mod_less_divisor of_char_mod_256 zero_less_numeral)
  moreover have "horner_sum of_char 256 bs + 1 \<le> (256 :: nat) ^ length bs"
    using Cons by simp
  ultimately have "of_char b + 256 * horner_sum of_char 256 bs < 256 * (256 :: nat) ^ length bs"
    by linarith
  then show ?case
    by simp
qed simp

lemma char_of_horner:
  "i < length bs \<Longrightarrow> char_of (horner_sum of_char 256 bs div 256 ^ i :: nat) = bs ! i"
proof (induction bs arbitrary: i)
  case (Cons b bs)
  have b: "of_char b < (256 :: nat)"
    by (metis mod_less_divisor of_char_mod_256 zero_less_numeral)
  show ?case
  proof (cases i)
    case 0
    have "(of_char b + 256 * horner_sum of_char 256 bs) mod 256 = (of_char b :: nat)"
      using b by simp
    then have "char_of (of_char b + 256 * horner_sum of_char 256 bs :: nat) = char_of (of_char b :: nat)"
      by (simp only: char_of_quasi_inj of_char_mod_256)
    with 0 show ?thesis by simp
  next
    case (Suc j)
    have "(of_char b + 256 * horner_sum of_char 256 bs) div 256 = (horner_sum of_char 256 bs :: nat)"
      using b by simp
    with Suc Cons show ?thesis
      by (simp add: div_mult2_eq)
  qed
qed simp

lemma pow_256: "(256 :: nat) ^ n = 2 ^ (8 * n)"
  by (simp add: power_mult)

lemma word_of_le_bytes:
  fixes w :: "'a::len word"
  assumes "8 * n = LENGTH('a)"
  shows "word_of_le (le_bytes n w) = w"
proof -
  have "unat w mod 256 ^ n = unat w"
    using assms by (simp add: pow_256 unsigned_less)
  then show ?thesis
    by (simp add: word_of_le_def le_bytes_def horner_char_div)
qed

lemma le_bytes_word_of_le:
  fixes w :: "'a::len word"
  assumes "8 * n = LENGTH('a)" and "length bs = n"
  shows "le_bytes n (word_of_le bs :: 'a word) = bs"
proof -
  have "horner_sum of_char 256 bs < (2 :: nat) ^ LENGTH('a)"
    using horner_char_bound [of bs] assms by (simp add: pow_256)
  then have "unat (word_of_le bs :: 'a word) = horner_sum of_char 256 bs"
    by (simp add: word_of_le_def unat_of_nat)
  with assms(2) show ?thesis
    by (auto simp: le_bytes_def char_of_horner intro: nth_equalityI)
qed

lemma le_bytes_byte_swap:
  fixes w :: "'a::len word"
  assumes "8 * n = LENGTH('a)"
  shows "le_bytes n (byte_swap n w) = rev (le_bytes n w)"
  using assms by (simp add: byte_swap_def le_bytes_word_of_le)

lemma byte_swap_byte_swap:
  fixes w :: "'a::len word"
  assumes "8 * n = LENGTH('a)"
  shows "byte_swap n (byte_swap n w) = w"
  using assms
  by (simp add: byte_swap_def [of n "byte_swap n w"] le_bytes_byte_swap word_of_le_bytes)

lemmas network_defs =
  hostToNetwork64_def hostToNetwork32_def hostToNetwork16_def
  networkToHost64_def networkToHost32_def networkToHost16_def

lemma network_host_inverse [simp]:
  "networkToHost64 (hostToNetwork64 x) = x"
  "networkToHost32 (hostToNetwork32 y) = y"
  "networkToHost16 (hostToNetwork16 z) = z"
  by (simp_all add: network_defs byte_swap_byte_swap)

lemma word_of_le_bytes_sized [simp]:
  "word_of_le (le_bytes 8 (a :: 64 word)) = a"
  "word_of_le (le_bytes 4 (b :: 32 word)) = b"
  "word_of_le (le_bytes 2 (c :: 16 word)) = c"
  "word_of_le (le_bytes 1 (d :: 8 word)) = d"
  by (simp_all add: word_of_le_bytes)

end
