(* ===== verification/Buffer.thy ===== *)
theory Buffer
  imports Endian
begin

text \<open>
  \<^verbatim>\<open>cnet::net::Buffer\<close> (\<^verbatim>\<open>cnet/net/Buffer.h\<close>, \<^verbatim>\<open>Buffer.cc\<close>): a byte vector with a reader and
  a writer index. The record has the class's three members; a \<^verbatim>\<open>const char*\<close> into the vector is
  its offset, and \<^verbatim>\<open>NULL\<close> is \<open>None\<close>. \<^verbatim>\<open>size_t\<close> values are \<open>nat\<close>: every index is bounded by the
  size of the vector, which is below \<open>2 ^ 63\<close>, and each subtraction of the source is guarded by an
  assertion that the model keeps. Where a caller passes a size of its own (\<^verbatim>\<open>enuserWritableBytes\<close>,
  \<^verbatim>\<open>shrink\<close>) the sums wrap at 64 bits as in the source, and \<^verbatim>\<open>resize\<close> beyond the limit of a vector
  throws. \<open>Buffer_append\<close>, which the other components use, is \<^verbatim>\<open>append\<close> for bytes that exist in memory:
  sums of the sizes of existing objects stay below \<open>2 ^ 63\<close>, and there it agrees with the wrapping
  \<open>append_bytes\<close> (lemma \<open>append_bytes_agrees\<close>). Running out of memory is not modelled.

  \<open>readable b\<close> is the abstract content, the bytes between the two indices. The lemmas give every
  operation's effect on it; the locale \<open>byte_stream\<close> is the contract the connection, the HTTP
  parser and the memcached session rely on, interpreted for this class at the end.
\<close>

section \<open>State\<close>

record Buffer =
  buffer_vec :: "char list"
  readerIndex :: nat
  writerIndex :: nat

definition kCheapPrepend :: nat where "kCheapPrepend = 8"
definition kInitialSize :: nat where "kInitialSize = 1024"

definition Buffer_new :: "nat \<Rightarrow> Buffer" where
  "Buffer_new initialSize =
     \<lparr>buffer_vec = replicate (kCheapPrepend + initialSize) (CHR 0x00),
      readerIndex = kCheapPrepend, writerIndex = kCheapPrepend\<rparr>"

definition Buffer_swap :: "Buffer \<Rightarrow> Buffer \<Rightarrow> Buffer \<times> Buffer" where
  "Buffer_swap b rhs = (rhs, b)"

definition readableBytes :: "Buffer \<Rightarrow> nat" where
  "readableBytes b = writerIndex b - readerIndex b"

definition writableBytes :: "Buffer \<Rightarrow> nat" where
  "writableBytes b = length (buffer_vec b) - writerIndex b"

definition prependableBytes :: "Buffer \<Rightarrow> nat" where
  "prependableBytes b = readerIndex b"

definition Buffer_peek :: "Buffer \<Rightarrow> nat" where
  "Buffer_peek b = readerIndex b"

definition beginWrite :: "Buffer \<Rightarrow> nat" where
  "beginWrite b = writerIndex b"

text \<open>The bytes in \<open>[peek(), beginWrite())\<close>.\<close>

definition readable :: "Buffer \<Rightarrow> string" where
  "readable b = slice (readerIndex b) (writerIndex b) (buffer_vec b)"

definition Buffer_inv :: "Buffer \<Rightarrow> bool" where
  "Buffer_inv b \<longleftrightarrow> readerIndex b \<le> writerIndex b \<and> writerIndex b \<le> length (buffer_vec b)
     \<and> kCheapPrepend \<le> length (buffer_vec b)"

section \<open>Searching\<close>

definition findCRLF_from :: "Buffer \<Rightarrow> nat \<Rightarrow> nat option" where
  "findCRLF_from b start =
     (let crlf = start + search_crlf (slice start (beginWrite b) (buffer_vec b))
      in if crlf = beginWrite b then None else Some crlf)"

definition findCRLF :: "Buffer \<Rightarrow> nat option" where
  "findCRLF b = findCRLF_from b (Buffer_peek b)"

definition memchr_from :: "char \<Rightarrow> nat \<Rightarrow> nat \<Rightarrow> char list \<Rightarrow> nat option" where
  "memchr_from c start n v =
     (let i = std_find c (slice start (start + n) v) in if i < n then Some (start + i) else None)"

definition findEOL :: "Buffer \<Rightarrow> nat option" where
  "findEOL b = memchr_from LF (Buffer_peek b) (readableBytes b) (buffer_vec b)"

definition findEOL_from :: "Buffer \<Rightarrow> nat \<Rightarrow> nat option option" where
  "findEOL_from b start = do {
     assertm (Buffer_peek b \<le> start);
     assertm (start \<le> beginWrite b);
     Some (memchr_from LF start (beginWrite b - start) (buffer_vec b)) }"

section \<open>Consuming\<close>

definition retrieveAll :: "Buffer \<Rightarrow> Buffer" where
  "retrieveAll b = b\<lparr>readerIndex := kCheapPrepend, writerIndex := kCheapPrepend\<rparr>"

definition retrieve :: "Buffer \<Rightarrow> nat \<Rightarrow> Buffer option" where
  "retrieve b len = do {
     assertm (len \<le> readableBytes b);
     if len < readableBytes b then Some (b\<lparr>readerIndex := readerIndex b + len\<rparr>)
     else Some (retrieveAll b) }"

definition retrieveUntil :: "Buffer \<Rightarrow> nat \<Rightarrow> Buffer option" where
  "retrieveUntil b end_ptr = do {
     assertm (Buffer_peek b \<le> end_ptr);
     assertm (end_ptr \<le> beginWrite b);
     retrieve b (end_ptr - Buffer_peek b) }"

definition retrieveInt64 :: "Buffer \<Rightarrow> Buffer option" where "retrieveInt64 b = retrieve b 8"
definition retrieveInt32 :: "Buffer \<Rightarrow> Buffer option" where "retrieveInt32 b = retrieve b 4"
definition retrieveInt16 :: "Buffer \<Rightarrow> Buffer option" where "retrieveInt16 b = retrieve b 2"
definition retrieveInt8 :: "Buffer \<Rightarrow> Buffer option" where "retrieveInt8 b = retrieve b 1"

definition retrieveAsString :: "Buffer \<Rightarrow> nat \<Rightarrow> (string \<times> Buffer) option" where
  "retrieveAsString b len = do {
     assertm (len \<le> readableBytes b);
     let result = slice (Buffer_peek b) (Buffer_peek b + len) (buffer_vec b);
     b' \<leftarrow> retrieve b len;
     Some (result, b') }"

definition retrieveAllAsString :: "Buffer \<Rightarrow> (string \<times> Buffer) option" where
  "retrieveAllAsString b = retrieveAsString b (readableBytes b)"

definition toStringPiece :: "Buffer \<Rightarrow> string" where
  "toStringPiece b = slice (Buffer_peek b) (Buffer_peek b + readableBytes b) (buffer_vec b)"

section \<open>Producing\<close>

definition vec_resize :: "char list \<Rightarrow> nat \<Rightarrow> char list" where
  "vec_resize v n = take n v @ replicate (n - length v) (CHR 0x00)"

text \<open>\<^verbatim>\<open>size_t\<close> arithmetic, and \<^verbatim>\<open>max_size()\<close> of a \<^verbatim>\<open>std::vector<char>\<close>.\<close>

definition size_t :: "nat \<Rightarrow> nat" where "size_t x = x mod 2 ^ 64"
definition vec_max :: nat where "vec_max = 2 ^ 63 - 1"

definition makeSpace :: "Buffer \<Rightarrow> nat \<Rightarrow> Buffer option" where
  "makeSpace b len =
     (if size_t (writableBytes b + prependableBytes b) < size_t (len + kCheapPrepend)
      then (let n = size_t (writerIndex b + len)
            in do { assertm (n \<le> vec_max); Some (b\<lparr>buffer_vec := vec_resize (buffer_vec b) n\<rparr>) })
      else do {
        assertm (kCheapPrepend < readerIndex b);
        let readable_n = readableBytes b;
        let b = b\<lparr>buffer_vec := overwrite (buffer_vec b) kCheapPrepend
                    (slice (readerIndex b) (writerIndex b) (buffer_vec b))\<rparr>;
        let b = b\<lparr>readerIndex := kCheapPrepend\<rparr>;
        let b = b\<lparr>writerIndex := readerIndex b + readable_n\<rparr>;
        assertm (readable_n = readableBytes b);
        Some b })"

definition enuserWritableBytes :: "Buffer \<Rightarrow> nat \<Rightarrow> Buffer option" where
  "enuserWritableBytes b len = do {
     b \<leftarrow> (if writableBytes b < len then makeSpace b len else Some b);
     assertm (len \<le> size_t (length (buffer_vec b) + 2 ^ 64 - writerIndex b));
     Some b }"

text \<open>The same for bytes in memory, where no sum reaches \<open>2 ^ 63\<close>.\<close>

definition make_room :: "Buffer \<Rightarrow> nat \<Rightarrow> Buffer option" where
  "make_room b len =
     (if writableBytes b + prependableBytes b < len + kCheapPrepend
      then Some (b\<lparr>buffer_vec := vec_resize (buffer_vec b) (writerIndex b + len)\<rparr>)
      else do {
        assertm (kCheapPrepend < readerIndex b);
        let readable_n = readableBytes b;
        let b = b\<lparr>buffer_vec := overwrite (buffer_vec b) kCheapPrepend
                    (slice (readerIndex b) (writerIndex b) (buffer_vec b))\<rparr>;
        let b = b\<lparr>readerIndex := kCheapPrepend\<rparr>;
        let b = b\<lparr>writerIndex := readerIndex b + readable_n\<rparr>;
        assertm (readable_n = readableBytes b);
        Some b })"

definition ensure_room :: "Buffer \<Rightarrow> nat \<Rightarrow> Buffer option" where
  "ensure_room b len = do {
     b \<leftarrow> (if writableBytes b < len then make_room b len else Some b);
     assertm (len \<le> writableBytes b);
     Some b }"

definition hasWritten :: "Buffer \<Rightarrow> nat \<Rightarrow> Buffer option" where
  "hasWritten b len = do {
     assertm (len \<le> writableBytes b);
     Some (b\<lparr>writerIndex := writerIndex b + len\<rparr>) }"

definition unwrite :: "Buffer \<Rightarrow> nat \<Rightarrow> Buffer option" where
  "unwrite b len = do {
     assertm (len \<le> readableBytes b);
     Some (b\<lparr>writerIndex := writerIndex b - len\<rparr>) }"

definition append_bytes :: "Buffer \<Rightarrow> string \<Rightarrow> Buffer option" where
  "append_bytes b data = do {
     b \<leftarrow> enuserWritableBytes b (length data);
     let b = b\<lparr>buffer_vec := overwrite (buffer_vec b) (beginWrite b) data\<rparr>;
     hasWritten b (length data) }"

definition Buffer_append :: "Buffer \<Rightarrow> string \<Rightarrow> Buffer option" where
  "Buffer_append b data = do {
     b \<leftarrow> ensure_room b (length data);
     let b = b\<lparr>buffer_vec := overwrite (buffer_vec b) (beginWrite b) data\<rparr>;
     hasWritten b (length data) }"

definition Buffer_prepend :: "Buffer \<Rightarrow> string \<Rightarrow> Buffer option" where
  "Buffer_prepend b data = do {
     assertm (length data \<le> prependableBytes b);
     let b = b\<lparr>readerIndex := readerIndex b - length data\<rparr>;
     Some (b\<lparr>buffer_vec := overwrite (buffer_vec b) (readerIndex b) data\<rparr>) }"

text \<open>A \<^verbatim>\<open>StringPiece\<close> has an \<^verbatim>\<open>int\<close> length: a content of \<open>2 ^ 31\<close> bytes or more makes no piece.\<close>

definition Buffer_shrink :: "Buffer \<Rightarrow> nat \<Rightarrow> Buffer option" where
  "Buffer_shrink b reserve = do {
     let other = Buffer_new kInitialSize;
     other \<leftarrow> enuserWritableBytes other (size_t (readableBytes b + reserve));
     assertm (readableBytes b < 2 ^ 31);
     other \<leftarrow> append_bytes other (toStringPiece b);
     Some (fst (Buffer_swap b other)) }"

section \<open>Integers in network order\<close>

definition appendInt64 :: "Buffer \<Rightarrow> 64 word \<Rightarrow> Buffer option" where
  "appendInt64 b x = (let be64 = hostToNetwork64 x in Buffer_append b (le_bytes 8 be64))"

definition appendInt32 :: "Buffer \<Rightarrow> 32 word \<Rightarrow> Buffer option" where
  "appendInt32 b x = (let be32 = hostToNetwork32 x in Buffer_append b (le_bytes 4 be32))"

definition appendInt16 :: "Buffer \<Rightarrow> 16 word \<Rightarrow> Buffer option" where
  "appendInt16 b x = (let be16 = hostToNetwork16 x in Buffer_append b (le_bytes 2 be16))"

definition appendInt8 :: "Buffer \<Rightarrow> 8 word \<Rightarrow> Buffer option" where
  "appendInt8 b x = Buffer_append b (le_bytes 1 x)"

definition peekInt64 :: "Buffer \<Rightarrow> 64 word option" where
  "peekInt64 b = do {
     assertm (8 \<le> readableBytes b);
     let be64 = word_of_le (slice (Buffer_peek b) (Buffer_peek b + 8) (buffer_vec b));
     Some (networkToHost64 be64) }"

definition peekInt32 :: "Buffer \<Rightarrow> 32 word option" where
  "peekInt32 b = do {
     assertm (4 \<le> readableBytes b);
     let be32 = word_of_le (slice (Buffer_peek b) (Buffer_peek b + 4) (buffer_vec b));
     Some (networkToHost32 be32) }"

definition peekInt16 :: "Buffer \<Rightarrow> 16 word option" where
  "peekInt16 b = do {
     assertm (2 \<le> readableBytes b);
     let be16 = word_of_le (slice (Buffer_peek b) (Buffer_peek b + 2) (buffer_vec b));
     Some (networkToHost16 be16) }"

definition peekInt8 :: "Buffer \<Rightarrow> 8 word option" where
  "peekInt8 b = do {
     assertm (1 \<le> readableBytes b);
     Some (word_of_le (slice (Buffer_peek b) (Buffer_peek b + 1) (buffer_vec b))) }"

definition readInt64 :: "Buffer \<Rightarrow> (64 word \<times> Buffer) option" where
  "readInt64 b = do { result \<leftarrow> peekInt64 b; b \<leftarrow> retrieveInt64 b; Some (result, b) }"

definition readInt32 :: "Buffer \<Rightarrow> (32 word \<times> Buffer) option" where
  "readInt32 b = do { result \<leftarrow> peekInt32 b; b \<leftarrow> retrieveInt32 b; Some (result, b) }"

definition readInt16 :: "Buffer \<Rightarrow> (16 word \<times> Buffer) option" where
  "readInt16 b = do { result \<leftarrow> peekInt16 b; b \<leftarrow> retrieveInt16 b; Some (result, b) }"

definition readInt8 :: "Buffer \<Rightarrow> (8 word \<times> Buffer) option" where
  "readInt8 b = do { result \<leftarrow> peekInt8 b; b \<leftarrow> retrieveInt8 b; Some (result, b) }"

definition prependInt64 :: "Buffer \<Rightarrow> 64 word \<Rightarrow> Buffer option" where
  "prependInt64 b x = (let be64 = hostToNetwork64 x in Buffer_prepend b (le_bytes 8 be64))"

definition prependInt32 :: "Buffer \<Rightarrow> 32 word \<Rightarrow> Buffer option" where
  "prependInt32 b x = (let be32 = hostToNetwork32 x in Buffer_prepend b (le_bytes 4 be32))"

definition prependInt16 :: "Buffer \<Rightarrow> 16 word \<Rightarrow> Buffer option" where
  "prependInt16 b x = (let be16 = hostToNetwork16 x in Buffer_prepend b (le_bytes 2 be16))"

definition prependInt8 :: "Buffer \<Rightarrow> 8 word \<Rightarrow> Buffer option" where
  "prependInt8 b x = Buffer_prepend b (le_bytes 1 x)"

section \<open>Reading a descriptor\<close>

text \<open>
  \<^verbatim>\<open>readv\<close> is a system call: a function of the lengths of the \<^verbatim>\<open>iovec\<close> array that returns an
  error number or the bytes it stored, which fill the first range before the second.
\<close>

datatype read_result = ReadErr int | ReadOk string

definition extrabuf_size :: nat where "extrabuf_size = 65536"

definition readFd_iov :: "Buffer \<Rightarrow> nat list" where
  "readFd_iov b =
     (if writableBytes b < extrabuf_size then [writableBytes b, extrabuf_size]
      else [writableBytes b])"

text \<open>The results are \<^verbatim>\<open>n\<close>, \<^verbatim>\<open>*savedErrno\<close> when it was assigned, and the buffer.\<close>

definition readFd :: "(nat list \<Rightarrow> read_result) \<Rightarrow> Buffer \<Rightarrow> (int \<times> int option \<times> Buffer) option" where
  "readFd readv b =
     (let writable = writableBytes b in
      case readv (readFd_iov b) of
        ReadErr errno \<Rightarrow> Some (-1, Some errno, b)
      | ReadOk bs \<Rightarrow>
          let n = length bs;
              b = b\<lparr>buffer_vec := overwrite (buffer_vec b) (writerIndex b) (take writable bs)\<rparr>;
              extrabuf = drop writable bs
          in if n \<le> writable then Some (int n, None, b\<lparr>writerIndex := writerIndex b + n\<rparr>)
             else do {
               b \<leftarrow> Buffer_append (b\<lparr>writerIndex := length (buffer_vec b)\<rparr>) (take (n - writable) extrabuf);
               Some (int n, None, b) })"

section \<open>The contract of a byte stream\<close>

text \<open>
  What the users of a buffer rely on: appending adds the bytes behind the content, retrieving
  drops them from its front, neither fails within the content, and both keep the invariant.
\<close>

locale byte_stream =
  fixes invar :: "'b \<Rightarrow> bool"
    and content :: "'b \<Rightarrow> string"
    and app :: "'b \<Rightarrow> string \<Rightarrow> 'b option"
    and ret :: "'b \<Rightarrow> nat \<Rightarrow> 'b option"
  assumes app_ok: "invar b \<Longrightarrow> \<exists>b'. app b s = Some b' \<and> invar b' \<and> content b' = content b @ s"
    and ret_ok: "invar b \<Longrightarrow> n \<le> length (content b) \<Longrightarrow>
      \<exists>b'. ret b n = Some b' \<and> invar b' \<and> content b' = drop n (content b)"
    and ret_bad: "invar b \<Longrightarrow> length (content b) < n \<Longrightarrow> ret b n = None"
begin

lemma app_Some:
  assumes "invar b" and "app b s = Some b'"
  shows "invar b'" and "content b' = content b @ s"
  using app_ok [OF assms(1), of s] assms(2) by auto

lemma app_obtain:
  assumes "invar b"
  obtains b' where "app b s = Some b'" and "invar b'" and "content b' = content b @ s"
  using app_ok [OF assms] by blast

lemma ret_obtain:
  assumes "invar b" and "n \<le> length (content b)"
  obtains b' where "ret b n = Some b'" and "invar b'" and "content b' = drop n (content b)"
  using ret_ok [OF assms] by blast

lemma ret_Some:
  assumes "invar b" and "ret b n = Some b'"
  shows "n \<le> length (content b)" and "invar b'" and "content b' = drop n (content b)"
proof -
  show n: "n \<le> length (content b)"
    using ret_bad [OF assms(1)] assms(2) by (metis not_le option.distinct(1))
  show "invar b'" and "content b' = drop n (content b)"
    using ret_ok [OF assms(1) n] assms(2) by auto
qed

text \<open>What a client pushes through a stream comes out in the same order.\<close>

lemma app_then_ret:
  assumes "invar b"
  shows "\<exists>b1 b2. app b s = Some b1 \<and> ret b1 (length (content b)) = Some b2 \<and> content b2 = s"
proof -
  obtain b1 where b1: "app b s = Some b1" "invar b1" "content b1 = content b @ s"
    using app_obtain [OF assms] .
  then obtain b2 where "ret b1 (length (content b)) = Some b2" "content b2 = s"
    using ret_ok [of b1 "length (content b)"] by auto
  with b1 show ?thesis by blast
qed

end

section \<open>Lemmas on the operations\<close>

lemmas Buffer_size_defs =
  readableBytes_def writableBytes_def prependableBytes_def Buffer_peek_def beginWrite_def

lemma length_readable [simp]: "Buffer_inv b \<Longrightarrow> length (readable b) = readableBytes b"
  by (simp add: Buffer_inv_def readable_def readableBytes_def)

lemma Buffer_new_inv [simp]: "Buffer_inv (Buffer_new n)"
  by (simp add: Buffer_inv_def Buffer_new_def)

lemma readable_Buffer_new [simp]: "readable (Buffer_new n) = []"
  by (simp add: readable_def Buffer_new_def)

lemma Buffer_new_asserts:
  "readableBytes (Buffer_new n) = 0" "writableBytes (Buffer_new n) = n"
  "prependableBytes (Buffer_new n) = kCheapPrepend"
  by (simp_all add: Buffer_new_def Buffer_size_defs)

lemma retrieveAll_inv [simp]: "Buffer_inv b \<Longrightarrow> Buffer_inv (retrieveAll b)"
  by (simp add: Buffer_inv_def retrieveAll_def)

lemma readable_retrieveAll [simp]: "readable (retrieveAll b) = []"
  by (simp add: readable_def retrieveAll_def)

lemma retrieve_ok:
  assumes "Buffer_inv b" and "n \<le> length (readable b)"
  shows "\<exists>b'. retrieve b n = Some b' \<and> Buffer_inv b' \<and> readable b' = drop n (readable b)"
proof (cases "n < readableBytes b")
  case True
  let ?b = "b\<lparr>readerIndex := readerIndex b + n\<rparr>"
  have "Buffer_inv ?b"
    using assms True by (auto simp: Buffer_inv_def readableBytes_def)
  moreover have "readable ?b = drop n (readable b)"
    by (simp add: readable_def drop_slice)
  moreover have "retrieve b n = Some ?b"
    using True by (simp add: retrieve_def)
  ultimately show ?thesis by blast
next
  case False
  with assms have "n = readableBytes b" by simp
  with assms show ?thesis
    by (auto simp: retrieve_def)
qed

lemma retrieve_bad: "Buffer_inv b \<Longrightarrow> length (readable b) < n \<Longrightarrow> retrieve b n = None"
  by (simp add: retrieve_def)

text \<open>Making room: either the vector grows at its end, or the content moves to the front.\<close>

lemma make_room_ok:
  assumes inv: "Buffer_inv b" and short: "writableBytes b < len"
  shows "\<exists>b'. make_room b len = Some b' \<and> Buffer_inv b' \<and> readable b' = readable b
           \<and> len \<le> writableBytes b'"
proof (cases "writableBytes b + prependableBytes b < len + kCheapPrepend")
  case True
  let ?v = "vec_resize (buffer_vec b) (writerIndex b + len)"
  have le: "length (buffer_vec b) \<le> writerIndex b + len"
    using short by (simp add: writableBytes_def)
  then have v: "?v = buffer_vec b @ replicate (writerIndex b + len - length (buffer_vec b)) (CHR 0x00)"
    by (simp add: vec_resize_def)
  have "Buffer_inv (b\<lparr>buffer_vec := ?v\<rparr>)" and "len \<le> writableBytes (b\<lparr>buffer_vec := ?v\<rparr>)"
    using inv le by (auto simp: Buffer_inv_def v writableBytes_def)
  moreover have "readable (b\<lparr>buffer_vec := ?v\<rparr>) = readable b"
    using inv by (auto simp: Buffer_inv_def readable_def slice_def v)
  ultimately show ?thesis
    using True by (simp add: make_room_def)
next
  case False
  let ?r = "readable b"
  let ?b = "\<lparr>buffer_vec = overwrite (buffer_vec b) kCheapPrepend ?r,
             readerIndex = kCheapPrepend, writerIndex = kCheapPrepend + readableBytes b\<rparr>"
  have room: "kCheapPrepend < readerIndex b"
    using False short by (simp add: prependableBytes_def)
  have len_r: "length ?r = readableBytes b"
    using inv by simp
  have fits: "kCheapPrepend + length ?r \<le> length (buffer_vec b)"
    using inv room unfolding len_r by (auto simp: Buffer_inv_def readableBytes_def)
  have "make_room b len = Some ?b"
    using False room
    by (simp add: make_room_def readable_def [symmetric] readableBytes_def Let_def)
  moreover have "Buffer_inv ?b"
    using fits len_r by (simp add: Buffer_inv_def)
  moreover have "readable ?b = ?r"
    using fits len_r slice_overwrite_same [OF fits] by (simp add: readable_def [of ?b])
  moreover have "len \<le> writableBytes ?b"
    using False inv fits len_r
    by (simp add: writableBytes_def prependableBytes_def readableBytes_def Buffer_inv_def)
  ultimately show ?thesis by blast
qed

lemma ensure_room_ok:
  assumes "Buffer_inv b"
  shows "\<exists>b'. ensure_room b len = Some b' \<and> Buffer_inv b' \<and> readable b' = readable b
           \<and> len \<le> writableBytes b'"
proof (cases "writableBytes b < len")
  case True
  with make_room_ok [OF assms True] show ?thesis
    by (auto simp: ensure_room_def)
next
  case False
  with assms show ?thesis
    by (auto simp: ensure_room_def)
qed

lemma write_ok:
  assumes inv: "Buffer_inv b" and room: "length s \<le> writableBytes b"
  defines "b' \<equiv> b\<lparr>buffer_vec := overwrite (buffer_vec b) (writerIndex b) s,
                  writerIndex := writerIndex b + length s\<rparr>"
  shows "Buffer_inv b'" and "readable b' = readable b @ s"
proof -
  have fits: "writerIndex b + length s \<le> length (buffer_vec b)"
    using inv room by (auto simp: Buffer_inv_def writableBytes_def)
  show "Buffer_inv b'"
    using inv fits by (simp add: Buffer_inv_def b'_def)
  have "readable b' = slice (readerIndex b) (writerIndex b) (buffer_vec b') @
      slice (writerIndex b) (writerIndex b + length s) (buffer_vec b')"
    using inv by (simp add: b'_def readable_def slice_append Buffer_inv_def)
  then show "readable b' = readable b @ s"
    using inv fits by (simp add: b'_def readable_def slice_overwrite_below Buffer_inv_def)
qed

lemma Buffer_append_ok:
  assumes "Buffer_inv b"
  shows "\<exists>b'. Buffer_append b s = Some b' \<and> Buffer_inv b' \<and> readable b' = readable b @ s"
proof -
  obtain b1 where b1: "ensure_room b (length s) = Some b1" "Buffer_inv b1"
      "readable b1 = readable b" and room: "length s \<le> writableBytes b1"
    using ensure_room_ok [OF assms] by blast
  let ?b = "b1\<lparr>buffer_vec := overwrite (buffer_vec b1) (writerIndex b1) s\<rparr>"
  have "length (buffer_vec ?b) = length (buffer_vec b1)"
    using b1(2) room by (auto simp: Buffer_inv_def writableBytes_def)
  then have "writableBytes ?b = writableBytes b1"
    by (simp add: writableBytes_def)
  with b1 room show ?thesis
    using write_ok [OF b1(2) room]
    by (simp add: Buffer_append_def hasWritten_def beginWrite_def)
qed

interpretation buf: byte_stream Buffer_inv readable Buffer_append retrieve
  by unfold_locales (rule Buffer_append_ok, assumption, rule retrieve_ok, assumption+, rule retrieve_bad)

lemmas buf_ops [buffer_simps] = buf.app_Some buf.ret_Some

text \<open>The other consuming operations.\<close>

lemma retrieveUntil_eq:
  assumes "Buffer_inv b" and "n \<le> length (readable b)"
  shows "retrieveUntil b (Buffer_peek b + n) = retrieve b n"
  using assms by (auto simp: retrieveUntil_def Buffer_size_defs Buffer_inv_def)

lemma slice_readable:
  assumes "Buffer_inv b" and "n \<le> length (readable b)"
  shows "slice (Buffer_peek b) (Buffer_peek b + n) (buffer_vec b) = take n (readable b)"
proof -
  have "n \<le> writerIndex b - readerIndex b"
    using assms length_readable [OF assms(1)] by (simp add: readableBytes_def)
  then show ?thesis
    by (simp add: readable_def take_slice Buffer_peek_def)
qed

lemma toStringPiece_eq [simp]: "Buffer_inv b \<Longrightarrow> toStringPiece b = readable b"
  by (simp add: toStringPiece_def slice_readable)

lemma retrieveAsString_ok:
  assumes "Buffer_inv b" and "n \<le> length (readable b)"
  shows "\<exists>b'. retrieveAsString b n = Some (take n (readable b), b') \<and> Buffer_inv b'
           \<and> readable b' = drop n (readable b)"
proof -
  obtain b' where "retrieve b n = Some b'" "Buffer_inv b'" "readable b' = drop n (readable b)"
    using buf.ret_obtain [OF assms] .
  with assms show ?thesis
    by (simp add: retrieveAsString_def slice_readable)
qed

lemma unwrite_ok:
  assumes "Buffer_inv b" and "n \<le> length (readable b)"
  shows "\<exists>b'. unwrite b n = Some b' \<and> Buffer_inv b'
           \<and> readable b' = take (length (readable b) - n) (readable b)"
proof -
  let ?b = "b\<lparr>writerIndex := writerIndex b - n\<rparr>"
  have "Buffer_inv ?b"
    using assms by (auto simp: Buffer_inv_def readableBytes_def)
  moreover have "readable ?b = take (length (readable b) - n) (readable b)"
    using length_readable [OF assms(1)]
    by (simp add: readable_def readableBytes_def slice_def min_def add.commute)
  ultimately show ?thesis
    using assms by (simp add: unwrite_def)
qed

lemma Buffer_prepend_ok:
  assumes inv: "Buffer_inv b" and room: "length s \<le> prependableBytes b"
  shows "\<exists>b'. Buffer_prepend b s = Some b' \<and> Buffer_inv b' \<and> readable b' = s @ readable b"
proof -
  let ?r = "readerIndex b - length s"
  let ?b = "b\<lparr>readerIndex := ?r, buffer_vec := overwrite (buffer_vec b) ?r s\<rparr>"
  have r: "?r + length s = readerIndex b" and le: "readerIndex b \<le> writerIndex b"
      "writerIndex b \<le> length (buffer_vec b)"
    using inv room by (simp_all add: Buffer_inv_def prependableBytes_def)
  have "Buffer_inv ?b"
    using inv r le by (simp add: Buffer_inv_def)
  moreover have "readable ?b = slice ?r (readerIndex b) (buffer_vec ?b) @
      slice (readerIndex b) (writerIndex b) (buffer_vec ?b)"
    using le by (simp add: readable_def slice_append)
  then have "readable ?b = s @ readable b"
    using r le slice_overwrite_same [of ?r s "buffer_vec b"]
    by (simp add: readable_def slice_overwrite_above)
  ultimately show ?thesis
    using room by (simp add: Buffer_prepend_def)
qed

text \<open>Below \<open>2 ^ 63\<close> no sum wraps, and the two families agree.\<close>

lemma size_t_small [simp]: "x < 2 ^ 64 \<Longrightarrow> size_t x = x"
  by (simp add: size_t_def)

lemma make_room_cases:
  assumes "Buffer_inv b" and "make_room b len = Some b'" and "writableBytes b < len"
  shows "length (buffer_vec b') \<le> length (buffer_vec b) + len" "writerIndex b' \<le> length (buffer_vec b')"
  using assms make_room_ok[OF assms(1,3)]
  by (auto simp: make_room_def vec_resize_def Buffer_inv_def Buffer_size_defs split: if_splits)

lemma makeSpace_agrees:
  assumes "Buffer_inv b" and "length (buffer_vec b) + len < 2 ^ 63 - 8"
  shows "makeSpace b len = make_room b len"
proof -
  have "writableBytes b + prependableBytes b < 2 ^ 64" "len + kCheapPrepend < 2 ^ 64" "writerIndex b + len < 2 ^ 64"
    "writerIndex b + len \<le> vec_max"
    using assms by (auto simp: Buffer_inv_def Buffer_size_defs kCheapPrepend_def vec_max_def)
  then show ?thesis by (simp add: makeSpace_def make_room_def)
qed

lemma enuserWritableBytes_agrees:
  assumes "Buffer_inv b" and "length (buffer_vec b) + len < 2 ^ 63 - 8"
  shows "enuserWritableBytes b len = ensure_room b len"
proof -
  have wr: "size_t (length (buffer_vec c) + 2 ^ 64 - writerIndex c) = writableBytes c"
    if "writerIndex c \<le> length (buffer_vec c)" "length (buffer_vec c) < 2 ^ 63" for c
  proof -
    have "length (buffer_vec c) + 2 ^ 64 - writerIndex c = writableBytes c + 2 ^ 64" using that by (simp add: writableBytes_def)
    moreover have "writableBytes c < 2 ^ 64" using that by (simp add: writableBytes_def)
    ultimately show ?thesis by (simp only: size_t_def mod_add_self2 mod_less)
  qed
  show ?thesis
  proof (cases "writableBytes b < len")
    case True
    obtain c where c: "make_room b len = Some c" using make_room_ok[OF assms(1) True] by blast
    then show ?thesis
      using True makeSpace_agrees[OF assms] make_room_cases[OF assms(1) c True] wr[of c] assms(2)
      by (simp add: enuserWritableBytes_def ensure_room_def)
  next
    case False
    then show ?thesis using wr[of b] assms by (simp add: enuserWritableBytes_def ensure_room_def Buffer_inv_def)
  qed
qed

lemma append_bytes_agrees:
  assumes "Buffer_inv b" and "length (buffer_vec b) + length s < 2 ^ 63 - 8"
  shows "append_bytes b s = Buffer_append b s"
  using enuserWritableBytes_agrees[OF assms] by (simp add: append_bytes_def Buffer_append_def)

text \<open>How much the vector grows.\<close>

lemma ensure_room_growth:
  assumes "Buffer_inv b" and "ensure_room b len = Some b'"
  shows "length (buffer_vec b') \<le> length (buffer_vec b) + len"
  using assms make_room_cases[OF assms(1)]
  by (auto simp: ensure_room_def elim!: bind_SomeE split: if_splits)

lemma Buffer_append_growth:
  assumes "Buffer_inv b" and "Buffer_append b s = Some b'"
  shows "length (buffer_vec b') \<le> length (buffer_vec b) + length s"
proof -
  obtain c where c: "ensure_room b (length s) = Some c" "Buffer_inv c" "length s \<le> writableBytes c"
    using ensure_room_ok[OF assms(1)] by blast
  moreover have "length (buffer_vec b') = length (overwrite (buffer_vec c) (writerIndex c) s)"
    using assms(2) c(1) by (auto simp: Buffer_append_def hasWritten_def beginWrite_def split: if_splits)
  then have "length (buffer_vec b') = length (buffer_vec c)"
    using c(2,3) by (auto simp: Buffer_inv_def writableBytes_def)
  ultimately show ?thesis using ensure_room_growth[OF assms(1)] by simp
qed

lemma Buffer_shrink_ok:
  assumes "Buffer_inv b" and "length (buffer_vec b) + n < 2 ^ 62" and "readableBytes b < 2 ^ 31"
  shows "\<exists>b'. Buffer_shrink b n = Some b' \<and> Buffer_inv b' \<and> readable b' = readable b \<and>
    length (buffer_vec b') \<le> length (buffer_vec b) + n + 2064"
proof -
  let ?new = "Buffer_new kInitialSize" and ?n = "readableBytes b + n"
  have r: "readableBytes b \<le> length (buffer_vec b)" using assms(1) by (auto simp: Buffer_inv_def readableBytes_def)
  then have n: "size_t ?n = ?n" "length (buffer_vec ?new) + ?n < 2 ^ 63 - 8"
    using assms(2) by (simp_all add: Buffer_new_def kCheapPrepend_def kInitialSize_def)
  obtain b1 where b1: "ensure_room ?new ?n = Some b1" "Buffer_inv b1" "readable b1 = []" "?n \<le> writableBytes b1"
    using ensure_room_ok [OF Buffer_new_inv] by fastforce
  have g: "length (buffer_vec b1) \<le> 1032 + ?n"
    using ensure_room_growth[OF Buffer_new_inv b1(1)] by (simp add: Buffer_new_def kCheapPrepend_def kInitialSize_def)
  obtain b2 where b2: "Buffer_append b1 (readable b) = Some b2" "Buffer_inv b2" "readable b2 = readable b"
    using buf.app_obtain [OF b1(2)] b1(3) by (metis append_Nil)
  have len: "length (readable b) = readableBytes b" using assms(1) by simp
  have "ensure_room b1 (readableBytes b) = Some b1" using b1(4) by (simp add: ensure_room_def)
  then have "length (buffer_vec b2) = length (overwrite (buffer_vec b1) (writerIndex b1) (readable b))"
    using b2(1) len by (auto simp: Buffer_append_def hasWritten_def beginWrite_def split: if_splits)
  also have "\<dots> = length (buffer_vec b1)" using b1(2,4) len by (auto simp: Buffer_inv_def writableBytes_def)
  finally have "length (buffer_vec b2) \<le> length (buffer_vec b) + n + 2064" using g r by simp
  moreover have "length (buffer_vec b1) + length (readable b) < 2 ^ 63 - 8" using g r assms(2,3) len by simp
  then have "append_bytes b1 (readable b) = Some b2" using append_bytes_agrees[OF b1(2)] b2(1) by simp
  ultimately show ?thesis
    using assms(1,3) b1(1) b2 n enuserWritableBytes_agrees[OF Buffer_new_inv n(2)]
    by (simp add: Buffer_shrink_def Buffer_swap_def)
qed

text \<open>
  Near \<open>2 ^ 64\<close> the sum in \<^verbatim>\<open>resize(writerIndex_ + len)\<close> wraps, the vector is cut below the writer
  index, and the wrapped \<^verbatim>\<open>writableBytes()\<close> passes the assertion.
\<close>

lemma ensure_wraps:
  assumes "Buffer_inv b" and "length (buffer_vec b) < 2 ^ 62" and "9 \<le> d" and "d \<le> writerIndex b"
  shows "enuserWritableBytes b (2 ^ 64 - d) = Some (b\<lparr>buffer_vec := take (writerIndex b - d) (buffer_vec b)\<rparr>)"
proof -
  let ?len = "2 ^ 64 - d" and ?n = "writerIndex b - d"
  have w: "writerIndex b \<le> length (buffer_vec b)" using assms(1) by (simp add: Buffer_inv_def)
  have less: "writableBytes b < ?len" "writableBytes b + prependableBytes b < ?len + kCheapPrepend" "?len + kCheapPrepend < 2 ^ 64"
    using assms w by (simp_all add: Buffer_inv_def Buffer_size_defs kCheapPrepend_def)
  have "writerIndex b + ?len = ?n + 2 ^ 64" using assms(4) w assms(2) by simp
  moreover have "?n < 2 ^ 64" using w assms(2) by simp
  ultimately have n: "size_t (writerIndex b + ?len) = ?n" by (simp only: size_t_def mod_add_self2 mod_less)
  have "length (take ?n (buffer_vec b)) + 2 ^ 64 - writerIndex b = ?len" "?len < 2 ^ 64" using w assms(3,4) by simp_all
  then have "size_t (length (take ?n (buffer_vec b)) + 2 ^ 64 - writerIndex b) = ?len" by (simp only: size_t_small)
  moreover have "?n \<le> vec_max" using w assms(2) by (simp add: vec_max_def)
  ultimately show ?thesis
    using less n w assms(3)
    by (simp add: enuserWritableBytes_def makeSpace_def vec_resize_def del: length_take)
qed

text \<open>Searching for a line end.\<close>

lemma findCRLF_eq:
  assumes "Buffer_inv b"
  shows "findCRLF b = (let i = search_crlf (readable b) in
           if i = length (readable b) then None else Some (Buffer_peek b + i))"
  using assms
  by (auto simp: findCRLF_def findCRLF_from_def Let_def readable_def [symmetric] Buffer_size_defs
      Buffer_inv_def)

lemma findCRLF_Some:
  assumes "Buffer_inv b" and "findCRLF b = Some p"
  obtains line rest where "readable b = line @ CRLF @ rest" and "p = Buffer_peek b + length line"
    and "search_crlf (readable b) = length line"
proof -
  let ?i = "search_crlf (readable b)"
  from assms have i: "?i < length (readable b)" and p: "p = Buffer_peek b + ?i"
    using search_crlf_le [of "readable b"]
    by (auto simp: findCRLF_eq Let_def split: if_splits)
  show thesis
  proof (rule that)
    show "readable b = take ?i (readable b) @ CRLF @ drop (?i + 2) (readable b)"
      using search_crlf_split [OF i] .
  qed (use i p in simp_all)
qed

lemma findCRLF_line:
  assumes "Buffer_inv b" and "readable b = line @ CRLF @ rest" and "CR \<notin> set line"
  shows "findCRLF b = Some (Buffer_peek b + length line)"
  using assms by (simp add: findCRLF_eq Let_def)

text \<open>Integers.\<close>

lemma buffer_line:
  assumes "Buffer_inv buf" and "search_crlf (readable buf) \<noteq> length (readable buf)"
  obtains buf' where "findCRLF buf = Some (Buffer_peek buf + search_crlf (readable buf))"
    and "slice (Buffer_peek buf) (Buffer_peek buf + search_crlf (readable buf)) (buffer_vec buf)
         = take (search_crlf (readable buf)) (readable buf)"
    and "retrieveUntil buf (Buffer_peek buf + search_crlf (readable buf) + 2) = Some buf'"
    and "Buffer_inv buf'" and "readable buf' = drop (search_crlf (readable buf) + 2) (readable buf)"
proof -
  let ?n = "search_crlf (readable buf)"
  have n: "?n < length (readable buf)" using assms(2) search_crlf_le [of "readable buf"] by linarith
  then have n2: "?n + 2 \<le> length (readable buf)" using search_crlf_hit by fastforce
  obtain buf' where b: "retrieve buf (?n + 2) = Some buf'" "Buffer_inv buf'" "readable buf' = drop (?n + 2) (readable buf)"
    using buf.ret_obtain [OF assms(1) n2] .
  show ?thesis
  proof (rule that [of buf'])
    show "findCRLF buf = Some (Buffer_peek buf + ?n)" using n assms(1) by (simp add: findCRLF_eq)
    show "retrieveUntil buf (Buffer_peek buf + ?n + 2) = Some buf'"
      using retrieveUntil_eq [OF assms(1) n2] b(1) by (simp add: add.assoc)
  qed (use b slice_readable [OF assms(1), of ?n] n in simp_all)
qed

lemma buffer_no_line:
  "Buffer_inv buf \<Longrightarrow> search_crlf (readable buf) = length (readable buf) \<Longrightarrow> findCRLF buf = None"
  by (simp add: findCRLF_eq)

lemma peek_prefix:
  assumes "Buffer_inv b" and "readable b = s @ rest"
  shows "slice (Buffer_peek b) (Buffer_peek b + length s) (buffer_vec b) = s"
  using slice_readable [OF assms(1), of "length s"] assms(2) by simp

lemma retrieve_prefix:
  assumes "Buffer_inv b" and "readable b = s @ rest" and "length s = n"
  shows "\<exists>b'. retrieve b n = Some b' \<and> Buffer_inv b' \<and> readable b' = rest"
  using retrieve_ok [OF assms(1), of n] assms(2,3) by auto

lemmas readInt_defs = readInt64_def readInt32_def readInt16_def readInt8_def
  peekInt64_def peekInt32_def peekInt16_def peekInt8_def
  retrieveInt64_def retrieveInt32_def retrieveInt16_def retrieveInt8_def

lemma readInt_prefix:
  assumes inv: "Buffer_inv b"
  shows "readable b = le_bytes 8 (hostToNetwork64 x) @ rest \<Longrightarrow>
      \<exists>b'. readInt64 b = Some (x, b') \<and> Buffer_inv b' \<and> readable b' = rest"
    and "readable b = le_bytes 4 (hostToNetwork32 y) @ rest \<Longrightarrow>
      \<exists>b'. readInt32 b = Some (y, b') \<and> Buffer_inv b' \<and> readable b' = rest"
    and "readable b = le_bytes 2 (hostToNetwork16 z) @ rest \<Longrightarrow>
      \<exists>b'. readInt16 b = Some (z, b') \<and> Buffer_inv b' \<and> readable b' = rest"
    and "readable b = le_bytes 1 u @ rest \<Longrightarrow>
      \<exists>b'. readInt8 b = Some (u, b') \<and> Buffer_inv b' \<and> readable b' = rest"
proof -
  have front: "slice (Buffer_peek b) (Buffer_peek b + n) (buffer_vec b) = s
      \<and> n \<le> readableBytes b \<and> (\<exists>b'. retrieve b n = Some b' \<and> Buffer_inv b' \<and> readable b' = rest)"
    if "readable b = s @ rest" and "length s = n" for s n
    using peek_prefix [OF inv that(1)] retrieve_prefix [OF inv that] length_readable [OF inv] that
    by simp
  show "readable b = le_bytes 8 (hostToNetwork64 x) @ rest \<Longrightarrow>
      \<exists>b'. readInt64 b = Some (x, b') \<and> Buffer_inv b' \<and> readable b' = rest"
    using front [of "le_bytes 8 (hostToNetwork64 x)" 8] by (auto simp: readInt_defs)
  show "readable b = le_bytes 4 (hostToNetwork32 y) @ rest \<Longrightarrow>
      \<exists>b'. readInt32 b = Some (y, b') \<and> Buffer_inv b' \<and> readable b' = rest"
    using front [of "le_bytes 4 (hostToNetwork32 y)" 4] by (auto simp: readInt_defs)
  show "readable b = le_bytes 2 (hostToNetwork16 z) @ rest \<Longrightarrow>
      \<exists>b'. readInt16 b = Some (z, b') \<and> Buffer_inv b' \<and> readable b' = rest"
    using front [of "le_bytes 2 (hostToNetwork16 z)" 2] by (auto simp: readInt_defs)
  show "readable b = le_bytes 1 u @ rest \<Longrightarrow>
      \<exists>b'. readInt8 b = Some (u, b') \<and> Buffer_inv b' \<and> readable b' = rest"
    using front [of "le_bytes 1 u" 1] word_of_le_bytes_sized(4) [of u] by (auto simp: readInt_defs)
qed

text \<open>Reading a descriptor.\<close>

definition readv_ok :: "(nat list \<Rightarrow> read_result) \<Rightarrow> bool" where
  "readv_ok readv \<longleftrightarrow> (\<forall>iov bs. readv iov = ReadOk bs \<longrightarrow> length bs \<le> sum_list iov)"

lemma readFd_ok:
  assumes inv: "Buffer_inv b" and os: "readv_ok readv" and rd: "readv (readFd_iov b) = ReadOk bs"
  shows "\<exists>b'. readFd readv b = Some (int (length bs), None, b') \<and> Buffer_inv b'
           \<and> readable b' = readable b @ bs"
proof (cases "length bs \<le> writableBytes b")
  case True
  with rd show ?thesis
    using write_ok [OF inv True] by (simp add: readFd_def Let_def)
next
  case False
  let ?w = "writableBytes b"
  let ?b = "b\<lparr>buffer_vec := overwrite (buffer_vec b) (writerIndex b) (take ?w bs),
              writerIndex := writerIndex b + length (take ?w bs)\<rparr>"
  have w: "length (take ?w bs) = ?w" and sz: "writerIndex b + ?w = length (buffer_vec b)"
    using False inv by (auto simp: Buffer_inv_def writableBytes_def)
  have b1: "Buffer_inv ?b" "readable ?b = readable b @ take ?w bs"
    using write_ok [OF inv, of "take ?w bs"] w by simp_all
  obtain b' where b': "Buffer_append ?b (drop ?w bs) = Some b'" "Buffer_inv b'"
      "readable b' = readable ?b @ drop ?w bs"
    using buf.app_obtain [OF b1(1)] .
  have "length (overwrite (buffer_vec b) (writerIndex b) (take ?w bs)) = length (buffer_vec b)"
    using w sz by simp
  with b' rd False w sz b1(2) show ?thesis
    by (simp add: readFd_def Let_def)
qed

lemma readFd_err:
  "readv (readFd_iov b) = ReadErr e \<Longrightarrow> readFd readv b = Some (-1, Some e, b)"
  by (simp add: readFd_def)

lemma unwrite_bad: "Buffer_inv b \<Longrightarrow> length (readable b) < n \<Longrightarrow> unwrite b n = None"
  by (simp add: unwrite_def)

section \<open>A buffer refines a byte string\<close>

text \<open>
  The calls of a user on two buffers (one call swaps them), and the same calls on two plain byte
  strings. The calls on integers exist in four widths; their values are natural numbers here. A
  pointer into the content is given by its distance from \<^verbatim>\<open>peek()\<close>.
\<close>

datatype width = W8 | W16 | W32 | W64

fun width_bytes :: "width \<Rightarrow> nat" where
  "width_bytes W8 = 1" | "width_bytes W16 = 2" | "width_bytes W32 = 4" | "width_bytes W64 = 8"

fun append_int :: "width \<Rightarrow> nat \<Rightarrow> Buffer \<Rightarrow> Buffer option" where
  "append_int W8 v b = appendInt8 b (of_nat v)"
| "append_int W16 v b = appendInt16 b (of_nat v)"
| "append_int W32 v b = appendInt32 b (of_nat v)"
| "append_int W64 v b = appendInt64 b (of_nat v)"

fun prepend_int :: "width \<Rightarrow> nat \<Rightarrow> Buffer \<Rightarrow> Buffer option" where
  "prepend_int W8 v b = prependInt8 b (of_nat v)"
| "prepend_int W16 v b = prependInt16 b (of_nat v)"
| "prepend_int W32 v b = prependInt32 b (of_nat v)"
| "prepend_int W64 v b = prependInt64 b (of_nat v)"

fun peek_int :: "width \<Rightarrow> Buffer \<Rightarrow> nat option" where
  "peek_int W8 b = map_option unat (peekInt8 b)"
| "peek_int W16 b = map_option unat (peekInt16 b)"
| "peek_int W32 b = map_option unat (peekInt32 b)"
| "peek_int W64 b = map_option unat (peekInt64 b)"

fun read_int :: "width \<Rightarrow> Buffer \<Rightarrow> (nat \<times> Buffer) option" where
  "read_int W8 b = map_option (map_prod unat id) (readInt8 b)"
| "read_int W16 b = map_option (map_prod unat id) (readInt16 b)"
| "read_int W32 b = map_option (map_prod unat id) (readInt32 b)"
| "read_int W64 b = map_option (map_prod unat id) (readInt64 b)"

fun retrieve_int :: "width \<Rightarrow> Buffer \<Rightarrow> Buffer option" where
  "retrieve_int W8 b = retrieveInt8 b"
| "retrieve_int W16 b = retrieveInt16 b"
| "retrieve_int W32 b = retrieveInt32 b"
| "retrieve_int W64 b = retrieveInt64 b"

datatype buffer_op =
    OpAppend string | OpAppendInt width nat | OpPrepend string | OpPrependInt width nat
  | OpRetrieve nat | OpRetrieveUntil nat | OpRetrieveInt width | OpRetrieveAll
  | OpRetrieveAsString nat | OpRetrieveAllAsString | OpPeekInt width | OpReadInt width
  | OpEnsureWritable nat | OpWrite string | OpUnwrite nat | OpShrink nat | OpReadFd string
  | OpFindCRLF | OpFindEOL

datatype buffer_out = NoOut | OutBytes string | OutNum nat | OutPos "nat option"

abbreviation no_out :: "'b option \<Rightarrow> (buffer_out \<times> 'b) option" where
  "no_out r \<equiv> map_option (Pair NoOut) r"

text \<open>\<open>OpWrite\<close> stores bytes at \<^verbatim>\<open>beginWrite()\<close> and then calls \<^verbatim>\<open>hasWritten\<close>.\<close>

fun run_op :: "buffer_op \<Rightarrow> Buffer \<Rightarrow> (buffer_out \<times> Buffer) option" where
  "run_op (OpAppend s) b = no_out (append_bytes b s)"
| "run_op (OpAppendInt w v) b = no_out (append_int w v b)"
| "run_op (OpPrepend s) b = no_out (Buffer_prepend b s)"
| "run_op (OpPrependInt w v) b = no_out (prepend_int w v b)"
| "run_op (OpRetrieve n) b = no_out (retrieve b n)"
| "run_op (OpRetrieveUntil n) b = no_out (retrieveUntil b (Buffer_peek b + n))"
| "run_op (OpRetrieveInt w) b = no_out (retrieve_int w b)"
| "run_op OpRetrieveAll b = no_out (Some (retrieveAll b))"
| "run_op (OpRetrieveAsString n) b = map_option (map_prod OutBytes id) (retrieveAsString b n)"
| "run_op OpRetrieveAllAsString b = map_option (map_prod OutBytes id) (retrieveAllAsString b)"
| "run_op (OpPeekInt w) b = map_option (\<lambda>v. (OutNum v, b)) (peek_int w b)"
| "run_op (OpReadInt w) b = map_option (map_prod OutNum id) (read_int w b)"
| "run_op (OpEnsureWritable n) b = no_out (enuserWritableBytes b n)"
| "run_op (OpWrite s) b = no_out
     (hasWritten (b\<lparr>buffer_vec := overwrite (buffer_vec b) (beginWrite b) (take (writableBytes b) s)\<rparr>) (length s))"
| "run_op (OpUnwrite n) b = no_out (unwrite b n)"
| "run_op (OpShrink n) b = no_out (Buffer_shrink b n)"
| "run_op (OpReadFd stream) b =
     map_option (\<lambda>(n, _, b). (OutNum (nat n), b)) (readFd (\<lambda>iov. ReadOk (take (sum_list iov) stream)) b)"
| "run_op OpFindCRLF b = Some (OutPos (map_option (\<lambda>p. p - Buffer_peek b) (findCRLF b)), b)"
| "run_op OpFindEOL b = Some (OutPos (map_option (\<lambda>p. p - Buffer_peek b) (findEOL b)), b)"

text \<open>
  The specification: what the call returns and the new content. The room in front of and behind the
  content depends on the history of the vector; it is given to the specification as it is.
\<close>

record layout =
  l_front :: nat
  l_back :: nat
  l_read :: nat

definition layout_of :: "Buffer \<Rightarrow> layout" where
  "layout_of b = \<lparr>l_front = prependableBytes b, l_back = writableBytes b, l_read = sum_list (readFd_iov b)\<rparr>"

definition be_bytes :: "nat \<Rightarrow> nat \<Rightarrow> string" where
  "be_bytes n v = rev (map (\<lambda>i. char_of (v div 256 ^ i)) [0..<n])"

definition of_be :: "string \<Rightarrow> nat" where
  "of_be s = horner_sum of_char 256 (rev s)"

definition position :: "nat \<Rightarrow> string \<Rightarrow> nat option" where
  "position i c = (if i < length c then Some i else None)"

definition guarded :: "bool \<Rightarrow> 'a \<Rightarrow> 'a option" where
  "guarded p x = (if p then Some x else None)"

fun spec_op :: "layout \<Rightarrow> buffer_op \<Rightarrow> string \<Rightarrow> (buffer_out \<times> string) option" where
  "spec_op l (OpAppend s) c = Some (NoOut, c @ s)"
| "spec_op l (OpAppendInt w v) c = Some (NoOut, c @ be_bytes (width_bytes w) v)"
| "spec_op l (OpPrepend s) c = guarded (length s \<le> l_front l) (NoOut, s @ c)"
| "spec_op l (OpPrependInt w v) c = guarded (width_bytes w \<le> l_front l) (NoOut, be_bytes (width_bytes w) v @ c)"
| "spec_op l (OpRetrieve n) c = guarded (n \<le> length c) (NoOut, drop n c)"
| "spec_op l (OpRetrieveUntil n) c = guarded (n \<le> length c) (NoOut, drop n c)"
| "spec_op l (OpRetrieveInt w) c = guarded (width_bytes w \<le> length c) (NoOut, drop (width_bytes w) c)"
| "spec_op l OpRetrieveAll c = Some (NoOut, [])"
| "spec_op l (OpRetrieveAsString n) c = guarded (n \<le> length c) (OutBytes (take n c), drop n c)"
| "spec_op l OpRetrieveAllAsString c = Some (OutBytes c, [])"
| "spec_op l (OpPeekInt w) c =
     guarded (width_bytes w \<le> length c) (OutNum (of_be (take (width_bytes w) c)), c)"
| "spec_op l (OpReadInt w) c =
     guarded (width_bytes w \<le> length c) (OutNum (of_be (take (width_bytes w) c)), drop (width_bytes w) c)"
| "spec_op l (OpEnsureWritable n) c = Some (NoOut, c)"
| "spec_op l (OpWrite s) c = guarded (length s \<le> l_back l) (NoOut, c @ s)"
| "spec_op l (OpUnwrite n) c = guarded (n \<le> length c) (NoOut, take (length c - n) c)"
| "spec_op l (OpShrink n) c = guarded (length c < 2 ^ 31) (NoOut, c)"
| "spec_op l (OpReadFd stream) c =
     Some (OutNum (length (take (l_read l) stream)), c @ take (l_read l) stream)"
| "spec_op l OpFindCRLF c = Some (OutPos (position (search_crlf c) c), c)"
| "spec_op l OpFindEOL c = Some (OutPos (position (std_find LF c) c), c)"

text \<open>By how much a call may lengthen the vector.\<close>

fun op_size :: "buffer_op \<Rightarrow> nat" where
  "op_size (OpAppend s) = length s"
| "op_size (OpAppendInt w v) = width_bytes w"
| "op_size (OpEnsureWritable n) = n"
| "op_size (OpShrink n) = n + 2064"
| "op_size (OpReadFd stream) = length stream"
| "op_size _ = 0"

datatype buffer_call = Call buffer_op | Swap

fun call_size :: "buffer_call \<Rightarrow> nat" where
  "call_size (Call a) = op_size a" | "call_size Swap = 0"

fun run_buffer_calls :: "buffer_call list \<Rightarrow> Buffer \<times> Buffer \<Rightarrow> (buffer_out list \<times> Buffer \<times> Buffer) option" where
  "run_buffer_calls [] bs = Some ([], bs)"
| "run_buffer_calls (Call a # as) bs =
     do { (out, b) \<leftarrow> run_op a (fst bs); (outs, bs) \<leftarrow> run_buffer_calls as (b, snd bs); Some (out # outs, bs) }"
| "run_buffer_calls (Swap # as) bs = run_buffer_calls as (Buffer_swap (fst bs) (snd bs))"

text \<open>The layouts that a run meets, and the specification on two byte strings.\<close>

fun layouts :: "buffer_call list \<Rightarrow> Buffer \<times> Buffer \<Rightarrow> layout list" where
  "layouts [] bs = []"
| "layouts (Call a # as) bs =
     layout_of (fst bs) # (case run_op a (fst bs) of None \<Rightarrow> [] | Some (out, b) \<Rightarrow> layouts as (b, snd bs))"
| "layouts (Swap # as) bs = layouts as (Buffer_swap (fst bs) (snd bs))"

fun spec_calls :: "layout list \<Rightarrow> buffer_call list \<Rightarrow> string \<times> string \<Rightarrow> (buffer_out list \<times> string \<times> string) option" where
  "spec_calls ls [] cs = Some ([], cs)"
| "spec_calls (l # ls) (Call a # as) cs =
     do { (out, c) \<leftarrow> spec_op l a (fst cs); (outs, cs) \<leftarrow> spec_calls ls as (c, snd cs); Some (out # outs, cs) }"
| "spec_calls [] (Call a # as) cs = None"
| "spec_calls ls (Swap # as) cs = spec_calls ls as (snd cs, fst cs)"

definition buffer_rel :: "Buffer \<Rightarrow> string \<Rightarrow> bool" where
  "buffer_rel b c \<longleftrightarrow> Buffer_inv b \<and> readable b = c"

text \<open>Integers as bytes in network order.\<close>

lemma length_be_bytes [simp]: "length (be_bytes n v) = n"
  by (simp add: be_bytes_def)

lemma le_bytes_of_nat:
  assumes "8 * n = LENGTH('a)"
  shows "le_bytes n (of_nat v :: 'a::len word) = rev (be_bytes n v)"
proof -
  have "char_of (v mod 256 ^ n div 256 ^ i) = (char_of (v div 256 ^ i) :: char)" if "i < n" for i
  proof -
    have "v mod 256 ^ n div 256 ^ i mod 256 = v div 256 ^ i mod 256"
    proof -
      have "(256 :: nat) ^ n = 256 ^ i * 256 ^ (n - i)" using that by (simp flip: power_add)
      then have "v mod 256 ^ n div 256 ^ i = v div 256 ^ i mod 256 ^ (n - i)"
        by (simp add: mod_mult2_eq)
      moreover have "(256 :: nat) dvd 256 ^ (n - i)" using that by simp
      ultimately show ?thesis by (simp add: mod_mod_cancel)
    qed
    then show ?thesis by (metis char_of_mod_256)
  qed
  moreover have "(2 :: nat) ^ LENGTH('a) = 256 ^ n" using assms by (simp add: pow_256)
  ultimately show ?thesis
    by (simp add: le_bytes_def be_bytes_def unat_of_nat)
qed

lemma unat_word_of_le:
  assumes "8 * length s = LENGTH('a)"
  shows "unat (word_of_le s :: 'a::len word) = horner_sum of_char 256 s"
  using horner_char_bound [of s] assms by (simp add: word_of_le_def unat_of_nat pow_256)

lemma byte_swap_of_le:
  assumes "8 * length s = LENGTH('a)"
  shows "unat (byte_swap (length s) (word_of_le s :: 'a::len word)) = of_be s"
  using assms by (simp add: byte_swap_def le_bytes_word_of_le unat_word_of_le of_be_def)

lemma append_int_eq: "append_int w v b = Buffer_append b (be_bytes (width_bytes w) v)"
  by (cases w)
    (simp_all add: appendInt8_def appendInt16_def appendInt32_def appendInt64_def network_defs le_bytes_byte_swap
      le_bytes_of_nat, simp add: be_bytes_def)

lemma prepend_int_eq: "prepend_int w v b = Buffer_prepend b (be_bytes (width_bytes w) v)"
  by (cases w)
    (simp_all add: prependInt8_def prependInt16_def prependInt32_def prependInt64_def network_defs le_bytes_byte_swap
      le_bytes_of_nat, simp add: be_bytes_def)

lemma retrieve_int_eq: "retrieve_int w b = retrieve b (width_bytes w)"
  by (cases w) (simp_all add: readInt_defs)

lemma byte_swap_front:
  assumes "n \<le> length s" and "8 * n = LENGTH('a)"
  shows "unat (byte_swap n (word_of_le (take n s) :: 'a::len word)) = of_be (take n s)"
proof -
  have n: "length (take n s) = n" using assms(1) by (rule length_take[THEN trans, OF min_absorb2])
  show ?thesis using byte_swap_of_le [of "take n s", where 'a = 'a, unfolded n, OF assms(2)] .
qed

lemma word_front:
  assumes "1 \<le> length s"
  shows "unat (word_of_le (take 1 s) :: 8 word) = of_be (take 1 s)"
proof -
  obtain x where x: "take 1 s = [x]" using assms by (cases s) auto
  show ?thesis using unat_word_of_le [of "[x]", where 'a = 8] unfolding x by (simp add: of_be_def)
qed

lemma peek_int_eq:
  assumes "Buffer_inv b"
  shows "peek_int w b =
    guarded (width_bytes w \<le> length (readable b)) (of_be (take (width_bytes w) (readable b)))"
proof (cases "width_bytes w \<le> length (readable b)")
  case True
  note s = slice_readable [OF assms True]
  have le: "width_bytes w \<le> readableBytes b" using True assms by simp
  show ?thesis
  proof (cases w)
    case W8
    have "peekInt8 b = Some (word_of_le (take 1 (readable b)))" using le s unfolding W8 by (simp add: peekInt8_def)
    then show ?thesis using True word_front [of "readable b"] unfolding W8 by (simp add: guarded_def)
  next
    case W16
    have "peekInt16 b = Some (byte_swap 2 (word_of_le (take 2 (readable b))))"
      using le s unfolding W16 by (simp add: peekInt16_def networkToHost16_def)
    then show ?thesis using True byte_swap_front [of 2 "readable b", where 'a = 16] unfolding W16 by (simp add: guarded_def)
  next
    case W32
    have "peekInt32 b = Some (byte_swap 4 (word_of_le (take 4 (readable b))))"
      using le s unfolding W32 by (simp add: peekInt32_def networkToHost32_def)
    then show ?thesis using True byte_swap_front [of 4 "readable b", where 'a = 32] unfolding W32 by (simp add: guarded_def)
  next
    case W64
    have "peekInt64 b = Some (byte_swap 8 (word_of_le (take 8 (readable b))))"
      using le s unfolding W64 by (simp add: peekInt64_def networkToHost64_def)
    then show ?thesis using True byte_swap_front [of 8 "readable b", where 'a = 64] unfolding W64 by (simp add: guarded_def)
  qed
next
  case False
  then have "\<not> width_bytes w \<le> readableBytes b" using assms by simp
  then show ?thesis using False by (cases w) (simp_all add: readInt_defs guarded_def)
qed

lemma read_int_eq: "read_int w b = do { v \<leftarrow> peek_int w b; b \<leftarrow> retrieve_int w b; Some (v, b) }"
  by (cases w) (auto simp: readInt64_def readInt32_def readInt16_def readInt8_def split: bind_split)

text \<open>Every call refines its specification and lengthens the vector by at most its size.\<close>

definition sized_rel :: "nat \<Rightarrow> buffer_out \<times> Buffer \<Rightarrow> buffer_out \<times> string \<Rightarrow> bool" where
  "sized_rel n r s \<longleftrightarrow> fst r = fst s \<and> buffer_rel (snd r) (snd s) \<and> length (buffer_vec (snd r)) \<le> n"

lemma no_out_rel:
  assumes "\<exists>b'. r = Some b' \<and> Buffer_inv b' \<and> readable b' = c \<and> length (buffer_vec b') \<le> n"
  shows "rel_option (sized_rel n) (no_out r) (Some (NoOut, c))"
  using assms by (auto simp: sized_rel_def buffer_rel_def)

lemma retrieve_rel:
  assumes "Buffer_inv b"
  shows "rel_option (sized_rel (length (buffer_vec b) + m)) (no_out (retrieve b n))
    (guarded (n \<le> length (readable b)) (NoOut, drop n (readable b)))"
proof (cases "n \<le> length (readable b)")
  case True
  then obtain b' where b': "retrieve b n = Some b'" "Buffer_inv b'" "readable b' = drop n (readable b)"
    using retrieve_ok [OF assms] by blast
  then have "length (buffer_vec b') = length (buffer_vec b)" by (auto simp: retrieve_def retrieveAll_def split: if_splits)
  then show ?thesis using True b' by (simp add: guarded_def sized_rel_def buffer_rel_def)
next
  case False
  then show ?thesis using retrieve_bad [OF assms] by (simp add: guarded_def)
qed

lemma append_rel:
  assumes "Buffer_inv b"
  shows "rel_option (sized_rel (length (buffer_vec b) + length s)) (no_out (Buffer_append b s)) (Some (NoOut, readable b @ s))"
  using Buffer_append_ok [OF assms, of s] Buffer_append_growth [OF assms, of s] by (intro no_out_rel) blast

lemma prepend_rel:
  assumes "Buffer_inv b"
  shows "rel_option (sized_rel (length (buffer_vec b) + m)) (no_out (Buffer_prepend b s))
    (guarded (length s \<le> prependableBytes b) (NoOut, s @ readable b))"
proof (cases "length s \<le> prependableBytes b")
  case True
  then obtain b' where b': "Buffer_prepend b s = Some b'" "Buffer_inv b'" "readable b' = s @ readable b"
    using Buffer_prepend_ok [OF assms] by blast
  have "readerIndex b - length s + length s \<le> length (buffer_vec b)"
    using True assms by (auto simp: Buffer_inv_def prependableBytes_def)
  then have "length (buffer_vec b') = length (buffer_vec b)" using b'(1) True by (auto simp: Buffer_prepend_def)
  then show ?thesis using True b' by (simp add: guarded_def sized_rel_def buffer_rel_def)
qed (simp add: guarded_def Buffer_prepend_def)

lemma findEOL_eq:
  assumes "Buffer_inv b"
  shows "map_option (\<lambda>p. p - Buffer_peek b) (findEOL b) = position (std_find LF (readable b)) (readable b)"
proof -
  have "Buffer_peek b + readableBytes b = writerIndex b" using assms by (simp add: Buffer_inv_def Buffer_size_defs)
  then have "slice (Buffer_peek b) (Buffer_peek b + readableBytes b) (buffer_vec b) = readable b"
    by (simp add: readable_def Buffer_peek_def)
  then show ?thesis using assms by (simp add: findEOL_def memchr_from_def position_def Let_def)
qed

lemma findCRLF_rel:
  assumes "Buffer_inv b"
  shows "map_option (\<lambda>p. p - Buffer_peek b) (findCRLF b) = position (search_crlf (readable b)) (readable b)"
  using search_crlf_le [of "readable b"] by (auto simp: findCRLF_eq [OF assms] position_def Let_def intro: le_neq_implies_less)

lemma write_rel:
  assumes "Buffer_inv b"
  shows "rel_option (sized_rel (length (buffer_vec b))) (run_op (OpWrite s) b) (spec_op (layout_of b) (OpWrite s) (readable b))"
proof (cases "length s \<le> writableBytes b")
  case True
  have len: "length (overwrite (buffer_vec b) (writerIndex b) s) = length (buffer_vec b)"
    using True assms by (auto simp: Buffer_inv_def writableBytes_def)
  then have "writableBytes (b\<lparr>buffer_vec := overwrite (buffer_vec b) (writerIndex b) s\<rparr>) = writableBytes b"
    by (simp add: writableBytes_def)
  then show ?thesis
    using True len write_ok [OF assms True]
    by (simp add: hasWritten_def beginWrite_def layout_of_def guarded_def sized_rel_def buffer_rel_def)
next
  case False
  have "length (overwrite (buffer_vec b) (writerIndex b) (take (writableBytes b) s)) = length (buffer_vec b)"
    using False assms by (auto simp: Buffer_inv_def writableBytes_def)
  then show ?thesis using False by (simp add: hasWritten_def beginWrite_def writableBytes_def layout_of_def guarded_def)
qed

lemma readFd_rel:
  assumes "Buffer_inv b"
  shows "rel_option (sized_rel (length (buffer_vec b) + length stream)) (run_op (OpReadFd stream) b)
    (spec_op (layout_of b) (OpReadFd stream) (readable b))"
proof -
  let ?readv = "\<lambda>iov. ReadOk (take (sum_list iov) stream)" and ?bs = "take (sum_list (readFd_iov b)) stream"
  have ok: "readv_ok ?readv" by (simp add: readv_ok_def)
  obtain b' where b': "readFd ?readv b = Some (int (length ?bs), None, b')" "Buffer_inv b'" "readable b' = readable b @ ?bs"
    using readFd_ok [OF assms ok] by auto
  have "length (buffer_vec b') \<le> length (buffer_vec b) + length ?bs"
  proof (cases "length ?bs \<le> writableBytes b")
    case True
    then have "take (writableBytes b) ?bs = ?bs" by (rule take_all)
    then have "buffer_vec b' = overwrite (buffer_vec b) (writerIndex b) ?bs"
      using b'(1) True by (auto simp: readFd_def Let_def simp del: take_take)
    then show ?thesis using True assms by (auto simp: Buffer_inv_def writableBytes_def)
  next
    case False
    let ?w = "writableBytes b"
    let ?v = "overwrite (buffer_vec b) (writerIndex b) (take ?w ?bs)"
    let ?b = "b\<lparr>buffer_vec := ?v, writerIndex := length ?v\<rparr>"
    have v: "length ?v = length (buffer_vec b)" using False assms by (auto simp: Buffer_inv_def writableBytes_def)
    have "Buffer_inv ?b" using assms v by (auto simp: Buffer_inv_def)
    moreover have "Buffer_append ?b (drop ?w ?bs) = Some b'"
      using b'(1) False by (auto simp: readFd_def Let_def split: bind_splits)
    ultimately show ?thesis using Buffer_append_growth [of ?b] v by fastforce
  qed
  then show ?thesis using b' by (auto simp: layout_of_def sized_rel_def buffer_rel_def)
qed

lemma run_op_rel:
  assumes inv: "Buffer_inv b" and small: "length (buffer_vec b) + op_size a < 2 ^ 62"
  shows "rel_option (sized_rel (length (buffer_vec b) + op_size a)) (run_op a b) (spec_op (layout_of b) a (readable b))"
proof (cases a)
  case (OpAppend s)
  then show ?thesis using append_rel [OF inv, of s] append_bytes_agrees [OF inv, of s] small by simp
next
  case (OpAppendInt w v)
  then show ?thesis using append_rel [OF inv, of "be_bytes (width_bytes w) v"] by (simp add: append_int_eq)
next
  case (OpPrepend s)
  then show ?thesis using prepend_rel [OF inv, of 0 s] by (simp add: layout_of_def)
next
  case (OpPrependInt w v)
  then show ?thesis using prepend_rel [OF inv, of 0 "be_bytes (width_bytes w) v"] by (simp add: layout_of_def prepend_int_eq)
next
  case (OpRetrieve n)
  then show ?thesis using retrieve_rel [OF inv, of 0 n] by simp
next
  case (OpRetrieveUntil n)
  have "retrieveUntil b (Buffer_peek b + n) = retrieve b n"
  proof (cases "n \<le> length (readable b)")
    case False
    then show ?thesis
      using retrieve_bad [OF inv] inv by (auto simp: retrieveUntil_def Buffer_size_defs Buffer_inv_def)
  qed (rule retrieveUntil_eq [OF inv])
  then show ?thesis using retrieve_rel [OF inv, of 0 n] OpRetrieveUntil by simp
next
  case (OpRetrieveInt w)
  then show ?thesis using retrieve_rel [OF inv, of 0 "width_bytes w"] by (simp add: retrieve_int_eq)
next
  case OpRetrieveAll
  then show ?thesis using inv by (simp add: sized_rel_def buffer_rel_def retrieveAll_def[THEN arg_cong[where f = buffer_vec]])
next
  case (OpRetrieveAsString n)
  then show ?thesis
    using retrieve_rel [OF inv, of 0 n] inv
    by (cases "n \<le> length (readable b)"; cases "retrieve b n")
      (auto simp: retrieveAsString_def guarded_def sized_rel_def slice_readable)
next
  case OpRetrieveAllAsString
  then show ?thesis
    using retrieve_rel [OF inv, of 0 "length (readable b)"] inv slice_readable [OF inv order_refl]
    by (cases "retrieve b (readableBytes b)")
      (auto simp: retrieveAllAsString_def retrieveAsString_def guarded_def sized_rel_def)
next
  case (OpPeekInt w)
  then show ?thesis using inv by (simp add: peek_int_eq guarded_def sized_rel_def buffer_rel_def)
next
  case (OpReadInt w)
  then show ?thesis
    using retrieve_rel [OF inv, of 0 "width_bytes w"] inv
    by (cases "retrieve b (width_bytes w)")
      (auto simp: read_int_eq peek_int_eq retrieve_int_eq guarded_def sized_rel_def split: if_splits)
next
  case (OpEnsureWritable n)
  then show ?thesis
    using ensure_room_ok [OF inv, of n] ensure_room_growth [OF inv, of n] enuserWritableBytes_agrees [OF inv, of n] small
    by (simp only: run_op.simps spec_op.simps op_size.simps) (intro no_out_rel; force)
next
  case (OpWrite s)
  then show ?thesis using write_rel [OF inv, of s] by simp
next
  case (OpUnwrite n)
  then show ?thesis
    using unwrite_ok [OF inv, of n] unwrite_bad [OF inv, of n] inv
    by (cases "n \<le> length (readable b)") (auto simp: guarded_def sized_rel_def buffer_rel_def unwrite_def)
next
  case (OpShrink n)
  show ?thesis
  proof (cases "readableBytes b < 2 ^ 31")
    case True
    then show ?thesis using Buffer_shrink_ok [OF inv _ True, of n] small OpShrink inv
      by (auto simp: guarded_def sized_rel_def buffer_rel_def)
  next
    case False
    then show ?thesis using OpShrink inv by (simp add: guarded_def Buffer_shrink_def bind_eq_None_conv)
  qed
next
  case (OpReadFd stream)
  then show ?thesis using readFd_rel [OF inv, of stream] by simp
next
  case OpFindCRLF
  then show ?thesis using inv findCRLF_rel [OF inv] by (simp add: sized_rel_def buffer_rel_def)
next
  case OpFindEOL
  then show ?thesis using inv findEOL_eq [OF inv] by (simp add: sized_rel_def buffer_rel_def)
qed

definition calls_rel :: "buffer_out list \<times> Buffer \<times> Buffer \<Rightarrow> buffer_out list \<times> string \<times> string \<Rightarrow> bool" where
  "calls_rel r s \<longleftrightarrow> fst r = fst s \<and> rel_prod buffer_rel buffer_rel (snd r) (snd s)"

lemma run_calls_rel:
  assumes "Buffer_inv b" and "Buffer_inv b'"
    and "length (buffer_vec b) + sum_list (map call_size as) < 2 ^ 62"
    and "length (buffer_vec b') + sum_list (map call_size as) < 2 ^ 62"
  shows "rel_option calls_rel (run_buffer_calls as (b, b')) (spec_calls (layouts as (b, b')) as (readable b, readable b'))"
  using assms
proof (induction as arbitrary: b b')
  case Nil
  then show ?case by (simp add: calls_rel_def buffer_rel_def)
next
  case (Cons c as)
  show ?case
  proof (cases c)
    case Swap
    then show ?thesis using Cons by (simp add: Buffer_swap_def)
  next
    case (Call a)
    have "rel_option (sized_rel (length (buffer_vec b) + op_size a)) (run_op a b) (spec_op (layout_of b) a (readable b))"
      using Cons.prems Call by (intro run_op_rel) simp_all
    then show ?thesis
    proof cases
      case None
      then show ?thesis using Call by simp
    next
      case (Some x y)
      obtain out b1 where x: "x = (out, b1)" by (cases x)
      then have y: "y = (out, readable b1)" "Buffer_inv b1" "length (buffer_vec b1) \<le> length (buffer_vec b) + op_size a"
        using Some(3) by (auto simp: sized_rel_def buffer_rel_def)
      have "rel_option calls_rel (run_buffer_calls as (b1, b')) (spec_calls (layouts as (b1, b')) as (readable b1, readable b'))"
        using Cons.prems Call y by (intro Cons.IH) simp_all
      then show ?thesis
        using Some(1,2) Call x y(1) by cases (auto simp: calls_rel_def)
    qed
  qed
qed

section \<open>Properties\<close>



text \<open>\<^verbatim>\<open>readFd\<close> loses, duplicates and reorders nothing: whatever \<^verbatim>\<open>readv\<close> stores, within the
  ranges it was given, is appended to the content, in the vector's tail or through the stack buffer;
  on an error the buffer is unchanged and \<^verbatim>\<open>errno\<close> is handed out.\<close>

theorem readFd_appends_stream:
  assumes "Buffer_inv b" and "readv_ok readv"
  shows "case readv (readFd_iov b) of
      ReadErr e \<Rightarrow> readFd readv b = Some (-1, Some e, b)
    | ReadOk bs \<Rightarrow> \<exists>b'. readFd readv b = Some (int (length bs), None, b') \<and> Buffer_inv b'
        \<and> readable b' = readable b @ bs"
  using readFd_ok [OF assms] readFd_err by (auto split: read_result.split)

theorem readFd_appends_stream_witness:
  "\<exists>b'. readFd (\<lambda>iov. ReadOk (take (sum_list iov) ''hello'')) (Buffer_new 2) = Some (5, None, b')
     \<and> Buffer_inv b' \<and> readable b' = ''hello''"
proof -
  have "readv_ok (\<lambda>iov. ReadOk (take (sum_list iov) ''hello''))"
    by (simp add: readv_ok_def)
  from readFd_appends_stream [OF Buffer_new_inv [of 2] this] show ?thesis
    by (simp add: readFd_iov_def extrabuf_size_def Buffer_new_asserts)
qed

text \<open>\<^verbatim>\<open>findCRLF\<close> returns \<^verbatim>\<open>NULL\<close> exactly when the content has no CRLF, and otherwise the
  position of the first one.\<close>

theorem findCRLF_correct:
  assumes "Buffer_inv b"
  shows "case findCRLF b of
      None \<Rightarrow> \<nexists>pre post. readable b = pre @ CRLF @ post
    | Some p \<Rightarrow> \<exists>line rest. readable b = line @ CRLF @ rest \<and> p = Buffer_peek b + length line
        \<and> (\<forall>pre post. readable b = pre @ CRLF @ post \<longrightarrow> length line \<le> length pre)"
proof (cases "findCRLF b")
  case None
  then have "search_crlf (readable b) = length (readable b)"
    using assms by (auto simp: findCRLF_eq Let_def split: if_splits)
  with None show ?thesis
    using search_crlf_absent by auto
next
  case (Some p)
  then obtain line rest where line: "readable b = line @ CRLF @ rest"
      "p = Buffer_peek b + length line" "search_crlf (readable b) = length line"
    using findCRLF_Some [OF assms] by blast
  then have "\<forall>pre post. readable b = pre @ CRLF @ post \<longrightarrow> length line \<le> length pre"
    using search_crlf_min by metis
  with Some line show ?thesis
    by auto
qed

theorem findCRLF_correct_witness:
  "\<exists>b. Buffer_append (Buffer_new 16) (''GET'' @ CRLF @ ''x'' @ CRLF) = Some b \<and> findCRLF b = Some 11
     \<and> (\<exists>line rest. readable b = line @ CRLF @ rest \<and> 11 = Buffer_peek b + length line)"
proof -
  obtain b where b: "Buffer_append (Buffer_new 16) (''GET'' @ CRLF @ ''x'' @ CRLF) = Some b"
      "Buffer_inv b" "readable b = ''GET'' @ CRLF @ ''x'' @ CRLF"
    using buf.app_obtain [OF Buffer_new_inv] by (metis append_Nil readable_Buffer_new)
  then have "Buffer_peek b = 8"
    by (auto simp: Buffer_append_def ensure_room_def hasWritten_def Buffer_size_defs
        Buffer_new_def kCheapPrepend_def)
  then have "findCRLF b = Some 11"
    using findCRLF_line [OF b(2), of "''GET''"] b(3) by (simp add: CR_def)
  with findCRLF_correct [OF b(2)] b(1) show ?thesis
    by auto
qed

text \<open>Integers survive the network byte order: after appending integers of all four widths to a
  buffer, skipping what was in it and reading the four widths back gives the same values and
  leaves the buffer empty.\<close>

theorem int_round_trip:
  assumes "Buffer_inv b"
  shows "\<exists>b1 b2 b3 b4 c c1 c2 c3 c4.
      appendInt64 b x = Some b1 \<and> appendInt32 b1 y = Some b2 \<and> appendInt16 b2 z = Some b3
    \<and> appendInt8 b3 u = Some b4 \<and> retrieve b4 (readableBytes b) = Some c
    \<and> readInt64 c = Some (x, c1) \<and> readInt32 c1 = Some (y, c2) \<and> readInt16 c2 = Some (z, c3)
    \<and> readInt8 c3 = Some (u, c4) \<and> readable c4 = []"
proof -
  let ?s1 = "le_bytes 8 (hostToNetwork64 x)" and ?s2 = "le_bytes 4 (hostToNetwork32 y)"
    and ?s3 = "le_bytes 2 (hostToNetwork16 z)" and ?s4 = "le_bytes 1 u"
  obtain b1 where b1: "appendInt64 b x = Some b1" "Buffer_inv b1" "readable b1 = readable b @ ?s1"
    using buf.app_obtain [OF assms] unfolding appendInt64_def Let_def .
  obtain b2 where b2: "appendInt32 b1 y = Some b2" "Buffer_inv b2" "readable b2 = readable b1 @ ?s2"
    using buf.app_obtain [OF b1(2)] unfolding appendInt32_def Let_def .
  obtain b3 where b3: "appendInt16 b2 z = Some b3" "Buffer_inv b3" "readable b3 = readable b2 @ ?s3"
    using buf.app_obtain [OF b2(2)] unfolding appendInt16_def Let_def .
  obtain b4 where b4: "appendInt8 b3 u = Some b4" "Buffer_inv b4" "readable b4 = readable b3 @ ?s4"
    using buf.app_obtain [OF b3(2)] unfolding appendInt8_def Let_def .
  have "readable b4 = readable b @ (?s1 @ ?s2 @ ?s3 @ ?s4 @ [])"
    using b1(3) b2(3) b3(3) b4(3) by simp
  then obtain c where c: "retrieve b4 (readableBytes b) = Some c" "Buffer_inv c"
      "readable c = ?s1 @ ?s2 @ ?s3 @ ?s4 @ []"
    using retrieve_prefix [OF b4(2)] assms length_readable by blast
  obtain c1 where c1: "readInt64 c = Some (x, c1)" "Buffer_inv c1" "readable c1 = ?s2 @ ?s3 @ ?s4 @ []"
    using readInt_prefix(1) [OF c(2,3)] by blast
  obtain c2 where c2: "readInt32 c1 = Some (y, c2)" "Buffer_inv c2" "readable c2 = ?s3 @ ?s4 @ []"
    using readInt_prefix(2) [OF c1(2,3)] by blast
  obtain c3 where c3: "readInt16 c2 = Some (z, c3)" "Buffer_inv c3" "readable c3 = ?s4 @ []"
    using readInt_prefix(3) [OF c2(2,3)] by blast
  obtain c4 where "readInt8 c3 = Some (u, c4)" "readable c4 = []"
    using readInt_prefix(4) [OF c3(2,3)] by blast
  with b1(1) b2(1) b3(1) b4(1) c(1) c1(1) c2(1) c3(1) show ?thesis
    by blast
qed

theorem int_round_trip_witness:
  "\<exists>b1 b2 b3 b4 c c1 c2 c3 c4.
      appendInt64 (Buffer_new 4) (-2) = Some b1 \<and> appendInt32 b1 7 = Some b2
    \<and> appendInt16 b2 258 = Some b3 \<and> appendInt8 b3 1 = Some b4
    \<and> retrieve b4 (readableBytes (Buffer_new 4)) = Some c
    \<and> readInt64 c = Some (-2, c1) \<and> readInt32 c1 = Some (7, c2) \<and> readInt16 c2 = Some (258, c3)
    \<and> readInt8 c3 = Some (1, c4) \<and> readable c4 = []"
  by (rule int_round_trip [OF Buffer_new_inv])

end
