(* ===== verification/Timestamp.thy ===== *)
theory Timestamp
  imports Cnet_Prelude
begin

text \<open>
  \<^verbatim>\<open>cnet::Timestamp\<close> (\<^verbatim>\<open>cnet/base/Timestamp.h\<close>, \<^verbatim>\<open>Timestamp.cc\<close>). The class has one member, the
  microseconds since the epoch as an \<^verbatim>\<open>int64_t\<close>, and is modelled by that number (\<open>int\<close>; the
  values in use are far inside the 64-bit range, which \<open>int64_ok\<close> names where a lemma needs it).
  \<^verbatim>\<open>double\<close> seconds are exact rationals, so the rounding of the conversions is the truncation that
  the source writes as a cast and nothing else.
\<close>

type_synonym Timestamp = int

definition kMicroSecondsPerSecond :: int where
  "kMicroSecondsPerSecond = 1000 * 1000"

definition Timestamp_invalid :: Timestamp where
  "Timestamp_invalid = 0"

definition Timestamp_valid :: "Timestamp \<Rightarrow> bool" where
  "Timestamp_valid t \<longleftrightarrow> 0 < t"

definition Timestamp_swap :: "Timestamp \<Rightarrow> Timestamp \<Rightarrow> Timestamp \<times> Timestamp" where
  "Timestamp_swap this that = (that, this)"

definition secondsSinceEpoch :: "Timestamp \<Rightarrow> int" where
  "secondsSinceEpoch t = t sdiv kMicroSecondsPerSecond"

definition fromUnixTime :: "int \<Rightarrow> int \<Rightarrow> Timestamp" where
  "fromUnixTime t microseconds = t * kMicroSecondsPerSecond + microseconds"

text \<open>\<^verbatim>\<open>gettimeofday\<close> gives seconds and microseconds.\<close>

definition Timestamp_now :: "int \<times> int \<Rightarrow> Timestamp" where
  "Timestamp_now tv = (let seconds = fst tv in seconds * kMicroSecondsPerSecond + snd tv)"

definition timeDifference :: "Timestamp \<Rightarrow> Timestamp \<Rightarrow> rat" where
  "timeDifference high low = (let diff = high - low in of_int diff / of_int kMicroSecondsPerSecond)"

text \<open>A cast of a \<^verbatim>\<open>double\<close> to an integer drops the fraction.\<close>

definition trunc_rat :: "rat \<Rightarrow> int" where
  "trunc_rat r = (if 0 \<le> r then \<lfloor>r\<rfloor> else \<lceil>r\<rceil>)"

definition addTime :: "Timestamp \<Rightarrow> rat \<Rightarrow> Timestamp" where
  "addTime timestamp seconds =
     (let delta = trunc_rat (seconds * of_int kMicroSecondsPerSecond) in timestamp + delta)"

definition Timestamp_toString :: "Timestamp \<Rightarrow> string" where
  "Timestamp_toString t =
     (let seconds = t sdiv kMicroSecondsPerSecond;
          microseconds = t smod kMicroSecondsPerSecond
      in take 30 (dec_int seconds @ ''.'' @ dec_int0 6 microseconds))"

section \<open>Lemmas\<close>

lemma kMicroSecondsPerSecond_eq: "kMicroSecondsPerSecond = 1000000"
  by (simp add: kMicroSecondsPerSecond_def)

lemma addTime_ge: "0 \<le> seconds \<Longrightarrow> t \<le> addTime t seconds"
  by (simp add: addTime_def trunc_rat_def kMicroSecondsPerSecond_def)

lemma addTime_less:
  "1 \<le> seconds * 1000000 \<Longrightarrow> t < addTime t seconds"
  by (auto simp: addTime_def trunc_rat_def kMicroSecondsPerSecond_def le_floor_iff
      intro: less_le_trans [of _ 1])

lemma timeDifference_addTime:
  assumes "0 \<le> s"
  shows "timeDifference (addTime t s) t \<le> s" and "s < timeDifference (addTime t s) t + 1 / 1000000"
proof -
  let ?f = "\<lfloor>s * 1000000\<rfloor>"
  have d: "timeDifference (addTime t s) t = of_int ?f / 1000000"
    using assms
    by (simp add: timeDifference_def addTime_def trunc_rat_def kMicroSecondsPerSecond_def)
  have "of_int ?f \<le> s * 1000000" and "s * 1000000 < of_int ?f + 1"
    by linarith+
  then show "timeDifference (addTime t s) t \<le> s"
      "s < timeDifference (addTime t s) t + 1 / 1000000"
    unfolding d by (simp_all add: field_simps)
qed

lemma fromUnixTime_secondsSinceEpoch:
  assumes "0 \<le> s" and "0 \<le> u" and "u < kMicroSecondsPerSecond"
  shows "secondsSinceEpoch (fromUnixTime s u) = s"
proof -
  have "(s * 1000000 + u) div 1000000 = s"
    using assms by (simp add: kMicroSecondsPerSecond_def)
  then show ?thesis
    using assms
    by (simp add: secondsSinceEpoch_def fromUnixTime_def kMicroSecondsPerSecond_def
        signed_divide_int_def sgn_if abs_if split: if_splits)
qed

end
