(* ===== verification/TimerQueue.thy ===== *)
theory TimerQueue
  imports Timestamp "HOL-Library.Product_Lexorder" "HOL-Library.Extended_Nat"
begin

text \<open>
  Timers (\<^verbatim>\<open>cnet/net/Timer.h\<close>, \<^verbatim>\<open>Timer.cc\<close>, \<^verbatim>\<open>TimerId.h\<close>, \<^verbatim>\<open>TimerQueue.h\<close>, \<^verbatim>\<open>TimerQueue.cc\<close>).

  Timers are heap objects: \<open>tq_heap\<close> maps addresses to live objects, \<^verbatim>\<open>new\<close> takes an address from
  the allocator \<open>alloc\<close> (which may hand out a freed one again) and \<^verbatim>\<open>delete\<close> unmaps it, so that a
  use after free or a double free is \<open>None\<close>, like a failed assertion. \<^verbatim>\<open>timers_\<close> is an ordered
  set of pairs, a sorted list; of \<^verbatim>\<open>activeTimers_\<close> and \<^verbatim>\<open>cancelingTimers_\<close> only membership and
  size are used. \<open>settime\<close> is the last value given to \<^verbatim>\<open>timerfd_settime\<close>. Callbacks are tokens;
  what a callback does to the queue (adding and cancelling timers) is a list of \<open>timer_action\<close>s.

  The lemmas show that, whatever the callbacks do, no operation aborts, leaks or touches freed
  memory, and that exactly the due timers run.
\<close>

section \<open>Timer and TimerId\<close>

record 'cb Timer =
  tm_callback :: 'cb
  expiration :: Timestamp
  interval :: rat
  repeat :: bool
  sequence :: int

definition Timer_new :: "'cb \<Rightarrow> Timestamp \<Rightarrow> rat \<Rightarrow> int \<Rightarrow> 'cb Timer" where
  "Timer_new cb when intv seq =
     \<lparr>tm_callback = cb, expiration = when, interval = intv, repeat = (0 < intv), sequence = seq\<rparr>"

definition Timer_restart :: "Timestamp \<Rightarrow> 'cb Timer \<Rightarrow> 'cb Timer" where
  "Timer_restart now t =
     (if repeat t then t\<lparr>expiration := addTime now (interval t)\<rparr>
      else t\<lparr>expiration := Timestamp_invalid\<rparr>)"

record TimerId =
  tid_timer :: nat
  tid_sequence :: int

section \<open>The timer descriptor\<close>

definition howMuchTimeFromNow :: "Timestamp \<Rightarrow> Timestamp \<Rightarrow> int \<times> int" where
  "howMuchTimeFromNow now when =
     (let microseconds = when - now;
          microseconds = (if microseconds < 100 then 100 else microseconds)
      in (microseconds sdiv kMicroSecondsPerSecond,
          (microseconds smod kMicroSecondsPerSecond) * 1000))"

section \<open>State\<close>

type_synonym 'cb timer_heap = "nat \<rightharpoonup> 'cb Timer"

record 'cb TimerQueue =
  tq_heap :: "'cb timer_heap"
  s_numCreated :: int
  timers :: "(Timestamp \<times> nat) list"
  activeTimers :: "(nat \<times> int) set"
  callingExpiredTimers :: bool
  cancelingTimers :: "(nat \<times> int) set"
  settime :: "(int \<times> int) option"

definition TimerQueue_new :: "'cb TimerQueue" where
  "TimerQueue_new = \<lparr>tq_heap = Map.empty, s_numCreated = 0, timers = [], activeTimers = {},
     callingExpiredTimers = False, cancelingTimers = {}, settime = None\<rparr>"

definition sizes_agree :: "'cb TimerQueue \<Rightarrow> bool" where
  "sizes_agree q \<longleftrightarrow> length (timers q) = card (activeTimers q)"

definition resetTimerfd :: "Timestamp \<Rightarrow> Timestamp \<Rightarrow> 'cb TimerQueue \<Rightarrow> 'cb TimerQueue" where
  "resetTimerfd now expire q = q\<lparr>settime := Some (howMuchTimeFromNow now expire)\<rparr>"

section \<open>Operations\<close>

text \<open>\<^verbatim>\<open>new Timer\<close> and \<^verbatim>\<open>delete\<close>.\<close>

definition new_timer ::
  "('cb timer_heap \<Rightarrow> nat) \<Rightarrow> 'cb \<Rightarrow> Timestamp \<Rightarrow> rat \<Rightarrow> 'cb TimerQueue \<Rightarrow> nat \<times> 'cb TimerQueue" where
  "new_timer alloc cb when intv q =
     (let a = alloc (tq_heap q); seq = s_numCreated q + 1
      in (a, q\<lparr>tq_heap := (tq_heap q)(a \<mapsto> Timer_new cb when intv seq), s_numCreated := seq\<rparr>))"

definition delete_timer :: "nat \<Rightarrow> 'cb TimerQueue \<Rightarrow> 'cb TimerQueue option" where
  "delete_timer a q = do {
     assertm (tq_heap q a \<noteq> None);
     Some (q\<lparr>tq_heap := (tq_heap q)(a := None)\<rparr>) }"

definition TimerQueue_insert :: "bool \<Rightarrow> 'cb TimerQueue \<Rightarrow> nat \<Rightarrow> (bool \<times> 'cb TimerQueue) option" where
  "TimerQueue_insert inLoop q a = do {
     assertm inLoop;
     assertm (sizes_agree q);
     timer \<leftarrow> tq_heap q a;
     let when = expiration timer;
     let earliestChanged = (case timers q of [] \<Rightarrow> True | e # _ \<Rightarrow> when < fst e);
     assertm ((when, a) \<notin> set (timers q));
     let q = q\<lparr>timers := insort (when, a) (timers q)\<rparr>;
     assertm ((a, sequence timer) \<notin> activeTimers q);
     let q = q\<lparr>activeTimers := insert (a, sequence timer) (activeTimers q)\<rparr>;
     assertm (sizes_agree q);
     Some (earliestChanged, q) }"

definition addTimerInLoop ::
  "bool \<Rightarrow> Timestamp \<Rightarrow> 'cb TimerQueue \<Rightarrow> nat \<Rightarrow> 'cb TimerQueue option" where
  "addTimerInLoop inLoop now q a = do {
     assertm inLoop;
     (earliestChanged, q) \<leftarrow> TimerQueue_insert inLoop q a;
     timer \<leftarrow> tq_heap q a;
     Some (if earliestChanged then resetTimerfd now (expiration timer) q else q) }"

text \<open>\<^verbatim>\<open>addTiemr\<close> called in the loop thread, where \<^verbatim>\<open>runInLoop\<close> runs the functor at once.\<close>

definition addTiemr ::
  "('cb timer_heap \<Rightarrow> nat) \<Rightarrow> Timestamp \<Rightarrow> 'cb \<Rightarrow> Timestamp \<Rightarrow> rat \<Rightarrow> 'cb TimerQueue \<Rightarrow>
   (TimerId \<times> 'cb TimerQueue) option" where
  "addTiemr alloc now cb when intv q = do {
     let (a, q) = new_timer alloc cb when intv q;
     q \<leftarrow> addTimerInLoop True now q a;
     timer \<leftarrow> tq_heap q a;
     Some (\<lparr>tid_timer = a, tid_sequence = sequence timer\<rparr>, q) }"

definition cancelInLoop :: "bool \<Rightarrow> 'cb TimerQueue \<Rightarrow> TimerId \<Rightarrow> 'cb TimerQueue option" where
  "cancelInLoop inLoop q timerId = do {
     assertm inLoop;
     assertm (sizes_agree q);
     let timer = (tid_timer timerId, tid_sequence timerId);
     q \<leftarrow> (if timer \<in> activeTimers q
           then do {
             t \<leftarrow> tq_heap q (fst timer);
             let entry = (expiration t, fst timer);
             assertm (entry \<in> set (timers q));
             let q = q\<lparr>timers := remove1 entry (timers q)\<rparr>;
             q \<leftarrow> delete_timer (fst timer) q;
             Some (q\<lparr>activeTimers := activeTimers q - {timer}\<rparr>) }
           else if callingExpiredTimers q
           then Some (q\<lparr>cancelingTimers := insert timer (cancelingTimers q)\<rparr>)
           else Some q);
     assertm (sizes_agree q);
     Some q }"

fun erase_active :: "(Timestamp \<times> nat) list \<Rightarrow> 'cb TimerQueue \<Rightarrow> 'cb TimerQueue option" where
  "erase_active [] q = Some q"
| "erase_active (e # es) q = do {
     t \<leftarrow> tq_heap q (snd e);
     let timer = (snd e, sequence t);
     assertm (timer \<in> activeTimers q);
     erase_active es (q\<lparr>activeTimers := activeTimers q - {timer}\<rparr>) }"

text \<open>The sentry's address is above that of every object; addresses of objects are unbounded.\<close>

definition UINTPTR_MAX :: enat where "UINTPTR_MAX = \<infinity>"

definition entry_less :: "Timestamp \<times> nat \<Rightarrow> Timestamp \<times> enat \<Rightarrow> bool" where
  "entry_less e sentry \<longleftrightarrow> (fst e, enat (snd e)) < sentry"

definition getExpired :: "'cb TimerQueue \<Rightarrow> Timestamp \<Rightarrow> ((Timestamp \<times> nat) list \<times> 'cb TimerQueue) option" where
  "getExpired q now = do {
     assertm (sizes_agree q);
     let sentry = (now, UINTPTR_MAX);
     let expired = takeWhile (\<lambda>e. entry_less e sentry) (timers q);
     let rest = dropWhile (\<lambda>e. entry_less e sentry) (timers q);
     assertm (case rest of [] \<Rightarrow> True | e # _ \<Rightarrow> now < fst e);
     q \<leftarrow> erase_active expired (q\<lparr>timers := rest\<rparr>);
     assertm (sizes_agree q);
     Some (expired, q) }"

fun reset_loop :: "(Timestamp \<times> nat) list \<Rightarrow> Timestamp \<Rightarrow> 'cb TimerQueue \<Rightarrow> 'cb TimerQueue option" where
  "reset_loop [] now q = Some q"
| "reset_loop (e # es) now q = do {
     t \<leftarrow> tq_heap q (snd e);
     let timer = (snd e, sequence t);
     q \<leftarrow> (if repeat t \<and> timer \<notin> cancelingTimers q
           then do {
             let q = q\<lparr>tq_heap := (tq_heap q)(snd e \<mapsto> Timer_restart now t)\<rparr>;
             (_, q) \<leftarrow> TimerQueue_insert True q (snd e);
             Some q }
           else delete_timer (snd e) q);
     reset_loop es now q }"

definition TimerQueue_reset ::
  "(Timestamp \<times> nat) list \<Rightarrow> Timestamp \<Rightarrow> Timestamp \<Rightarrow> 'cb TimerQueue \<Rightarrow> 'cb TimerQueue option" where
  "TimerQueue_reset expired now now' q = do {
     q \<leftarrow> reset_loop expired now q;
     nextExpire \<leftarrow> (case timers q of [] \<Rightarrow> Some Timestamp_invalid
                    | e # _ \<Rightarrow> map_option expiration (tq_heap q (snd e)));
     Some (if Timestamp_valid nextExpire then resetTimerfd now' nextExpire q else q) }"

text \<open>What a callback does to the queue.\<close>

datatype 'cb timer_action = TAdd 'cb Timestamp rat | TCancel TimerId

definition run_action ::
  "('cb timer_heap \<Rightarrow> nat) \<Rightarrow> Timestamp \<Rightarrow> 'cb timer_action \<Rightarrow> 'cb TimerQueue \<Rightarrow> 'cb TimerQueue option" where
  "run_action alloc now act q =
     (case act of
        TAdd cb when intv \<Rightarrow> map_option snd (addTiemr alloc now cb when intv q)
      | TCancel timerId \<Rightarrow> cancelInLoop True q timerId)"

fun run_actions ::
  "('cb timer_heap \<Rightarrow> nat) \<Rightarrow> Timestamp \<Rightarrow> 'cb timer_action list \<Rightarrow> 'cb TimerQueue \<Rightarrow> 'cb TimerQueue option" where
  "run_actions alloc now [] q = Some q"
| "run_actions alloc now (act # acts) q = run_action alloc now act q \<bind> run_actions alloc now acts"

text \<open>
  The three times of \<^verbatim>\<open>handleRead\<close> are the readings of the clock on entry, in the callbacks and
  in the final \<^verbatim>\<open>resetTimerfd\<close>. Running the expired timers: the first result is the
  sequence of callbacks that ran.
\<close>

fun run_expired ::
  "('cb timer_heap \<Rightarrow> nat) \<Rightarrow> Timestamp \<Rightarrow> ('cb \<Rightarrow> 'cb timer_action list) \<Rightarrow> (Timestamp \<times> nat) list \<Rightarrow>
   'cb TimerQueue \<Rightarrow> ('cb list \<times> 'cb TimerQueue) option" where
  "run_expired alloc now acts [] q = Some ([], q)"
| "run_expired alloc now acts (e # es) q = do {
     t \<leftarrow> tq_heap q (snd e);
     q \<leftarrow> run_actions alloc now (acts (tm_callback t)) q;
     (cbs, q) \<leftarrow> run_expired alloc now acts es q;
     Some (tm_callback t # cbs, q) }"

definition TimerQueue_handleRead ::
  "('cb timer_heap \<Rightarrow> nat) \<Rightarrow> ('cb \<Rightarrow> 'cb timer_action list) \<Rightarrow> bool \<Rightarrow> Timestamp \<Rightarrow> Timestamp \<Rightarrow>
   Timestamp \<Rightarrow> 'cb TimerQueue \<Rightarrow> ('cb list \<times> 'cb TimerQueue) option" where
  "TimerQueue_handleRead alloc acts inLoop now now1 now2 q = do {
     assertm inLoop;
     (expired, q) \<leftarrow> getExpired q now;
     let q = q\<lparr>callingExpiredTimers := True, cancelingTimers := {}\<rparr>;
     (cbs, q) \<leftarrow> run_expired alloc now1 acts expired q;
     let q = q\<lparr>callingExpiredTimers := False\<rparr>;
     q \<leftarrow> TimerQueue_reset expired now now2 q;
     Some (cbs, q) }"

fun delete_all :: "(Timestamp \<times> nat) list \<Rightarrow> 'cb TimerQueue \<Rightarrow> 'cb TimerQueue option" where
  "delete_all [] q = Some q"
| "delete_all (e # es) q = delete_timer (snd e) q \<bind> delete_all es"

definition TimerQueue_dtor :: "'cb TimerQueue \<Rightarrow> 'cb TimerQueue option" where
  "TimerQueue_dtor q = delete_all (timers q) q"

section \<open>Invariant\<close>

text \<open>
  \<open>X\<close> are the live timers outside the queue: allocated but not yet inserted, or expired and being
  called. A timer is in the queue or in \<open>X\<close>, never in both, and nothing else is on the heap.
\<close>

definition seq_of :: "'cb timer_heap \<Rightarrow> nat \<Rightarrow> int" where
  "seq_of h a = (case h a of None \<Rightarrow> 0 | Some t \<Rightarrow> sequence t)"

definition alloc_ok :: "('cb timer_heap \<Rightarrow> nat) \<Rightarrow> bool" where
  "alloc_ok alloc \<longleftrightarrow> (\<forall>h. finite (dom h) \<longrightarrow> h (alloc h) = None)"

definition seqs_ok :: "'cb TimerQueue \<Rightarrow> bool" where
  "seqs_ok q \<longleftrightarrow> (\<forall>a t. tq_heap q a = Some t \<longrightarrow> 0 < sequence t \<and> sequence t \<le> s_numCreated q)"

definition TimerQueue_inv :: "'cb TimerQueue \<Rightarrow> nat set \<Rightarrow> bool" where
  "TimerQueue_inv q X \<longleftrightarrow>
     sorted (timers q) \<and> distinct (map snd (timers q)) \<and>
     (\<forall>e \<in> set (timers q). \<exists>t. tq_heap q (snd e) = Some t \<and> expiration t = fst e) \<and>
     activeTimers q = (\<lambda>e. (snd e, seq_of (tq_heap q) (snd e))) ` set (timers q) \<and>
     finite (dom (tq_heap q)) \<and>
     dom (tq_heap q) = snd ` set (timers q) \<union> X \<and> snd ` set (timers q) \<inter> X = {} \<and>
     0 \<le> s_numCreated q \<and> seqs_ok q"

lemma TimerQueue_invD:
  assumes "TimerQueue_inv q X"
  shows "sorted (timers q)" and "distinct (map snd (timers q))"
    and "\<forall>e \<in> set (timers q). \<exists>t. tq_heap q (snd e) = Some t \<and> expiration t = fst e"
    and "activeTimers q = (\<lambda>e. (snd e, seq_of (tq_heap q) (snd e))) ` set (timers q)"
    and "finite (dom (tq_heap q))"
    and "dom (tq_heap q) = snd ` set (timers q) \<union> X"
    and "snd ` set (timers q) \<inter> X = {}"
    and "0 \<le> s_numCreated q" and "seqs_ok q"
  using assms unfolding TimerQueue_inv_def by blast+

lemma TimerQueue_new_inv: "TimerQueue_inv TimerQueue_new {}"
  by (simp add: TimerQueue_inv_def TimerQueue_new_def seqs_ok_def)

lemma inv_sizes:
  assumes "TimerQueue_inv q X"
  shows "sizes_agree q"
proof -
  have d: "distinct (map snd (timers q))"
    using assms by (simp add: TimerQueue_inv_def)
  have "inj_on (\<lambda>e. (snd e, seq_of (tq_heap q) (snd e))) (set (timers q))"
    using d by (auto simp: distinct_map inj_on_def)
  then have "card (activeTimers q) = card (set (timers q))"
    using assms by (simp add: TimerQueue_inv_def card_image)
  also have "\<dots> = length (timers q)"
    using d by (simp add: distinct_map distinct_card)
  finally show ?thesis
    by (simp add: sizes_agree_def)
qed

lemma inv_flags [simp]:
  "TimerQueue_inv (q\<lparr>callingExpiredTimers := b\<rparr>) X = TimerQueue_inv q X"
  "TimerQueue_inv (q\<lparr>cancelingTimers := c\<rparr>) X = TimerQueue_inv q X"
  "TimerQueue_inv (q\<lparr>settime := s\<rparr>) X = TimerQueue_inv q X"
  by (simp_all add: TimerQueue_inv_def seqs_ok_def)

lemma inv_detached:
  assumes "TimerQueue_inv q X" and "a \<in> X"
  obtains t where "tq_heap q a = Some t" and "(a, sequence t) \<notin> activeTimers q"
    and "\<And>e. (e, a) \<notin> set (timers q)"
proof -
  have "a \<in> dom (tq_heap q)" and n: "a \<notin> snd ` set (timers q)"
    using assms by (auto simp: TimerQueue_inv_def)
  then obtain t where t: "tq_heap q a = Some t" by auto
  have act: "activeTimers q = (\<lambda>e. (snd e, seq_of (tq_heap q) (snd e))) ` set (timers q)"
    using assms by (simp add: TimerQueue_inv_def)
  have "(a, sequence t) \<notin> activeTimers q" and "(e, a) \<notin> set (timers q)" for e
    unfolding act using n by force+
  with t show thesis by (rule that)
qed

text \<open>\<^verbatim>\<open>insert\<close> moves a detached timer into the queue.\<close>

lemma insert_ok:
  assumes inv: "TimerQueue_inv q X" and a: "a \<in> X" and t: "tq_heap q a = Some t"
  shows "\<exists>b q'. TimerQueue_insert True q a = Some (b, q') \<and> TimerQueue_inv q' (X - {a})
    \<and> tq_heap q' = tq_heap q \<and> timers q' = insort (expiration t, a) (timers q)
    \<and> s_numCreated q' = s_numCreated q \<and> cancelingTimers q' = cancelingTimers q
    \<and> callingExpiredTimers q' = callingExpiredTimers q"
proof -
  let ?e = "(expiration t, a)"
  let ?q = "q\<lparr>timers := insort ?e (timers q), activeTimers := insert (a, sequence t) (activeTimers q)\<rparr>"
  have n: "(a, sequence t) \<notin> activeTimers q" "?e \<notin> set (timers q)" "a \<notin> snd ` set (timers q)"
    using inv_detached [OF inv a] t inv a by (auto simp: TimerQueue_inv_def)
  have "distinct (map snd (insort ?e (timers q)))"
    using n(2,3) inv
    by (auto simp: TimerQueue_inv_def distinct_map distinct_insort set_insort_key inj_on_def)
  then have "TimerQueue_inv ?q (X - {a})"
    using inv a t n
    by (auto simp: TimerQueue_inv_def sorted_insort set_insort_key seq_of_def seqs_ok_def)
  moreover have "TimerQueue_insert True q a
      = Some (case timers q of [] \<Rightarrow> True | x # _ \<Rightarrow> expiration t < fst x, ?q)"
    using n(1,2) t inv_sizes [OF inv] inv_sizes [OF calculation]
    by (simp add: TimerQueue_insert_def Let_def)
  ultimately show ?thesis by auto
qed

lemma delete_ok:
  assumes inv: "TimerQueue_inv q X" and a: "a \<in> X"
  shows "\<exists>q'. delete_timer a q = Some q' \<and> TimerQueue_inv q' (X - {a})
    \<and> tq_heap q' = (tq_heap q)(a := None) \<and> cancelingTimers q' = cancelingTimers q"
proof -
  let ?q = "q\<lparr>tq_heap := (tq_heap q)(a := None)\<rparr>"
  have n: "a \<notin> snd ` set (timers q)" and d: "a \<in> dom (tq_heap q)"
    using inv a by (auto simp: TimerQueue_inv_def)
  have same: "seq_of ((tq_heap q)(a := None)) (snd e) = seq_of (tq_heap q) (snd e)"
      "((tq_heap q)(a := None)) (snd e) = tq_heap q (snd e)" if "e \<in> set (timers q)" for e
    using that n by (auto simp: seq_of_def)
  have "TimerQueue_inv ?q (X - {a})"
    using inv a n same
    by (auto simp: TimerQueue_inv_def seqs_ok_def image_iff split: if_splits)
  with d show ?thesis
    by (auto simp: delete_timer_def)
qed

lemma new_timer_ok:
  assumes inv: "TimerQueue_inv q X" and alloc: "alloc_ok alloc"
    and new: "new_timer alloc cb when intv q = (a, q')"
  shows "TimerQueue_inv q' (insert a X)" and "a \<notin> dom (tq_heap q)"
    and "tq_heap q' = (tq_heap q)(a \<mapsto> Timer_new cb when intv (s_numCreated q + 1))"
    and "s_numCreated q' = s_numCreated q + 1" and "cancelingTimers q' = cancelingTimers q"
    and "timers q' = timers q"
proof -
  let ?t = "Timer_new cb when intv (s_numCreated q + 1)"
  have q': "a = alloc (tq_heap q)"
      "q' = q\<lparr>tq_heap := (tq_heap q)(a \<mapsto> ?t), s_numCreated := s_numCreated q + 1\<rparr>"
    using new by (auto simp: new_timer_def Let_def)
  have "finite (dom (tq_heap q))"
    using inv unfolding TimerQueue_inv_def by blast
  then have free: "a \<notin> dom (tq_heap q)"
    using alloc q'(1) by (simp add: alloc_ok_def domIff)
  then show "a \<notin> dom (tq_heap q)" by simp
  have n: "a \<notin> snd ` set (timers q)"
    using free inv by (auto simp: TimerQueue_inv_def)
  have same: "seq_of ((tq_heap q)(a \<mapsto> ?t)) (snd e) = seq_of (tq_heap q) (snd e)"
      "((tq_heap q)(a \<mapsto> ?t)) (snd e) = tq_heap q (snd e)" if "e \<in> set (timers q)" for e
    using that n by (auto simp: seq_of_def)
  have "seqs_ok q'"
  proof -
    have "seqs_ok q" and "0 \<le> s_numCreated q"
      using inv by (simp_all add: TimerQueue_inv_def)
    then show ?thesis
      by (force simp: q'(2) seqs_ok_def Timer_new_def)
  qed
  then show "TimerQueue_inv q' (insert a X)"
    using inv free n same by (auto simp: TimerQueue_inv_def q'(2) image_iff)
qed (use new in \<open>auto simp: new_timer_def Let_def\<close>)

lemma seq_bound: "TimerQueue_inv q X \<Longrightarrow> tq_heap q a = Some t \<Longrightarrow> sequence t \<le> s_numCreated q"
  by (auto simp: TimerQueue_inv_def seqs_ok_def)

text \<open>
  A step of a callback keeps the invariant, the timers outside the queue, and never lowers the
  counter; \<open>stable X\<close> says that the detached timers are not touched.
\<close>

definition stable :: "nat set \<Rightarrow> 'cb TimerQueue \<Rightarrow> 'cb TimerQueue \<Rightarrow> bool" where
  "stable X q q' \<longleftrightarrow> (\<forall>a \<in> X. tq_heap q' a = tq_heap q a)"

lemma stable_refl [simp]: "stable X q q"
  by (simp add: stable_def)

lemma stable_trans: "stable X q q' \<Longrightarrow> stable X q' q'' \<Longrightarrow> stable X q q''"
  by (simp add: stable_def)

lemma addTiemr_ok:
  assumes inv: "TimerQueue_inv q X" and alloc: "alloc_ok alloc"
  shows "\<exists>i q'. addTiemr alloc now cb when intv q = Some (i, q') \<and> TimerQueue_inv q' X
    \<and> stable X q q' \<and> cancelingTimers q' = cancelingTimers q
    \<and> callingExpiredTimers q' = callingExpiredTimers q
    \<and> tid_timer i \<notin> dom (tq_heap q) \<and> tid_sequence i = s_numCreated q + 1
    \<and> (tid_timer i, tid_sequence i) \<in> activeTimers q'
    \<and> set (timers q') = insert (when, tid_timer i) (set (timers q))
    \<and> tq_heap q' = (tq_heap q)(tid_timer i \<mapsto> Timer_new cb when intv (s_numCreated q + 1))
    \<and> s_numCreated q' = s_numCreated q + 1"
proof -
  obtain a q1 where new: "new_timer alloc cb when intv q = (a, q1)" by fastforce
  note n = new_timer_ok [OF inv alloc new]
  let ?t = "Timer_new cb when intv (s_numCreated q + 1)"
  have t: "tq_heap q1 a = Some ?t" using n(3) by simp
  obtain b q2 where i: "TimerQueue_insert True q1 a = Some (b, q2)" "TimerQueue_inv q2 (insert a X - {a})"
      "tq_heap q2 = tq_heap q1" "timers q2 = insort (expiration ?t, a) (timers q1)"
      "cancelingTimers q2 = cancelingTimers q1" "callingExpiredTimers q2 = callingExpiredTimers q1"
      "s_numCreated q2 = s_numCreated q1"
    using insert_ok [OF n(1) _ t] by blast
  have aX: "a \<notin> X" using n(2) inv by (auto simp: TimerQueue_inv_def)
  let ?q = "if b then resetTimerfd now (expiration ?t) q2 else q2"
  have c: "callingExpiredTimers q1 = callingExpiredTimers q"
    using new by (auto simp: new_timer_def Let_def)
  have inv': "TimerQueue_inv ?q X"
    using i(2) aX by (simp add: resetTimerfd_def)
  have f: "tq_heap ?q = tq_heap q1" "timers ?q = timers q2" "activeTimers ?q = activeTimers q2"
      "cancelingTimers ?q = cancelingTimers q" "callingExpiredTimers ?q = callingExpiredTimers q"
      "s_numCreated ?q = s_numCreated q + 1"
    using i(3,5,6,7) n(4,5) c by (simp_all add: resetTimerfd_def)
  have seq: "sequence ?t = s_numCreated q + 1" and exp: "expiration ?t = when"
    by (simp_all add: Timer_new_def)
  have "addTiemr alloc now cb when intv q
      = Some (\<lparr>tid_timer = a, tid_sequence = s_numCreated q + 1\<rparr>, ?q)"
    using new i(1,3) t seq by (simp add: addTiemr_def addTimerInLoop_def resetTimerfd_def)
  moreover have "set (timers ?q) = insert (when, a) (set (timers q))"
    using f(2) i(4) n(6) exp by (simp add: set_insort_key)
  moreover have "(a, s_numCreated q + 1) \<in> activeTimers ?q"
    using inv' calculation(2) t f(1) seq by (simp add: TimerQueue_inv_def seq_of_def)
  moreover have "stable X q ?q"
    using f(1) n(3) aX by (auto simp: stable_def)
  ultimately show ?thesis
    using inv' f(1,4,5,6) n(2,3) by (intro exI conjI) (assumption | simp)+
qed

text \<open>Cancelling.\<close>

lemma cancel_active:
  assumes inv: "TimerQueue_inv q X" and act: "(tid_timer i, tid_sequence i) \<in> activeTimers q"
  shows "\<exists>q'. cancelInLoop True q i = Some q' \<and> TimerQueue_inv q' X \<and> stable X q q'
    \<and> cancelingTimers q' = cancelingTimers q \<and> callingExpiredTimers q' = callingExpiredTimers q
    \<and> tq_heap q' = (tq_heap q)(tid_timer i := None)
    \<and> set (timers q') = {e \<in> set (timers q). snd e \<noteq> tid_timer i}"
proof -
  let ?a = "tid_timer i"
  obtain w where w: "(w, ?a) \<in> set (timers q)" "seq_of (tq_heap q) ?a = tid_sequence i"
    using act inv by (auto simp: TimerQueue_inv_def)
  then obtain t where t: "tq_heap q ?a = Some t" "expiration t = w"
    using inv by (force simp: TimerQueue_inv_def)
  let ?q = "q\<lparr>timers := remove1 (w, ?a) (timers q), tq_heap := (tq_heap q)(?a := None),
      activeTimers := activeTimers q - {(?a, tid_sequence i)}\<rparr>"
  have d: "distinct (timers q)" and inj: "inj_on snd (set (timers q))"
    using inv by (auto simp: TimerQueue_inv_def distinct_map)
  have set: "set (remove1 (w, ?a) (timers q)) = {e \<in> set (timers q). snd e \<noteq> ?a}"
  proof -
    have "e = (w, ?a)" if "e \<in> set (timers q)" and "snd e = ?a" for e
      using inj_onD [OF inj, of e "(w, ?a)"] that w(1) by simp
    then have "{e \<in> set (timers q). snd e \<noteq> ?a} = set (timers q) - {(w, ?a)}"
      by (intro set_eqI) (metis (mono_tags, lifting) Diff_iff mem_Collect_eq singletonD singletonI snd_conv)
    then show ?thesis using d by simp
  qed
  have "?a \<in> snd ` set (timers q)"
    using w(1) by force
  then have aX: "?a \<notin> X"
    using TimerQueue_invD(7) [OF inv] by blast
  have act': "activeTimers ?q = (\<lambda>e. (snd e, seq_of (tq_heap ?q) (snd e))) ` set (timers ?q)"
  proof -
    let ?f = "\<lambda>e. (snd e, seq_of (tq_heap q) (snd e))"
    have "(\<lambda>e. (snd e, seq_of (tq_heap ?q) (snd e))) ` set (timers ?q) = ?f ` {e \<in> set (timers q). snd e \<noteq> ?a}"
      using set by (intro image_cong) (simp_all add: seq_of_def)
    also have "\<dots> = ?f ` set (timers q) - {(?a, tid_sequence i)}"
      using w(2) by auto
    also have "?f ` set (timers q) = activeTimers q"
      using inv by (simp add: TimerQueue_inv_def)
    finally show ?thesis by (simp add: fun_upd_def)
  qed
  have dom: "dom (tq_heap ?q) = snd ` set (timers ?q) \<union> X" "snd ` set (timers ?q) \<inter> X = {}"
    using TimerQueue_invD(6,7) [OF inv] set aX by auto
  have "TimerQueue_inv ?q X"
    unfolding TimerQueue_inv_def
  proof (intro conjI act' dom)
    show "sorted (timers ?q)" "finite (dom (tq_heap ?q))" "0 \<le> s_numCreated ?q"
      using TimerQueue_invD(1,5,8) [OF inv] by (simp_all add: sorted_remove1)
    show "distinct (map snd (timers ?q))"
      using d inj set by (simp add: distinct_map inj_on_def)
    show "\<forall>e \<in> set (timers ?q). \<exists>t. tq_heap ?q (snd e) = Some t \<and> expiration t = fst e"
      using inv set by (auto simp: TimerQueue_inv_def)
  qed (use inv in \<open>auto simp: TimerQueue_inv_def seqs_ok_def\<close>)
  moreover from this have "cancelInLoop True q i = Some ?q"
    using act t w(1) inv_sizes [OF inv] inv_sizes
    by (auto simp: cancelInLoop_def delete_timer_def)
  ultimately show ?thesis
    using aX set by (intro exI [of _ ?q]) (auto simp: stable_def)
qed

lemma cancel_inactive:
  assumes inv: "TimerQueue_inv q X" and act: "(tid_timer i, tid_sequence i) \<notin> activeTimers q"
  shows "cancelInLoop True q i = Some (if callingExpiredTimers q
    then q\<lparr>cancelingTimers := insert (tid_timer i, tid_sequence i) (cancelingTimers q)\<rparr> else q)"
  using act inv_sizes [OF inv] by (simp add: cancelInLoop_def sizes_agree_def)

text \<open>Callbacks.\<close>

lemma run_action_ok:
  assumes inv: "TimerQueue_inv q X" and alloc: "alloc_ok alloc"
  shows "\<exists>q'. run_action alloc now act q = Some q' \<and> TimerQueue_inv q' X \<and> stable X q q'
    \<and> cancelingTimers q \<subseteq> cancelingTimers q' \<and> callingExpiredTimers q' = callingExpiredTimers q"
proof (cases act)
  case (TAdd cb w intv)
  then show ?thesis
    using addTiemr_ok [OF inv alloc, of now cb w intv] by (auto simp: run_action_def)
next
  case (TCancel i)
  then show ?thesis
    using cancel_active [OF inv, of i] cancel_inactive [OF inv, of i] inv
    by (cases "(tid_timer i, tid_sequence i) \<in> activeTimers q")
      (auto simp: run_action_def stable_def)
qed

lemma run_actions_ok:
  assumes "TimerQueue_inv q X" and "alloc_ok alloc"
  shows "\<exists>q'. run_actions alloc now acts q = Some q' \<and> TimerQueue_inv q' X \<and> stable X q q'
    \<and> cancelingTimers q \<subseteq> cancelingTimers q' \<and> callingExpiredTimers q' = callingExpiredTimers q"
  using assms(1)
proof (induction acts arbitrary: q)
  case (Cons act acts)
  obtain q1 where q1: "run_action alloc now act q = Some q1" "TimerQueue_inv q1 X" "stable X q q1"
      "cancelingTimers q \<subseteq> cancelingTimers q1" "callingExpiredTimers q1 = callingExpiredTimers q"
    using run_action_ok [OF Cons.prems assms(2)] by blast
  with Cons.IH [OF q1(2)] show ?case
    by (auto intro: stable_trans)
qed simp

lemma run_expired_ok:
  assumes "TimerQueue_inv q X" and "alloc_ok alloc" and "snd ` set es \<subseteq> X"
  shows "\<exists>q'. run_expired alloc now acts es q
      = Some (map (\<lambda>e. tm_callback (the (tq_heap q (snd e)))) es, q')
    \<and> TimerQueue_inv q' X \<and> stable X q q' \<and> cancelingTimers q \<subseteq> cancelingTimers q'"
  using assms(1,3)
proof (induction es arbitrary: q)
  case (Cons e es)
  have eX: "snd e \<in> X" using Cons.prems(2) by simp
  obtain t where t: "tq_heap q (snd e) = Some t"
    using inv_detached [OF Cons.prems(1) eX] by blast
  obtain q1 where q1: "run_actions alloc now (acts (tm_callback t)) q = Some q1"
      "TimerQueue_inv q1 X" "stable X q q1" "cancelingTimers q \<subseteq> cancelingTimers q1"
    using run_actions_ok [OF Cons.prems(1) assms(2)] by blast
  obtain q2 where q2: "run_expired alloc now acts es q1
        = Some (map (\<lambda>e. tm_callback (the (tq_heap q1 (snd e)))) es, q2)"
      "TimerQueue_inv q2 X" "stable X q1 q2" "cancelingTimers q1 \<subseteq> cancelingTimers q2"
    using Cons.IH [OF q1(2)] Cons.prems(2) by auto
  have "map (\<lambda>e. tm_callback (the (tq_heap q1 (snd e)))) es
      = map (\<lambda>e. tm_callback (the (tq_heap q (snd e)))) es"
    using q1(3) Cons.prems(2) by (auto simp: stable_def)
  with t q1 q2 show ?case
    by (auto intro: stable_trans)
qed simp

text \<open>\<^verbatim>\<open>getExpired\<close> splits the sorted list at the current time.\<close>

lemma before_sentry: "entry_less e (now, UINTPTR_MAX) \<longleftrightarrow> fst e \<le> now"
  by (auto simp: entry_less_def UINTPTR_MAX_def less_prod_def)

lemma takeWhile_sorted_filter:
  fixes xs :: "('a :: linorder \<times> 'b :: linorder) list"
  assumes "sorted xs"
  shows "takeWhile (\<lambda>e. fst e \<le> k) xs = filter (\<lambda>e. fst e \<le> k) xs"
    and "dropWhile (\<lambda>e. fst e \<le> k) xs = filter (\<lambda>e. k < fst e) xs"
proof -
  have le: "x \<le> y \<Longrightarrow> fst x \<le> fst y" for x y :: "'a \<times> 'b"
    by (cases x; cases y) (auto simp: less_eq_prod_def)
  show "takeWhile (\<lambda>e. fst e \<le> k) xs = filter (\<lambda>e. fst e \<le> k) xs"
    using assms
  proof (induction xs)
    case (Cons x xs)
    have "filter (\<lambda>e. fst e \<le> k) xs = []" if "k < fst x"
      using Cons.prems that by (auto simp: filter_empty_conv dest!: le)
    with Cons show ?case by auto
  qed simp
  show "dropWhile (\<lambda>e. fst e \<le> k) xs = filter (\<lambda>e. k < fst e) xs"
    using assms
  proof (induction xs)
    case (Cons x xs)
    have "filter (\<lambda>e. k < fst e) xs = xs" if "k < fst x"
      using Cons.prems that by (auto simp: filter_id_conv dest!: le)
    with Cons show ?case by auto
  qed simp
qed

lemma erase_active_ok:
  assumes "\<forall>e \<in> set es. tq_heap q (snd e) \<noteq> None" and "distinct (map snd es)"
    and "\<forall>e \<in> set es. (snd e, seq_of (tq_heap q) (snd e)) \<in> activeTimers q"
  shows "erase_active es q = Some (q\<lparr>activeTimers := activeTimers q -
    (\<lambda>e. (snd e, seq_of (tq_heap q) (snd e))) ` set es\<rparr>)"
  using assms
proof (induction es arbitrary: q)
  case (Cons e es)
  then obtain t where t: "tq_heap q (snd e) = Some t" by auto
  have s: "sequence t = seq_of (tq_heap q) (snd e)" using t by (simp add: seq_of_def)
  let ?q = "q\<lparr>activeTimers := activeTimers q - {(snd e, seq_of (tq_heap q) (snd e))}\<rparr>"
  have "erase_active es ?q = Some (?q\<lparr>activeTimers := activeTimers ?q -
      (\<lambda>e. (snd e, seq_of (tq_heap ?q) (snd e))) ` set es\<rparr>)"
  proof (intro Cons.IH ballI)
    fix x
    assume x: "x \<in> set es"
    moreover have "snd e \<notin> snd ` set es" using Cons.prems(2) by simp
    ultimately have "snd x \<noteq> snd e" by (metis imageI)
    with x Cons.prems(3) show "(snd x, seq_of (tq_heap ?q) (snd x)) \<in> activeTimers ?q"
      by simp
  qed (use Cons.prems in simp_all)
  then show ?case
    using t s Cons.prems(3) by (simp add: Diff_insert2 [symmetric])
qed simp

lemma getExpired_ok:
  assumes inv: "TimerQueue_inv q X"
  shows "\<exists>q'. getExpired q now = Some (filter (\<lambda>e. fst e \<le> now) (timers q), q')
    \<and> TimerQueue_inv q' (X \<union> snd ` {e \<in> set (timers q). fst e \<le> now})
    \<and> timers q' = filter (\<lambda>e. now < fst e) (timers q) \<and> tq_heap q' = tq_heap q
    \<and> s_numCreated q' = s_numCreated q"
proof -
  note I = TimerQueue_invD [OF inv]
  let ?E = "filter (\<lambda>e. fst e \<le> now) (timers q)" and ?R = "filter (\<lambda>e. now < fst e) (timers q)"
  let ?f = "\<lambda>e. (snd e, seq_of (tq_heap q) (snd e))"
  let ?q = "q\<lparr>timers := ?R, activeTimers := activeTimers q - ?f ` set ?E\<rparr>"
  have tw: "takeWhile (\<lambda>e. entry_less e (now, UINTPTR_MAX)) (timers q) = ?E"
      "dropWhile (\<lambda>e. entry_less e (now, UINTPTR_MAX)) (timers q) = ?R"
    using takeWhile_sorted_filter [OF I(1), of now] by (simp_all add: before_sentry)
  have rest: "case ?R of [] \<Rightarrow> True | e # _ \<Rightarrow> now < fst e"
    by (auto split: list.split dest: filter_eq_ConsD)
  have er: "erase_active ?E (q\<lparr>timers := ?R\<rparr>) = Some ?q"
  proof -
    have "\<forall>e \<in> set ?E. tq_heap q (snd e) \<noteq> None"
      using I(3) by fastforce
    moreover have "distinct (map snd ?E)"
      using I(2) by (simp add: distinct_map_filter)
    ultimately show ?thesis
      using I(4) erase_active_ok [of ?E "q\<lparr>timers := ?R\<rparr>"] by simp
  qed
  have part1: "set (timers q) = set ?E \<union> set ?R"
    by auto
  have apart: "snd x \<noteq> snd y" if "x \<in> set ?E" and "y \<in> set ?R" for x y
  proof
    assume "snd x = snd y"
    moreover have "inj_on snd (set (timers q))"
      using I(2) by (simp add: distinct_map)
    ultimately have "x = y"
      using that by (simp add: inj_on_def)
    with that show False by simp
  qed
  have part2: "snd ` set ?E \<inter> snd ` set ?R = {}"
    using apart by (rule disjoint_images)
  have act: "activeTimers ?q = ?f ` set ?R"
  proof -
    have "?f ` set ?E \<inter> ?f ` set ?R = {}"
      using apart by (intro disjoint_images) simp
    moreover have "activeTimers q = ?f ` set ?E \<union> ?f ` set ?R"
      unfolding I(4) part1 image_Un ..
    ultimately show ?thesis by auto
  qed
  have inv': "TimerQueue_inv ?q (X \<union> snd ` set ?E)"
    unfolding TimerQueue_inv_def
  proof (intro conjI)
    show "distinct (map snd (timers ?q))"
      using I(2) by (simp add: distinct_map_filter)
    show "dom (tq_heap ?q) = snd ` set (timers ?q) \<union> (X \<union> snd ` set ?E)"
      using I(6) unfolding part1 image_Un by auto
    show "snd ` set (timers ?q) \<inter> (X \<union> snd ` set ?E) = {}"
      using I(7) part2 unfolding part1 image_Un by auto
  qed (use I act in \<open>simp_all add: sorted_wrt_filter seqs_ok_def\<close>)
  have "getExpired q now = Some (?E, ?q)"
    using inv_sizes [OF inv] inv_sizes [OF inv'] rest er by (simp add: getExpired_def tw)
  with inv' show ?thesis by auto
qed

text \<open>\<^verbatim>\<open>reset\<close> disposes of every expired timer: back into the queue, or freed.\<close>

definition keeps :: "'cb TimerQueue \<Rightarrow> (nat \<times> int) set \<Rightarrow> (Timestamp \<times> nat) \<Rightarrow> bool" where
  "keeps q C e \<longleftrightarrow> (\<exists>t. tq_heap q (snd e) = Some t \<and> repeat t \<and> (snd e, sequence t) \<notin> C)"

lemma inv_restart:
  assumes "TimerQueue_inv q X" and "a \<in> X" and "tq_heap q a = Some t"
  shows "TimerQueue_inv (q\<lparr>tq_heap := (tq_heap q)(a \<mapsto> Timer_restart now t)\<rparr>) X"
proof -
  note I = TimerQueue_invD [OF assms(1)]
  have n: "a \<notin> snd ` set (timers q)"
    using I(7) assms(2) by blast
  have seq: "sequence (Timer_restart now t) = sequence t"
    by (simp add: Timer_restart_def)
  have sq: "seq_of ((tq_heap q)(a \<mapsto> Timer_restart now t)) = seq_of (tq_heap q)"
    using assms(3) seq by (auto simp: seq_of_def)
  have dom: "dom ((tq_heap q)(a \<mapsto> Timer_restart now t)) = dom (tq_heap q)"
    using assms(3) by auto
  have hp: "((tq_heap q)(a \<mapsto> Timer_restart now t)) (snd e) = tq_heap q (snd e)"
    if "e \<in> set (timers q)" for e
    using that n by auto
  have "seqs_ok (q\<lparr>tq_heap := (tq_heap q)(a \<mapsto> Timer_restart now t)\<rparr>)"
    using I(9) assms(3) seq by (auto simp: seqs_ok_def)
  then show ?thesis
    using I hp sq dom unfolding TimerQueue_inv_def by simp
qed

lemma reset_step:
  assumes inv: "TimerQueue_inv q X" and e: "snd e \<in> X"
  shows "\<exists>q'. reset_loop [e] now q = Some q' \<and> TimerQueue_inv q' (X - {snd e})
    \<and> cancelingTimers q' = cancelingTimers q \<and> stable (X - {snd e}) q q'
    \<and> (if keeps q (cancelingTimers q) e
       then set (timers q') = insert (addTime now (interval (the (tq_heap q (snd e)))), snd e) (set (timers q))
       else set (timers q') = set (timers q) \<and> tq_heap q' (snd e) = None)"
proof -
  obtain t where t: "tq_heap q (snd e) = Some t"
    using inv_detached [OF inv e] by blast
  show ?thesis
  proof (cases "keeps q (cancelingTimers q) e")
    case True
    let ?q = "q\<lparr>tq_heap := (tq_heap q)(snd e \<mapsto> Timer_restart now t)\<rparr>"
    have h: "tq_heap ?q (snd e) = Some (Timer_restart now t)" by simp
    have r: "repeat t" "(snd e, sequence t) \<notin> cancelingTimers q"
      using True t by (auto simp: keeps_def)
    obtain b q' where q': "TimerQueue_insert True ?q (snd e) = Some (b, q')"
        "TimerQueue_inv q' (X - {snd e})" "tq_heap q' = tq_heap ?q"
        "timers q' = insort (expiration (Timer_restart now t), snd e) (timers ?q)"
        "cancelingTimers q' = cancelingTimers ?q"
      using insert_ok [OF inv_restart [OF inv e t] e h] by blast
    then show ?thesis
      using True t r by (auto simp: set_insort_key stable_def Timer_restart_def)
  next
    case False
    then have r: "\<not> (repeat t \<and> (snd e, sequence t) \<notin> cancelingTimers q)"
      using t by (auto simp: keeps_def)
    obtain q' where "delete_timer (snd e) q = Some q'" "TimerQueue_inv q' (X - {snd e})"
        "tq_heap q' = (tq_heap q)(snd e := None)" "cancelingTimers q' = cancelingTimers q"
      using delete_ok [OF inv e] by blast
    moreover from this(1) have "timers q' = timers q"
      by (auto simp: delete_timer_def split: if_splits)
    ultimately show ?thesis
      using False t r by (auto simp: stable_def)
  qed
qed

lemma reset_loop_ok:
  assumes "TimerQueue_inv q X" and "snd ` set es \<subseteq> X" and "distinct (map snd es)"
  shows "\<exists>q'. reset_loop es now q = Some q' \<and> TimerQueue_inv q' (X - snd ` set es)
    \<and> set (timers q') = set (timers q) \<union>
        (\<lambda>e. (addTime now (interval (the (tq_heap q (snd e)))), snd e))
          ` {e \<in> set es. keeps q (cancelingTimers q) e}"
  using assms
proof (induction es arbitrary: q X)
  case (Cons e es)
  have e: "snd e \<in> X" "snd e \<notin> snd ` set es" using Cons.prems by simp_all
  obtain q1 where q1: "reset_loop [e] now q = Some q1" "TimerQueue_inv q1 (X - {snd e})"
      "cancelingTimers q1 = cancelingTimers q" "stable (X - {snd e}) q q1"
      "if keeps q (cancelingTimers q) e
       then set (timers q1) = insert (addTime now (interval (the (tq_heap q (snd e)))), snd e) (set (timers q))
       else set (timers q1) = set (timers q) \<and> tq_heap q1 (snd e) = None"
    using reset_step [OF Cons.prems(1) e(1)] by blast
  have "snd ` set es \<subseteq> X" using Cons.prems(2) by simp
  with e(2) have sub: "snd ` set es \<subseteq> X - {snd e}" by blast
  obtain q2 where q2: "reset_loop es now q1 = Some q2" "TimerQueue_inv q2 (X - {snd e} - snd ` set es)"
      "set (timers q2) = set (timers q1) \<union>
        (\<lambda>e. (addTime now (interval (the (tq_heap q1 (snd e)))), snd e))
          ` {e \<in> set es. keeps q1 (cancelingTimers q1) e}"
    using Cons.IH [OF q1(2) sub] Cons.prems(3) by auto
  have hp: "tq_heap q1 (snd x) = tq_heap q (snd x)" if "x \<in> set es" for x
    using that q1(4) sub by (auto simp: stable_def)
  then have kp: "{x \<in> set es. keeps q1 (cancelingTimers q1) x} = {x \<in> set es. keeps q (cancelingTimers q) x}"
    using q1(3) by (auto simp: keeps_def)
  have im: "(\<lambda>e. (addTime now (interval (the (tq_heap q1 (snd e)))), snd e))
        ` {x \<in> set es. keeps q (cancelingTimers q) x}
      = (\<lambda>e. (addTime now (interval (the (tq_heap q (snd e)))), snd e))
        ` {x \<in> set es. keeps q (cancelingTimers q) x}"
    using hp by (intro image_cong) auto
  have split: "{x \<in> set (e # es). keeps q (cancelingTimers q) x} =
      (if keeps q (cancelingTimers q) e then {e} else {}) \<union> {x \<in> set es. keeps q (cancelingTimers q) x}"
    by auto
  have run: "reset_loop (e # es) now q = Some q2"
    using q1(1) q2(1) by (auto split: option.splits bind_splits if_splits)
  have "TimerQueue_inv q2 (X - snd ` set (e # es))"
    using q2(2) by (simp add: Diff_insert2 [symmetric])
  moreover have "set (timers q2) = set (timers q) \<union>
      (\<lambda>e. (addTime now (interval (the (tq_heap q (snd e)))), snd e))
        ` {x \<in> set (e # es). keeps q (cancelingTimers q) x}"
    unfolding split image_Un q2(3) kp im using q1(5) by simp
  ultimately show ?case using run by blast
qed simp

text \<open>The whole of \<^verbatim>\<open>handleRead\<close>.\<close>

lemma reset_ok:
  assumes "TimerQueue_inv q X" and "snd ` set es \<subseteq> X" and "distinct (map snd es)"
  shows "\<exists>q'. TimerQueue_reset es now now' q = Some q' \<and> TimerQueue_inv q' (X - snd ` set es)
    \<and> set (timers q') = set (timers q) \<union>
        (\<lambda>e. (addTime now (interval (the (tq_heap q (snd e)))), snd e))
          ` {e \<in> set es. keeps q (cancelingTimers q) e}
    \<and> (timers q' \<noteq> [] \<longrightarrow> 0 < fst (hd (timers q')) \<longrightarrow>
        settime q' = Some (howMuchTimeFromNow now' (fst (hd (timers q')))))"
proof -
  obtain q1 where q1: "reset_loop es now q = Some q1" "TimerQueue_inv q1 (X - snd ` set es)"
      "set (timers q1) = set (timers q) \<union>
        (\<lambda>e. (addTime now (interval (the (tq_heap q (snd e)))), snd e))
          ` {e \<in> set es. keeps q (cancelingTimers q) e}"
    using reset_loop_ok [OF assms] by blast
  show ?thesis
  proof (cases "timers q1")
    case Nil
    with q1 show ?thesis
      by (simp add: TimerQueue_reset_def Timestamp_valid_def Timestamp_invalid_def)
  next
    case (Cons e es')
    then obtain t where "tq_heap q1 (snd e) = Some t" "expiration t = fst e"
      using TimerQueue_invD(3) [OF q1(2)] by auto
    with q1 Cons show ?thesis
      by (simp add: TimerQueue_reset_def Timestamp_valid_def resetTimerfd_def)
  qed
qed

lemma handleRead_ok:
  fixes now :: Timestamp
  assumes inv: "TimerQueue_inv q X" and alloc: "alloc_ok alloc"
  defines "E \<equiv> filter (\<lambda>e. fst e \<le> now) (timers q)"
  shows "\<exists>q'. TimerQueue_handleRead alloc acts True now now1 now2 q
      = Some (map (\<lambda>e. tm_callback (the (tq_heap q (snd e)))) E, q')
    \<and> TimerQueue_inv q' X
    \<and> (timers q' \<noteq> [] \<longrightarrow> 0 < fst (hd (timers q')) \<longrightarrow>
        settime q' = Some (howMuchTimeFromNow now2 (fst (hd (timers q')))))"
proof -
  obtain q1 where q1: "getExpired q now = Some (E, q1)" "TimerQueue_inv q1 (X \<union> snd ` set E)"
      "tq_heap q1 = tq_heap q"
    using getExpired_ok [OF inv, of now] by (auto simp: E_def)
  let ?q1 = "q1\<lparr>callingExpiredTimers := True, cancelingTimers := {}\<rparr>"
  have i1: "TimerQueue_inv ?q1 (X \<union> snd ` set E)" using q1(2) by simp
  obtain q2 where q2: "run_expired alloc now1 acts E ?q1
        = Some (map (\<lambda>e. tm_callback (the (tq_heap ?q1 (snd e)))) E, q2)"
      "TimerQueue_inv q2 (X \<union> snd ` set E)"
    using run_expired_ok [OF i1 alloc, of E now1 acts] by blast
  let ?q2 = "q2\<lparr>callingExpiredTimers := False\<rparr>"
  have d: "distinct (map snd E)"
    using TimerQueue_invD(2) [OF inv] by (simp add: E_def distinct_map_filter)
  have i2: "TimerQueue_inv ?q2 (X \<union> snd ` set E)" using q2(2) by simp
  obtain q3 where q3: "TimerQueue_reset E now now2 ?q2 = Some q3"
      "TimerQueue_inv q3 (X \<union> snd ` set E - snd ` set E)"
      "timers q3 \<noteq> [] \<longrightarrow> 0 < fst (hd (timers q3)) \<longrightarrow>
        settime q3 = Some (howMuchTimeFromNow now2 (fst (hd (timers q3))))"
    using reset_ok [OF i2 _ d] by blast
  have "X \<union> snd ` set E - snd ` set E = X"
    using TimerQueue_invD(7) [OF inv] by (auto simp: E_def)
  with q1 q2 q3 show ?thesis
    by (simp add: TimerQueue_handleRead_def)
qed

section \<open>Cancelled timers stay cancelled\<close>

text \<open>
  A cancelled identifier: it is not in the queue, and its timer is either freed or marked for the
  final \<^verbatim>\<open>reset\<close> of the round. Sequence numbers are never used twice, so a new timer at the same
  address has another identifier.
\<close>

definition cancelled :: "'cb TimerQueue \<Rightarrow> TimerId \<Rightarrow> bool" where
  "cancelled q i \<longleftrightarrow> tid_sequence i \<le> s_numCreated q
     \<and> (tid_timer i, tid_sequence i) \<notin> activeTimers q
     \<and> ((tid_timer i, tid_sequence i) \<in> cancelingTimers q
        \<or> (\<forall>t. tq_heap q (tid_timer i) = Some t \<longrightarrow> sequence t \<noteq> tid_sequence i))"

lemma active_iff:
  assumes "TimerQueue_inv q X"
  shows "(a, s) \<in> activeTimers q \<longleftrightarrow>
    (\<exists>t. tq_heap q a = Some t \<and> sequence t = s \<and> (expiration t, a) \<in> set (timers q))"
  using TimerQueue_invD(3,4) [OF assms]
  by (auto simp: seq_of_def image_iff split: option.splits) (force+)?

lemma cancelled_action:
  assumes inv: "TimerQueue_inv q X" and alloc: "alloc_ok alloc" and c: "cancelled q i"
    and run: "run_action alloc now act q = Some q'"
  shows "cancelled q' i"
proof (cases act)
  case (TAdd cb w intv)
  obtain j q1 where add: "addTiemr alloc now cb w intv q = Some (j, q1)"
      and "TimerQueue_inv q1 X" "cancelingTimers q1 = cancelingTimers q"
      "tid_timer j \<notin> dom (tq_heap q)" "set (timers q1) = insert (w, tid_timer j) (set (timers q))"
      "tq_heap q1 = (tq_heap q)(tid_timer j \<mapsto> Timer_new cb w intv (s_numCreated q + 1))"
      "s_numCreated q1 = s_numCreated q + 1"
    using addTiemr_ok [OF inv alloc, of now cb w intv] by blast
  moreover from add run TAdd have "q1 = q'" by (simp add: run_action_def)
  ultimately have j: "TimerQueue_inv q' X" "cancelingTimers q' = cancelingTimers q"
      "tid_timer j \<notin> dom (tq_heap q)" "set (timers q') = insert (w, tid_timer j) (set (timers q))"
      "tq_heap q' = (tq_heap q)(tid_timer j \<mapsto> Timer_new cb w intv (s_numCreated q + 1))"
      "s_numCreated q' = s_numCreated q + 1"
    by simp_all
  from c have "tid_sequence i \<noteq> s_numCreated q + 1" by (simp add: cancelled_def)
  with j c show ?thesis
    by (auto simp: cancelled_def active_iff [OF inv] active_iff [OF j(1)] Timer_new_def)
next
  case (TCancel j)
  show ?thesis
  proof (cases "(tid_timer j, tid_sequence j) \<in> activeTimers q")
    case True
    with cancel_active [OF inv True] run TCancel have "TimerQueue_inv q' X"
        "cancelingTimers q' = cancelingTimers q" "tq_heap q' = (tq_heap q)(tid_timer j := None)"
        "set (timers q') = {e \<in> set (timers q). snd e \<noteq> tid_timer j}" "s_numCreated q' = s_numCreated q"
      by (auto simp: run_action_def cancelInLoop_def delete_timer_def split: bind_splits if_splits)
    with c show ?thesis
      by (auto simp: cancelled_def active_iff [OF inv] active_iff)
  next
    case False
    with cancel_inactive [OF inv False] run TCancel c show ?thesis
      by (cases "callingExpiredTimers q") (auto simp: run_action_def cancelled_def)
  qed
qed

lemma cancel_cancels:
  assumes inv: "TimerQueue_inv q X" and "tid_sequence i \<le> s_numCreated q"
    and "callingExpiredTimers q" and run: "cancelInLoop True q i = Some q'"
  shows "cancelled q' i"
proof (cases "(tid_timer i, tid_sequence i) \<in> activeTimers q")
  case True
  with cancel_active [OF inv True] run have "TimerQueue_inv q' X"
      "tq_heap q' = (tq_heap q)(tid_timer i := None)" "s_numCreated q' = s_numCreated q"
    by (auto simp: cancelInLoop_def delete_timer_def split: bind_splits if_splits)
  with assms(2) show ?thesis
    by (auto simp: cancelled_def active_iff)
next
  case False
  with cancel_inactive [OF inv False] assms show ?thesis
    by (auto simp: cancelled_def)
qed

lemma numCreated_action:
  assumes "TimerQueue_inv q X" and "alloc_ok alloc" and "run_action alloc now act q = Some q'"
  shows "s_numCreated q \<le> s_numCreated q'"
proof (cases act)
  case (TAdd cb w intv)
  with addTiemr_ok [OF assms(1,2), of now cb w intv] assms(3) show ?thesis
    by (auto simp: run_action_def)
next
  case (TCancel i)
  with assms(3) show ?thesis
    by (auto simp: run_action_def cancelInLoop_def delete_timer_def split: bind_splits if_splits)
qed

text \<open>Once cancelled during a round, cancelled until its end, and then out of the queue.\<close>

lemma cancelled_actions:
  assumes "TimerQueue_inv q X" and "alloc_ok alloc" and "callingExpiredTimers q"
    and "tid_sequence i \<le> s_numCreated q" and "run_actions alloc now acts q = Some q'"
    and "cancelled q i \<or> TCancel i \<in> set acts"
  shows "cancelled q' i"
  using assms(1,3-6)
proof (induction acts arbitrary: q)
  case (Cons act acts)
  obtain q1 where q1: "run_action alloc now act q = Some q1" "TimerQueue_inv q1 X"
      "callingExpiredTimers q1 = callingExpiredTimers q"
    using run_action_ok [OF Cons.prems(1) assms(2)] by blast
  have "cancelled q1 i \<or> TCancel i \<in> set acts"
  proof (cases "act = TCancel i")
    case True
    with q1(1) show ?thesis
      using cancel_cancels [OF Cons.prems(1,3,2)] by (auto simp: run_action_def)
  next
    case False
    with Cons.prems(5) show ?thesis
      using cancelled_action [OF Cons.prems(1) assms(2) _ q1(1)] by auto
  qed
  then show ?case
    using Cons.IH [OF q1(2)] q1 Cons.prems numCreated_action [OF Cons.prems(1) assms(2) q1(1)]
    by simp
qed simp

lemma numCreated_actions:
  assumes "TimerQueue_inv q X" and "alloc_ok alloc" and "run_actions alloc now acts q = Some q'"
  shows "s_numCreated q \<le> s_numCreated q'"
  using assms(1,3)
proof (induction acts arbitrary: q)
  case (Cons act acts)
  obtain q1 where q1: "run_action alloc now act q = Some q1" "TimerQueue_inv q1 X"
    using run_action_ok [OF Cons.prems(1) assms(2)] by blast
  with Cons.IH [OF q1(2)] Cons.prems(2) numCreated_action [OF Cons.prems(1) assms(2) q1(1)]
  show ?case by simp
qed simp

lemma cancelled_expired:
  assumes "TimerQueue_inv q X" and "alloc_ok alloc" and "callingExpiredTimers q"
    and "snd ` set es \<subseteq> X" and "tid_sequence i \<le> s_numCreated q"
    and "run_expired alloc now acts es q = Some (cbs, q')"
    and "cancelled q i \<or> (\<exists>cb \<in> set cbs. TCancel i \<in> set (acts cb))"
  shows "cancelled q' i"
  using assms(1,3-7)
proof (induction es arbitrary: q cbs)
  case (Cons e es)
  obtain t where t: "tq_heap q (snd e) = Some t"
  proof -
    have "snd e \<in> X" using Cons.prems(3) by simp
    from inv_detached [OF Cons.prems(1) this] that show thesis by blast
  qed
  obtain q1 where q1: "run_actions alloc now (acts (tm_callback t)) q = Some q1"
      "TimerQueue_inv q1 X" "callingExpiredTimers q1 = callingExpiredTimers q"
    using run_actions_ok [OF Cons.prems(1) assms(2)] by blast
  obtain cbs' where r: "run_expired alloc now acts es q1 = Some (cbs', q')" "cbs = tm_callback t # cbs'"
    using Cons.prems(5) t q1(1) by (auto elim!: bind_SomeE split: prod.splits)
  have "cancelled q1 i \<or> (\<exists>cb \<in> set cbs'. TCancel i \<in> set (acts cb))"
    using Cons.prems(6) r(2) cancelled_actions [OF Cons.prems(1) assms(2) Cons.prems(2,4) q1(1)]
    by auto
  moreover have "tid_sequence i \<le> s_numCreated q1"
    using numCreated_actions [OF Cons.prems(1) assms(2) q1(1)] Cons.prems(4) by simp
  ultimately show ?case
    using Cons.IH [OF q1(2) _ _ _ r(1)] q1(3) Cons.prems(2,3) by simp
qed simp

lemma reset_loop_seq:
  assumes "reset_loop es now q = Some q'" and "tq_heap q' a = Some t"
  shows "\<exists>t0. tq_heap q a = Some t0 \<and> sequence t0 = sequence t"
  using assms
proof (induction es arbitrary: q)
  case (Cons e es)
  obtain t1 where t1: "tq_heap q (snd e) = Some t1"
    using Cons.prems(1) by (auto elim!: bind_SomeE)
  obtain q1 where q1: "reset_loop es now q1 = Some q'"
      "tq_heap q1 = (tq_heap q)(snd e := None) \<or> tq_heap q1 = (tq_heap q)(snd e \<mapsto> Timer_restart now t1)"
    using Cons.prems(1) t1
    by (auto simp: delete_timer_def TimerQueue_insert_def elim!: bind_SomeE split: if_splits prod.splits)
  from Cons.IH [OF q1(1) Cons.prems(2)] q1(2) t1 show ?case
    by (auto simp: Timer_restart_def split: if_splits)
qed simp

lemma cancelled_reset:
  assumes inv: "TimerQueue_inv q X" and "snd ` set es \<subseteq> X" and "distinct (map snd es)"
    and c: "cancelled q i" and run: "TimerQueue_reset es now now' q = Some q'"
  shows "(tid_timer i, tid_sequence i) \<notin> activeTimers q'"
proof
  let ?a = "tid_timer i"
  assume act: "(?a, tid_sequence i) \<in> activeTimers q'"
  obtain q1 where q1: "reset_loop es now q = Some q1" "TimerQueue_inv q1 (X - snd ` set es)"
      "set (timers q1) = set (timers q) \<union>
        (\<lambda>e. (addTime now (interval (the (tq_heap q (snd e)))), snd e))
          ` {e \<in> set es. keeps q (cancelingTimers q) e}"
    using reset_loop_ok [OF inv assms(2,3)] by blast
  have "activeTimers q' = activeTimers q1"
    using run q1(1) by (auto simp: TimerQueue_reset_def resetTimerfd_def split: bind_splits list.splits if_splits)
  with act obtain t where t: "tq_heap q1 ?a = Some t" "sequence t = tid_sequence i"
      "(expiration t, ?a) \<in> set (timers q1)"
    using active_iff [OF q1(2)] by auto
  have hp: "\<exists>t0. tq_heap q ?a = Some t0 \<and> sequence t0 = sequence t"
    using reset_loop_seq [OF q1(1) t(1)] .
  then obtain t0 where t0: "tq_heap q ?a = Some t0" "sequence t0 = tid_sequence i"
    using t(2) by auto
  with c have cn: "(?a, tid_sequence i) \<in> cancelingTimers q" "(?a, tid_sequence i) \<notin> activeTimers q"
    by (auto simp: cancelled_def)
  from t(3) q1(3) have "?a \<in> snd ` set (timers q) \<or> (\<exists>e. snd e = ?a \<and> keeps q (cancelingTimers q) e)"
    by force
  then show False
  proof
    assume "?a \<in> snd ` set (timers q)"
    with TimerQueue_invD(3) [OF inv] t0 have "(expiration t0, ?a) \<in> set (timers q)" by force
    with cn(2) t0 show False by (simp add: active_iff [OF inv])
  next
    assume "\<exists>e. snd e = ?a \<and> keeps q (cancelingTimers q) e"
    with t0 cn(1) show False by (auto simp: keeps_def)
  qed
qed

section \<open>A client's history\<close>

text \<open>Any interleaving of additions, cancellations and expirations in the loop thread.\<close>

datatype 'cb timer_event = EvAct Timestamp "'cb timer_action" | EvExpire Timestamp Timestamp Timestamp

fun run_timer_events ::
  "('cb timer_heap \<Rightarrow> nat) \<Rightarrow> ('cb \<Rightarrow> 'cb timer_action list) \<Rightarrow> 'cb timer_event list \<Rightarrow>
   'cb TimerQueue \<Rightarrow> 'cb TimerQueue option" where
  "run_timer_events alloc acts [] q = Some q"
| "run_timer_events alloc acts (EvAct now act # evs) q =
     run_action alloc now act q \<bind> run_timer_events alloc acts evs"
| "run_timer_events alloc acts (EvExpire now now1 now2 # evs) q =
     map_option snd (TimerQueue_handleRead alloc acts True now now1 now2 q)
       \<bind> run_timer_events alloc acts evs"

lemma run_timer_events_ok:
  assumes "TimerQueue_inv q X" and "alloc_ok alloc"
  shows "\<exists>q'. run_timer_events alloc acts evs q = Some q' \<and> TimerQueue_inv q' X"
  using assms(1)
proof (induction evs arbitrary: q)
  case (Cons ev evs)
  show ?case
  proof (cases ev)
    case (EvAct now act)
    with run_action_ok [OF Cons.prems assms(2), of now act] Cons.IH show ?thesis by auto
  next
    case (EvExpire now now1 now2)
    with handleRead_ok [OF Cons.prems assms(2), of acts now now1 now2] Cons.IH show ?thesis by auto
  qed
qed simp

lemma inv_no_leak:
  "TimerQueue_inv q {} \<Longrightarrow> dom (tq_heap q) = snd ` set (timers q)"
  using TimerQueue_invD(6) by blast

text \<open>An allocator: the address above all live ones.\<close>

definition next_alloc :: "'cb timer_heap \<Rightarrow> nat" where
  "next_alloc h = (if dom h = {} then 1 else Suc (Max (dom h)))"

lemma next_alloc_ok: "alloc_ok (next_alloc :: 'cb timer_heap \<Rightarrow> nat)"
proof -
  have "h (next_alloc h) = None" if "finite (dom h)" for h :: "'cb timer_heap"
  proof (rule ccontr)
    assume "h (next_alloc h) \<noteq> None"
    then have "next_alloc h \<in> dom h" by auto
    then have "next_alloc h \<le> Max (dom h)" and "dom h \<noteq> {}" using that by auto
    then show False by (simp add: next_alloc_def)
  qed
  then show ?thesis by (simp add: alloc_ok_def)
qed

section \<open>Properties\<close>

text \<open>C5: Whatever the callbacks do (add timers, cancel any identifier, current, stale or their own),
  \<^verbatim>\<open>handleRead\<close> trips no assertion and touches no freed timer; it runs exactly the timers due at
  \<^verbatim>\<open>now\<close>, each once, in the order of expiration; afterwards every live timer is in the queue again
  (nothing leaks), and the descriptor is armed for the new first expiration.\<close>

theorem timer_handleRead_correct:
  assumes "TimerQueue_inv q {}" and "alloc_ok alloc"
  shows "\<exists>q'. TimerQueue_handleRead alloc acts True now now1 now2 q
      = Some (map (\<lambda>e. tm_callback (the (tq_heap q (snd e)))) (filter (\<lambda>e. fst e \<le> now) (timers q)), q')
    \<and> sorted (map fst (filter (\<lambda>e. fst e \<le> now) (timers q)))
    \<and> TimerQueue_inv q' {} \<and> dom (tq_heap q') = snd ` set (timers q')
    \<and> (timers q' \<noteq> [] \<longrightarrow> 0 < fst (hd (timers q')) \<longrightarrow>
        settime q' = Some (howMuchTimeFromNow now2 (fst (hd (timers q')))))"
proof -
  have "sorted (map fst (timers q))"
    using TimerQueue_invD(1) [OF assms(1)]
    by (auto simp: sorted_map less_eq_prod_def elim!: sorted_wrt_mono_rel [rotated])
  then show ?thesis
    using handleRead_ok [OF assms, of acts now now1 now2] inv_no_leak
    by (fastforce simp: sorted_filter)
qed

theorem timer_handleRead_correct_witness:
  "\<exists>q q'. run_timer_events next_alloc (\<lambda>_. []) [EvAct 5 (TAdd ''a'' 10 0), EvAct 5 (TAdd ''b'' 20 0)]
        TimerQueue_new = Some q
     \<and> TimerQueue_handleRead next_alloc (\<lambda>_. []) True 15 15 15 q = Some ([''a''], q')
     \<and> dom (tq_heap q') = snd ` set (timers q')"
proof -
  let ?q = "\<lparr>tq_heap = [1 \<mapsto> Timer_new ''a'' 10 0 1, 2 \<mapsto> Timer_new ''b'' 20 0 2], s_numCreated = 2,
     timers = [(10, 1), (20, 2)], activeTimers = {(2, 2), (1, 1)}, callingExpiredTimers = False,
     cancelingTimers = {}, settime = Some (howMuchTimeFromNow 5 10)\<rparr> :: string TimerQueue"
  have r: "run_timer_events next_alloc (\<lambda>_. []) [EvAct 5 (TAdd ''a'' 10 0), EvAct 5 (TAdd ''b'' 20 0)]
      TimerQueue_new = Some ?q"
    by (simp add: run_action_def addTiemr_def new_timer_def addTimerInLoop_def TimerQueue_insert_def
        TimerQueue_new_def next_alloc_def sizes_agree_def resetTimerfd_def Timer_new_def insert_commute
        numeral_2_eq_2)
  have "TimerQueue_inv ?q {}"
    using run_timer_events_ok [OF TimerQueue_new_inv next_alloc_ok] r by (metis option.inject)
  from timer_handleRead_correct [OF this next_alloc_ok, of "\<lambda>_. []" 15 15 15] r show ?thesis
    by (auto simp: Timer_new_def)
qed

text \<open>C17: A timer cancelled by a callback of the round (also by its own callback, also a repeating
  one) is not in the queue after the round, even if its address was given to a new timer.\<close>

theorem timer_cancel_effective:
  assumes inv: "TimerQueue_inv q {}" and alloc: "alloc_ok alloc"
    and old: "tid_sequence i \<le> s_numCreated q"
    and run: "TimerQueue_handleRead alloc acts True now now1 now2 q = Some (cbs, q')"
    and can: "\<exists>cb \<in> set cbs. TCancel i \<in> set (acts cb)"
  shows "(tid_timer i, tid_sequence i) \<notin> activeTimers q'"
proof -
  let ?E = "filter (\<lambda>e. fst e \<le> now) (timers q)"
  obtain q1 where q1: "getExpired q now = Some (?E, q1)" "TimerQueue_inv q1 (snd ` set ?E)"
      "s_numCreated q1 = s_numCreated q"
    using getExpired_ok [OF inv, of now] by auto
  let ?q1 = "q1\<lparr>callingExpiredTimers := True, cancelingTimers := {}\<rparr>"
  obtain q2 where q2: "run_expired alloc now1 acts ?E ?q1 = Some (cbs, q2)"
      "TimerQueue_reset ?E now now2 (q2\<lparr>callingExpiredTimers := False\<rparr>) = Some q'"
    using run q1(1) by (auto simp: TimerQueue_handleRead_def elim!: bind_SomeE split: prod.splits)
  have i1: "TimerQueue_inv ?q1 (snd ` set ?E)" using q1(2) by simp
  have "cancelled q2 i"
    by (rule cancelled_expired [OF i1 alloc _ _ _ q2(1)]) (use old q1(3) can in simp_all)
  then have c: "cancelled (q2\<lparr>callingExpiredTimers := False\<rparr>) i"
    by (simp add: cancelled_def)
  have i2: "TimerQueue_inv (q2\<lparr>callingExpiredTimers := False\<rparr>) (snd ` set ?E)"
    using run_expired_ok [OF i1 alloc, of ?E now1 acts] q2(1) by auto
  have d: "distinct (map snd ?E)"
    using TimerQueue_invD(2) [OF inv] by (simp add: distinct_map_filter)
  from cancelled_reset [OF i2 subset_refl d c q2(2)] show ?thesis .
qed

theorem timer_cancel_effective_witness:
  "\<exists>q q'. run_timer_events next_alloc (\<lambda>_. []) [EvAct 5 (TAdd ''a'' 10 1)] TimerQueue_new = Some q
     \<and> TimerQueue_handleRead next_alloc (\<lambda>_. [TCancel \<lparr>tid_timer = 1, tid_sequence = 1\<rparr>]) True 15 15 15 q
        = Some ([''a''], q')
     \<and> (1, 1) \<notin> activeTimers q'"
proof -
  let ?i = "\<lparr>tid_timer = 1, tid_sequence = 1\<rparr>"
  let ?q = "\<lparr>tq_heap = [1 \<mapsto> Timer_new ''a'' 10 1 1], s_numCreated = 1,
     timers = [(10, 1)], activeTimers = {(1, 1)}, callingExpiredTimers = False,
     cancelingTimers = {}, settime = Some (howMuchTimeFromNow 5 10)\<rparr> :: string TimerQueue"
  have r: "run_timer_events next_alloc (\<lambda>_. []) [EvAct 5 (TAdd ''a'' 10 1)] TimerQueue_new = Some ?q"
    by (simp add: run_action_def addTiemr_def new_timer_def addTimerInLoop_def TimerQueue_insert_def
        TimerQueue_new_def next_alloc_def sizes_agree_def resetTimerfd_def Timer_new_def)
  have inv: "TimerQueue_inv ?q {}"
    using run_timer_events_ok [OF TimerQueue_new_inv next_alloc_ok] r by (metis option.inject)
  obtain q' where h: "TimerQueue_handleRead next_alloc (\<lambda>_. [TCancel ?i]) True 15 15 15 ?q = Some ([''a''], q')"
    using handleRead_ok [OF inv next_alloc_ok, of "\<lambda>_. [TCancel ?i]" 15 15 15]
    by (auto simp: Timer_new_def)
  from timer_cancel_effective [OF inv next_alloc_ok _ h, of ?i] r h show ?thesis
    by auto
qed

text \<open>C19: Over any history of additions, cancellations and expirations on a new queue, no operation
  aborts and the heap holds exactly the timers of the queue.\<close>

theorem timer_history_safe:
  assumes "alloc_ok alloc"
  shows "\<exists>q. run_timer_events alloc acts evs TimerQueue_new = Some q
    \<and> TimerQueue_inv q {} \<and> dom (tq_heap q) = snd ` set (timers q)"
proof -
  obtain q where "run_timer_events alloc acts evs TimerQueue_new = Some q" and "TimerQueue_inv q {}"
    using run_timer_events_ok [OF TimerQueue_new_inv assms] by blast
  then show ?thesis
    using inv_no_leak by (intro exI [of _ q]) simp
qed

theorem timer_history_safe_witness:
  "\<exists>q. run_timer_events next_alloc (\<lambda>_. [TAdd ''b'' 30 2])
       [EvAct 5 (TAdd ''a'' 10 1), EvExpire 15 15 15, EvAct 16 (TCancel \<lparr>tid_timer = 1, tid_sequence = 1\<rparr>)]
       TimerQueue_new = Some q
    \<and> TimerQueue_inv q {} \<and> dom (tq_heap q) = snd ` set (timers q)"
  by (rule timer_history_safe [OF next_alloc_ok])

text \<open>The delay programmed into the timer descriptor is at least 100 microseconds, is a valid
  \<^verbatim>\<open>timespec\<close>, and never ends before the expiration: in nanoseconds it is a thousand times the
  larger of 100 and the microseconds left.\<close>

theorem howMuchTimeFromNow_exact:
  "case howMuchTimeFromNow now w of
     (sec, nsec) \<Rightarrow> 0 \<le> sec \<and> 0 \<le> nsec \<and> nsec < 1000000000
       \<and> sec * 1000000000 + nsec = 1000 * max 100 (w - now)"
proof -
  define m where "m = max 100 (w - now)"
  have pos: "0 \<le> m" by (simp add: m_def)
  have div: "m sdiv 1000000 = m div 1000000"
    using pos by (simp add: signed_divide_int_def sgn_if abs_of_nonneg)
  have md: "m smod 1000000 = m mod 1000000"
    using pos by (cases "m = 0") (simp_all add: signed_modulo_int_def sgn_if abs_of_nonneg)
  have r: "0 \<le> m mod 1000000" "m mod 1000000 < 1000000" by simp_all
  have "m div 1000000 * 1000000000 + m mod 1000000 * 1000 = 1000 * m"
    using div_mult_mod_eq [of m 1000000] by linarith
  moreover have "0 \<le> m div 1000000" using pos by (simp add: pos_imp_zdiv_nonneg_iff)
  moreover have "(if w - now < 100 then 100 else w - now) = m" by (simp add: m_def)
  ultimately have h: "howMuchTimeFromNow now w = (m div 1000000, (m mod 1000000) * 1000)"
      and "m div 1000000 * 1000000000 + m mod 1000000 * 1000 = 1000 * m" and "0 \<le> m div 1000000"
    by (simp_all only: howMuchTimeFromNow_def kMicroSecondsPerSecond_eq Let_def div md)
  with r show ?thesis
    unfolding h m_def [symmetric] case_prod_conv by linarith
qed

end
