(* ===== verification/Channel.thy ===== *)
theory Channel
  imports Timestamp
begin

unbundle bit_operations_syntax

text \<open>
  \<^verbatim>\<open>cnet::net::Channel\<close> (\<^verbatim>\<open>cnet/net/Channel.h\<close>, \<^verbatim>\<open>Channel.cc\<close>). The record has the members of the
  class. A callback slot holds a token (\<open>'cb\<close>) that names the bound function; the functions that
  run callbacks take an interpreter of tokens on the state of the program. \<^verbatim>\<open>tie_\<close> is a weak
  pointer: whether its object is alive is asked of the program state. Objects live at addresses of
  a heap (\<open>nat \<rightharpoonup> 'cb Channel\<close>), since pollers and loops keep pointers to them.

  The operations that go through the loop (\<^verbatim>\<open>enableReading\<close> and the others, \<^verbatim>\<open>remove\<close>) are in
  the theory of the event loop; here are the events they set, and the dispatch of ready events.
\<close>

section \<open>Event masks\<close>

type_synonym events = "32 word"

definition POLLIN :: events where "POLLIN = 0x001"
definition POLLPRI :: events where "POLLPRI = 0x002"
definition POLLOUT :: events where "POLLOUT = 0x004"
definition POLLERR :: events where "POLLERR = 0x008"
definition POLLHUP :: events where "POLLHUP = 0x010"
definition POLLNVAL :: events where "POLLNVAL = 0x020"
definition POLLRDHUP :: events where "POLLRDHUP = 0x2000"

definition kNoneEvent :: events where "kNoneEvent = 0"
definition kReadEvent :: events where "kReadEvent = POLLIN OR POLLPRI"
definition kWriteEvent :: events where "kWriteEvent = POLLOUT"

lemmas poll_consts = POLLIN_def POLLPRI_def POLLOUT_def POLLERR_def POLLHUP_def POLLNVAL_def
  POLLRDHUP_def kNoneEvent_def kReadEvent_def kWriteEvent_def

section \<open>State\<close>

record 'cb Channel =
  ch_loop :: nat
  ch_fd :: int
  ch_events :: events
  revents :: events
  ch_index :: int
  logHup :: bool
  tied :: bool
  eventHandling :: bool
  addedToLoop :: bool
  readCallback :: "'cb option"
  writeCallback :: "'cb option"
  closeCallback :: "'cb option"
  errorCallback :: "'cb option"

type_synonym 'cb chan_heap = "nat \<rightharpoonup> 'cb Channel"

definition Channel_new :: "nat \<Rightarrow> int \<Rightarrow> 'cb Channel" where
  "Channel_new loop fd =
     \<lparr>ch_loop = loop, ch_fd = fd, ch_events = 0, revents = 0, ch_index = -1, logHup = True,
      tied = False, eventHandling = False, addedToLoop = False,
      readCallback = None, writeCallback = None, closeCallback = None, errorCallback = None\<rparr>"

definition setReadCallback :: "'cb \<Rightarrow> 'cb Channel \<Rightarrow> 'cb Channel" where
  "setReadCallback cb ch = ch\<lparr>readCallback := Some cb\<rparr>"
definition setWriteCallback :: "'cb \<Rightarrow> 'cb Channel \<Rightarrow> 'cb Channel" where
  "setWriteCallback cb ch = ch\<lparr>writeCallback := Some cb\<rparr>"
definition setCloseCallback :: "'cb \<Rightarrow> 'cb Channel \<Rightarrow> 'cb Channel" where
  "setCloseCallback cb ch = ch\<lparr>closeCallback := Some cb\<rparr>"
definition setErrorCallback :: "'cb \<Rightarrow> 'cb Channel \<Rightarrow> 'cb Channel" where
  "setErrorCallback cb ch = ch\<lparr>errorCallback := Some cb\<rparr>"

definition Channel_tie :: "'cb Channel \<Rightarrow> 'cb Channel" where
  "Channel_tie ch = ch\<lparr>tied := True\<rparr>"

definition set_revents :: "events \<Rightarrow> 'cb Channel \<Rightarrow> 'cb Channel" where
  "set_revents revt ch = ch\<lparr>revents := revt\<rparr>"
definition set_index :: "int \<Rightarrow> 'cb Channel \<Rightarrow> 'cb Channel" where
  "set_index idx ch = ch\<lparr>ch_index := idx\<rparr>"
definition doNotLogHup :: "'cb Channel \<Rightarrow> 'cb Channel" where
  "doNotLogHup ch = ch\<lparr>logHup := False\<rparr>"

definition isNoneEvent :: "'cb Channel \<Rightarrow> bool" where
  "isNoneEvent ch \<longleftrightarrow> ch_events ch = kNoneEvent"
definition isWriting :: "'cb Channel \<Rightarrow> bool" where
  "isWriting ch \<longleftrightarrow> ch_events ch AND kWriteEvent \<noteq> 0"
definition isReading :: "'cb Channel \<Rightarrow> bool" where
  "isReading ch \<longleftrightarrow> ch_events ch AND kReadEvent \<noteq> 0"

section \<open>Dispatch of ready events\<close>

text \<open>
  The state \<open>'s\<close> is the program's; \<open>get\<close> reads the channel out of it (\<open>None\<close> when it has been
  destroyed) and \<open>upd\<close> changes the channel in it. A callback may abort.
\<close>

definition call_cb :: "('cb \<Rightarrow> 's \<Rightarrow> 's option) \<Rightarrow> 'cb option \<Rightarrow> 's \<Rightarrow> 's option" where
  "call_cb exec cb s = (case cb of None \<Rightarrow> Some s | Some c \<Rightarrow> exec c s)"

definition handleEventWithGuard ::
  "('s \<Rightarrow> 'cb Channel option) \<Rightarrow> (('cb Channel \<Rightarrow> 'cb Channel) \<Rightarrow> 's \<Rightarrow> 's) \<Rightarrow>
   ('cb \<Rightarrow> Timestamp \<Rightarrow> 's \<Rightarrow> 's option) \<Rightarrow> Timestamp \<Rightarrow> 's \<Rightarrow> 's option" where
  "handleEventWithGuard get upd exec receiveTime s = do {
     let call = call_cb (\<lambda>c. exec c receiveTime);
     let s = upd (eventHandling_update (\<lambda>_. True)) s;
     ch \<leftarrow> get s;
     s \<leftarrow> (if revents ch AND POLLHUP \<noteq> 0 \<and> \<not> (revents ch AND POLLIN \<noteq> 0)
           then call (closeCallback ch) s else Some s);
     ch \<leftarrow> get s;
     s \<leftarrow> (if revents ch AND (POLLERR OR POLLNVAL) \<noteq> 0 then call (errorCallback ch) s else Some s);
     ch \<leftarrow> get s;
     s \<leftarrow> (if revents ch AND (POLLIN OR POLLPRI OR POLLRDHUP) \<noteq> 0
           then call (readCallback ch) s else Some s);
     ch \<leftarrow> get s;
     s \<leftarrow> (if revents ch AND POLLOUT \<noteq> 0 then call (writeCallback ch) s else Some s);
     ch \<leftarrow> get s;
     Some (upd (eventHandling_update (\<lambda>_. False)) s) }"

definition handleEvent ::
  "('s \<Rightarrow> 'cb Channel option) \<Rightarrow> (('cb Channel \<Rightarrow> 'cb Channel) \<Rightarrow> 's \<Rightarrow> 's) \<Rightarrow> ('s \<Rightarrow> bool) \<Rightarrow>
   ('cb \<Rightarrow> Timestamp \<Rightarrow> 's \<Rightarrow> 's option) \<Rightarrow> Timestamp \<Rightarrow> 's \<Rightarrow> 's option" where
  "handleEvent get upd tie_alive exec receiveTime s = do {
     ch \<leftarrow> get s;
     if tied ch
     then if tie_alive s then handleEventWithGuard get upd exec receiveTime s else Some s
     else handleEventWithGuard get upd exec receiveTime s }"

definition Channel_eventsToString :: "int \<Rightarrow> events \<Rightarrow> string" where
  "Channel_eventsToString fd ev =
     dec_int fd @ '': ''
       @ (if ev AND POLLIN \<noteq> 0 then ''IN '' else [])
       @ (if ev AND POLLPRI \<noteq> 0 then ''PRI '' else [])
       @ (if ev AND POLLOUT \<noteq> 0 then ''OUT '' else [])
       @ (if ev AND POLLHUP \<noteq> 0 then ''HUP '' else [])
       @ (if ev AND POLLRDHUP \<noteq> 0 then ''RDHUP '' else [])
       @ (if ev AND POLLERR \<noteq> 0 then ''ERR '' else [])
       @ (if ev AND POLLNVAL \<noteq> 0 then ''NVAL '' else [])"

section \<open>What is dispatched\<close>

text \<open>The callbacks that a set of ready events calls for, in order.\<close>

definition ready_calls :: "'cb Channel \<Rightarrow> 'cb list" where
  "ready_calls ch =
     (let r = revents ch; slot = (\<lambda>b cb. if b then case cb of None \<Rightarrow> [] | Some c \<Rightarrow> [c] else [])
      in slot (r AND POLLHUP \<noteq> 0 \<and> r AND POLLIN = 0) (closeCallback ch)
       @ slot (r AND (POLLERR OR POLLNVAL) \<noteq> 0) (errorCallback ch)
       @ slot (r AND (POLLIN OR POLLPRI OR POLLRDHUP) \<noteq> 0) (readCallback ch)
       @ slot (r AND POLLOUT \<noteq> 0) (writeCallback ch))"

primrec run_calls :: "('cb \<Rightarrow> 's \<Rightarrow> 's option) \<Rightarrow> 'cb list \<Rightarrow> 's \<Rightarrow> 's option" where
  "run_calls exec [] s = Some s"
| "run_calls exec (c # cs) s = exec c s \<bind> run_calls exec cs"

lemma run_calls_append:
  "run_calls exec (xs @ ys) s = run_calls exec xs s \<bind> run_calls exec ys"
  by (induction xs arbitrary: s) (auto split: bind_splits)

text \<open>
  The part of a channel the dispatch reads between two callbacks. Only pollers write \<^verbatim>\<open>revents_\<close>,
  and the slots are set before the channel is enabled, so callbacks leave it alone.
\<close>

definition dispatch_part :: "'cb Channel \<Rightarrow> events \<times> 'cb option \<times> 'cb option \<times> 'cb option \<times> 'cb option" where
  "dispatch_part ch =
     (revents ch, closeCallback ch, errorCallback ch, readCallback ch, writeCallback ch)"

text \<open>
  A view of one channel inside the program's state, and callbacks that respect it: they leave the
  channel alive (what \<^verbatim>\<open>tie\<close> is for) with its dispatch part unchanged.
\<close>

locale channel_view =
  fixes get :: "'s \<Rightarrow> 'cb Channel option"
    and upd :: "('cb Channel \<Rightarrow> 'cb Channel) \<Rightarrow> 's \<Rightarrow> 's"
    and exec :: "'cb \<Rightarrow> Timestamp \<Rightarrow> 's \<Rightarrow> 's option"
  assumes get_upd: "get (upd f s) = map_option f (get s)"
    and exec_part: "get s = Some ch \<Longrightarrow> exec c t s = Some s' \<Longrightarrow>
      \<exists>ch'. get s' = Some ch' \<and> dispatch_part ch' = dispatch_part ch"
begin

definition shows_part :: "'cb Channel \<Rightarrow> 's \<Rightarrow> bool" where
  "shows_part ch s \<longleftrightarrow> (\<exists>ch'. get s = Some ch' \<and> dispatch_part ch' = dispatch_part ch)"

lemma run_calls_part:
  assumes "shows_part ch s" and "run_calls (\<lambda>c. exec c t) cs s = Some s'"
  shows "shows_part ch s'"
  using assms
proof (induction cs arbitrary: s)
  case (Cons c cs)
  obtain s1 where s1: "exec c t s = Some s1" "run_calls (\<lambda>c. exec c t) cs s1 = Some s'"
    using Cons.prems(2) by (auto elim: bind_SomeE)
  from Cons.prems(1) s1(1) have "shows_part ch s1"
    unfolding shows_part_def using exec_part by metis
  with Cons.IH s1(2) show ?case by blast
qed simp

text \<open>One guarded call, followed by whatever only depends on the visible part.\<close>

lemma call_step:
  assumes "shows_part ch s" and "\<And>s'. shows_part ch s' \<Longrightarrow> f s' = g s'"
    and "\<And>c. dispatch_part c = dispatch_part ch \<Longrightarrow> P c = Q \<and> cb c = k"
  shows "(do { c \<leftarrow> get s; s \<leftarrow> (if P c then call_cb (\<lambda>c. exec c t) (cb c) s else Some s); f s })
    = run_calls (\<lambda>c. exec c t) (if Q then case k of None \<Rightarrow> [] | Some c \<Rightarrow> [c] else []) s \<bind> g"
proof -
  obtain c where c: "get s = Some c" "dispatch_part c = dispatch_part ch"
    using assms(1) by (auto simp: shows_part_def)
  have same: "(if P c then call_cb (\<lambda>c. exec c t) (cb c) s else Some s)
      = run_calls (\<lambda>c. exec c t) (if Q then case k of None \<Rightarrow> [] | Some c \<Rightarrow> [c] else []) s" (is "_ = ?r")
    using assms(3) [OF c(2)] by (auto simp: call_cb_def split: option.split bind_split)
  have "(?r \<bind> f) = (?r \<bind> g)"
    using run_calls_part [OF assms(1)] assms(2) by (cases ?r) auto
  with c(1) same show ?thesis by simp
qed

lemma handleEventWithGuard_eq:
  assumes "get s = Some ch"
  shows "handleEventWithGuard get upd exec t s =
     (run_calls (\<lambda>c. exec c t) (ready_calls ch) (upd (eventHandling_update (\<lambda>_. True)) s)
      \<bind> (\<lambda>s. Some (upd (eventHandling_update (\<lambda>_. False)) s)))"
proof -
  let ?s = "upd (eventHandling_update (\<lambda>_. True)) s"
  have p: "shows_part ch ?s"
    using assms by (simp add: shows_part_def get_upd dispatch_part_def)
  show ?thesis
    unfolding handleEventWithGuard_def Let_def ready_calls_def run_calls_append Option.bind_assoc
  proof (rule call_step [OF p], goal_cases)
    case (1 s1)
    show ?case
    proof (rule call_step [OF 1], goal_cases)
      case (1 s2)
      show ?case
      proof (rule call_step [OF 1], goal_cases)
        case (1 s3)
        show ?case
          by (rule call_step [OF 1]) (auto simp: shows_part_def dispatch_part_def)
      qed (simp add: dispatch_part_def)
    qed (simp add: dispatch_part_def)
  qed (simp add: dispatch_part_def)
qed

end

end
