(* ===== verification/Poller.thy ===== *)
theory Poller
  imports Channel
begin

text \<open>
  The pollers (\<^verbatim>\<open>cnet/net/Poller.h\<close>, \<^verbatim>\<open>Poller.cc\<close>, \<^verbatim>\<open>poller/EPollPoller.cc\<close>,
  \<^verbatim>\<open>poller/PollPoller.cc\<close>, \<^verbatim>\<open>poller/DefaultPoller.cc\<close>). \<^verbatim>\<open>channels_\<close> is a map from descriptors to
  addresses of channels; the channels are in the heap the operations receive and return. \<open>inLoop\<close>
  is the answer of the owner loop to \<^verbatim>\<open>isInLoopThread()\<close>; a call from another thread is fatal.

  The kernel side of epoll is a parameter: \<open>epoll_ctl\<close> on a kernel state \<open>'k\<close>, whose interest
  list is read by \<open>interest\<close>; \<open>epoll_ctl_ok\<close> is what the manual page promises for open
  descriptors. \<^verbatim>\<open>poll(2)\<close> is a function of the \<^verbatim>\<open>pollfd\<close> array.

  The locale \<open>poller_registry\<close> is what the event loop relies on; \<open>poller_watch\<close> adds that the
  kernel watches what the channel asks for. The epoll poller fulfils both. The poll poller fulfils
  the first; two theorems show where it breaks the second.
\<close>

section \<open>The base class\<close>

definition Poller_assertInLoopThread :: "bool \<Rightarrow> unit option" where
  "Poller_assertInLoopThread inLoop = assertm inLoop"

definition Poller_hasChannel :: "bool \<Rightarrow> (int \<rightharpoonup> nat) \<Rightarrow> 'cb chan_heap \<Rightarrow> nat \<Rightarrow> bool option" where
  "Poller_hasChannel inLoop channels h a = do {
     Poller_assertInLoopThread inLoop;
     channel \<leftarrow> h a;
     Some (case channels (ch_fd channel) of None \<Rightarrow> False | Some a' \<Rightarrow> a' = a) }"

section \<open>EPollPoller\<close>

definition kNew :: int where "kNew = -1"
definition kAdded :: int where "kAdded = 1"
definition kDeleted :: int where "kDeleted = 2"
definition kInitEventListSize :: nat where "kInitEventListSize = 16"

lemmas epoll_index_defs = kNew_def kAdded_def kDeleted_def

datatype epoll_op = EPOLL_CTL_ADD | EPOLL_CTL_MOD | EPOLL_CTL_DEL

record epoll_event =
  ev_events :: events
  ev_ptr :: nat

record 'k EPollPoller =
  ep_channels :: "int \<rightharpoonup> nat"
  ep_list_size :: nat
  ep_kernel :: 'k

type_synonym 'k epoll_ctl = "epoll_op \<Rightarrow> int \<Rightarrow> epoll_event \<Rightarrow> 'k \<Rightarrow> bool \<times> 'k"

text \<open>\<^verbatim>\<open>epoll_create1\<close> gives a kernel object, or fails, which is fatal.\<close>

definition EPollPoller_new :: "'k option \<Rightarrow> 'k EPollPoller option" where
  "EPollPoller_new epoll_create = do {
     k \<leftarrow> epoll_create;
     Some \<lparr>ep_channels = Map.empty, ep_list_size = kInitEventListSize, ep_kernel = k\<rparr> }"

definition operationToString :: "epoll_op \<Rightarrow> string" where
  "operationToString op =
     (case op of EPOLL_CTL_ADD \<Rightarrow> ''ADD'' | EPOLL_CTL_MOD \<Rightarrow> ''MOD'' | EPOLL_CTL_DEL \<Rightarrow> ''DEL'')"

text \<open>A failing \<^verbatim>\<open>DEL\<close> is logged, any other failure is fatal.\<close>

definition EPollPoller_update ::
  "'k epoll_ctl \<Rightarrow> 'k EPollPoller \<Rightarrow> epoll_op \<Rightarrow> 'cb Channel \<Rightarrow> nat \<Rightarrow> 'k EPollPoller option" where
  "EPollPoller_update epoll_ctl p operation channel a =
     (let event = \<lparr>ev_events = ch_events channel, ev_ptr = a\<rparr>;
          fd = ch_fd channel
      in case epoll_ctl operation fd event (ep_kernel p) of
           (ok, k) \<Rightarrow> if ok \<or> operation = EPOLL_CTL_DEL then Some (p\<lparr>ep_kernel := k\<rparr>) else None)"

definition EPollPoller_updateChannel ::
  "'k epoll_ctl \<Rightarrow> bool \<Rightarrow> 'k EPollPoller \<Rightarrow> 'cb chan_heap \<Rightarrow> nat \<Rightarrow>
   ('k EPollPoller \<times> 'cb chan_heap) option" where
  "EPollPoller_updateChannel epoll_ctl inLoop p h a = do {
     Poller_assertInLoopThread inLoop;
     channel \<leftarrow> h a;
     let index = ch_index channel;
     let fd = ch_fd channel;
     if index = kNew \<or> index = kDeleted
     then do {
       p \<leftarrow> (if index = kNew
             then do {
               assertm (ep_channels p fd = None);
               Some (p\<lparr>ep_channels := (ep_channels p)(fd \<mapsto> a)\<rparr>) }
             else do {
               assertm (ep_channels p fd \<noteq> None);
               assertm (ep_channels p fd = Some a);
               Some p });
       let channel = set_index kAdded channel;
       p \<leftarrow> EPollPoller_update epoll_ctl p EPOLL_CTL_ADD channel a;
       Some (p, h(a \<mapsto> channel)) }
     else do {
       assertm (ep_channels p fd \<noteq> None);
       assertm (ep_channels p fd = Some a);
       assertm (index = kAdded);
       if isNoneEvent channel
       then do {
         p \<leftarrow> EPollPoller_update epoll_ctl p EPOLL_CTL_DEL channel a;
         Some (p, h(a \<mapsto> set_index kDeleted channel)) }
       else do {
         p \<leftarrow> EPollPoller_update epoll_ctl p EPOLL_CTL_MOD channel a;
         Some (p, h) } } }"

definition EPollPoller_removeChannel ::
  "'k epoll_ctl \<Rightarrow> bool \<Rightarrow> 'k EPollPoller \<Rightarrow> 'cb chan_heap \<Rightarrow> nat \<Rightarrow>
   ('k EPollPoller \<times> 'cb chan_heap) option" where
  "EPollPoller_removeChannel epoll_ctl inLoop p h a = do {
     Poller_assertInLoopThread inLoop;
     channel \<leftarrow> h a;
     let fd = ch_fd channel;
     assertm (ep_channels p fd \<noteq> None);
     assertm (ep_channels p fd = Some a);
     assertm (isNoneEvent channel);
     let index = ch_index channel;
     assertm (index = kAdded \<or> index = kDeleted);
     let p = p\<lparr>ep_channels := (ep_channels p)(fd := None)\<rparr>;
     p \<leftarrow> (if index = kAdded then EPollPoller_update epoll_ctl p EPOLL_CTL_DEL channel a else Some p);
     Some (p, h(a \<mapsto> set_index kNew channel)) }"

fun EPollPoller_fill ::
  "(int \<rightharpoonup> nat) \<Rightarrow> epoll_event list \<Rightarrow> 'cb chan_heap \<Rightarrow> nat list \<Rightarrow>
   ('cb chan_heap \<times> nat list) option" where
  "EPollPoller_fill channels [] h active = Some (h, active)"
| "EPollPoller_fill channels (e # es) h active = do {
     let a = ev_ptr e;
     channel \<leftarrow> h a;
     let fd = ch_fd channel;
     assertm (channels fd \<noteq> None);
     assertm (channels fd = Some a);
     let channel = set_revents (ev_events e) channel;
     EPollPoller_fill channels es (h(a \<mapsto> channel)) (active @ [a]) }"

definition EPollPoller_fillActiveChannels ::
  "'k EPollPoller \<Rightarrow> epoll_event list \<Rightarrow> 'cb chan_heap \<Rightarrow> nat list \<Rightarrow>
   ('cb chan_heap \<times> nat list) option" where
  "EPollPoller_fillActiveChannels p evs h active = do {
     assertm (length evs \<le> ep_list_size p);
     EPollPoller_fill (ep_channels p) evs h active }"

definition EINTR :: int where "EINTR = 4"

datatype 'e wait_result = WaitErr int | WaitOk 'e

definition EPollPoller_poll ::
  "('k \<Rightarrow> nat \<Rightarrow> epoll_event list wait_result) \<Rightarrow> 'k EPollPoller \<Rightarrow> 'cb chan_heap \<Rightarrow> nat list \<Rightarrow>
   ('k EPollPoller \<times> 'cb chan_heap \<times> nat list) option" where
  "EPollPoller_poll epoll_wait p h active =
     (case epoll_wait (ep_kernel p) (ep_list_size p) of
        WaitOk evs \<Rightarrow>
          if 0 < length evs
          then do {
            (h, active) \<leftarrow> EPollPoller_fillActiveChannels p evs h active;
            Some (if length evs = ep_list_size p then p\<lparr>ep_list_size := ep_list_size p * 2\<rparr> else p,
                  h, active) }
          else Some (p, h, active)
      | WaitErr savedErrno \<Rightarrow> if savedErrno \<noteq> EINTR then None else Some (p, h, active))"

section \<open>PollPoller\<close>

record pollfd =
  pfd_fd :: int
  pfd_events :: "16 word"
  pfd_revents :: "16 word"

record PollPoller =
  pp_channels :: "int \<rightharpoonup> nat"
  pollfds :: "pollfd list"

definition PollPoller_new :: PollPoller where
  "PollPoller_new = \<lparr>pp_channels = Map.empty, pollfds = []\<rparr>"

definition PollPoller_updateChannel ::
  "bool \<Rightarrow> PollPoller \<Rightarrow> 'cb chan_heap \<Rightarrow> nat \<Rightarrow> (PollPoller \<times> 'cb chan_heap) option" where
  "PollPoller_updateChannel inLoop p h a = do {
     Poller_assertInLoopThread inLoop;
     channel \<leftarrow> h a;
     let fd = ch_fd channel;
     if ch_index channel < 0
     then do {
       assertm (pp_channels p fd = None);
       let pfd = \<lparr>pfd_fd = fd, pfd_events = ucast (ch_events channel), pfd_revents = 0\<rparr>;
       let fds = pollfds p @ [pfd];
       let idx = int (length fds - 1);
       Some (\<lparr>pp_channels = (pp_channels p)(fd \<mapsto> a), pollfds = fds\<rparr>, h(a \<mapsto> set_index idx channel)) }
     else do {
       assertm (pp_channels p fd \<noteq> None);
       assertm (pp_channels p fd = Some a);
       let idx = ch_index channel;
       assertm (0 \<le> idx \<and> idx < int (length (pollfds p)));
       let pfd = pollfds p ! nat idx;
       assertm (pfd_fd pfd = fd \<or> pfd_fd pfd = - fd - 1);
       let pfd = pfd\<lparr>pfd_events := ucast (ch_events channel), pfd_revents := 0\<rparr>;
       let pfd = (if isNoneEvent channel then pfd\<lparr>pfd_fd := - fd - 1\<rparr> else pfd);
       Some (p\<lparr>pollfds := (pollfds p)[nat idx := pfd]\<rparr>, h) } }"

definition PollPoller_removeChannel ::
  "bool \<Rightarrow> PollPoller \<Rightarrow> 'cb chan_heap \<Rightarrow> nat \<Rightarrow> (PollPoller \<times> 'cb chan_heap) option" where
  "PollPoller_removeChannel inLoop p h a = do {
     Poller_assertInLoopThread inLoop;
     channel \<leftarrow> h a;
     let fd = ch_fd channel;
     assertm (pp_channels p fd \<noteq> None);
     assertm (pp_channels p fd = Some a);
     assertm (isNoneEvent channel);
     let idx = ch_index channel;
     assertm (0 \<le> idx \<and> idx < int (length (pollfds p)));
     let pfd = pollfds p ! nat idx;
     assertm (pfd_fd pfd = - fd - 1 \<or> sint (pfd_events pfd) = sint (ch_events channel));
     let fds = take (nat idx) (pollfds p) @ drop (nat idx + 1) (pollfds p);
     Some (\<lparr>pp_channels = (pp_channels p)(fd := None), pollfds = fds\<rparr>, h) }"

fun PollPoller_fillActiveChannels ::
  "(int \<rightharpoonup> nat) \<Rightarrow> pollfd list \<Rightarrow> 'cb chan_heap \<Rightarrow> nat list \<Rightarrow>
   ('cb chan_heap \<times> nat list) option" where
  "PollPoller_fillActiveChannels channels [] h active = Some (h, active)"
| "PollPoller_fillActiveChannels channels (pfd # pfds) h active =
     (if 0 < sint (pfd_revents pfd)
      then do {
        a \<leftarrow> channels (pfd_fd pfd);
        channel \<leftarrow> h a;
        assertm (ch_fd channel = pfd_fd pfd);
        let channel = set_revents (ucast (pfd_revents pfd)) channel;
        PollPoller_fillActiveChannels channels pfds (h(a \<mapsto> channel)) (active @ [a]) }
      else PollPoller_fillActiveChannels channels pfds h active)"

text \<open>\<^verbatim>\<open>poll(2)\<close> stores the \<^verbatim>\<open>revents\<close> and counts them; here an error is only logged.\<close>

definition PollPoller_poll ::
  "(pollfd list \<Rightarrow> pollfd list wait_result) \<Rightarrow> PollPoller \<Rightarrow> 'cb chan_heap \<Rightarrow> nat list \<Rightarrow>
   (PollPoller \<times> 'cb chan_heap \<times> nat list) option" where
  "PollPoller_poll sys_poll p h active =
     (case sys_poll (pollfds p) of
        WaitOk pfds \<Rightarrow>
          let p = p\<lparr>pollfds := pfds\<rparr>;
              numEvents = length (filter (\<lambda>pfd. pfd_revents pfd \<noteq> 0) pfds)
          in if 0 < numEvents
             then do {
               (h, active) \<leftarrow> PollPoller_fillActiveChannels (pp_channels p) pfds h active;
               Some (p, h, active) }
             else Some (p, h, active)
      | WaitErr savedErrno \<Rightarrow> Some (p, h, active))"

section \<open>Choice of the poller\<close>

datatype poller_kind = PollKind | EPollKind

definition newDefaultPoller :: "string option \<Rightarrow> poller_kind" where
  "newDefaultPoller cnet_use_poll = (if cnet_use_poll \<noteq> None then PollKind else EPollKind)"

section \<open>What the event loop relies on\<close>

text \<open>
  Registration: a call of \<^verbatim>\<open>updateChannel\<close> with a channel that is new, or registered under its
  descriptor, succeeds, registers it, and changes nothing of it but its index.
\<close>

locale poller_registry =
  fixes inv :: "'p \<Rightarrow> 'cb chan_heap \<Rightarrow> bool"
    and channels :: "'p \<Rightarrow> int \<rightharpoonup> nat"
    and upd :: "'p \<Rightarrow> 'cb chan_heap \<Rightarrow> nat \<Rightarrow> ('p \<times> 'cb chan_heap) option"
  assumes inv_chan: "inv p h \<Longrightarrow> channels p fd = Some a \<Longrightarrow> \<exists>ch. h a = Some ch \<and> ch_fd ch = fd"
    and inv_frame: "inv p h \<Longrightarrow> h a = Some ch \<Longrightarrow> ch_fd ch' = ch_fd ch \<Longrightarrow>
      ch_index ch' = ch_index ch \<Longrightarrow> inv p (h(a \<mapsto> ch'))"
    and upd_ok: "inv p h \<Longrightarrow> h a = Some ch \<Longrightarrow> 0 \<le> ch_fd ch \<Longrightarrow>
      channels p (ch_fd ch) = Some a \<or> (channels p (ch_fd ch) = None \<and> ch_index ch = -1) \<Longrightarrow>
      \<exists>p' i. upd p h a = Some (p', h(a \<mapsto> set_index i ch)) \<and> inv p' (h(a \<mapsto> set_index i ch))
        \<and> channels p' = (channels p)(ch_fd ch \<mapsto> a)"
begin

text \<open>No channel is registered under two descriptors.\<close>

lemma channels_inj:
  assumes "inv p h" and "channels p fd = Some a" and "channels p fd' = Some a"
  shows "fd = fd'"
  using inv_chan [OF assms(1,2)] inv_chan [OF assms(1,3)] by auto

lemma upd_old:
  assumes "inv p h" and "h a = Some ch" and "0 \<le> ch_fd ch" and "channels p (ch_fd ch) = Some a"
  shows "\<exists>p' i. upd p h a = Some (p', h(a \<mapsto> set_index i ch)) \<and> inv p' (h(a \<mapsto> set_index i ch))
           \<and> channels p' = channels p"
  using upd_ok [of p h a ch] assms by (metis fun_upd_triv)

end

text \<open>
  Watching: the events the kernel watches for a descriptor are those of its channel at the last
  update, and a channel without events can be removed.
\<close>

locale poller_watch = poller_registry inv channels upd
  for inv :: "'p \<Rightarrow> 'cb chan_heap \<Rightarrow> bool" and channels upd +
  fixes watch :: "'p \<Rightarrow> int \<Rightarrow> events"
    and rem :: "'p \<Rightarrow> 'cb chan_heap \<Rightarrow> nat \<Rightarrow> ('p \<times> 'cb chan_heap) option"
  assumes upd_watch: "inv p h \<Longrightarrow> h a = Some ch \<Longrightarrow> 0 \<le> ch_fd ch \<Longrightarrow>
      channels p (ch_fd ch) = Some a \<or> (channels p (ch_fd ch) = None \<and> ch_index ch = -1) \<Longrightarrow>
      upd p h a = Some (p', h') \<Longrightarrow> watch p' = (watch p)(ch_fd ch := ch_events ch)"
    and watch_none: "inv p h \<Longrightarrow> channels p fd = None \<Longrightarrow> watch p fd = 0"
    and rem_ok: "inv p h \<Longrightarrow> h a = Some ch \<Longrightarrow> channels p (ch_fd ch) = Some a \<Longrightarrow>
      ch_events ch = 0 \<Longrightarrow>
      \<exists>p'. rem p h a = Some (p', h(a \<mapsto> set_index (-1) ch)) \<and> inv p' (h(a \<mapsto> set_index (-1) ch))
        \<and> channels p' = (channels p)(ch_fd ch := None) \<and> watch p' = (watch p)(ch_fd ch := 0)"
begin

text \<open>The kernel watches for every registered descriptor what its channel asks for.\<close>

definition synced :: "'p \<Rightarrow> 'cb chan_heap \<Rightarrow> bool" where
  "synced p h \<longleftrightarrow> inv p h \<and>
     (\<forall>fd a ch. channels p fd = Some a \<longrightarrow> h a = Some ch \<longrightarrow> watch p fd = ch_events ch)"

lemma synced_update:
  assumes sy: "synced p h" and a: "h a = Some ch" and fd: "0 \<le> ch_fd ch"
    and reg: "channels p (ch_fd ch) = Some a \<or> (channels p (ch_fd ch) = None \<and> ch_index ch = -1)"
  shows "\<exists>p' i. upd p (h(a \<mapsto> ch\<lparr>ch_events := e, addedToLoop := True\<rparr>)) a
            = Some (p', h(a \<mapsto> set_index i (ch\<lparr>ch_events := e, addedToLoop := True\<rparr>)))
         \<and> synced p' (h(a \<mapsto> set_index i (ch\<lparr>ch_events := e, addedToLoop := True\<rparr>)))
         \<and> channels p' = (channels p)(ch_fd ch \<mapsto> a) \<and> watch p' = (watch p)(ch_fd ch := e)"
proof -
  let ?ch = "ch\<lparr>ch_events := e, addedToLoop := True\<rparr>"
  let ?h = "h(a \<mapsto> ?ch)"
  have inv: "inv p ?h"
    using sy a by (auto simp: synced_def intro: inv_frame)
  obtain p' i where u: "upd p ?h a = Some (p', ?h(a \<mapsto> set_index i ?ch))"
      "inv p' (?h(a \<mapsto> set_index i ?ch))" "channels p' = (channels p)(ch_fd ch \<mapsto> a)"
    using upd_ok [OF inv, of a ?ch] fd reg by auto
  have w: "watch p' = (watch p)(ch_fd ch := e)"
    using upd_watch [OF inv _ _ _ u(1), of ?ch] fd reg by simp
  have other: "a' \<noteq> a" if "channels p' fd' = Some a'" and "fd' \<noteq> ch_fd ch" for fd' a'
    using that u(3) sy inv_chan [of p h fd' a'] a by (auto simp: synced_def)
  have "synced p' (?h(a \<mapsto> set_index i ?ch))"
    unfolding synced_def
  proof (intro conjI allI impI u(2))
    fix fd' a' ch'
    assume "channels p' fd' = Some a'" and "(?h(a \<mapsto> set_index i ?ch)) a' = Some ch'"
    with u(3) w other sy a show "watch p' fd' = ch_events ch'"
      by (cases "fd' = ch_fd ch") (auto simp: set_index_def synced_def)
  qed
  with u w show ?thesis
    by (intro exI [of _ p'] exI [of _ i]) simp
qed

lemma synced_remove:
  assumes sy: "synced p h" and a: "h a = Some ch" and reg: "channels p (ch_fd ch) = Some a"
    and none: "ch_events ch = 0"
  shows "\<exists>p'. rem p (h(a \<mapsto> ch\<lparr>addedToLoop := False\<rparr>)) a
            = Some (p', h(a \<mapsto> set_index (-1) (ch\<lparr>addedToLoop := False\<rparr>)))
         \<and> synced p' (h(a \<mapsto> set_index (-1) (ch\<lparr>addedToLoop := False\<rparr>)))
         \<and> channels p' = (channels p)(ch_fd ch := None) \<and> watch p' = (watch p)(ch_fd ch := 0)"
proof -
  let ?ch = "ch\<lparr>addedToLoop := False\<rparr>"
  let ?h = "h(a \<mapsto> ?ch)"
  have inv: "inv p ?h"
    using sy a by (auto simp: synced_def intro: inv_frame)
  obtain p' where r: "rem p ?h a = Some (p', ?h(a \<mapsto> set_index (-1) ?ch))"
      "inv p' (?h(a \<mapsto> set_index (-1) ?ch))" "channels p' = (channels p)(ch_fd ch := None)"
      "watch p' = (watch p)(ch_fd ch := 0)"
    using rem_ok [OF inv, of a ?ch] reg none by auto
  have "synced p' (?h(a \<mapsto> set_index (-1) ?ch))"
    unfolding synced_def
  proof (intro conjI allI impI r(2))
    fix fd' a' ch'
    assume c: "channels p' fd' = Some a'" and h: "(?h(a \<mapsto> set_index (-1) ?ch)) a' = Some ch'"
    then have "fd' \<noteq> ch_fd ch" and "channels p fd' = Some a'" and "a' \<noteq> a"
      using r(3) sy inv_chan [of p h fd' a'] a by (auto simp: synced_def split: if_splits)
    with h r(4) sy show "watch p' fd' = ch_events ch'"
      by (auto simp: synced_def)
  qed
  with r show ?thesis by auto
qed

lemma synced_frame:
  assumes "synced p h" and "h a = Some ch" and "ch_fd ch' = ch_fd ch"
    and "ch_index ch' = ch_index ch" and "ch_events ch' = ch_events ch"
  shows "synced p (h(a \<mapsto> ch'))"
  using assms by (auto simp: synced_def intro: inv_frame)

end

section \<open>The epoll poller\<close>

text \<open>
  What \<^verbatim>\<open>epoll_ctl(2)\<close> and \<^verbatim>\<open>epoll_wait(2)\<close> document for open descriptors: the interest list
  is changed as asked when the descriptor is absent (\<^verbatim>\<open>ADD\<close>) or present (\<^verbatim>\<open>MOD\<close>, \<^verbatim>\<open>DEL\<close>), and
  the events delivered carry the data stored for registered descriptors, each at most once.
\<close>

locale epoll_kernel =
  fixes epoll_ctl :: "'k epoll_ctl"
    and epoll_wait :: "'k \<Rightarrow> nat \<Rightarrow> epoll_event list wait_result"
    and interest :: "'k \<Rightarrow> int \<rightharpoonup> epoll_event"
  assumes ctl_add: "interest k fd = None \<Longrightarrow>
      \<exists>k'. epoll_ctl EPOLL_CTL_ADD fd ev k = (True, k') \<and> interest k' = (interest k)(fd \<mapsto> ev)"
    and ctl_mod: "interest k fd = Some e \<Longrightarrow>
      \<exists>k'. epoll_ctl EPOLL_CTL_MOD fd ev k = (True, k') \<and> interest k' = (interest k)(fd \<mapsto> ev)"
    and ctl_del: "interest k fd = Some e \<Longrightarrow>
      \<exists>k'. epoll_ctl EPOLL_CTL_DEL fd ev k = (True, k') \<and> interest k' = (interest k)(fd := None)"
    and wait_data: "epoll_wait k n = WaitOk evs \<Longrightarrow> length evs \<le> n \<and> distinct (map ev_ptr evs)
      \<and> (\<forall>e \<in> set evs. \<exists>fd e'. interest k fd = Some e' \<and> ev_ptr e' = ev_ptr e)"

definition epoll_watch :: "('k \<Rightarrow> int \<rightharpoonup> epoll_event) \<Rightarrow> 'k EPollPoller \<Rightarrow> int \<Rightarrow> events" where
  "epoll_watch interest p fd =
     (case interest (ep_kernel p) fd of None \<Rightarrow> 0 | Some e \<Rightarrow> ev_events e)"

definition epoll_chan_ok ::
  "epoll_event option \<Rightarrow> nat \<Rightarrow> int \<Rightarrow> 'cb Channel \<Rightarrow> bool" where
  "epoll_chan_ok i a fd ch \<longleftrightarrow> 0 \<le> fd \<and> ch_fd ch = fd \<and>
     (ch_index ch = kAdded \<and> (\<exists>e. i = Some e \<and> ev_ptr e = a) \<or> ch_index ch = kDeleted \<and> i = None)"

definition EPollPoller_inv ::
  "('k \<Rightarrow> int \<rightharpoonup> epoll_event) \<Rightarrow> 'k EPollPoller \<Rightarrow> 'cb chan_heap \<Rightarrow> bool" where
  "EPollPoller_inv interest p h \<longleftrightarrow>
     (\<forall>fd a. ep_channels p fd = Some a \<longrightarrow>
        (\<exists>ch. h a = Some ch \<and> epoll_chan_ok (interest (ep_kernel p) fd) a fd ch)) \<and>
     (\<forall>fd. ep_channels p fd = None \<longrightarrow> interest (ep_kernel p) fd = None)"

lemma EPollPoller_invD:
  assumes "EPollPoller_inv interest p h" and "ep_channels p fd = Some a"
  obtains ch where "h a = Some ch" and "epoll_chan_ok (interest (ep_kernel p) fd) a fd ch"
  using assms unfolding EPollPoller_inv_def by blast

lemma EPollPoller_inv_put:
  assumes "EPollPoller_inv interest p h" and "h a = Some ch"
    and "ep_channels p' = (ep_channels p)(ch_fd ch \<mapsto> a)"
    and "\<forall>fd. fd \<noteq> ch_fd ch \<longrightarrow> interest (ep_kernel p') fd = interest (ep_kernel p) fd"
    and "epoll_chan_ok (interest (ep_kernel p') (ch_fd ch)) a (ch_fd ch) ch'"
  shows "EPollPoller_inv interest p' (h(a \<mapsto> ch'))"
  unfolding EPollPoller_inv_def
proof (intro conjI allI impI)
  fix fd a'
  assume c: "ep_channels p' fd = Some a'"
  show "\<exists>ch. (h(a \<mapsto> ch')) a' = Some ch \<and> epoll_chan_ok (interest (ep_kernel p') fd) a' fd ch"
  proof (cases "fd = ch_fd ch")
    case True
    with assms c show ?thesis by auto
  next
    case False
    with assms(3) c have "ep_channels p fd = Some a'"
      by simp
    then obtain ch1 where ch1: "h a' = Some ch1"
        "epoll_chan_ok (interest (ep_kernel p) fd) a' fd ch1"
      using EPollPoller_invD [OF assms(1)] by blast
    with False assms have "a' \<noteq> a"
      by (auto simp: epoll_chan_ok_def)
    with ch1 False assms show ?thesis by simp
  qed
next
  fix fd
  assume "ep_channels p' fd = None"
  with assms show "interest (ep_kernel p') fd = None"
    by (auto simp: EPollPoller_inv_def split: if_splits)
qed

lemma EPollPoller_inv_frame:
  assumes "EPollPoller_inv interest p h" and "h a = Some ch"
    and "ch_fd ch' = ch_fd ch" and "ch_index ch' = ch_index ch"
  shows "EPollPoller_inv interest p (h(a \<mapsto> ch'))"
proof -
  have "epoll_chan_ok i a' fd ch' = epoll_chan_ok i a' fd ch" for i a' fd
    using assms by (simp add: epoll_chan_ok_def)
  with assms show ?thesis
    unfolding EPollPoller_inv_def by (metis fun_upd_apply option.inject)
qed

context epoll_kernel
begin

lemma update_add:
  assumes "EPollPoller_inv interest p h" and "h a = Some ch" and "0 \<le> ch_fd ch"
    and "interest (ep_kernel p) (ch_fd ch) = None" and "ep_channels p' = (ep_channels p)(ch_fd ch \<mapsto> a)"
    and "ep_kernel p' = ep_kernel p"
  shows "\<exists>p''. EPollPoller_update epoll_ctl p' EPOLL_CTL_ADD (set_index kAdded ch) a = Some p''
    \<and> EPollPoller_inv interest p'' (h(a \<mapsto> set_index kAdded ch))
    \<and> ep_channels p'' = (ep_channels p)(ch_fd ch \<mapsto> a)
    \<and> epoll_watch interest p'' = (epoll_watch interest p)(ch_fd ch := ch_events ch)"
proof -
  let ?ev = "\<lparr>ev_events = ch_events ch, ev_ptr = a\<rparr>"
  obtain k where k: "epoll_ctl EPOLL_CTL_ADD (ch_fd ch) ?ev (ep_kernel p) = (True, k)"
      "interest k = (interest (ep_kernel p))(ch_fd ch \<mapsto> ?ev)"
    using ctl_add [OF assms(4)] by blast
  have "EPollPoller_inv interest (p'\<lparr>ep_kernel := k\<rparr>) (h(a \<mapsto> set_index kAdded ch))"
    using assms k by (intro EPollPoller_inv_put [OF assms(1,2)])
      (simp_all add: epoll_chan_ok_def set_index_def)
  then show ?thesis
    using k assms by (auto simp: EPollPoller_update_def set_index_def epoll_watch_def fun_eq_iff)
qed

lemma update_mod:
  assumes "EPollPoller_inv interest p h" and "h a = Some ch" and "0 \<le> ch_fd ch"
    and "ch_index ch = kAdded" and "ep_channels p (ch_fd ch) = Some a"
  shows "\<exists>p'. EPollPoller_update epoll_ctl p EPOLL_CTL_MOD ch a = Some p'
    \<and> EPollPoller_inv interest p' (h(a \<mapsto> ch)) \<and> ep_channels p' = ep_channels p
    \<and> epoll_watch interest p' = (epoll_watch interest p)(ch_fd ch := ch_events ch)"
proof -
  let ?ev = "\<lparr>ev_events = ch_events ch, ev_ptr = a\<rparr>"
  obtain e where "interest (ep_kernel p) (ch_fd ch) = Some e"
    using assms by (fastforce simp: EPollPoller_inv_def epoll_chan_ok_def epoll_index_defs)
  from ctl_mod [OF this] obtain k where
      k: "epoll_ctl EPOLL_CTL_MOD (ch_fd ch) ?ev (ep_kernel p) = (True, k)"
      "interest k = (interest (ep_kernel p))(ch_fd ch \<mapsto> ?ev)"
    by blast
  have "EPollPoller_inv interest (p\<lparr>ep_kernel := k\<rparr>) (h(a \<mapsto> ch))"
    using assms k by (intro EPollPoller_inv_put [OF assms(1,2)])
      (auto simp add: epoll_chan_ok_def fun_eq_iff)
  then show ?thesis
    using k assms by (auto simp: EPollPoller_update_def epoll_watch_def fun_eq_iff)
qed

lemma update_del:
  assumes "EPollPoller_inv interest p h" and "h a = Some ch" and "0 \<le> ch_fd ch"
    and "ch_index ch = kAdded" and "ep_channels p (ch_fd ch) = Some a" and "isNoneEvent ch"
  shows "\<exists>k. epoll_ctl EPOLL_CTL_DEL (ch_fd ch) \<lparr>ev_events = ch_events ch, ev_ptr = a\<rparr> (ep_kernel p) = (True, k)
    \<and> interest k = (interest (ep_kernel p))(ch_fd ch := None)
    \<and> EPollPoller_inv interest (p\<lparr>ep_kernel := k\<rparr>) (h(a \<mapsto> set_index kDeleted ch))"
proof -
  obtain e where "interest (ep_kernel p) (ch_fd ch) = Some e"
    using assms by (fastforce simp: EPollPoller_inv_def epoll_chan_ok_def epoll_index_defs)
  from ctl_del [OF this] obtain k where
      k: "epoll_ctl EPOLL_CTL_DEL (ch_fd ch) \<lparr>ev_events = ch_events ch, ev_ptr = a\<rparr> (ep_kernel p) = (True, k)"
      "interest k = (interest (ep_kernel p))(ch_fd ch := None)"
    by blast
  moreover have "EPollPoller_inv interest (p\<lparr>ep_kernel := k\<rparr>) (h(a \<mapsto> set_index kDeleted ch))"
    using assms k by (intro EPollPoller_inv_put [OF assms(1,2)])
      (auto simp add: epoll_chan_ok_def set_index_def fun_eq_iff)
  ultimately show ?thesis by blast
qed

lemma updateChannel_ok:
  assumes inv: "EPollPoller_inv interest p h" and a: "h a = Some ch" and fd: "0 \<le> ch_fd ch"
    and reg: "ep_channels p (ch_fd ch) = Some a \<or> (ep_channels p (ch_fd ch) = None \<and> ch_index ch = -1)"
  shows "\<exists>p' i. EPollPoller_updateChannel epoll_ctl True p h a = Some (p', h(a \<mapsto> set_index i ch))
    \<and> EPollPoller_inv interest p' (h(a \<mapsto> set_index i ch))
    \<and> ep_channels p' = (ep_channels p)(ch_fd ch \<mapsto> a)
    \<and> epoll_watch interest p' = (epoll_watch interest p)(ch_fd ch := ch_events ch)"
  using reg
proof
  assume r: "ep_channels p (ch_fd ch) = None \<and> ch_index ch = -1"
  then have "interest (ep_kernel p) (ch_fd ch) = None"
    using inv by (simp add: EPollPoller_inv_def)
  from update_add [OF inv a fd this, of "p\<lparr>ep_channels := (ep_channels p)(ch_fd ch \<mapsto> a)\<rparr>"] r a
  show ?thesis
    by (auto simp: EPollPoller_updateChannel_def Poller_assertInLoopThread_def epoll_index_defs
        set_index_def)
next
  assume r: "ep_channels p (ch_fd ch) = Some a"
  then have ok: "epoll_chan_ok (interest (ep_kernel p) (ch_fd ch)) a (ch_fd ch) ch"
    using EPollPoller_invD [OF inv r] a by (metis option.inject)
  have same: "(ep_channels p)(ch_fd ch \<mapsto> a) = ep_channels p"
    using r by auto
  from ok consider (del) "ch_index ch = kDeleted" "interest (ep_kernel p) (ch_fd ch) = None"
    | (none) "ch_index ch = kAdded" "isNoneEvent ch"
    | (ev) "ch_index ch = kAdded" "\<not> isNoneEvent ch"
    by (auto simp: epoll_chan_ok_def)
  then show ?thesis
  proof cases
    case del
    with update_add [OF inv a fd del(2), of p] r a same show ?thesis
      by (auto simp: EPollPoller_updateChannel_def Poller_assertInLoopThread_def epoll_index_defs
          set_index_def)
  next
    case none
    obtain k where k: "epoll_ctl EPOLL_CTL_DEL (ch_fd ch) \<lparr>ev_events = ch_events ch, ev_ptr = a\<rparr> (ep_kernel p) = (True, k)"
        "interest k = (interest (ep_kernel p))(ch_fd ch := None)"
        "EPollPoller_inv interest (p\<lparr>ep_kernel := k\<rparr>) (h(a \<mapsto> set_index kDeleted ch))"
      using update_del [OF inv a fd none(1) r none(2)] by blast
    have w: "epoll_watch interest (p\<lparr>ep_kernel := k\<rparr>) = (epoll_watch interest p)(ch_fd ch := ch_events ch)"
      using none(2) k(2) by (auto simp: epoll_watch_def isNoneEvent_def kNoneEvent_def)
    show ?thesis
      using none r a k w same
      by (intro exI [of _ "p\<lparr>ep_kernel := k\<rparr>"] exI [of _ kDeleted])
        (simp add: EPollPoller_updateChannel_def Poller_assertInLoopThread_def epoll_index_defs
          EPollPoller_update_def)
  next
    case ev
    obtain p' where p': "EPollPoller_update epoll_ctl p EPOLL_CTL_MOD ch a = Some p'"
        "EPollPoller_inv interest p' (h(a \<mapsto> ch))" "ep_channels p' = ep_channels p"
        "epoll_watch interest p' = (epoll_watch interest p)(ch_fd ch := ch_events ch)"
      using update_mod [OF inv a fd ev(1) r] by blast
    have idx: "set_index kAdded ch = ch" and h: "h(a \<mapsto> ch) = h"
      using ev(1) a by (auto simp: set_index_def)
    show ?thesis
      using ev r a p' same idx h
      by (intro exI [of _ p'] exI [of _ kAdded])
        (simp add: EPollPoller_updateChannel_def Poller_assertInLoopThread_def epoll_index_defs)
  qed
qed

lemma removeChannel_ok:
  assumes inv: "EPollPoller_inv interest p h" and a: "h a = Some ch"
    and r: "ep_channels p (ch_fd ch) = Some a" and none: "ch_events ch = 0"
  shows "\<exists>p'. EPollPoller_removeChannel epoll_ctl True p h a = Some (p', h(a \<mapsto> set_index (-1) ch))
    \<and> EPollPoller_inv interest p' (h(a \<mapsto> set_index (-1) ch))
    \<and> ep_channels p' = (ep_channels p)(ch_fd ch := None)
    \<and> epoll_watch interest p' = (epoll_watch interest p)(ch_fd ch := 0)"
proof -
  let ?fd = "ch_fd ch" and ?p = "p\<lparr>ep_channels := (ep_channels p)(ch_fd ch := None)\<rparr>"
  have ok: "epoll_chan_ok (interest (ep_kernel p) ?fd) a ?fd ch"
    using EPollPoller_invD [OF inv r] a by (metis option.inject)
  have "\<exists>k. interest k = (interest (ep_kernel p))(?fd := None)
    \<and> EPollPoller_removeChannel epoll_ctl True p h a = Some (?p\<lparr>ep_kernel := k\<rparr>, h(a \<mapsto> set_index (-1) ch))"
  proof (cases "ch_index ch = kAdded")
    case True
    with ok obtain e where "interest (ep_kernel p) ?fd = Some e"
      by (auto simp: epoll_chan_ok_def epoll_index_defs)
    from ctl_del [OF this, of "\<lparr>ev_events = ch_events ch, ev_ptr = a\<rparr>"] True a r none show ?thesis
      by (auto simp: EPollPoller_removeChannel_def Poller_assertInLoopThread_def isNoneEvent_def
          kNoneEvent_def EPollPoller_update_def epoll_index_defs)
  next
    case False
    with ok a r none show ?thesis
      by (intro exI [of _ "ep_kernel p"])
        (auto simp: EPollPoller_removeChannel_def Poller_assertInLoopThread_def isNoneEvent_def
          kNoneEvent_def epoll_chan_ok_def epoll_index_defs)
  qed
  then obtain k where k: "interest k = (interest (ep_kernel p))(?fd := None)"
      "EPollPoller_removeChannel epoll_ctl True p h a
         = Some (?p\<lparr>ep_kernel := k\<rparr>, h(a \<mapsto> set_index (-1) ch))"
    by blast
  have "EPollPoller_inv interest (?p\<lparr>ep_kernel := k\<rparr>) (h(a \<mapsto> set_index (-1) ch))"
    unfolding EPollPoller_inv_def
  proof (intro conjI allI impI)
    fix fd a'
    assume "ep_channels (?p\<lparr>ep_kernel := k\<rparr>) fd = Some a'"
    then have fd: "fd \<noteq> ?fd" and "ep_channels p fd = Some a'"
      by (auto split: if_splits)
    then obtain ch1 where "h a' = Some ch1" "epoll_chan_ok (interest (ep_kernel p) fd) a' fd ch1"
      using EPollPoller_invD [OF inv] by blast
    moreover from this fd a have "a' \<noteq> a"
      by (auto simp: epoll_chan_ok_def)
    ultimately show "\<exists>ch'. (h(a \<mapsto> set_index (-1) ch)) a' = Some ch' \<and>
        epoll_chan_ok (interest (ep_kernel (?p\<lparr>ep_kernel := k\<rparr>)) fd) a' fd ch'"
      using fd k(1) by simp
  qed (use inv k in \<open>auto simp: EPollPoller_inv_def\<close>)
  with k show ?thesis
    by (auto simp: epoll_watch_def fun_eq_iff)
qed

text \<open>Waiting: nothing the kernel reports trips the assertions on its way to the active list.\<close>

lemma fill_ok:
  assumes "EPollPoller_inv interest p h" and "distinct (map ev_ptr evs)"
    and "\<forall>e \<in> set evs. \<exists>fd e'. interest (ep_kernel p) fd = Some e' \<and> ev_ptr e' = ev_ptr e"
  shows "\<exists>h'. EPollPoller_fill (ep_channels p) evs h active = Some (h', active @ map ev_ptr evs)
    \<and> EPollPoller_inv interest p h'
    \<and> (\<forall>e \<in> set evs. \<exists>ch. h (ev_ptr e) = Some ch \<and> h' (ev_ptr e) = Some (set_revents (ev_events e) ch))
    \<and> (\<forall>a. a \<notin> ev_ptr ` set evs \<longrightarrow> h' a = h a)"
  using assms
proof (induction evs arbitrary: h active)
  case (Cons e evs)
  obtain fd e' where e: "interest (ep_kernel p) fd = Some e'" "ev_ptr e' = ev_ptr e"
    using Cons.prems(3) by auto
  then obtain a where a: "ep_channels p fd = Some a"
    using Cons.prems(1) by (cases "ep_channels p fd") (auto simp: EPollPoller_inv_def)
  obtain ch where ch: "h a = Some ch" "epoll_chan_ok (interest (ep_kernel p) fd) a fd ch"
    using EPollPoller_invD [OF Cons.prems(1) a] .
  with e have ptr: "ev_ptr e = a" and fd: "ch_fd ch = fd"
    by (auto simp: epoll_chan_ok_def)
  let ?ch = "set_revents (ev_events e) ch"
  have "EPollPoller_inv interest p (h(a \<mapsto> ?ch))"
    using Cons.prems(1) ch(1) by (rule EPollPoller_inv_frame) (simp_all add: set_revents_def)
  moreover have rest: "distinct (map ev_ptr evs)"
      "\<forall>e \<in> set evs. \<exists>fd e'. interest (ep_kernel p) fd = Some e' \<and> ev_ptr e' = ev_ptr e"
    using Cons.prems(2,3) by simp_all
  ultimately obtain h' where h': "EPollPoller_fill (ep_channels p) evs (h(a \<mapsto> ?ch)) (active @ [a])
        = Some (h', (active @ [a]) @ map ev_ptr evs)" "EPollPoller_inv interest p h'"
      "\<forall>e \<in> set evs. \<exists>c. (h(a \<mapsto> ?ch)) (ev_ptr e) = Some c \<and> h' (ev_ptr e) = Some (set_revents (ev_events e) c)"
      "\<forall>b. b \<notin> ev_ptr ` set evs \<longrightarrow> h' b = (h(a \<mapsto> ?ch)) b"
    using Cons.IH [OF \<open>EPollPoller_inv interest p (h(a \<mapsto> ?ch))\<close> rest, of "active @ [a]"] by blast
  have "a \<notin> ev_ptr ` set evs"
    using Cons.prems(2) ptr by auto
  moreover from this have "\<forall>e \<in> set evs. \<exists>c. h (ev_ptr e) = Some c \<and> h' (ev_ptr e) = Some (set_revents (ev_events e) c)"
    using h'(3) by (metis (no_types, lifting) fun_upd_other image_eqI)
  ultimately show ?case
    using h'(1,2,4) ch(1) a ptr fd by (intro exI [of _ h']) auto
qed simp

lemma poll_ok:
  assumes "EPollPoller_inv interest p h" and "epoll_wait (ep_kernel p) (ep_list_size p) = WaitOk evs"
  shows "\<exists>p' h'. EPollPoller_poll epoll_wait p h active = Some (p', h', active @ map ev_ptr evs)
    \<and> EPollPoller_inv interest p' h' \<and> ep_channels p' = ep_channels p \<and> ep_kernel p' = ep_kernel p
    \<and> (\<forall>e \<in> set evs. \<exists>ch. h (ev_ptr e) = Some ch \<and> h' (ev_ptr e) = Some (set_revents (ev_events e) ch))
    \<and> (\<forall>a. a \<notin> ev_ptr ` set evs \<longrightarrow> h' a = h a)"
proof (cases "evs = []")
  case True
  with assms show ?thesis by (simp add: EPollPoller_poll_def)
next
  case False
  have w: "length evs \<le> ep_list_size p" "distinct (map ev_ptr evs)"
      "\<forall>e \<in> set evs. \<exists>fd e'. interest (ep_kernel p) fd = Some e' \<and> ev_ptr e' = ev_ptr e"
    using wait_data [OF assms(2)] by auto
  obtain h' where "EPollPoller_fill (ep_channels p) evs h active = Some (h', active @ map ev_ptr evs)"
      "EPollPoller_inv interest p h'"
      "\<forall>e \<in> set evs. \<exists>ch. h (ev_ptr e) = Some ch \<and> h' (ev_ptr e) = Some (set_revents (ev_events e) ch)"
      "\<forall>a. a \<notin> ev_ptr ` set evs \<longrightarrow> h' a = h a"
    using fill_ok [OF assms(1) w(2,3)] by blast
  with False w(1) assms(2) show ?thesis
    by (auto simp: EPollPoller_poll_def EPollPoller_fillActiveChannels_def EPollPoller_inv_def)
qed

end

sublocale epoll_kernel \<subseteq> poller_watch "EPollPoller_inv interest" ep_channels
    "EPollPoller_updateChannel epoll_ctl True" "epoll_watch interest"
    "EPollPoller_removeChannel epoll_ctl True"
proof (unfold_locales, goal_cases)
  case (1 p h fd a)
  then show ?case by (auto simp: epoll_chan_ok_def elim: EPollPoller_invD)
next
  case (2 p h a ch ch')
  then show ?case by (rule EPollPoller_inv_frame)
next
  case (3 p h a ch)
  then show ?case using updateChannel_ok by blast
next
  case (4 p h a ch p' h')
  then show ?case using updateChannel_ok by fastforce
next
  case (5 p h fd)
  then show ?case by (simp add: EPollPoller_inv_def epoll_watch_def)
next
  case (6 p h a ch)
  then show ?case by (rule removeChannel_ok)
qed

text \<open>The interest list as a map is such a kernel.\<close>

fun map_epoll_ctl :: "(int \<rightharpoonup> epoll_event) epoll_ctl" where
  "map_epoll_ctl EPOLL_CTL_ADD fd ev k = (if k fd = None then (True, k(fd \<mapsto> ev)) else (False, k))"
| "map_epoll_ctl EPOLL_CTL_MOD fd ev k = (if k fd \<noteq> None then (True, k(fd \<mapsto> ev)) else (False, k))"
| "map_epoll_ctl EPOLL_CTL_DEL fd ev k = (if k fd \<noteq> None then (True, k(fd := None)) else (False, k))"

definition map_epoll_wait :: "events \<Rightarrow> int \<Rightarrow> (int \<rightharpoonup> epoll_event) \<Rightarrow> nat \<Rightarrow> epoll_event list wait_result" where
  "map_epoll_wait r fd k n =
     (case k fd of None \<Rightarrow> WaitOk []
      | Some e \<Rightarrow> if 0 < n then WaitOk [e\<lparr>ev_events := r\<rparr>] else WaitErr 22)"

interpretation map_epoll: epoll_kernel map_epoll_ctl "map_epoll_wait r fd" "\<lambda>k. k"
  by (unfold_locales, auto simp: map_epoll_wait_def split: option.splits if_splits) blast

lemma EPollPoller_new_inv:
  assumes "interest k = Map.empty"
  shows "\<exists>p. EPollPoller_new (Some k) = Some p \<and> EPollPoller_inv interest p h \<and> ep_channels p = Map.empty"
  using assms by (simp add: EPollPoller_new_def EPollPoller_inv_def)

section \<open>The poll poller\<close>

definition poll_chan_ok :: "pollfd list \<Rightarrow> int \<Rightarrow> 'cb Channel \<Rightarrow> bool" where
  "poll_chan_ok pfds fd ch \<longleftrightarrow> 0 \<le> fd \<and> ch_fd ch = fd \<and> 0 \<le> ch_index ch
     \<and> ch_index ch < int (length pfds)
     \<and> (pfd_fd (pfds ! nat (ch_index ch)) = fd \<or> pfd_fd (pfds ! nat (ch_index ch)) = - fd - 1)"

definition PollPoller_inv :: "PollPoller \<Rightarrow> 'cb chan_heap \<Rightarrow> bool" where
  "PollPoller_inv p h \<longleftrightarrow>
     (\<forall>fd a. pp_channels p fd = Some a \<longrightarrow> (\<exists>ch. h a = Some ch \<and> poll_chan_ok (pollfds p) fd ch))"

lemma poll_chan_ok_snoc: "poll_chan_ok pfds fd ch \<Longrightarrow> poll_chan_ok (pfds @ [x]) fd ch"
  by (auto simp: poll_chan_ok_def nth_append)

lemma poll_chan_ok_put:
  assumes "poll_chan_ok pfds fd ch" and "poll_chan_ok pfds fd' ch'" and "fd \<noteq> fd'"
  shows "poll_chan_ok (pfds[nat (ch_index ch') := x]) fd ch"
proof -
  have "nat (ch_index ch) \<noteq> nat (ch_index ch')"
  proof
    assume "nat (ch_index ch) = nat (ch_index ch')"
    with assms show False
      unfolding poll_chan_ok_def by (elim conjE disjE) simp_all
  qed
  with assms show ?thesis
    by (simp add: poll_chan_ok_def)
qed

lemma PollPoller_inv_put:
  fixes h :: "'cb chan_heap"
  assumes "PollPoller_inv p h" and "h a = Some ch" and "pp_channels p' = (pp_channels p)(ch_fd ch \<mapsto> a)"
    and "poll_chan_ok (pollfds p') (ch_fd ch) ch'"
    and "\<And>fd (c :: 'cb Channel). fd \<noteq> ch_fd ch \<Longrightarrow> poll_chan_ok (pollfds p) fd c \<Longrightarrow> poll_chan_ok (pollfds p') fd c"
  shows "PollPoller_inv p' (h(a \<mapsto> ch'))"
  unfolding PollPoller_inv_def
proof (intro allI impI)
  fix fd a'
  assume c: "pp_channels p' fd = Some a'"
  show "\<exists>ch. (h(a \<mapsto> ch')) a' = Some ch \<and> poll_chan_ok (pollfds p') fd ch"
  proof (cases "fd = ch_fd ch")
    case True
    with assms c show ?thesis by auto
  next
    case False
    with assms c obtain c1 where c1: "h a' = Some c1" "poll_chan_ok (pollfds p) fd c1"
      unfolding PollPoller_inv_def by (metis fun_upd_apply)
    with False assms(2) have "a' \<noteq> a"
      by (auto simp: poll_chan_ok_def)
    with c1 assms(5) [OF False c1(2)] show ?thesis by simp
  qed
qed

lemma PollPoller_updateChannel_ok:
  assumes inv: "PollPoller_inv p h" and a: "h a = Some ch" and fd: "0 \<le> ch_fd ch"
    and reg: "pp_channels p (ch_fd ch) = Some a \<or> (pp_channels p (ch_fd ch) = None \<and> ch_index ch = -1)"
  shows "\<exists>p' i. PollPoller_updateChannel True p h a = Some (p', h(a \<mapsto> set_index i ch))
    \<and> PollPoller_inv p' (h(a \<mapsto> set_index i ch)) \<and> pp_channels p' = (pp_channels p)(ch_fd ch \<mapsto> a)"
  using reg
proof
  assume r: "pp_channels p (ch_fd ch) = None \<and> ch_index ch = -1"
  let ?pfd = "\<lparr>pfd_fd = ch_fd ch, pfd_events = ucast (ch_events ch), pfd_revents = 0\<rparr>"
  let ?p = "\<lparr>pp_channels = (pp_channels p)(ch_fd ch \<mapsto> a), pollfds = pollfds p @ [?pfd]\<rparr>"
  have "PollPoller_inv ?p (h(a \<mapsto> set_index (int (length (pollfds p))) ch))"
    using fd by (intro PollPoller_inv_put [OF inv a])
      (simp_all add: poll_chan_ok_snoc, simp add: poll_chan_ok_def set_index_def)
  with r a show ?thesis
    by (intro exI [of _ ?p] exI [of _ "int (length (pollfds p))"])
      (simp add: PollPoller_updateChannel_def Poller_assertInLoopThread_def Let_def)
next
  assume r: "pp_channels p (ch_fd ch) = Some a"
  then have ok: "poll_chan_ok (pollfds p) (ch_fd ch) ch"
    using inv a unfolding PollPoller_inv_def by (metis option.inject)
  let ?i = "nat (ch_index ch)"
  let ?pfd = "(pollfds p ! ?i)\<lparr>pfd_events := ucast (ch_events ch), pfd_revents := 0\<rparr>"
  let ?pfd' = "if isNoneEvent ch then ?pfd\<lparr>pfd_fd := - ch_fd ch - 1\<rparr> else ?pfd"
  let ?p = "p\<lparr>pollfds := (pollfds p)[?i := ?pfd']\<rparr>"
  have same: "set_index (ch_index ch) ch = ch" "(pp_channels p)(ch_fd ch \<mapsto> a) = pp_channels p" "h(a \<mapsto> ch) = h"
    using r a by (auto simp: set_index_def)
  have "PollPoller_inv ?p (h(a \<mapsto> ch))"
    using ok by (intro PollPoller_inv_put [OF inv a])
      (use same in \<open>simp_all add: poll_chan_ok_put\<close>, auto simp: poll_chan_ok_def)
  with ok r a same show ?thesis
    by (intro exI [of _ ?p] exI [of _ "ch_index ch"])
      (simp add: PollPoller_updateChannel_def Poller_assertInLoopThread_def poll_chan_ok_def Let_def)
qed

interpretation pp: poller_registry PollPoller_inv pp_channels "PollPoller_updateChannel True"
proof (unfold_locales, goal_cases)
  case (1 p h fd a)
  then show ?case by (auto simp: PollPoller_inv_def poll_chan_ok_def)
next
  case (2 p h a ch ch')
  then have "poll_chan_ok pfds fd ch' = poll_chan_ok pfds fd ch" for pfds fd
    by (simp add: poll_chan_ok_def)
  with 2 show ?case
    unfolding PollPoller_inv_def by (metis fun_upd_apply option.inject)
next
  case (3 p h a ch)
  then show ?case by (rule PollPoller_updateChannel_ok)
qed

section \<open>Properties\<close>

text \<open>C18: With the documented behaviour of \<^verbatim>\<open>epoll_wait\<close>, \<^verbatim>\<open>EPollPoller::poll\<close> never aborts on what
  the kernel reports: each reported channel is registered and alive, gets its ready events, and is
  appended to the active list in the kernel's order; other channels and the registrations are kept.\<close>

theorem epoll_poll_delivers:
  assumes "epoll_kernel epoll_ctl epoll_wait interest" and "EPollPoller_inv interest p h"
    and "epoll_wait (ep_kernel p) (ep_list_size p) = WaitOk evs"
  shows "\<exists>p' h'. EPollPoller_poll epoll_wait p h active = Some (p', h', active @ map ev_ptr evs)
    \<and> EPollPoller_inv interest p' h' \<and> ep_channels p' = ep_channels p
    \<and> (\<forall>e \<in> set evs. \<exists>ch. h (ev_ptr e) = Some ch \<and> h' (ev_ptr e) = Some (set_revents (ev_events e) ch))
    \<and> (\<forall>a. a \<notin> ev_ptr ` set evs \<longrightarrow> h' a = h a)"
  using epoll_kernel.poll_ok [OF assms, of active] by blast

theorem epoll_poll_delivers_witness:
  "\<exists>p p' h h'. EPollPoller_updateChannel map_epoll_ctl True
        \<lparr>ep_channels = Map.empty, ep_list_size = 16, ep_kernel = Map.empty\<rparr>
        [7 \<mapsto> (Channel_new 0 3 :: unit Channel)\<lparr>ch_events := kReadEvent\<rparr>] 7 = Some (p, h)
     \<and> EPollPoller_poll (map_epoll_wait POLLIN 3) p h [] = Some (p', h', [7])
     \<and> map_option revents (h' 7) = Some POLLIN"
proof -
  let ?ch = "(Channel_new 0 3 :: unit Channel)\<lparr>ch_events := kReadEvent\<rparr>"
  let ?p = "\<lparr>ep_channels = [3 \<mapsto> 7], ep_list_size = 16,
       ep_kernel = [3 \<mapsto> \<lparr>ev_events = kReadEvent, ev_ptr = 7\<rparr>]\<rparr>"
  let ?h = "[7 \<mapsto> set_index kAdded ?ch]"
  have upd: "EPollPoller_updateChannel map_epoll_ctl True
      \<lparr>ep_channels = Map.empty, ep_list_size = 16, ep_kernel = Map.empty\<rparr> [7 \<mapsto> ?ch] 7 = Some (?p, ?h)"
    by (simp add: EPollPoller_updateChannel_def Poller_assertInLoopThread_def Channel_new_def
        EPollPoller_update_def epoll_index_defs set_index_def)
  have inv: "EPollPoller_inv (\<lambda>k. k) ?p ?h"
    by (simp add: EPollPoller_inv_def epoll_chan_ok_def set_index_def Channel_new_def)
  have "map_epoll_wait POLLIN 3 (ep_kernel ?p) (ep_list_size ?p) = WaitOk [\<lparr>ev_events = POLLIN, ev_ptr = 7\<rparr>]"
    by (simp add: map_epoll_wait_def)
  from epoll_poll_delivers [OF map_epoll.epoll_kernel_axioms inv this, of "[]"]
  show ?thesis
    using upd by (auto simp: set_revents_def)
qed

text \<open>Once \<^verbatim>\<open>PollPoller::updateChannel\<close> has marked a channel's \<^verbatim>\<open>pollfd\<close> as ignored (all events
  disabled), no later update with events makes the kernel watch the descriptor again: the entry keeps
  the negative descriptor that \<^verbatim>\<open>poll(2)\<close> skips.\<close>

theorem pollpoller_reenable_ignored:
  assumes "PollPoller_updateChannel inLoop p h a = Some (p', h')" and "h a = Some ch"
    and "0 \<le> ch_index ch" and "pfd_fd (pollfds p ! nat (ch_index ch)) = - ch_fd ch - 1"
  shows "pfd_fd (pollfds p' ! nat (ch_index ch)) = - ch_fd ch - 1"
  using assms
  by (auto simp: PollPoller_updateChannel_def Poller_assertInLoopThread_def Let_def split: if_splits)

theorem pollpoller_reenable_ignored_witness:
  "\<exists>p2 h2. PollPoller_updateChannel True
       \<lparr>pp_channels = [3 \<mapsto> 7], pollfds = [\<lparr>pfd_fd = -4, pfd_events = 0, pfd_revents = 0\<rparr>]\<rparr>
       [7 \<mapsto> (Channel_new 0 3 :: unit Channel)\<lparr>ch_index := 0, ch_events := kReadEvent\<rparr>] 7 = Some (p2, h2)
     \<and> pfd_fd (pollfds p2 ! 0) = -4"
proof -
  let ?p = "\<lparr>pp_channels = [3 \<mapsto> 7], pollfds = [\<lparr>pfd_fd = -4, pfd_events = 0, pfd_revents = 0\<rparr>]\<rparr>"
  let ?h = "[7 \<mapsto> (Channel_new 0 3 :: unit Channel)\<lparr>ch_index := 0, ch_events := kReadEvent\<rparr>]"
  obtain p2 h2 where r: "PollPoller_updateChannel True ?p ?h 7 = Some (p2, h2)"
    by (simp add: PollPoller_updateChannel_def Poller_assertInLoopThread_def Channel_new_def Let_def)
  from pollpoller_reenable_ignored [OF r] have "pfd_fd (pollfds p2 ! 0) = -4"
    by (simp add: Channel_new_def)
  with r show ?thesis by blast
qed

text \<open>\<^verbatim>\<open>PollPoller::removeChannel\<close> erases an entry without renumbering the channels behind it:
  with two registered channels, removing the first makes the next update of the second one abort.\<close>

theorem pollpoller_remove_stale_index:
  assumes "pp_channels p = [fd \<mapsto> a, fd' \<mapsto> b]" and "fd \<noteq> fd'" and "a \<noteq> b"
    and "pollfds p = [pfd, pfd']" and "h a = Some ch" and "h b = Some ch'"
    and "ch_fd ch = fd" and "ch_index ch = 0" and "ch_events ch = 0" and "pfd_fd pfd = - fd - 1"
    and "ch_fd ch' = fd'" and "ch_index ch' = 1" and "pfd_fd pfd' = fd'"
  shows "\<exists>p' h'. PollPoller_removeChannel True p h a = Some (p', h')
    \<and> PollPoller_updateChannel True p' h' b = None"
  using assms
  by (simp add: PollPoller_removeChannel_def PollPoller_updateChannel_def
      Poller_assertInLoopThread_def isNoneEvent_def kNoneEvent_def Let_def)

theorem pollpoller_remove_stale_index_witness:
  "\<exists>p' h'. PollPoller_removeChannel True
       \<lparr>pp_channels = [3 \<mapsto> 7, 4 \<mapsto> 8], pollfds = [\<lparr>pfd_fd = -4, pfd_events = 0, pfd_revents = 0\<rparr>,
          \<lparr>pfd_fd = 4, pfd_events = 3, pfd_revents = 0\<rparr>]\<rparr>
       [7 \<mapsto> (Channel_new 0 3 :: unit Channel)\<lparr>ch_index := 0\<rparr>,
        8 \<mapsto> (Channel_new 0 4)\<lparr>ch_index := 1, ch_events := kReadEvent\<rparr>] 7 = Some (p', h')
    \<and> PollPoller_updateChannel True p' h' 8 = None"
  by (rule pollpoller_remove_stale_index [where fd = 3 and fd' = 4
      and pfd = "\<lparr>pfd_fd = -4, pfd_events = 0, pfd_revents = 0\<rparr>"
      and pfd' = "\<lparr>pfd_fd = 4, pfd_events = 3, pfd_revents = 0\<rparr>"
      and ch = "(Channel_new 0 3)\<lparr>ch_index := 0\<rparr>"
      and ch' = "(Channel_new 0 4)\<lparr>ch_index := 1, ch_events := kReadEvent\<rparr>"])
    (simp_all add: Channel_new_def)

end
