(* ===== verification/EventLoop.thy ===== *)
theory EventLoop
  imports Poller TimerQueue
begin

unbundle bit_operations_syntax

text \<open>
  \<^verbatim>\<open>cnet::net::EventLoop\<close> (\<^verbatim>\<open>cnet/net/EventLoop.h\<close>, \<^verbatim>\<open>EventLoop.cc\<close>) and the operations of
  \<^verbatim>\<open>Channel\<close> that go through it.

  The program state is \<open>world\<close>: the loop object, the heap of channels, and the user's state. A
  functor is a token; running it is an interpreter on the world, like the callbacks of channels.
  The event descriptor used for wake-ups is a counter: a write adds one, a read clears it, it is
  readable while positive. \<open>tid\<close> is the calling thread.

  Three groups of results: channel operations keep the kernel's interest list equal to what the
  channels ask for; an iteration of the loop runs the functors that were queued before it, in
  order; and, over all interleavings with other threads, no queued functor is forgotten while the
  loop sleeps.
\<close>

section \<open>State\<close>

datatype LoopState = CREATED | RUNNING | QUITED

datatype 'k AnyPoller = AnEPoll "'k EPollPoller" | APoll PollPoller

record ('f, 'k) EventLoop =
  el_this :: nat
  looping :: bool
  quit_state :: LoopState
  eventHanding :: bool
  callingPendingFunctors :: bool
  iteration :: int
  threadId :: int
  pollReturnTime :: Timestamp
  el_poller :: "'k AnyPoller"
  wakeup_count :: nat
  activeChannels :: "nat list"
  currentActiveChannel :: "nat option"
  pendingFunctors :: "'f list"

record ('f, 'k, 'cb, 'u) world =
  w_loop :: "('f, 'k) EventLoop"
  w_chans :: "'cb chan_heap"
  w_user :: 'u

definition isInLoopThread :: "int \<Rightarrow> ('f, 'k) EventLoop \<Rightarrow> bool" where
  "isInLoopThread tid el \<longleftrightarrow> threadId el = tid"

definition assertInLoopThread :: "int \<Rightarrow> ('f, 'k) EventLoop \<Rightarrow> unit option" where
  "assertInLoopThread tid el = (if \<not> isInLoopThread tid el then None else Some ())"

section \<open>Virtual dispatch to the poller\<close>

definition any_updateChannel ::
  "'k epoll_ctl \<Rightarrow> bool \<Rightarrow> 'k AnyPoller \<Rightarrow> 'cb chan_heap \<Rightarrow> nat \<Rightarrow> ('k AnyPoller \<times> 'cb chan_heap) option" where
  "any_updateChannel epoll_ctl inLoop p h a =
     (case p of
        AnEPoll ep \<Rightarrow> map_option (map_prod AnEPoll id) (EPollPoller_updateChannel epoll_ctl inLoop ep h a)
      | APoll pp \<Rightarrow> map_option (map_prod APoll id) (PollPoller_updateChannel inLoop pp h a))"

definition any_removeChannel ::
  "'k epoll_ctl \<Rightarrow> bool \<Rightarrow> 'k AnyPoller \<Rightarrow> 'cb chan_heap \<Rightarrow> nat \<Rightarrow> ('k AnyPoller \<times> 'cb chan_heap) option" where
  "any_removeChannel epoll_ctl inLoop p h a =
     (case p of
        AnEPoll ep \<Rightarrow> map_option (map_prod AnEPoll id) (EPollPoller_removeChannel epoll_ctl inLoop ep h a)
      | APoll pp \<Rightarrow> map_option (map_prod APoll id) (PollPoller_removeChannel inLoop pp h a))"

definition any_channels :: "'k AnyPoller \<Rightarrow> int \<rightharpoonup> nat" where
  "any_channels p = (case p of AnEPoll ep \<Rightarrow> ep_channels ep | APoll pp \<Rightarrow> pp_channels pp)"

section \<open>Channels of the loop\<close>

definition EventLoop_updateChannel ::
  "'k epoll_ctl \<Rightarrow> int \<Rightarrow> nat \<Rightarrow> ('f, 'k, 'cb, 'u) world \<Rightarrow> ('f, 'k, 'cb, 'u) world option" where
  "EventLoop_updateChannel epoll_ctl tid a w = do {
     let el = w_loop w;
     channel \<leftarrow> w_chans w a;
     assertm (ch_loop channel = el_this el);
     assertInLoopThread tid el;
     (p, h) \<leftarrow> any_updateChannel epoll_ctl (isInLoopThread tid el) (el_poller el) (w_chans w) a;
     Some (w\<lparr>w_loop := el\<lparr>el_poller := p\<rparr>, w_chans := h\<rparr>) }"

definition EventLoop_removeChannel ::
  "'k epoll_ctl \<Rightarrow> int \<Rightarrow> nat \<Rightarrow> ('f, 'k, 'cb, 'u) world \<Rightarrow> ('f, 'k, 'cb, 'u) world option" where
  "EventLoop_removeChannel epoll_ctl tid a w = do {
     let el = w_loop w;
     channel \<leftarrow> w_chans w a;
     assertm (ch_loop channel = el_this el);
     assertInLoopThread tid el;
     assertm (eventHanding el \<longrightarrow>
       currentActiveChannel el = Some a \<or> a \<notin> set (activeChannels el));
     (p, h) \<leftarrow> any_removeChannel epoll_ctl (isInLoopThread tid el) (el_poller el) (w_chans w) a;
     Some (w\<lparr>w_loop := el\<lparr>el_poller := p\<rparr>, w_chans := h\<rparr>) }"

definition EventLoop_hasChannel :: "int \<Rightarrow> nat \<Rightarrow> ('f, 'k, 'cb, 'u) world \<Rightarrow> bool option" where
  "EventLoop_hasChannel tid a w = do {
     let el = w_loop w;
     channel \<leftarrow> w_chans w a;
     assertm (ch_loop channel = el_this el);
     assertInLoopThread tid el;
     Poller_hasChannel (isInLoopThread tid el) (any_channels (el_poller el)) (w_chans w) a }"

definition Channel_update ::
  "'k epoll_ctl \<Rightarrow> int \<Rightarrow> nat \<Rightarrow> ('f, 'k, 'cb, 'u) world \<Rightarrow> ('f, 'k, 'cb, 'u) world option" where
  "Channel_update epoll_ctl tid a w = do {
     channel \<leftarrow> w_chans w a;
     EventLoop_updateChannel epoll_ctl tid a
       (w\<lparr>w_chans := (w_chans w)(a \<mapsto> channel\<lparr>addedToLoop := True\<rparr>)\<rparr>) }"

text \<open>The five operations that change \<^verbatim>\<open>events_\<close> and then call \<^verbatim>\<open>update()\<close>.\<close>

definition Channel_setEvents ::
  "'k epoll_ctl \<Rightarrow> int \<Rightarrow> (events \<Rightarrow> events) \<Rightarrow> nat \<Rightarrow> ('f, 'k, 'cb, 'u) world \<Rightarrow>
   ('f, 'k, 'cb, 'u) world option" where
  "Channel_setEvents epoll_ctl tid f a w = do {
     channel \<leftarrow> w_chans w a;
     Channel_update epoll_ctl tid a
       (w\<lparr>w_chans := (w_chans w)(a \<mapsto> channel\<lparr>ch_events := f (ch_events channel)\<rparr>)\<rparr>) }"

definition enableReading :: "'k epoll_ctl \<Rightarrow> int \<Rightarrow> nat \<Rightarrow> ('f, 'k, 'cb, 'u) world \<Rightarrow> ('f, 'k, 'cb, 'u) world option" where
  "enableReading epoll_ctl tid = Channel_setEvents epoll_ctl tid (\<lambda>ev. ev OR kReadEvent)"
definition disableReading :: "'k epoll_ctl \<Rightarrow> int \<Rightarrow> nat \<Rightarrow> ('f, 'k, 'cb, 'u) world \<Rightarrow> ('f, 'k, 'cb, 'u) world option" where
  "disableReading epoll_ctl tid = Channel_setEvents epoll_ctl tid (\<lambda>ev. ev AND NOT kReadEvent)"
definition enableWriting :: "'k epoll_ctl \<Rightarrow> int \<Rightarrow> nat \<Rightarrow> ('f, 'k, 'cb, 'u) world \<Rightarrow> ('f, 'k, 'cb, 'u) world option" where
  "enableWriting epoll_ctl tid = Channel_setEvents epoll_ctl tid (\<lambda>ev. ev OR kWriteEvent)"
definition disableWriting :: "'k epoll_ctl \<Rightarrow> int \<Rightarrow> nat \<Rightarrow> ('f, 'k, 'cb, 'u) world \<Rightarrow> ('f, 'k, 'cb, 'u) world option" where
  "disableWriting epoll_ctl tid = Channel_setEvents epoll_ctl tid (\<lambda>ev. ev AND NOT kWriteEvent)"
definition disableAll :: "'k epoll_ctl \<Rightarrow> int \<Rightarrow> nat \<Rightarrow> ('f, 'k, 'cb, 'u) world \<Rightarrow> ('f, 'k, 'cb, 'u) world option" where
  "disableAll epoll_ctl tid = Channel_setEvents epoll_ctl tid (\<lambda>ev. kNoneEvent)"

definition Channel_remove ::
  "'k epoll_ctl \<Rightarrow> int \<Rightarrow> nat \<Rightarrow> ('f, 'k, 'cb, 'u) world \<Rightarrow> ('f, 'k, 'cb, 'u) world option" where
  "Channel_remove epoll_ctl tid a w = do {
     channel \<leftarrow> w_chans w a;
     assertm (isNoneEvent channel);
     EventLoop_removeChannel epoll_ctl tid a
       (w\<lparr>w_chans := (w_chans w)(a \<mapsto> channel\<lparr>addedToLoop := False\<rparr>)\<rparr>) }"

definition Channel_dtor :: "int \<Rightarrow> nat \<Rightarrow> ('f, 'k, 'cb, 'u) world \<Rightarrow> ('f, 'k, 'cb, 'u) world option" where
  "Channel_dtor tid a w = do {
     channel \<leftarrow> w_chans w a;
     assertm (\<not> eventHandling channel);
     assertm (\<not> addedToLoop channel);
     has \<leftarrow> (if isInLoopThread tid (w_loop w) then EventLoop_hasChannel tid a w else Some False);
     assertm (\<not> has);
     Some (w\<lparr>w_chans := (w_chans w)(a := None)\<rparr>) }"

section \<open>Functors and wake-ups\<close>

definition EventLoop_wakeup :: "('f, 'k) EventLoop \<Rightarrow> ('f, 'k) EventLoop" where
  "EventLoop_wakeup el = el\<lparr>wakeup_count := wakeup_count el + 1\<rparr>"

definition EventLoop_handleRead :: "('f, 'k) EventLoop \<Rightarrow> ('f, 'k) EventLoop" where
  "EventLoop_handleRead el = el\<lparr>wakeup_count := 0\<rparr>"

text \<open>\<^verbatim>\<open>queueInLoop\<close> has two parts, the push under the mutex and the wake-up after it.\<close>

definition queue_push :: "'f \<Rightarrow> ('f, 'k) EventLoop \<Rightarrow> ('f, 'k) EventLoop" where
  "queue_push cb el = el\<lparr>pendingFunctors := pendingFunctors el @ [cb]\<rparr>"

definition queue_wakes :: "int \<Rightarrow> ('f, 'k) EventLoop \<Rightarrow> bool" where
  "queue_wakes tid el \<longleftrightarrow> \<not> isInLoopThread tid el \<or> callingPendingFunctors el"

definition queueInLoop :: "int \<Rightarrow> 'f \<Rightarrow> ('f, 'k) EventLoop \<Rightarrow> ('f, 'k) EventLoop" where
  "queueInLoop tid cb el =
     (let el = queue_push cb el in if queue_wakes tid el then EventLoop_wakeup el else el)"

definition runInLoop ::
  "('f \<Rightarrow> ('f, 'k, 'cb, 'u) world \<Rightarrow> ('f, 'k, 'cb, 'u) world option) \<Rightarrow> int \<Rightarrow> 'f \<Rightarrow>
   ('f, 'k, 'cb, 'u) world \<Rightarrow> ('f, 'k, 'cb, 'u) world option" where
  "runInLoop run tid cb w =
     (if isInLoopThread tid (w_loop w) then run cb w
      else Some (w\<lparr>w_loop := queueInLoop tid cb (w_loop w)\<rparr>))"

definition queueSize :: "('f, 'k) EventLoop \<Rightarrow> nat" where
  "queueSize el = length (pendingFunctors el)"

definition EventLoop_quit :: "int \<Rightarrow> ('f, 'k) EventLoop \<Rightarrow> ('f, 'k) EventLoop" where
  "EventLoop_quit tid el =
     (let el = el\<lparr>quit_state := QUITED\<rparr>
      in if \<not> isInLoopThread tid el then EventLoop_wakeup el else el)"

text \<open>The swap under the mutex, then the calls.\<close>

definition functors_begin :: "('f, 'k) EventLoop \<Rightarrow> 'f list \<times> ('f, 'k) EventLoop" where
  "functors_begin el =
     (let el = el\<lparr>callingPendingFunctors := True\<rparr>
      in (pendingFunctors el, el\<lparr>pendingFunctors := []\<rparr>))"

definition functors_end :: "('f, 'k) EventLoop \<Rightarrow> ('f, 'k) EventLoop" where
  "functors_end el = el\<lparr>callingPendingFunctors := False\<rparr>"

definition doPendingFunctors ::
  "('f \<Rightarrow> ('f, 'k, 'cb, 'u) world \<Rightarrow> ('f, 'k, 'cb, 'u) world option) \<Rightarrow>
   ('f, 'k, 'cb, 'u) world \<Rightarrow> ('f, 'k, 'cb, 'u) world option" where
  "doPendingFunctors run w = do {
     let (functors, el) = functors_begin (w_loop w);
     w \<leftarrow> run_calls run functors (w\<lparr>w_loop := el\<rparr>);
     Some (w\<lparr>w_loop := functors_end (w_loop w)\<rparr>) }"

section \<open>Timers of the loop\<close>

definition EventLoop_runAt ::
  "('cb timer_heap \<Rightarrow> nat) \<Rightarrow> Timestamp \<Rightarrow> Timestamp \<Rightarrow> 'cb \<Rightarrow> 'cb TimerQueue \<Rightarrow>
   (TimerId \<times> 'cb TimerQueue) option" where
  "EventLoop_runAt alloc now time cb q = addTiemr alloc now cb time 0 q"

definition EventLoop_runAfter ::
  "('cb timer_heap \<Rightarrow> nat) \<Rightarrow> Timestamp \<Rightarrow> rat \<Rightarrow> 'cb \<Rightarrow> 'cb TimerQueue \<Rightarrow>
   (TimerId \<times> 'cb TimerQueue) option" where
  "EventLoop_runAfter alloc now delay cb q =
     (let time = addTime now delay in EventLoop_runAt alloc now time cb q)"

definition EventLoop_runEvery ::
  "('cb timer_heap \<Rightarrow> nat) \<Rightarrow> Timestamp \<Rightarrow> rat \<Rightarrow> 'cb \<Rightarrow> 'cb TimerQueue \<Rightarrow>
   (TimerId \<times> 'cb TimerQueue) option" where
  "EventLoop_runEvery alloc now intv cb q =
     (let time = addTime now intv in addTiemr alloc now cb time intv q)"

section \<open>The loop\<close>

definition world_get :: "nat \<Rightarrow> ('f, 'k, 'cb, 'u) world \<Rightarrow> 'cb Channel option" where
  "world_get a w = w_chans w a"

definition world_upd :: "nat \<Rightarrow> ('cb Channel \<Rightarrow> 'cb Channel) \<Rightarrow> ('f, 'k, 'cb, 'u) world \<Rightarrow> ('f, 'k, 'cb, 'u) world" where
  "world_upd a f w = w\<lparr>w_chans := (w_chans w)(a := map_option f (w_chans w a))\<rparr>"

fun handle_active ::
  "(nat \<Rightarrow> ('f, 'k, 'cb, 'u) world \<Rightarrow> bool) \<Rightarrow>
   ('cb \<Rightarrow> Timestamp \<Rightarrow> ('f, 'k, 'cb, 'u) world \<Rightarrow> ('f, 'k, 'cb, 'u) world option) \<Rightarrow>
   nat list \<Rightarrow> ('f, 'k, 'cb, 'u) world \<Rightarrow> ('f, 'k, 'cb, 'u) world option" where
  "handle_active tie exec [] w = Some w"
| "handle_active tie exec (a # as) w = do {
     let w = w\<lparr>w_loop := (w_loop w)\<lparr>currentActiveChannel := Some a\<rparr>\<rparr>;
     w \<leftarrow> handleEvent (world_get a) (world_upd a) (tie a) exec (pollReturnTime (w_loop w)) w;
     handle_active tie exec as w }"

text \<open>
  \<open>poll\<close> is the call of the poller: it returns the world with the new \<^verbatim>\<open>activeChannels_\<close>, and
  the time.
\<close>

definition loop_iteration ::
  "(('f, 'k, 'cb, 'u) world \<Rightarrow> (Timestamp \<times> ('f, 'k, 'cb, 'u) world) option) \<Rightarrow>
   (nat \<Rightarrow> ('f, 'k, 'cb, 'u) world \<Rightarrow> bool) \<Rightarrow>
   ('cb \<Rightarrow> Timestamp \<Rightarrow> ('f, 'k, 'cb, 'u) world \<Rightarrow> ('f, 'k, 'cb, 'u) world option) \<Rightarrow>
   ('f \<Rightarrow> ('f, 'k, 'cb, 'u) world \<Rightarrow> ('f, 'k, 'cb, 'u) world option) \<Rightarrow>
   ('f, 'k, 'cb, 'u) world \<Rightarrow> ('f, 'k, 'cb, 'u) world option" where
  "loop_iteration poll tie exec run w = do {
     let w = w\<lparr>w_loop := (w_loop w)\<lparr>activeChannels := []\<rparr>\<rparr>;
     (t, w) \<leftarrow> poll w;
     let w = w\<lparr>w_loop := (w_loop w)\<lparr>pollReturnTime := t, iteration := iteration (w_loop w) + 1,
                                     eventHanding := True\<rparr>\<rparr>;
     w \<leftarrow> handle_active tie exec (activeChannels (w_loop w)) w;
     let w = w\<lparr>w_loop := (w_loop w)\<lparr>currentActiveChannel := None, eventHanding := False\<rparr>\<rparr>;
     doPendingFunctors run w }"

text \<open>
  The \<^verbatim>\<open>while\<close> of \<^verbatim>\<open>loop()\<close>, run for at most as many iterations as there are poll results; the
  flag says whether it ended by itself.
\<close>

fun loop_while ::
  "(('f, 'k, 'cb, 'u) world \<Rightarrow> (Timestamp \<times> ('f, 'k, 'cb, 'u) world) option) list \<Rightarrow>
   (nat \<Rightarrow> ('f, 'k, 'cb, 'u) world \<Rightarrow> bool) \<Rightarrow>
   ('cb \<Rightarrow> Timestamp \<Rightarrow> ('f, 'k, 'cb, 'u) world \<Rightarrow> ('f, 'k, 'cb, 'u) world option) \<Rightarrow>
   ('f \<Rightarrow> ('f, 'k, 'cb, 'u) world \<Rightarrow> ('f, 'k, 'cb, 'u) world option) \<Rightarrow>
   ('f, 'k, 'cb, 'u) world \<Rightarrow> (bool \<times> ('f, 'k, 'cb, 'u) world) option" where
  "loop_while polls tie exec run w =
     (if quit_state (w_loop w) = RUNNING
      then case polls of
             [] \<Rightarrow> Some (False, w)
           | poll # polls \<Rightarrow> loop_iteration poll tie exec run w \<bind> loop_while polls tie exec run
      else Some (True, w))"

declare loop_while.simps [simp del]

definition EventLoop_loop ::
  "(('f, 'k, 'cb, 'u) world \<Rightarrow> (Timestamp \<times> ('f, 'k, 'cb, 'u) world) option) list \<Rightarrow>
   (nat \<Rightarrow> ('f, 'k, 'cb, 'u) world \<Rightarrow> bool) \<Rightarrow>
   ('cb \<Rightarrow> Timestamp \<Rightarrow> ('f, 'k, 'cb, 'u) world \<Rightarrow> ('f, 'k, 'cb, 'u) world option) \<Rightarrow>
   ('f \<Rightarrow> ('f, 'k, 'cb, 'u) world \<Rightarrow> ('f, 'k, 'cb, 'u) world option) \<Rightarrow> int \<Rightarrow>
   ('f, 'k, 'cb, 'u) world \<Rightarrow> (bool \<times> ('f, 'k, 'cb, 'u) world) option" where
  "EventLoop_loop polls tie exec run tid w = do {
     assertm (\<not> looping (w_loop w));
     assertInLoopThread tid (w_loop w);
     let w = w\<lparr>w_loop := (w_loop w)\<lparr>looping := True\<rparr>\<rparr>;
     let w = (if quit_state (w_loop w) = CREATED
              then w\<lparr>w_loop := (w_loop w)\<lparr>quit_state := RUNNING\<rparr>\<rparr> else w);
     (fin, w) \<leftarrow> loop_while polls tie exec run w;
     Some (fin, if fin then w\<lparr>w_loop := (w_loop w)\<lparr>looping := False\<rparr>\<rparr> else w) }"

text \<open>
  The constructor. \<^verbatim>\<open>callingPendingFunctors_\<close> is not in the initialiser list: its first value is
  the argument \<open>garbage\<close>. A second loop in the same thread is fatal.
\<close>

definition EventLoop_new ::
  "nat \<Rightarrow> int \<Rightarrow> 'k AnyPoller \<Rightarrow> bool \<Rightarrow> nat option \<Rightarrow> ('f, 'k) EventLoop option" where
  "EventLoop_new this tid poller garbage t_loopInThisThread = do {
     assertm (t_loopInThisThread = None);
     Some \<lparr>el_this = this, looping = False, quit_state = CREATED, eventHanding = False,
       callingPendingFunctors = garbage, iteration = 0, threadId = tid,
       pollReturnTime = Timestamp_invalid, el_poller = poller, wakeup_count = 0,
       activeChannels = [], currentActiveChannel = None, pendingFunctors = []\<rparr> }"

section \<open>The interest list follows the channels\<close>

definition epoll_synced ::
  "('k \<Rightarrow> int \<rightharpoonup> epoll_event) \<Rightarrow> 'k EPollPoller \<Rightarrow> 'cb chan_heap \<Rightarrow> bool" where
  "epoll_synced interest ep h \<longleftrightarrow> EPollPoller_inv interest ep h \<and>
     (\<forall>fd a ch. ep_channels ep fd = Some a \<longrightarrow> h a = Some ch \<longrightarrow>
        epoll_watch interest ep fd = ch_events ch)"

definition world_synced :: "('k \<Rightarrow> int \<rightharpoonup> epoll_event) \<Rightarrow> ('f, 'k, 'cb, 'u) world \<Rightarrow> bool" where
  "world_synced interest w \<longleftrightarrow>
     (\<exists>ep. el_poller (w_loop w) = AnEPoll ep \<and> epoll_synced interest ep (w_chans w)) \<and>
     (\<forall>a ch. w_chans w a = Some ch \<longrightarrow> 0 \<le> ch_fd ch)"

lemma assertInLoopThread_bind [simp]:
  "(assertInLoopThread tid el \<bind> f) = (if threadId el = tid then f () else None)"
  by (simp add: assertInLoopThread_def isInLoopThread_def)

lemma EPoll_update_reg:
  assumes "EPollPoller_updateChannel ctl inLoop ep h a = Some r" and "h a = Some ch"
  shows "ep_channels ep (ch_fd ch) = Some a \<or> (ep_channels ep (ch_fd ch) = None \<and> ch_index ch = -1)"
  using assms
  by (auto simp: EPollPoller_updateChannel_def Poller_assertInLoopThread_def kNew_def split: if_splits)

context epoll_kernel
begin

lemma synced_eq: "synced ep h = epoll_synced interest ep h"
  by (simp add: synced_def epoll_synced_def)

lemma setEvents_synced:
  assumes sy: "world_synced interest w" and run: "Channel_setEvents epoll_ctl tid f a w = Some w'"
  shows "world_synced interest w'"
proof -
  obtain ep where ep: "el_poller (w_loop w) = AnEPoll ep" "epoll_synced interest ep (w_chans w)"
    using sy by (auto simp: world_synced_def)
  obtain ch where ch: "w_chans w a = Some ch"
    using run by (auto simp: Channel_setEvents_def elim: bind_SomeE)
  let ?ch = "ch\<lparr>ch_events := f (ch_events ch), addedToLoop := True\<rparr>"
  let ?h = "(w_chans w)(a \<mapsto> ?ch)"
  obtain ep' h' where u: "EPollPoller_updateChannel epoll_ctl True ep ?h a = Some (ep', h')"
      and w': "w' = w\<lparr>w_loop := (w_loop w)\<lparr>el_poller := AnEPoll ep'\<rparr>, w_chans := h'\<rparr>"
    using run ch ep(1)
    by (auto simp: Channel_setEvents_def Channel_update_def EventLoop_updateChannel_def
        any_updateChannel_def isInLoopThread_def elim!: bind_SomeE split: if_splits)
  have fd: "0 \<le> ch_fd ch" using sy ch by (auto simp: world_synced_def)
  have reg: "ep_channels ep (ch_fd ch) = Some a \<or> (ep_channels ep (ch_fd ch) = None \<and> ch_index ch = -1)"
    using EPoll_update_reg [OF u, of ?ch] by simp
  obtain ep'' i where "EPollPoller_updateChannel epoll_ctl True ep ?h a
        = Some (ep'', (w_chans w)(a \<mapsto> set_index i ?ch))"
      and "epoll_synced interest ep'' ((w_chans w)(a \<mapsto> set_index i ?ch))"
    using synced_update [OF ep(2) [folded synced_eq] ch fd reg, of "f (ch_events ch)"]
    by (auto simp: synced_eq)
  with u have "epoll_synced interest ep' h'" and h': "h' = (w_chans w)(a \<mapsto> set_index i ?ch)"
    by auto
  with sy fd show ?thesis
    by (auto simp: w' world_synced_def set_index_def)
qed

lemma remove_synced:
  assumes sy: "world_synced interest w" and run: "Channel_remove epoll_ctl tid a w = Some w'"
  shows "world_synced interest w'"
proof -
  obtain ep where ep: "el_poller (w_loop w) = AnEPoll ep" "epoll_synced interest ep (w_chans w)"
    using sy by (auto simp: world_synced_def)
  obtain ch where ch: "w_chans w a = Some ch" "isNoneEvent ch"
    using run by (auto simp: Channel_remove_def elim!: bind_SomeE split: if_splits)
  let ?ch = "ch\<lparr>addedToLoop := False\<rparr>"
  let ?h = "(w_chans w)(a \<mapsto> ?ch)"
  obtain ep' h' where u: "EPollPoller_removeChannel epoll_ctl True ep ?h a = Some (ep', h')"
      and w': "w' = w\<lparr>w_loop := (w_loop w)\<lparr>el_poller := AnEPoll ep'\<rparr>, w_chans := h'\<rparr>"
    using run ch ep(1)
    by (auto simp: Channel_remove_def EventLoop_removeChannel_def any_removeChannel_def
        isInLoopThread_def elim!: bind_SomeE split: if_splits)
  have reg: "ep_channels ep (ch_fd ch) = Some a"
    using u by (auto simp: EPollPoller_removeChannel_def Poller_assertInLoopThread_def split: if_splits)
  have "ch_events ch = 0" using ch(2) by (simp add: isNoneEvent_def kNoneEvent_def)
  from synced_remove [OF ep(2) [folded synced_eq] ch(1) reg this] u
  have "epoll_synced interest ep' h'" and h': "h' = (w_chans w)(a \<mapsto> set_index (-1) ?ch)"
    by (auto simp: synced_eq)
  moreover have "0 \<le> ch_fd ch" using sy ch(1) by (auto simp: world_synced_def)
  ultimately show ?thesis
    using sy by (auto simp: w' world_synced_def set_index_def)
qed

text \<open>A channel that is new, or registered, can be updated: no assertion fails.\<close>

lemma setEvents_succeeds:
  assumes sy: "world_synced interest w" and ch: "w_chans w a = Some ch"
    and own: "ch_loop ch = el_this (w_loop w)" and tid: "threadId (w_loop w) = tid"
    and reg: "any_channels (el_poller (w_loop w)) (ch_fd ch) = Some a
      \<or> (any_channels (el_poller (w_loop w)) (ch_fd ch) = None \<and> ch_index ch = -1)"
  shows "\<exists>w' i. Channel_setEvents epoll_ctl tid f a w = Some w'
    \<and> w_chans w' a = Some (set_index i (ch\<lparr>ch_events := f (ch_events ch), addedToLoop := True\<rparr>))"
proof -
  obtain ep where ep: "el_poller (w_loop w) = AnEPoll ep" "epoll_synced interest ep (w_chans w)"
    using sy by (auto simp: world_synced_def)
  have fd: "0 \<le> ch_fd ch" using sy ch by (auto simp: world_synced_def)
  obtain ep' i where "EPollPoller_updateChannel epoll_ctl True ep
        ((w_chans w)(a \<mapsto> ch\<lparr>ch_events := f (ch_events ch), addedToLoop := True\<rparr>)) a
      = Some (ep', (w_chans w)(a \<mapsto> set_index i (ch\<lparr>ch_events := f (ch_events ch), addedToLoop := True\<rparr>)))"
    using synced_update [OF ep(2) [folded synced_eq] ch fd, of "f (ch_events ch)"] reg ep(1)
    by (auto simp: any_channels_def)
  with ch own tid ep(1) show ?thesis
    by (auto simp: Channel_setEvents_def Channel_update_def EventLoop_updateChannel_def
        any_updateChannel_def isInLoopThread_def)
qed

end

text \<open>A life of channels.\<close>

datatype chan_op =
    OpNew nat int | OpEnableReading nat | OpDisableReading nat | OpEnableWriting nat
  | OpDisableWriting nat | OpDisableAll nat | OpRemove nat | OpDestroy nat

fun run_chan_op :: "'k epoll_ctl \<Rightarrow> int \<Rightarrow> chan_op \<Rightarrow> ('f, 'k, 'cb, 'u) world \<Rightarrow> ('f, 'k, 'cb, 'u) world option" where
  "run_chan_op ctl tid (OpNew a fd) w =
     (if w_chans w a = None \<and> 0 \<le> fd
      then Some (w\<lparr>w_chans := (w_chans w)(a \<mapsto> Channel_new (el_this (w_loop w)) fd)\<rparr>) else None)"
| "run_chan_op ctl tid (OpEnableReading a) w = enableReading ctl tid a w"
| "run_chan_op ctl tid (OpDisableReading a) w = disableReading ctl tid a w"
| "run_chan_op ctl tid (OpEnableWriting a) w = enableWriting ctl tid a w"
| "run_chan_op ctl tid (OpDisableWriting a) w = disableWriting ctl tid a w"
| "run_chan_op ctl tid (OpDisableAll a) w = disableAll ctl tid a w"
| "run_chan_op ctl tid (OpRemove a) w = Channel_remove ctl tid a w"
| "run_chan_op ctl tid (OpDestroy a) w = Channel_dtor tid a w"

fun run_chan_ops :: "'k epoll_ctl \<Rightarrow> int \<Rightarrow> chan_op list \<Rightarrow> ('f, 'k, 'cb, 'u) world \<Rightarrow> ('f, 'k, 'cb, 'u) world option" where
  "run_chan_ops ctl tid [] w = Some w"
| "run_chan_ops ctl tid (op # ops) w = run_chan_op ctl tid op w \<bind> run_chan_ops ctl tid ops"

lemma world_synced_new:
  assumes "world_synced interest w" and "w_chans w a = None" and "0 \<le> fd"
  shows "world_synced interest (w\<lparr>w_chans := (w_chans w)(a \<mapsto> Channel_new l fd)\<rparr>)"
proof -
  obtain ep where ep: "el_poller (w_loop w) = AnEPoll ep" "epoll_synced interest ep (w_chans w)"
    using assms(1) by (auto simp: world_synced_def)
  have ne: "a' \<noteq> a" if "ep_channels ep fd' = Some a'" for fd' a'
    using that ep(2) assms(2) by (auto simp: epoll_synced_def elim: EPollPoller_invD)
  have "EPollPoller_inv interest ep ((w_chans w)(a \<mapsto> Channel_new l fd))"
    using ep(2) ne unfolding epoll_synced_def EPollPoller_inv_def by (metis fun_upd_other)
  with ep ne assms show ?thesis
    by (auto simp: world_synced_def epoll_synced_def Channel_new_def)
qed

lemma world_synced_dtor:
  assumes "world_synced interest w" and run: "Channel_dtor tid a w = Some w'"
    and "threadId (w_loop w) = tid"
  shows "world_synced interest w'"
proof -
  obtain ep where ep: "el_poller (w_loop w) = AnEPoll ep" "epoll_synced interest ep (w_chans w)"
    using assms(1) by (auto simp: world_synced_def)
  obtain ch where ch: "w_chans w a = Some ch" and no: "ep_channels ep (ch_fd ch) \<noteq> Some a"
      and w': "w' = w\<lparr>w_chans := (w_chans w)(a := None)\<rparr>"
    using run ep(1) assms(3)
    by (auto simp: Channel_dtor_def EventLoop_hasChannel_def Poller_hasChannel_def any_channels_def
        Poller_assertInLoopThread_def isInLoopThread_def elim!: bind_SomeE split: if_splits option.splits)
  have ne: "a' \<noteq> a" if "ep_channels ep fd' = Some a'" for fd' a'
  proof
    assume "a' = a"
    with that ep(2) ch have "ch_fd ch = fd'"
      by (auto simp: epoll_synced_def epoll_chan_ok_def elim!: EPollPoller_invD)
    with that no \<open>a' = a\<close> show False by simp
  qed
  have "EPollPoller_inv interest ep ((w_chans w)(a := None))"
    using ep(2) ne unfolding epoll_synced_def EPollPoller_inv_def by (metis fun_upd_other)
  with ep ne assms(1) show ?thesis
    by (auto simp: w' world_synced_def epoll_synced_def)
qed

lemma setEvents_thread:
  "Channel_setEvents ctl tid f a w = Some w' \<Longrightarrow> threadId (w_loop w') = threadId (w_loop w)"
  by (auto simp: Channel_setEvents_def Channel_update_def EventLoop_updateChannel_def
      elim!: bind_SomeE split: if_splits)

lemma chan_op_thread:
  assumes "run_chan_op ctl tid op w = Some w'"
  shows "threadId (w_loop w') = threadId (w_loop w)"
  using assms
  by (cases op)
    (auto simp: enableReading_def disableReading_def enableWriting_def disableWriting_def disableAll_def
      Channel_remove_def EventLoop_removeChannel_def Channel_dtor_def
      elim!: bind_SomeE split: if_splits dest: setEvents_thread)

lemma chan_op_synced:
  assumes "epoll_kernel ctl wait interest" and "world_synced interest w"
    and "threadId (w_loop w) = tid" and "run_chan_op ctl tid op w = Some w'"
  shows "world_synced interest w'"
proof -
  note kernel = epoll_kernel.setEvents_synced [OF assms(1,2)]
  show ?thesis
  proof (cases op)
    case (OpNew a fd)
    with assms(2,4) show ?thesis by (auto simp: world_synced_new split: if_splits)
  next
    case (OpRemove a)
    with assms(4) epoll_kernel.remove_synced [OF assms(1,2)] show ?thesis by simp
  next
    case (OpDestroy a)
    with assms(4) world_synced_dtor [OF assms(2) _ assms(3)] show ?thesis by simp
  qed (use assms(4) kernel in \<open>auto simp: enableReading_def disableReading_def enableWriting_def
      disableWriting_def disableAll_def\<close>)
qed

lemma chan_ops_synced:
  assumes "epoll_kernel ctl wait interest" and "world_synced interest w"
    and "threadId (w_loop w) = tid" and "run_chan_ops ctl tid ops w = Some w'"
  shows "world_synced interest w'"
  using assms(2-4)
proof (induction ops arbitrary: w)
  case (Cons op ops)
  obtain w1 where w1: "run_chan_op ctl tid op w = Some w1" "run_chan_ops ctl tid ops w1 = Some w'"
    using Cons.prems(3) by (auto elim: bind_SomeE)
  with Cons.IH [of w1] chan_op_synced [OF assms(1) Cons.prems(1,2) w1(1)] chan_op_thread [OF w1(1)]
    Cons.prems(2)
  show ?case by simp
qed simp

section \<open>Functors\<close>

text \<open>Functors that, when run, only queue further functors: what they queue is \<open>pushes f\<close>.\<close>

definition run_pushes ::
  "int \<Rightarrow> ('f \<Rightarrow> 'f list) \<Rightarrow> 'f \<Rightarrow> ('f, 'k, 'cb, 'f list) world \<Rightarrow> ('f, 'k, 'cb, 'f list) world option" where
  "run_pushes tid pushes f w =
     Some (w\<lparr>w_loop := fold (queueInLoop tid) (pushes f) (w_loop w), w_user := w_user w @ [f]\<rparr>)"

lemma fold_queueInLoop:
  assumes "callingPendingFunctors el"
  shows "pendingFunctors (fold (queueInLoop tid) fs el) = pendingFunctors el @ fs"
    and "wakeup_count (fold (queueInLoop tid) fs el) = wakeup_count el + length fs"
    and "callingPendingFunctors (fold (queueInLoop tid) fs el)"
  using assms
  by (induction fs arbitrary: el)
    (simp_all add: queueInLoop_def queue_push_def queue_wakes_def EventLoop_wakeup_def)

lemma run_calls_pushes:
  assumes "callingPendingFunctors (w_loop w)"
  shows "\<exists>w'. run_calls (run_pushes tid pushes) fs w = Some w'
    \<and> w_user w' = w_user w @ fs
    \<and> pendingFunctors (w_loop w') = pendingFunctors (w_loop w) @ concat (map pushes fs)
    \<and> wakeup_count (w_loop w') = wakeup_count (w_loop w) + length (concat (map pushes fs))
    \<and> callingPendingFunctors (w_loop w')"
  using assms
proof (induction fs arbitrary: w)
  case (Cons f fs)
  let ?w = "w\<lparr>w_loop := fold (queueInLoop tid) (pushes f) (w_loop w), w_user := w_user w @ [f]\<rparr>"
  have "callingPendingFunctors (w_loop ?w)"
    using fold_queueInLoop(3) [OF Cons.prems] by simp
  from Cons.IH [OF this] show ?case
    using fold_queueInLoop [OF Cons.prems, of tid "pushes f"] by (auto simp: run_pushes_def)
qed simp

lemma doPendingFunctors_pushes:
  "\<exists>w'. doPendingFunctors (run_pushes tid pushes) w = Some w'
    \<and> w_user w' = w_user w @ pendingFunctors (w_loop w)
    \<and> pendingFunctors (w_loop w') = concat (map pushes (pendingFunctors (w_loop w)))
    \<and> wakeup_count (w_loop w') = wakeup_count (w_loop w)
        + length (concat (map pushes (pendingFunctors (w_loop w))))
    \<and> \<not> callingPendingFunctors (w_loop w')"
  using run_calls_pushes [of "w\<lparr>w_loop := (w_loop w)\<lparr>callingPendingFunctors := True, pendingFunctors := []\<rparr>\<rparr>"
      tid pushes "pendingFunctors (w_loop w)"]
  by (auto simp: doPendingFunctors_def functors_begin_def functors_end_def)

section \<open>Interleavings with other threads\<close>

text \<open>
  The loop thread's position in \<^verbatim>\<open>loop()\<close>: blocked in or about to enter \<^verbatim>\<open>poll\<close>, handling events
  (with the wake-up descriptor still to be read or not), or running the functors it swapped out.
  \<open>testers\<close> are the threads inside \<^verbatim>\<open>queueInLoop\<close>: they have pushed their functor and released the
  mutex, and have the test and the wake-up before them. The ghost fields record what was queued and
  what has run.
\<close>

datatype loop_pc = AtPoll | Handling bool | Running

record ('f, 'k) conc =
  c_loop :: "('f, 'k) EventLoop"
  c_pc :: loop_pc
  c_running :: "'f list"
  testers :: "int list"
  queued :: "'f list"
  ran :: "'f list"

datatype 'f conc_label = Push int 'f | Wake int | Loop

text \<open>
  Atomic steps. Any thread queues functors, the loop thread from the callbacks and functors that it runs;
  a thread is in one call of \<^verbatim>\<open>queueInLoop\<close> at a time, and the loop goes on when that call has returned.
  \<^verbatim>\<open>poll\<close> may return at any time (other events, the timeout), and reports the wake-up descriptor when
  it is readable.
\<close>

inductive conc_step :: "int \<Rightarrow> 'f conc_label \<Rightarrow> ('f, 'k) conc \<Rightarrow> ('f, 'k) conc \<Rightarrow> bool" for tid :: int where
  push: "t \<notin> set (testers c) \<Longrightarrow> (t = tid \<Longrightarrow> c_pc c \<noteq> AtPoll) \<Longrightarrow>
    conc_step tid (Push t f) c (c\<lparr>c_loop := queue_push f (c_loop c), testers := t # testers c, queued := queued c @ [f]\<rparr>)"
| wake: "t \<in> set (testers c) \<Longrightarrow>
    conc_step tid (Wake t) c
      (c\<lparr>c_loop := (if queue_wakes t (c_loop c) then EventLoop_wakeup (c_loop c) else c_loop c),
         testers := remove1 t (testers c)\<rparr>)"
| poll_return: "tid \<notin> set (testers c) \<Longrightarrow> c_pc c = AtPoll \<Longrightarrow>
    conc_step tid Loop c (c\<lparr>c_pc := Handling (0 < wakeup_count (c_loop c))\<rparr>)"
| handle_wakeup: "tid \<notin> set (testers c) \<Longrightarrow> c_pc c = Handling True \<Longrightarrow>
    conc_step tid Loop c (c\<lparr>c_loop := EventLoop_handleRead (c_loop c), c_pc := Handling False\<rparr>)"
| begin_functors: "tid \<notin> set (testers c) \<Longrightarrow> c_pc c = Handling False \<Longrightarrow> functors_begin (c_loop c) = (fs, el) \<Longrightarrow>
    conc_step tid Loop c (c\<lparr>c_loop := el, c_pc := Running, c_running := fs\<rparr>)"
| run_functor: "tid \<notin> set (testers c) \<Longrightarrow> c_pc c = Running \<Longrightarrow> c_running c = f # fs \<Longrightarrow>
    conc_step tid Loop c (c\<lparr>c_running := fs, ran := ran c @ [f]\<rparr>)"
| end_functors: "tid \<notin> set (testers c) \<Longrightarrow> c_pc c = Running \<Longrightarrow> c_running c = [] \<Longrightarrow>
    conc_step tid Loop c (c\<lparr>c_loop := functors_end (c_loop c), c_pc := AtPoll\<rparr>)"

inductive_cases conc_LoopE: "conc_step tid Loop c c'"
inductive_cases conc_PushE: "conc_step tid (Push t f) c c'"
inductive_cases conc_WakeE: "conc_step tid (Wake t) c c'"

text \<open>The loop as \<^verbatim>\<open>loop()\<close> starts it, with nothing queued yet.\<close>

definition conc_init :: "int \<Rightarrow> ('f, 'k) conc \<Rightarrow> bool" where
  "conc_init tid c \<longleftrightarrow> c_pc c = AtPoll \<and> c_running c = [] \<and> testers c = [] \<and> queued c = [] \<and> ran c = []
     \<and> pendingFunctors (c_loop c) = [] \<and> \<not> callingPendingFunctors (c_loop c)
     \<and> threadId (c_loop c) = tid"

inductive conc_reach :: "int \<Rightarrow> ('f, 'k) conc \<Rightarrow> bool" for tid :: int where
  init: "conc_init tid c \<Longrightarrow> conc_reach tid c"
| step: "conc_reach tid c \<Longrightarrow> conc_step tid l c c' \<Longrightarrow> conc_reach tid c'"

definition conc_inv :: "int \<Rightarrow> ('f, 'k) conc \<Rightarrow> bool" where
  "conc_inv tid c \<longleftrightarrow> threadId (c_loop c) = tid
     \<and> (callingPendingFunctors (c_loop c) \<longleftrightarrow> c_pc c = Running)
     \<and> (c_pc c \<noteq> Running \<longrightarrow> c_running c = [])
     \<and> distinct (testers c)
     \<and> (c_pc c = AtPoll \<longrightarrow> tid \<notin> set (testers c))
     \<and> queued c = ran c @ c_running c @ pendingFunctors (c_loop c)
     \<and> (c_pc c = AtPoll \<or> c_pc c = Running \<longrightarrow> pendingFunctors (c_loop c) \<noteq> [] \<longrightarrow>
          0 < wakeup_count (c_loop c) \<or> (\<exists>t\<in>set (testers c). queue_wakes t (c_loop c)))"

lemmas functor_defs = queue_push_def queue_wakes_def EventLoop_wakeup_def EventLoop_handleRead_def
  queueInLoop_def functors_begin_def functors_end_def isInLoopThread_def

lemma conc_inv_step: "conc_step tid l c c' \<Longrightarrow> conc_inv tid c \<Longrightarrow> conc_inv tid c'"
  by (cases rule: conc_step.cases, assumption) (auto simp: conc_inv_def functor_defs)

lemma conc_reach_inv: "conc_reach tid c \<Longrightarrow> conc_inv tid c"
proof (induction rule: conc_reach.induct)
  case (init c)
  then show ?case by (simp add: conc_inv_def conc_init_def)
next
  case (step c l c')
  then show ?case by (blast intro: conc_inv_step)
qed

section \<open>Fair runs\<close>

text \<open>
  An infinite run with its labels; \<open>None\<close> is a step of the rest of the system. It is fair if every thread
  inside \<^verbatim>\<open>queueInLoop\<close> gets out of it, and the loop thread goes on whenever it is not blocked: \<^verbatim>\<open>poll\<close>
  returns when the wake-up descriptor is readable - nothing is assumed about its timeout or other
  descriptors - and callbacks and functors return.
\<close>

definition blocked :: "('f, 'k) conc \<Rightarrow> bool" where
  "blocked c \<longleftrightarrow> c_pc c = AtPoll \<and> wakeup_count (c_loop c) = 0"

definition conc_run :: "int \<Rightarrow> (nat \<Rightarrow> 'f conc_label option) \<Rightarrow> (nat \<Rightarrow> ('f, 'k) conc) \<Rightarrow> bool" where
  "conc_run tid ls run \<longleftrightarrow> conc_init tid (run 0) \<and>
     (\<forall>i. case ls i of None \<Rightarrow> run (Suc i) = run i | Some l \<Rightarrow> conc_step tid l (run i) (run (Suc i)))"

definition fair_run :: "(nat \<Rightarrow> 'f conc_label option) \<Rightarrow> (nat \<Rightarrow> ('f, 'k) conc) \<Rightarrow> bool" where
  "fair_run ls run \<longleftrightarrow>
     (\<forall>t i. (\<forall>j\<ge>i. t \<in> set (testers (run j))) \<longrightarrow> (\<exists>j\<ge>i. ls j = Some (Wake t))) \<and>
     (\<forall>i. (\<forall>j\<ge>i. \<not> blocked (run j)) \<longrightarrow> (\<exists>j\<ge>i. ls j = Some Loop))"

lemma conc_run_step:
  assumes "conc_run tid ls run"
  obtains "ls i = None" "run (Suc i) = run i" | l where "ls i = Some l" "conc_step tid l (run i) (run (Suc i))"
  using assms by (cases "ls i") (force simp: conc_run_def split: option.splits)+

lemma conc_run_inv:
  assumes "conc_run tid ls run"
  shows "conc_inv tid (run i)"
proof (induction i)
  case 0
  then show ?case using assms conc_reach.init conc_reach_inv by (auto simp: conc_run_def)
next
  case (Suc i)
  then show ?case by (rule_tac conc_run_step[OF assms, of i]) (auto intro: conc_inv_step)
qed

text \<open>What every step keeps, and what a step of another thread keeps.\<close>

lemma step_queued: "conc_step tid l c c' \<Longrightarrow> \<exists>fs. queued c' = queued c @ fs"
  by (cases rule: conc_step.cases, assumption) auto

lemma step_other:
  assumes "conc_step tid l c c'" and "l \<noteq> Loop"
  shows "c_pc c' = c_pc c" "c_running c' = c_running c" "ran c' = ran c" "wakeup_count (c_loop c) \<le> wakeup_count (c_loop c')"
  using assms by (cases rule: conc_step.cases; force simp: functor_defs)+

lemma run_mono:
  assumes "conc_run tid ls run" and "i \<le> j"
  shows "\<exists>fs. queued (run j) = queued (run i) @ fs"
  using assms(2)
proof (induction j rule: dec_induct)
  case (step j)
  have "\<exists>fs. queued (run (Suc j)) = queued (run j) @ fs"
    by (rule conc_run_step[OF assms(1), of j]) (auto dest: step_queued)
  then show ?case using step.IH by auto
qed simp

lemma run_still:
  assumes "conc_run tid ls run" and "i \<le> j" and "\<forall>k\<ge>i. ls k \<noteq> Some Loop"
  shows "c_pc (run j) = c_pc (run i) \<and> c_running (run j) = c_running (run i) \<and> ran (run j) = ran (run i) \<and>
    wakeup_count (c_loop (run i)) \<le> wakeup_count (c_loop (run j))"
  using assms(2)
proof (induction j rule: dec_induct)
  case (step j)
  have "ls j \<noteq> Some Loop" using assms(3) step.hyps by simp
  then show ?case
    using step.IH by (rule_tac conc_run_step[OF assms(1), of j]) (auto dest: step_other)
qed simp

text \<open>A thread stays a tester until it takes its step.\<close>

lemma step_tester: "conc_step tid l c c' \<Longrightarrow> t \<in> set (testers c) \<Longrightarrow> l \<noteq> Wake t \<Longrightarrow> t \<in> set (testers c')"
  by (cases rule: conc_step.cases, assumption) auto

lemma run_tester:
  assumes "conc_run tid ls run" and "i \<le> j" and "t \<in> set (testers (run i))" and "\<forall>k. i \<le> k \<and> k < j \<longrightarrow> ls k \<noteq> Some (Wake t)"
  shows "t \<in> set (testers (run j))"
  using assms(2,4)
proof (induction j rule: dec_induct)
  case base
  then show ?case using assms(3) by simp
next
  case (step j)
  then have "t \<in> set (testers (run j))" "ls j \<noteq> Some (Wake t)" by simp_all
  then show ?case
    by (rule_tac conc_run_step[OF assms(1), of j]) (auto intro: step_tester)
qed

text \<open>The loop never stops for good while a functor is waiting.\<close>

lemma loop_goes_on:
  assumes "conc_run tid ls run" and "fair_run ls run" and waiting: "\<And>j. i \<le> j \<Longrightarrow> length (ran (run j)) < length (queued (run j))"
  shows "\<exists>j\<ge>i. ls j = Some Loop"
proof (rule ccontr)
  assume "\<not> (\<exists>j\<ge>i. ls j = Some Loop)"
  then have no: "\<forall>k\<ge>i. ls k \<noteq> Some Loop" by blast
  then obtain j where "i \<le> j" "blocked (run j)" using assms(2) unfolding fair_run_def by blast
  then have j: "i \<le> j" "c_pc (run j) = AtPoll" "wakeup_count (c_loop (run j)) = 0" by (simp_all add: blocked_def)
  have inv: "conc_inv tid (run j)" by (rule conc_run_inv[OF assms(1)])
  then have "pendingFunctors (c_loop (run j)) \<noteq> []" using waiting[OF j(1)] j(2) by (auto simp: conc_inv_def)
  then obtain t where t: "t \<in> set (testers (run j))" "queue_wakes t (c_loop (run j))" "t \<noteq> tid"
    using inv j(2,3) by (auto simp: conc_inv_def)
  obtain k where k: "j \<le> k" "ls k = Some (Wake t)" and "\<forall>m. j \<le> m \<and> m < k \<longrightarrow> ls m \<noteq> Some (Wake t)"
  proof -
    let ?P = "\<lambda>k. j \<le> k \<and> ls k = Some (Wake t)"
    have "\<exists>k. ?P k"
    proof (rule ccontr)
      assume "\<not> (\<exists>k. ?P k)"
      then have "\<forall>k\<ge>j. t \<in> set (testers (run k))" using run_tester[OF assms(1) _ t(1)] by blast
      then show False using assms(2) \<open>\<not> (\<exists>k. ?P k)\<close> unfolding fair_run_def by blast
    qed
    then show ?thesis using that[of "LEAST k. ?P k"] LeastI_ex[of ?P] not_less_Least[of _ ?P] by blast
  qed
  have "conc_step tid (Wake t) (run k) (run (Suc k))"
    using assms(1) k(2) by (auto simp: conc_run_def dest: spec[of _ k])
  moreover have "threadId (c_loop (run k)) = tid" using conc_run_inv[OF assms(1), of k] by (simp add: conc_inv_def)
  ultimately have up: "0 < wakeup_count (c_loop (run (Suc k)))"
    using t(3) by (auto elim!: conc_WakeE simp: functor_defs)
  have "\<not> blocked (run m)" if "Suc k \<le> m" for m
    using run_still[OF assms(1) that] no k(1) j(1) up by (simp add: blocked_def)
  then show False using assms(2) no k(1) j(1) unfolding fair_run_def by (meson le_SucI order_trans)
qed

text \<open>The steps of the loop thread until the first \<open>n\<close> functors have run.\<close>

definition distance :: "nat \<Rightarrow> ('f, 'k) conc \<Rightarrow> nat" where
  "distance n c = (n - length (ran c)) +
     (case c_pc c of AtPoll \<Rightarrow> 4 | Handling b \<Rightarrow> if b then 3 else 2
      | Running \<Rightarrow> if n \<le> length (ran c) + length (c_running c) then 0 else 5)"

lemma distance_loop:
  assumes "conc_step tid Loop c c'" and "conc_inv tid c" and "length (ran c) < n" and "n \<le> length (queued c)"
  shows "distance n c' < distance n c"
proof -
  have q: "n \<le> length (ran c) + length (c_running c) + length (pendingFunctors (c_loop c))"
    and r: "c_pc c \<noteq> Running \<Longrightarrow> c_running c = []"
    using assms(2,4) by (simp_all add: conc_inv_def)
  show ?thesis using assms(1)
  proof (cases rule: conc_step.cases)
    case poll_return
    then show ?thesis using q r assms(3) by (auto simp: distance_def)
  next
    case handle_wakeup
    then show ?thesis using q r assms(3) by (simp add: distance_def)
  next
    case (begin_functors fs el)
    then have "c_running c' = pendingFunctors (c_loop c)" "c_pc c' = Running" "ran c' = ran c"
      by (auto simp: functors_begin_def)
    then show ?thesis using q r begin_functors assms(3) by (simp add: distance_def)
  next
    case (run_functor f fs)
    then have "length (ran c') = Suc (length (ran c))" "c_pc c' = Running" "length (c_running c) = Suc (length (c_running c'))" by simp_all
    then show ?thesis using run_functor(3) assms(3) by (auto simp: distance_def)
  next
    case end_functors
    then show ?thesis using assms(3) by (simp add: distance_def)
  qed
qed

lemma distance_other:
  assumes "conc_step tid l c c'" and "l \<noteq> Loop"
  shows "distance n c' = distance n c"
  using step_other[OF assms] by (simp add: distance_def)

lemma eventually_ran:
  assumes run: "conc_run tid ls run" and fair: "fair_run ls run" and "i \<le> k" and "n \<le> length (queued (run i))"
  shows "\<exists>j\<ge>k. n \<le> length (ran (run j))"
  using assms(3)
proof (induction "distance n (run k)" arbitrary: k rule: less_induct)
  case less
  show ?case
  proof (rule ccontr)
    assume no: "\<not> ?thesis"
    have q: "n \<le> length (queued (run j))" if "i \<le> j" for j using run_mono[OF run that] assms(4) by auto
    obtain j where j: "k \<le> j" "ls j = Some Loop" "\<forall>m. k \<le> m \<and> m < j \<longrightarrow> ls m \<noteq> Some Loop"
    proof -
      have "\<exists>j\<ge>k. ls j = Some Loop"
      proof (rule loop_goes_on[OF run fair])
        fix j assume "k \<le> j"
        then show "length (ran (run j)) < length (queued (run j))" using no q[of j] less.prems by force
      qed
      then show ?thesis using that[of "LEAST j. k \<le> j \<and> ls j = Some Loop"]
        LeastI_ex[of "\<lambda>j. k \<le> j \<and> ls j = Some Loop"] not_less_Least[of _ "\<lambda>j. k \<le> j \<and> ls j = Some Loop"] by blast
    qed
    have "distance n (run j) = distance n (run k)"
      using j(1,3)
    proof (induction j rule: dec_induct)
      case (step m)
      then have "distance n (run m) = distance n (run k)" "ls m \<noteq> Some Loop" by simp_all
      then show ?case by (rule_tac conc_run_step[OF run, of m]) (auto simp: distance_other)
    qed simp
    moreover have st: "conc_step tid Loop (run j) (run (Suc j))" using run j(2) by (auto simp: conc_run_def dest: spec[of _ j])
    have "length (ran (run j)) < n" using no j(1) by (meson not_le)
    then have "distance n (run (Suc j)) < distance n (run j)"
      using distance_loop[OF st conc_run_inv[OF run]] q[of j] j(1) less.prems by simp
    ultimately obtain m where "Suc j \<le> m" "n \<le> length (ran (run m))"
      using less.hyps[of "Suc j"] less.prems j(1) by auto
    then show False using no j(1) by (meson Suc_leD order_trans)
  qed
qed

section \<open>The loop's own channel\<close>

text \<open>The read callback of the wake-up channel is \<^verbatim>\<open>EventLoop::handleRead\<close>.\<close>

definition wakeup_exec ::
  "'cb \<Rightarrow> Timestamp \<Rightarrow> ('f, 'k, 'cb, 'u) world \<Rightarrow> ('f, 'k, 'cb, 'u) world option" where
  "wakeup_exec cb t w = Some (w\<lparr>w_loop := EventLoop_handleRead (w_loop w)\<rparr>)"

interpretation wakeup: channel_view "world_get a" "world_upd a" wakeup_exec
  by unfold_locales (auto simp: world_get_def world_upd_def wakeup_exec_def)

section \<open>Properties\<close>

lemma new_loop_init:
  assumes "EventLoop_new this tid p False None = Some el"
  shows "conc_init tid \<lparr>c_loop = el, c_pc = AtPoll, c_running = [], testers = [], queued = [], ran = []\<rparr>"
  using assms by (auto simp: EventLoop_new_def conc_init_def)

text \<open>C3: No wake-up is lost: over all interleavings of the loop with the threads that queue functors, itself
  included, whenever the loop thread is at \<^verbatim>\<open>poll\<close> with functors pending, its wake-up descriptor is
  readable or another thread that has pushed is about to write it; and functors run exactly once, in the
  order in which they were queued.\<close>

theorem no_lost_wakeup:
  assumes "conc_reach tid c"
  shows "(c_pc c = AtPoll \<and> pendingFunctors (c_loop c) \<noteq> [] \<longrightarrow>
      0 < wakeup_count (c_loop c) \<or> (\<exists>t\<in>set (testers c). t \<noteq> tid \<and> queue_wakes t (c_loop c)))
    \<and> queued c = ran c @ c_running c @ pendingFunctors (c_loop c)"
  using conc_reach_inv [OF assms] by (auto simp: conc_inv_def)

theorem no_lost_wakeup_witness:
  "\<exists>c :: (nat, unit) conc. conc_reach 1 c \<and> c_pc c = AtPoll \<and> pendingFunctors (c_loop c) = [5] \<and> testers c = []
     \<and> 0 < wakeup_count (c_loop c)"
proof -
  obtain el :: "(nat, unit) EventLoop" where
      el: "EventLoop_new 0 1 (APoll PollPoller_new) False None = Some el"
    by (simp add: EventLoop_new_def)
  let ?c = "\<lparr>c_loop = el, c_pc = AtPoll, c_running = [], testers = [], queued = [], ran = []\<rparr>"
  let ?d = "?c\<lparr>c_loop := queue_push 5 (c_loop ?c), testers := 2 # testers ?c, queued := queued ?c @ [5]\<rparr>"
  let ?e = "?d\<lparr>c_loop := (if queue_wakes 2 (c_loop ?d) then EventLoop_wakeup (c_loop ?d) else c_loop ?d),
    testers := remove1 2 (testers ?d)\<rparr>"
  have "conc_reach 1 ?c" by (rule conc_reach.init) (rule new_loop_init [OF el])
  moreover have "conc_step 1 (Push 2 5) ?c ?d" by (rule conc_step.push) simp_all
  ultimately have "conc_reach 1 ?d" by (rule conc_reach.step)
  moreover have "conc_step 1 (Wake 2) ?d ?e" by (rule conc_step.wake) simp
  ultimately have r: "conc_reach 1 ?e" by (rule conc_reach.step)
  have "pendingFunctors (c_loop ?e) = [5]" using el by (auto simp: EventLoop_new_def functor_defs)
  with no_lost_wakeup [OF r] r show ?thesis by (intro exI [of _ ?e]) simp
qed

text \<open>C14: Every queued functor gets run: in every fair run, whatever is queued at some moment, by whichever
  thread, has run at a later moment, in order. Nothing is assumed about the timeout of \<^verbatim>\<open>poll\<close>: the wake-up
  descriptor alone brings the loop back.\<close>

theorem pending_functors_run:
  assumes "conc_run tid ls run" and "fair_run ls run"
  shows "\<exists>j\<ge>i. \<exists>more. ran (run j) = queued (run i) @ more"
proof -
  obtain j where j: "i \<le> j" "length (queued (run i)) \<le> length (ran (run j))"
    using eventually_ran[OF assms order_refl order_refl] by blast
  obtain fs where "queued (run j) = queued (run i) @ fs" using run_mono[OF assms(1) j(1)] by blast
  moreover have "queued (run j) = ran (run j) @ c_running (run j) @ pendingFunctors (c_loop (run j))"
    using conc_run_inv[OF assms(1), of j] by (simp add: conc_inv_def)
  ultimately have "ran (run j) @ c_running (run j) @ pendingFunctors (c_loop (run j)) = queued (run i) @ fs" by simp
  then have "ran (run j) = queued (run i) @ take (length (ran (run j)) - length (queued (run i))) fs"
    using j(2) by (metis append_eq_conv_conj take_all take_append)
  then show ?thesis using j(1) by blast
qed

text \<open>A run in which one functor is queued from outside while the loop is blocked, and after it nothing.\<close>

lemma ex_fair_run:
  fixes el :: "(nat, unit) EventLoop"
  assumes "EventLoop_new 0 1 (APoll PollPoller_new) False None = Some el"
  shows "\<exists>ls run. conc_run 1 ls run \<and> fair_run ls run \<and> c_loop (run 0) = el \<and> queued (run 1) = [5]"
proof -
  define c where "c = (\<lparr>c_loop = el, c_pc = AtPoll, c_running = [], testers = [], queued = [], ran = [] :: nat list\<rparr>)"
  define c1 where "c1 = (c\<lparr>c_loop := queue_push 5 el, testers := [2], queued := [5]\<rparr>)"
  define c2 where "c2 = (c1\<lparr>c_loop := EventLoop_wakeup (queue_push 5 el), testers := []\<rparr>)"
  define c3 where "c3 = (c2\<lparr>c_pc := Handling True\<rparr>)"
  define c4 where "c4 = (c3\<lparr>c_loop := EventLoop_handleRead (c_loop c3), c_pc := Handling False\<rparr>)"
  define c5 where "c5 = (c4\<lparr>c_loop := snd (functors_begin (c_loop c4)), c_pc := Running, c_running := [5]\<rparr>)"
  define c6 where "c6 = (c5\<lparr>c_running := [], ran := [5]\<rparr>)"
  define c7 where "c7 = (c6\<lparr>c_loop := functors_end (c_loop c6), c_pc := AtPoll\<rparr>)"
  define run where "run = (\<lambda>i::nat. [c, c1, c2, c3, c4, c5, c6, c7] ! min i 7)"
  define ls where "ls = (\<lambda>i::nat. if i = 0 then Some (Push 2 (5 :: nat)) else if i = 1 then Some (Wake 2) else if i < 7 then Some Loop else None)"
  have i: "conc_init 1 c" unfolding c_def using assms(1) by (rule new_loop_init)
  have el: "threadId el = 1" "wakeup_count el = 0" "pendingFunctors el = []" using assms(1) by (auto simp: EventLoop_new_def)
  have s: "conc_step 1 (Push 2 5) c c1" "conc_step 1 (Wake 2) c1 c2" "conc_step 1 Loop c2 c3" "conc_step 1 Loop c3 c4"
    "conc_step 1 Loop c4 c5" "conc_step 1 Loop c5 c6" "conc_step 1 Loop c6 c7"
    using conc_step.push[of 2 c 1 5] conc_step.wake[of 2 c1 1] conc_step.poll_return[of 1 c2] conc_step.handle_wakeup[of 1 c3]
      conc_step.begin_functors[of 1 c4] conc_step.run_functor[of 1 c5] conc_step.end_functors[of 1 c6] el
    by (simp_all add: c_def c1_def c2_def c3_def c4_def c5_def c6_def c7_def functor_defs)
  have "case ls i of None \<Rightarrow> run (Suc i) = run i | Some l \<Rightarrow> conc_step 1 l (run i) (run (Suc i))" for i
  proof -
    consider "i = 0" | "i = 1" | "i = 2" | "i = 3" | "i = 4" | "i = 5" | "i = 6" | "7 \<le> i" by linarith
    then show ?thesis by cases (simp_all add: ls_def run_def s min_def)
  qed
  moreover have "run 0 = c" by (simp add: run_def)
  ultimately have cr: "conc_run 1 ls run" using i by (simp add: conc_run_def)
  have last: "run j = c7" if "7 \<le> j" for j using that by (simp add: run_def min_def)
  have "blocked c7" "testers c7 = []"
    using el by (simp_all add: blocked_def c7_def c6_def c5_def c4_def c3_def c2_def c1_def functor_defs)
  then have "fair_run ls run"
    unfolding fair_run_def using last by (metis empty_iff list.set(1) nat_le_linear)
  moreover have "queued (run 1) = [5]" "c_loop (run 0) = el" by (simp_all add: run_def c1_def c_def)
  ultimately show ?thesis using cr by blast
qed

theorem pending_functors_run_witness:
  "\<exists>ls (run :: nat \<Rightarrow> (nat, unit) conc) more j. conc_run 1 ls run \<and> queued (run 1) = [5] \<and> ran (run j) = 5 # more"
proof -
  obtain el :: "(nat, unit) EventLoop" where
      el: "EventLoop_new 0 1 (APoll PollPoller_new) False None = Some el"
    by (simp add: EventLoop_new_def)
  obtain ls and run :: "nat \<Rightarrow> (nat, unit) conc" where r: "conc_run 1 ls run" "fair_run ls run" "queued (run 1) = [5]"
    using ex_fair_run[OF el] by blast
  from pending_functors_run[OF r(1,2), of 1] obtain j more where "ran (run j) = [5] @ more" unfolding r(3) by blast
  then show ?thesis using r(1,3) by auto
qed

text \<open>C20: Whatever sequence of channel operations a loop's thread performs without abort on an epoll
  loop (creating, enabling, disabling, removing, destroying channels), the kernel then watches, for
  every registered descriptor, exactly the events of its channel, and nothing for the others.\<close>

theorem channel_ops_synced:
  assumes "epoll_kernel ctl wait interest" and "world_synced interest w"
    and "threadId (w_loop w) = tid" and "run_chan_ops ctl tid ops w = Some w'"
  shows "\<exists>ep. el_poller (w_loop w') = AnEPoll ep
    \<and> (\<forall>fd. epoll_watch interest ep fd = (case ep_channels ep fd of
          None \<Rightarrow> 0
        | Some a \<Rightarrow> (case w_chans w' a of None \<Rightarrow> 0 | Some ch \<Rightarrow> ch_events ch)))"
proof -
  obtain ep where ep: "el_poller (w_loop w') = AnEPoll ep" "epoll_synced interest ep (w_chans w')"
    using chan_ops_synced [OF assms] by (auto simp: world_synced_def)
  have inv: "EPollPoller_inv interest ep (w_chans w')"
    using ep(2) by (simp add: epoll_synced_def)
  have "epoll_watch interest ep fd = (case ep_channels ep fd of
          None \<Rightarrow> 0
        | Some a \<Rightarrow> (case w_chans w' a of None \<Rightarrow> 0 | Some ch \<Rightarrow> ch_events ch))" for fd
  proof (cases "ep_channels ep fd")
    case None
    with inv show ?thesis by (simp add: EPollPoller_inv_def epoll_watch_def)
  next
    case (Some a)
    then obtain ch where "w_chans w' a = Some ch" using EPollPoller_invD [OF inv] by blast
    with Some ep(2) show ?thesis by (simp add: epoll_synced_def)
  qed
  with ep(1) show ?thesis by blast
qed

theorem channel_ops_synced_witness:
  "\<exists>w' ep. run_chan_ops map_epoll_ctl 1 [OpNew 7 3, OpEnableReading 7, OpEnableWriting 7, OpDisableReading 7]
       \<lparr>w_loop = (the (EventLoop_new 0 1 (AnEPoll \<lparr>ep_channels = Map.empty, ep_list_size = 16,
            ep_kernel = Map.empty\<rparr>) False None) :: (nat, int \<rightharpoonup> epoll_event) EventLoop),
        w_chans = (Map.empty :: unit chan_heap), w_user = ()\<rparr> = Some w'
     \<and> el_poller (w_loop w') = AnEPoll ep \<and> epoll_watch (\<lambda>k. k) ep 3 = kWriteEvent"
proof -
  let ?w = "\<lparr>w_loop = (the (EventLoop_new 0 1 (AnEPoll \<lparr>ep_channels = Map.empty, ep_list_size = 16,
        ep_kernel = Map.empty\<rparr>) False None) :: (nat, int \<rightharpoonup> epoll_event) EventLoop),
      w_chans = (Map.empty :: unit chan_heap), w_user = ()\<rparr>"
  let ?ops = "[OpNew 7 3, OpEnableReading 7, OpEnableWriting 7, OpDisableReading 7]"
  have sy: "world_synced (\<lambda>k. k) ?w" and tid: "threadId (w_loop ?w) = 1"
    by (simp_all add: world_synced_def EventLoop_new_def epoll_synced_def EPollPoller_inv_def)
  have "\<exists>w'. run_chan_ops map_epoll_ctl 1 ?ops ?w = Some w'
      \<and> map_option ch_events (w_chans w' 7) = Some kWriteEvent
      \<and> any_channels (el_poller (w_loop w')) = [3 \<mapsto> 7]"
    by (simp add: enableReading_def enableWriting_def disableReading_def Channel_setEvents_def
        Channel_update_def EventLoop_updateChannel_def any_updateChannel_def any_channels_def
        EventLoop_new_def isInLoopThread_def EPollPoller_updateChannel_def Channel_new_def
        Poller_assertInLoopThread_def epoll_index_defs EPollPoller_update_def set_index_def
        isNoneEvent_def poll_consts)
  then obtain w' where w': "run_chan_ops map_epoll_ctl 1 ?ops ?w = Some w'"
      "map_option ch_events (w_chans w' 7) = Some kWriteEvent"
      "any_channels (el_poller (w_loop w')) = [3 \<mapsto> 7]"
    by blast
  from channel_ops_synced [OF map_epoll.epoll_kernel_axioms sy tid w'(1)] w' show ?thesis
    by (auto simp: any_channels_def)
qed

text \<open>\<^verbatim>\<open>doPendingFunctors\<close> runs the functors queued before it, once each and in order; functors
  they queue are left for the next turn, with one wake-up each, so that the next \<^verbatim>\<open>poll\<close> returns.\<close>

theorem doPendingFunctors_once:
  "\<exists>w'. doPendingFunctors (run_pushes tid pushes) w = Some w'
    \<and> w_user w' = w_user w @ pendingFunctors (w_loop w)
    \<and> pendingFunctors (w_loop w') = concat (map pushes (pendingFunctors (w_loop w)))
    \<and> wakeup_count (w_loop w') = wakeup_count (w_loop w)
        + length (concat (map pushes (pendingFunctors (w_loop w))))"
  using doPendingFunctors_pushes [of tid pushes w] by blast

text \<open>\<^verbatim>\<open>quit()\<close> is not lost: called before \<^verbatim>\<open>loop()\<close>, from any thread, it makes \<^verbatim>\<open>loop()\<close> return
  without an iteration.\<close>

theorem quit_before_loop:
  assumes "\<not> looping (w_loop w)" and "threadId (w_loop w) = tid"
  shows "EventLoop_loop polls tie exec run tid (w\<lparr>w_loop := EventLoop_quit other (w_loop w)\<rparr>)
    = Some (True, w\<lparr>w_loop := EventLoop_quit other (w_loop w)\<rparr>)"
  using assms
  by (simp add: EventLoop_loop_def loop_while.simps EventLoop_quit_def EventLoop_wakeup_def
      isInLoopThread_def)

theorem quit_before_loop_witness:
  "\<exists>w :: (nat, unit, unit, unit) world. EventLoop_loop [] (\<lambda>_ _. True) (\<lambda>_ _. Some) (\<lambda>_. Some) 1 w
     = Some (True, w) \<and> quit_state (w_loop w) = QUITED"
proof -
  let ?w = "\<lparr>w_loop = (the (EventLoop_new 0 1 (APoll PollPoller_new) False None) :: (nat, unit) EventLoop),
     w_chans = (Map.empty :: unit chan_heap), w_user = ()\<rparr>"
  have "\<not> looping (w_loop ?w)" and "threadId (w_loop ?w) = 1"
    by (simp_all add: EventLoop_new_def)
  from quit_before_loop [OF this, of "[]" "\<lambda>_ _. True" "\<lambda>_ _. Some" "\<lambda>_. Some" 2] show ?thesis
    by (intro exI [of _ "?w\<lparr>w_loop := EventLoop_quit 2 (w_loop ?w)\<rparr>"])
      (simp add: EventLoop_quit_def EventLoop_wakeup_def)
qed

text \<open>Whether the first functor that the loop's own thread queues before \<^verbatim>\<open>loop()\<close> wakes the loop
  depends on the uninitialised \<^verbatim>\<open>callingPendingFunctors_\<close>.\<close>

theorem first_queue_uninitialised:
  assumes "EventLoop_new this tid p garbage None = Some el"
  shows "wakeup_count (queueInLoop tid f el) = (if garbage then 1 else 0)"
  using assms by (auto simp: EventLoop_new_def functor_defs)

theorem first_queue_uninitialised_witness:
  "\<exists>(el :: (nat, unit) EventLoop) (el' :: (nat, unit) EventLoop). EventLoop_new 0 1 (APoll PollPoller_new) False None = Some el
     \<and> EventLoop_new 0 1 (APoll PollPoller_new) True None = Some el'
     \<and> wakeup_count (queueInLoop 1 5 el) = 0 \<and> wakeup_count (queueInLoop 1 5 el') = 1"
proof -
  obtain el :: "(nat, unit) EventLoop" where
      el: "EventLoop_new 0 1 (APoll PollPoller_new) False None = Some el"
    by (simp add: EventLoop_new_def)
  obtain el' :: "(nat, unit) EventLoop" where
      el': "EventLoop_new 0 1 (APoll PollPoller_new) True None = Some el'"
    by (simp add: EventLoop_new_def)
  from first_queue_uninitialised [OF el, of 5] first_queue_uninitialised [OF el', of 5] el el'
  show ?thesis by auto
qed

end
