(* ===== verification/TcpConnection.thy ===== *)
theory TcpConnection
  imports EventLoop Buffer
begin

unbundle bit_operations_syntax

text \<open>
  \<^verbatim>\<open>cnet::net::TcpConnection\<close> (\<^verbatim>\<open>cnet/net/TcpConnection.h\<close>, \<^verbatim>\<open>TcpConnection.cc\<close>). The world of the
  event loop carries one connection as its user state; its channel is an object of the heap. The
  socket is part of the connection record: the bytes the kernel took (\<open>sock_wire\<close>), whether the
  write side is shut down, and the number of \<^verbatim>\<open>write\<close> calls, which indexes their results: the
  parameter \<open>env_write\<close> gives an arbitrary result for each call.

  The user's callbacks are recorded in \<open>conn_log\<close>. A handler calls the user's function as its last
  action, so what the user does there is a further call of the interface, in the sequence of
  operations that the theorems quantify over. \<open>accepted\<close> is the concatenation of the messages that
  \<^verbatim>\<open>sendInLoop\<close> took over (neither given up on a closed connection nor lost to a broken pipe).
\<close>

section \<open>State\<close>

datatype StateE = kDisconnected | kConnecting | kConnected | kDisconnecting

datatype write_result = WErr int | WOk nat

definition EWOULDBLOCK :: int where "EWOULDBLOCK = 11"
definition EPIPE :: int where "EPIPE = 32"
definition ECONNRESET :: int where "ECONNRESET = 104"

datatype conn_event =
    EvConnection bool | EvMessage Timestamp | EvClosed | EvWriteComplete | EvHighWater nat

datatype conn_cb = CbHandleRead | CbHandleWrite | CbHandleClose | CbHandleError

datatype conn_functor =
    FSend string | FShutdown | FForceClose | FStartRead | FStopRead
  | FWriteComplete | FHighWater nat

record TcpConnection =
  conn_name :: string
  conn_state :: StateE
  reading :: bool
  conn_chan :: nat
  has_writeComplete :: bool
  has_highWaterMark :: bool
  highWaterMark :: nat
  inputBuffer :: Buffer
  outputBuffer :: Buffer
  sock_wire :: string
  sock_shut :: bool
  sock_noDelay :: "bool option"
  sock_calls :: nat
  accepted :: string
  conn_log :: "conn_event list"

type_synonym 'k cworld = "(conn_functor, 'k, conn_cb, TcpConnection) world"

record 'k conn_env =
  env_ctl :: "'k epoll_ctl"
  env_write :: "nat \<Rightarrow> string \<Rightarrow> write_result"

definition TcpConnection_new :: "string \<Rightarrow> nat \<Rightarrow> bool \<Rightarrow> bool \<Rightarrow> TcpConnection" where
  "TcpConnection_new name chan wc hwm =
     \<lparr>conn_name = name, conn_state = kConnecting, reading = True, conn_chan = chan,
      has_writeComplete = wc, has_highWaterMark = hwm, highWaterMark = 64 * 1024 * 1024,
      inputBuffer = Buffer_new kInitialSize, outputBuffer = Buffer_new kInitialSize,
      sock_wire = [], sock_shut = False, sock_noDelay = None, sock_calls = 0,
      accepted = [], conn_log = []\<rparr>"

text \<open>The constructor also creates the channel and sets its four callbacks.\<close>

definition conn_channel :: "nat \<Rightarrow> int \<Rightarrow> conn_cb Channel" where
  "conn_channel loop sockfd =
     setErrorCallback CbHandleError (setCloseCallback CbHandleClose
       (setWriteCallback CbHandleWrite (setReadCallback CbHandleRead (Channel_new loop sockfd))))"

definition connected :: "TcpConnection \<Rightarrow> bool" where
  "connected c \<longleftrightarrow> conn_state c = kConnected"

definition disconnected :: "TcpConnection \<Rightarrow> bool" where
  "disconnected c \<longleftrightarrow> conn_state c = kDisconnecting"

definition stateToString :: "StateE \<Rightarrow> string" where
  "stateToString s = (case s of kDisconnecting \<Rightarrow> ''kDisconnecting'' | kConnecting \<Rightarrow> ''kConnecting''
     | kConnected \<Rightarrow> ''kConnected'' | kDisconnected \<Rightarrow> ''kDisconnected'')"

abbreviation conn_upd :: "(TcpConnection \<Rightarrow> TcpConnection) \<Rightarrow> 'k cworld \<Rightarrow> 'k cworld" where
  "conn_upd f w \<equiv> w\<lparr>w_user := f (w_user w)\<rparr>"

definition setState :: "StateE \<Rightarrow> 'k cworld \<Rightarrow> 'k cworld" where
  "setState st w = conn_upd (conn_state_update (\<lambda>_. st)) w"

definition log_event :: "conn_event \<Rightarrow> 'k cworld \<Rightarrow> 'k cworld" where
  "log_event ev w = conn_upd (\<lambda>c. c\<lparr>conn_log := conn_log c @ [ev]\<rparr>) w"

definition the_channel :: "'k cworld \<Rightarrow> conn_cb Channel option" where
  "the_channel w = w_chans w (conn_chan (w_user w))"

definition assertConnLoop :: "int \<Rightarrow> 'k cworld \<Rightarrow> unit option" where
  "assertConnLoop tid w = assertInLoopThread tid (w_loop w)"

text \<open>\<^verbatim>\<open>sockets::write\<close>: the kernel takes a prefix of the data, or reports an error.\<close>

definition sock_write :: "'k conn_env \<Rightarrow> string \<Rightarrow> 'k cworld \<Rightarrow> write_result \<times> 'k cworld" where
  "sock_write E data w =
     (let c = w_user w; r = env_write E (sock_calls c) data;
          c = c\<lparr>sock_calls := sock_calls c + 1\<rparr>
      in (r, w\<lparr>w_user := (case r of WErr _ \<Rightarrow> c | WOk n \<Rightarrow> c\<lparr>sock_wire := sock_wire c @ take n data\<rparr>)\<rparr>))"

section \<open>Sending\<close>

text \<open>
  The direct write, tried when nothing is in the output queue. The results are \<^verbatim>\<open>nwrote\<close>,
  \<^verbatim>\<open>remaining\<close> and \<^verbatim>\<open>faultError\<close>.
\<close>

definition send_direct ::
  "'k conn_env \<Rightarrow> int \<Rightarrow> string \<Rightarrow> conn_cb Channel \<Rightarrow> 'k cworld \<Rightarrow> nat \<times> nat \<times> bool \<times> 'k cworld" where
  "send_direct E tid data ch w =
     (let len = length data in
      if \<not> isWriting ch \<and> readableBytes (outputBuffer (w_user w)) = 0
      then case sock_write E data w of
             (WOk n, w) \<Rightarrow>
               let remaining = len - n;
                   w = (if remaining = 0 \<and> has_writeComplete (w_user w)
                        then w\<lparr>w_loop := queueInLoop tid FWriteComplete (w_loop w)\<rparr> else w)
               in (n, remaining, False, w)
           | (WErr errno, w) \<Rightarrow>
               (0, len, errno \<noteq> EWOULDBLOCK \<and> (errno = EPIPE \<or> errno = ECONNRESET), w)
      else (0, len, False, w))"

text \<open>Queueing the rest in the output buffer.\<close>

definition send_queue ::
  "'k conn_env \<Rightarrow> int \<Rightarrow> string \<Rightarrow> nat \<Rightarrow> nat \<Rightarrow> 'k cworld \<Rightarrow> 'k cworld option" where
  "send_queue E tid data nwrote remaining w = do {
     let oldLen = readableBytes (outputBuffer (w_user w));
     let w = (if highWaterMark (w_user w) \<le> oldLen + remaining
                 \<and> oldLen < highWaterMark (w_user w) \<and> has_highWaterMark (w_user w)
              then w\<lparr>w_loop := queueInLoop tid (FHighWater (oldLen + remaining)) (w_loop w)\<rparr>
              else w);
     b \<leftarrow> Buffer_append (outputBuffer (w_user w)) (take remaining (drop nwrote data));
     let w = conn_upd (\<lambda>c. c\<lparr>outputBuffer := b, accepted := accepted c @ data\<rparr>) w;
     ch \<leftarrow> the_channel w;
     if \<not> isWriting ch then enableWriting (env_ctl E) tid (conn_chan (w_user w)) w else Some w }"

definition sendInLoop :: "'k conn_env \<Rightarrow> int \<Rightarrow> string \<Rightarrow> 'k cworld \<Rightarrow> 'k cworld option" where
  "sendInLoop E tid data w = do {
     assertConnLoop tid w;
     if conn_state (w_user w) = kDisconnected then Some w
     else do {
       ch \<leftarrow> the_channel w;
       let (nwrote, remaining, faultError, w) = send_direct E tid data ch w;
       assertm (remaining \<le> length data);
       if \<not> faultError \<and> 0 < remaining then send_queue E tid data nwrote remaining w
       else Some (if faultError then w
                  else conn_upd (\<lambda>c. c\<lparr>accepted := accepted c @ data\<rparr>) w) } }"

section \<open>Closing\<close>

definition shutdownInLoop :: "int \<Rightarrow> 'k cworld \<Rightarrow> 'k cworld option" where
  "shutdownInLoop tid w = do {
     assertConnLoop tid w;
     ch \<leftarrow> the_channel w;
     Some (if \<not> isWriting ch then conn_upd (sock_shut_update (\<lambda>_. True)) w else w) }"

definition TcpConnection_handleClose :: "'k conn_env \<Rightarrow> int \<Rightarrow> 'k cworld \<Rightarrow> 'k cworld option" where
  "TcpConnection_handleClose E tid w = do {
     assertConnLoop tid w;
     assertm (conn_state (w_user w) = kConnected \<or> conn_state (w_user w) = kDisconnecting);
     let w = setState kDisconnected w;
     w \<leftarrow> disableAll (env_ctl E) tid (conn_chan (w_user w)) w;
     let w = log_event (EvConnection (connected (w_user w))) w;
     Some (log_event EvClosed w) }"

definition forceCloseInLoop :: "'k conn_env \<Rightarrow> int \<Rightarrow> 'k cworld \<Rightarrow> 'k cworld option" where
  "forceCloseInLoop E tid w = do {
     assertConnLoop tid w;
     if conn_state (w_user w) = kConnected \<or> conn_state (w_user w) = kDisconnecting
     then TcpConnection_handleClose E tid w else Some w }"

definition startReadInLoop :: "'k conn_env \<Rightarrow> int \<Rightarrow> 'k cworld \<Rightarrow> 'k cworld option" where
  "startReadInLoop E tid w = do {
     assertConnLoop tid w;
     ch \<leftarrow> the_channel w;
     if \<not> reading (w_user w) \<or> \<not> isReading ch
     then do {
       w \<leftarrow> enableReading (env_ctl E) tid (conn_chan (w_user w)) w;
       Some (conn_upd (reading_update (\<lambda>_. True)) w) }
     else Some w }"

definition stopReadInLoop :: "'k conn_env \<Rightarrow> int \<Rightarrow> 'k cworld \<Rightarrow> 'k cworld option" where
  "stopReadInLoop E tid w = do {
     assertConnLoop tid w;
     ch \<leftarrow> the_channel w;
     if reading (w_user w) \<or> isReading ch
     then do {
       w \<leftarrow> disableReading (env_ctl E) tid (conn_chan (w_user w)) w;
       Some (conn_upd (reading_update (\<lambda>_. False)) w) }
     else Some w }"

section \<open>The interface, from any thread\<close>

fun run_conn_functor :: "'k conn_env \<Rightarrow> int \<Rightarrow> conn_functor \<Rightarrow> 'k cworld \<Rightarrow> 'k cworld option" where
  "run_conn_functor E tid (FSend data) w = sendInLoop E tid data w"
| "run_conn_functor E tid FShutdown w = shutdownInLoop tid w"
| "run_conn_functor E tid FForceClose w = forceCloseInLoop E tid w"
| "run_conn_functor E tid FStartRead w = startReadInLoop E tid w"
| "run_conn_functor E tid FStopRead w = stopReadInLoop E tid w"
| "run_conn_functor E tid FWriteComplete w = Some (log_event EvWriteComplete w)"
| "run_conn_functor E tid (FHighWater n) w = Some (log_event (EvHighWater n) w)"

abbreviation conn_runInLoop :: "'k conn_env \<Rightarrow> int \<Rightarrow> conn_functor \<Rightarrow> 'k cworld \<Rightarrow> 'k cworld option" where
  "conn_runInLoop E tid f w \<equiv> runInLoop (run_conn_functor E tid) tid f w"

definition send_piece :: "'k conn_env \<Rightarrow> int \<Rightarrow> string \<Rightarrow> 'k cworld \<Rightarrow> 'k cworld option" where
  "send_piece E tid message w =
     (if conn_state (w_user w) = kConnected
      then if isInLoopThread tid (w_loop w) then sendInLoop E tid message w
           else conn_runInLoop E tid (FSend message) w
      else Some w)"

text \<open>\<^verbatim>\<open>send(Buffer*)\<close>; the caller's buffer is an argument and a result.\<close>

definition send_buffer :: "'k conn_env \<Rightarrow> int \<Rightarrow> Buffer \<Rightarrow> 'k cworld \<Rightarrow> (Buffer \<times> 'k cworld) option" where
  "send_buffer E tid buf w =
     (if conn_state (w_user w) = kConnected
      then if isInLoopThread tid (w_loop w)
           then do {
             w \<leftarrow> sendInLoop E tid (slice (Buffer_peek buf) (Buffer_peek buf + readableBytes buf) (buffer_vec buf)) w;
             Some (retrieveAll buf, w) }
           else Some (buf, w)
      else do {
        (s, buf) \<leftarrow> retrieveAllAsString buf;
        w \<leftarrow> conn_runInLoop E tid (FSend s) w;
        Some (buf, w) })"

definition TcpConnection_shutdown :: "'k conn_env \<Rightarrow> int \<Rightarrow> 'k cworld \<Rightarrow> 'k cworld option" where
  "TcpConnection_shutdown E tid w =
     (if conn_state (w_user w) = kConnected
      then conn_runInLoop E tid FShutdown (setState kDisconnecting w) else Some w)"

definition forceClose :: "int \<Rightarrow> 'k cworld \<Rightarrow> 'k cworld" where
  "forceClose tid w =
     (if conn_state (w_user w) = kConnected \<or> conn_state (w_user w) = kDisconnecting
      then let w = setState kDisconnecting w
           in w\<lparr>w_loop := queueInLoop tid FForceClose (w_loop w)\<rparr>
      else w)"

text \<open>With a delay: the second result is the timer to start, in seconds.\<close>

definition forceCloseWithDelay :: "rat \<Rightarrow> 'k cworld \<Rightarrow> 'k cworld \<times> rat option" where
  "forceCloseWithDelay seconds w =
     (if conn_state (w_user w) = kConnected \<or> conn_state (w_user w) = kDisconnecting
      then (setState kDisconnecting w, Some seconds) else (w, None))"

definition startRead :: "'k conn_env \<Rightarrow> int \<Rightarrow> 'k cworld \<Rightarrow> 'k cworld option" where
  "startRead E tid w = conn_runInLoop E tid FStartRead w"

definition stopRead :: "'k conn_env \<Rightarrow> int \<Rightarrow> 'k cworld \<Rightarrow> 'k cworld option" where
  "stopRead E tid w = conn_runInLoop E tid FStopRead w"

definition setTcpNoDelay :: "bool \<Rightarrow> 'k cworld \<Rightarrow> 'k cworld" where
  "setTcpNoDelay on w = conn_upd (sock_noDelay_update (\<lambda>_. Some True)) w"

section \<open>Life cycle and events\<close>

definition connectEstablished :: "'k conn_env \<Rightarrow> int \<Rightarrow> 'k cworld \<Rightarrow> 'k cworld option" where
  "connectEstablished E tid w = do {
     assertConnLoop tid w;
     assertm (conn_state (w_user w) = kConnecting);
     let w = setState kConnected w;
     w \<leftarrow> enableReading (env_ctl E) tid (conn_chan (w_user w)) w;
     let w = world_upd (conn_chan (w_user w)) Channel_tie w;
     Some (log_event (EvConnection (connected (w_user w))) w) }"

definition connectDestroyed :: "'k conn_env \<Rightarrow> int \<Rightarrow> 'k cworld \<Rightarrow> 'k cworld option" where
  "connectDestroyed E tid w = do {
     assertConnLoop tid w;
     w \<leftarrow> (if conn_state (w_user w) = kConnected
           then do {
             let w = setState kDisconnected w;
             w \<leftarrow> disableAll (env_ctl E) tid (conn_chan (w_user w)) w;
             Some (log_event (EvConnection (connected (w_user w))) w) }
           else Some w);
     Channel_remove (env_ctl E) tid (conn_chan (w_user w)) w }"

text \<open>\<^verbatim>\<open>handleError\<close> only logs.\<close>

definition TcpConnection_handleError :: "'k cworld \<Rightarrow> 'k cworld option" where
  "TcpConnection_handleError w = Some w"

definition TcpConnection_handleRead ::
  "'k conn_env \<Rightarrow> int \<Rightarrow> (nat list \<Rightarrow> read_result) \<Rightarrow> Timestamp \<Rightarrow> 'k cworld \<Rightarrow> 'k cworld option" where
  "TcpConnection_handleRead E tid readv receiveTime w = do {
     assertConnLoop tid w;
     (n, savedErrno, b) \<leftarrow> readFd readv (inputBuffer (w_user w));
     let w = conn_upd (inputBuffer_update (\<lambda>_. b)) w;
     if 0 < n then Some (log_event (EvMessage receiveTime) w)
     else if n = 0 then TcpConnection_handleClose E tid w
     else TcpConnection_handleError w }"

definition TcpConnection_handleWrite :: "'k conn_env \<Rightarrow> int \<Rightarrow> 'k cworld \<Rightarrow> 'k cworld option" where
  "TcpConnection_handleWrite E tid w = do {
     assertConnLoop tid w;
     ch \<leftarrow> the_channel w;
     if isWriting ch
     then
       let out = outputBuffer (w_user w) in
       case sock_write E (slice (Buffer_peek out) (Buffer_peek out + readableBytes out) (buffer_vec out)) w of
         (WErr _, w) \<Rightarrow> Some w
       | (WOk n, w) \<Rightarrow>
           if 0 < n
           then do {
             b \<leftarrow> retrieve (outputBuffer (w_user w)) n;
             let w = conn_upd (outputBuffer_update (\<lambda>_. b)) w;
             if readableBytes b = 0
             then do {
               w \<leftarrow> disableWriting (env_ctl E) tid (conn_chan (w_user w)) w;
               let w = (if has_writeComplete (w_user w)
                        then w\<lparr>w_loop := queueInLoop tid FWriteComplete (w_loop w)\<rparr> else w);
               if conn_state (w_user w) = kDisconnecting then shutdownInLoop tid w else Some w }
             else Some w }
           else Some w
     else Some w }"

definition TcpConnection_dtor :: "'k cworld \<Rightarrow> unit option" where
  "TcpConnection_dtor w = assertm (conn_state (w_user w) = kDisconnected)"

definition defaultMessageCallback :: "'k cworld \<Rightarrow> 'k cworld" where
  "defaultMessageCallback w = conn_upd (\<lambda>c. c\<lparr>inputBuffer := retrieveAll (inputBuffer c)\<rparr>) w"

text \<open>The interpreter of the channel's callbacks.\<close>

definition conn_exec ::
  "'k conn_env \<Rightarrow> int \<Rightarrow> (nat list \<Rightarrow> read_result) \<Rightarrow> conn_cb \<Rightarrow> Timestamp \<Rightarrow> 'k cworld \<Rightarrow> 'k cworld option" where
  "conn_exec E tid readv cb t w =
     (case cb of
        CbHandleRead \<Rightarrow> TcpConnection_handleRead E tid readv t w
      | CbHandleWrite \<Rightarrow> TcpConnection_handleWrite E tid w
      | CbHandleClose \<Rightarrow> TcpConnection_handleClose E tid w
      | CbHandleError \<Rightarrow> TcpConnection_handleError w)"

section \<open>What the loop does to the channel\<close>

lemma events_or_read [simp]: "(ev OR kReadEvent) AND kWriteEvent = ev AND kWriteEvent"
  by (simp add: poll_consts bit.conj_disj_distrib2)

lemma events_andnot_read [simp]: "(ev AND NOT kReadEvent) AND kWriteEvent = ev AND kWriteEvent"
proof -
  have "NOT kReadEvent AND kWriteEvent = kWriteEvent"
    by (simp add: poll_consts)
  then show ?thesis by (simp add: and.assoc)
qed

lemma events_or_write [simp]: "(ev OR kWriteEvent) AND kWriteEvent = kWriteEvent"
  by (simp add: bit.conj_disj_distrib2 or.commute)

lemma events_andnot_write [simp]: "(ev AND NOT kWriteEvent) AND kWriteEvent = 0"
  by (simp add: and.assoc)

lemma kWriteEvent_nz [simp]: "kWriteEvent \<noteq> 0"
  by (simp add: poll_consts)

lemma any_update_effect:
  assumes "any_updateChannel ctl b p h a = Some (p', h')" and "h a = Some ch"
  shows "\<exists>i. h' = h(a \<mapsto> set_index i ch)"
proof -
  have triv: "\<exists>i. h = h(a \<mapsto> set_index i ch)"
    using assms(2) by (intro exI [of _ "ch_index ch"]) (auto simp: set_index_def)
  show ?thesis
    using assms triv
    by (auto simp: any_updateChannel_def EPollPoller_updateChannel_def PollPoller_updateChannel_def
        Poller_assertInLoopThread_def split: AnyPoller.splits if_splits elim!: bind_SomeE)
qed

lemma any_remove_effect:
  assumes "any_removeChannel ctl b p h a = Some (p', h')" and "h a = Some ch"
  shows "\<exists>i. h' = h(a \<mapsto> set_index i ch)"
proof -
  have triv: "\<exists>i. h = h(a \<mapsto> set_index i ch)"
    using assms(2) by (intro exI [of _ "ch_index ch"]) (auto simp: set_index_def)
  show ?thesis
    using assms triv
    by (auto simp: any_removeChannel_def EPollPoller_removeChannel_def PollPoller_removeChannel_def
        Poller_assertInLoopThread_def split: AnyPoller.splits if_splits elim!: bind_SomeE)
qed

lemma setEvents_effect:
  assumes "Channel_setEvents ctl tid f a w = Some w'"
  obtains p i ch where "w_chans w a = Some ch"
    and "w' = w\<lparr>w_loop := (w_loop w)\<lparr>el_poller := p\<rparr>,
           w_chans := (w_chans w)(a \<mapsto> set_index i (ch\<lparr>ch_events := f (ch_events ch), addedToLoop := True\<rparr>))\<rparr>"
proof -
  obtain ch where ch: "w_chans w a = Some ch"
    using assms by (auto simp: Channel_setEvents_def elim: bind_SomeE)
  obtain p h where u: "any_updateChannel ctl (isInLoopThread tid (w_loop w)) (el_poller (w_loop w))
        ((w_chans w)(a \<mapsto> ch\<lparr>ch_events := f (ch_events ch), addedToLoop := True\<rparr>)) a = Some (p, h)"
      and w': "w' = w\<lparr>w_loop := (w_loop w)\<lparr>el_poller := p\<rparr>, w_chans := h\<rparr>"
    using assms ch
    by (auto simp: Channel_setEvents_def Channel_update_def EventLoop_updateChannel_def
        elim!: bind_SomeE split: if_splits)
  from any_update_effect [OF u] obtain i where
      "h = (w_chans w)(a \<mapsto> set_index i (ch\<lparr>ch_events := f (ch_events ch), addedToLoop := True\<rparr>))"
    by auto
  with ch w' that show thesis by blast
qed

lemma Channel_remove_effect:
  assumes "Channel_remove ctl tid a w = Some w'"
  obtains p i ch where "w_chans w a = Some ch" and "isNoneEvent ch"
    and "w' = w\<lparr>w_loop := (w_loop w)\<lparr>el_poller := p\<rparr>,
           w_chans := (w_chans w)(a \<mapsto> set_index i (ch\<lparr>addedToLoop := False\<rparr>))\<rparr>"
proof -
  obtain ch where ch: "w_chans w a = Some ch" "isNoneEvent ch"
    using assms by (auto simp: Channel_remove_def elim!: bind_SomeE split: if_splits)
  obtain p h where u: "any_removeChannel ctl (isInLoopThread tid (w_loop w)) (el_poller (w_loop w))
        ((w_chans w)(a \<mapsto> ch\<lparr>addedToLoop := False\<rparr>)) a = Some (p, h)"
      and w': "w' = w\<lparr>w_loop := (w_loop w)\<lparr>el_poller := p\<rparr>, w_chans := h\<rparr>"
    using assms ch
    by (auto simp: Channel_remove_def EventLoop_removeChannel_def elim!: bind_SomeE split: if_splits)
  from any_remove_effect [OF u] obtain i where
      "h = (w_chans w)(a \<mapsto> set_index i (ch\<lparr>addedToLoop := False\<rparr>))"
    by auto
  with ch w' that show thesis by blast
qed

section \<open>Invariant\<close>

fun is_life :: "conn_event \<Rightarrow> bool" where
  "is_life (EvConnection b) = True"
| "is_life EvClosed = True"
| "is_life _ = False"

definition life_ok :: "StateE \<Rightarrow> conn_event list \<Rightarrow> bool" where
  "life_ok st evs \<longleftrightarrow>
     (case st of
        kConnecting \<Rightarrow> filter is_life evs = []
      | kConnected \<Rightarrow> filter is_life evs = [EvConnection True]
      | kDisconnecting \<Rightarrow> filter is_life evs = [EvConnection True]
      | kDisconnected \<Rightarrow> filter is_life evs = [EvConnection True, EvConnection False]
          \<or> filter is_life evs = [EvConnection True, EvConnection False, EvClosed])"

definition stream_ok :: "TcpConnection \<Rightarrow> bool" where
  "stream_ok c \<longleftrightarrow> Buffer_inv (inputBuffer c) \<and> Buffer_inv (outputBuffer c)
     \<and> accepted c = sock_wire c @ readable (outputBuffer c)"

definition writing_ok :: "'k cworld \<Rightarrow> bool" where
  "writing_ok w \<longleftrightarrow> (\<exists>ch. the_channel w = Some ch \<and>
     (conn_state (w_user w) \<noteq> kDisconnected \<longrightarrow>
        (isWriting ch \<longleftrightarrow> readable (outputBuffer (w_user w)) \<noteq> [])))"

definition conn_inv :: "'k cworld \<Rightarrow> bool" where
  "conn_inv w \<longleftrightarrow> stream_ok (w_user w) \<and> writing_ok w
     \<and> life_ok (conn_state (w_user w)) (conn_log (w_user w))"

definition write_ok :: "'k conn_env \<Rightarrow> bool" where
  "write_ok E \<longleftrightarrow> (\<forall>k data n. env_write E k data = WOk n \<longrightarrow> n \<le> length data)"

lemma readableBytes_0: "Buffer_inv b \<Longrightarrow> readableBytes b = 0 \<longleftrightarrow> readable b = []"
  by (metis length_0_conv length_readable)

lemma conn_inv_loop [simp]: "conn_inv (w\<lparr>w_loop := el\<rparr>) = conn_inv w"
  by (simp add: conn_inv_def writing_ok_def the_channel_def)

lemma conn_inv_log:
  "\<not> is_life ev \<Longrightarrow> conn_inv w \<Longrightarrow> conn_inv (log_event ev w)"
  by (simp add: conn_inv_def writing_ok_def the_channel_def log_event_def stream_ok_def life_ok_def
      split: StateE.splits)

lemma assertConnLoop_bind [simp]:
  "(assertConnLoop tid w \<bind> f) = (if threadId (w_loop w) = tid then f () else None)"
  by (simp add: assertConnLoop_def)

text \<open>The parts of a connection that a step leaves alone.\<close>

definition same_frame :: "'k cworld \<Rightarrow> 'k cworld \<Rightarrow> bool" where
  "same_frame w w' \<longleftrightarrow> conn_state (w_user w') = conn_state (w_user w)
     \<and> conn_chan (w_user w') = conn_chan (w_user w) \<and> conn_log (w_user w') = conn_log (w_user w)
     \<and> inputBuffer (w_user w') = inputBuffer (w_user w) \<and> w_chans w' = w_chans w"

lemma send_direct_effect:
  assumes ok: "write_ok E" and bi: "Buffer_inv (outputBuffer (w_user w))"
    and d: "send_direct E tid data ch w = (n, r, fault, w1)"
  shows "n \<le> length data \<and> r = length data - n \<and> same_frame w w1
    \<and> outputBuffer (w_user w1) = outputBuffer (w_user w) \<and> accepted (w_user w1) = accepted (w_user w)
    \<and> sock_wire (w_user w1) = sock_wire (w_user w) @ take n data
    \<and> (0 < n \<longrightarrow> readable (outputBuffer (w_user w)) = []) \<and> (fault \<longrightarrow> n = 0)
    \<and> (n = length data \<longrightarrow> 0 < n \<or> data = [])"
  using d ok readableBytes_0 [OF bi]
  by (auto simp: send_direct_def sock_write_def same_frame_def write_ok_def
      split: if_splits write_result.splits)

lemma send_queue_effect:
  assumes bi: "Buffer_inv (outputBuffer (w_user w))" and run: "send_queue E tid data n r w = Some w'"
    and ch: "the_channel w = Some ch"
  shows "\<exists>b ch'. Buffer_inv b \<and> readable b = readable (outputBuffer (w_user w)) @ take r (drop n data)
    \<and> w_user w' = (w_user w)\<lparr>outputBuffer := b, accepted := accepted (w_user w) @ data\<rparr>
    \<and> the_channel w' = Some ch' \<and> isWriting ch'"
proof -
  obtain b where b: "Buffer_append (outputBuffer (w_user w)) (take r (drop n data)) = Some b"
      "Buffer_inv b" "readable b = readable (outputBuffer (w_user w)) @ take r (drop n data)"
    using buf.app_obtain [OF bi] .
  obtain el where el: "(if isWriting ch then Some (w\<lparr>w_loop := el,
        w_user := (w_user w)\<lparr>outputBuffer := b, accepted := accepted (w_user w) @ data\<rparr>\<rparr>)
      else enableWriting (env_ctl E) tid (conn_chan (w_user w)) (w\<lparr>w_loop := el,
        w_user := (w_user w)\<lparr>outputBuffer := b, accepted := accepted (w_user w) @ data\<rparr>\<rparr>)) = Some w'"
  proof
    let ?el = "if highWaterMark (w_user w) \<le> readableBytes (outputBuffer (w_user w)) + r
          \<and> readableBytes (outputBuffer (w_user w)) < highWaterMark (w_user w) \<and> has_highWaterMark (w_user w)
        then queueInLoop tid (FHighWater (readableBytes (outputBuffer (w_user w)) + r)) (w_loop w)
        else w_loop w"
    show "(if isWriting ch then Some (w\<lparr>w_loop := ?el,
        w_user := (w_user w)\<lparr>outputBuffer := b, accepted := accepted (w_user w) @ data\<rparr>\<rparr>)
      else enableWriting (env_ctl E) tid (conn_chan (w_user w)) (w\<lparr>w_loop := ?el,
        w_user := (w_user w)\<lparr>outputBuffer := b, accepted := accepted (w_user w) @ data\<rparr>\<rparr>)) = Some w'"
      using run b(1) ch by (auto simp: send_queue_def the_channel_def split: if_splits)
  qed
  show ?thesis
  proof (cases "isWriting ch")
    case True
    with el b ch show ?thesis by (auto simp: the_channel_def)
  next
    case False
    with el have "Channel_setEvents (env_ctl E) tid (\<lambda>ev. ev OR kWriteEvent) (conn_chan (w_user w))
        (w\<lparr>w_loop := el, w_user := (w_user w)\<lparr>outputBuffer := b, accepted := accepted (w_user w) @ data\<rparr>\<rparr>)
        = Some w'"
      by (simp add: enableWriting_def)
    then show ?thesis
      using b ch by (auto elim!: setEvents_effect simp: the_channel_def isWriting_def set_index_def)
  qed
qed

lemma sendInLoop_eq:
  assumes "conn_state (w_user w) \<noteq> kDisconnected" and "the_channel w = Some ch"
    and "send_direct E tid data ch w = (n, r, fault, w1)"
  shows "sendInLoop E tid data w =
    (if threadId (w_loop w) = tid \<and> r \<le> length data
     then if \<not> fault \<and> 0 < r then send_queue E tid data n r w1
          else Some (if fault then w1 else conn_upd (\<lambda>c. c\<lparr>accepted := accepted c @ data\<rparr>) w1)
     else None)"
  using assms by (simp add: sendInLoop_def)

lemma sendInLoop_inv:
  assumes inv: "conn_inv w" and ok: "write_ok E" and run: "sendInLoop E tid data w = Some w'"
  shows "conn_inv w'"
proof (cases "conn_state (w_user w) = kDisconnected")
  case True
  with run inv show ?thesis by (auto simp: sendInLoop_def split: if_splits)
next
  case False
  let ?c = "w_user w"
  obtain ch where ch: "the_channel w = Some ch"
      and wr: "isWriting ch \<longleftrightarrow> readable (outputBuffer ?c) \<noteq> []"
    using inv False by (auto simp: conn_inv_def writing_ok_def)
  have bi: "Buffer_inv (outputBuffer ?c)" using inv by (simp add: conn_inv_def stream_ok_def)
  obtain n r fault w1 where d: "send_direct E tid data ch w = (n, r, fault, w1)"
    by (metis prod_cases4)
  note e = send_direct_effect [OF ok bi d]
  then have r: "r = length data - n" "n \<le> length data" and f: "same_frame w w1" by auto
  have ch1: "the_channel w1 = Some ch" using f ch by (simp add: same_frame_def the_channel_def)
  show ?thesis
  proof (cases "\<not> fault \<and> 0 < r")
    case True
    with run have q: "send_queue E tid data n r w1 = Some w'"
      unfolding sendInLoop_eq [OF False ch d] by (auto split: if_splits)
    have bi1: "Buffer_inv (outputBuffer (w_user w1))" using e bi by simp
    obtain b ch' where b: "Buffer_inv b"
        "readable b = readable (outputBuffer (w_user w1)) @ take r (drop n data)"
        "w_user w' = (w_user w1)\<lparr>outputBuffer := b, accepted := accepted (w_user w1) @ data\<rparr>"
        "the_channel w' = Some ch'" "isWriting ch'"
      using send_queue_effect [OF bi1 q ch1] by blast
    have rest: "take r (drop n data) = drop n data" "drop n data \<noteq> []"
      using r True by auto
    have stream: "accepted ?c @ data = sock_wire (w_user w1) @ readable b"
      using e inv b(2) rest by (cases "n = 0") (auto simp: conn_inv_def stream_ok_def)
    show ?thesis
      using inv e f b stream rest unfolding conn_inv_def stream_ok_def writing_ok_def same_frame_def
      by simp
  next
    case False': False
    let ?w = "if fault then w1 else conn_upd (\<lambda>c. c\<lparr>accepted := accepted c @ data\<rparr>) w1"
    have "sendInLoop E tid data w = (if threadId (w_loop w) = tid \<and> r \<le> length data then Some ?w else None)"
      unfolding sendInLoop_eq [OF False ch d] using False' by (simp only: if_False if_cancel)
    with run have "w' = ?w"
      by (cases fault) (simp_all split: if_splits)
    moreover have "\<not> fault \<longrightarrow> n = length data" using False' r by auto
    ultimately show ?thesis
      using inv e f ch wr
      by (cases fault) (auto simp: conn_inv_def stream_ok_def writing_ok_def same_frame_def the_channel_def)
  qed
qed

text \<open>The other operations.\<close>

lemma shutdownInLoop_inv:
  "shutdownInLoop tid w = Some w' \<Longrightarrow> conn_inv w \<Longrightarrow> conn_inv w'"
  by (auto simp: shutdownInLoop_def conn_inv_def stream_ok_def writing_ok_def the_channel_def
      elim!: bind_SomeE split: if_splits)

lemma handleClose_effect:
  assumes "TcpConnection_handleClose E tid w = Some w'"
  shows "conn_state (w_user w) = kConnected \<or> conn_state (w_user w) = kDisconnecting"
    and "w_user w' = (w_user w)\<lparr>conn_state := kDisconnected,
           conn_log := conn_log (w_user w) @ [EvConnection False, EvClosed]\<rparr>"
    and "\<exists>ch. the_channel w' = Some ch \<and> isNoneEvent ch"
proof -
  let ?w = "setState kDisconnected w"
  obtain w1 where st: "conn_state (w_user w) = kConnected \<or> conn_state (w_user w) = kDisconnecting"
      and d: "disableAll (env_ctl E) tid (conn_chan (w_user ?w)) ?w = Some w1"
      and w': "w' = log_event EvClosed (log_event (EvConnection (connected (w_user w1))) w1)"
    using assms by (auto simp: TcpConnection_handleClose_def elim!: bind_SomeE split: if_splits)
  show "conn_state (w_user w) = kConnected \<or> conn_state (w_user w) = kDisconnecting" by fact
  from d obtain p i ch where "w_chans ?w (conn_chan (w_user ?w)) = Some ch"
      and w1: "w1 = ?w\<lparr>w_loop := (w_loop ?w)\<lparr>el_poller := p\<rparr>,
           w_chans := (w_chans ?w)(conn_chan (w_user ?w) \<mapsto>
             set_index i (ch\<lparr>ch_events := kNoneEvent, addedToLoop := True\<rparr>))\<rparr>"
    unfolding disableAll_def by (elim setEvents_effect)
  show "w_user w' = (w_user w)\<lparr>conn_state := kDisconnected,
      conn_log := conn_log (w_user w) @ [EvConnection False, EvClosed]\<rparr>"
    by (simp add: w' w1 log_event_def setState_def connected_def)
  show "\<exists>ch. the_channel w' = Some ch \<and> isNoneEvent ch"
    by (simp add: w' w1 log_event_def setState_def the_channel_def set_index_def isNoneEvent_def)
qed

lemma handleClose_inv:
  assumes "TcpConnection_handleClose E tid w = Some w'" and "conn_inv w"
  shows "conn_inv w'"
  using handleClose_effect [OF assms(1)] assms(2)
  by (auto simp: conn_inv_def stream_ok_def writing_ok_def life_ok_def)

lemma forceCloseInLoop_inv:
  "forceCloseInLoop E tid w = Some w' \<Longrightarrow> conn_inv w \<Longrightarrow> conn_inv w'"
  by (auto simp: forceCloseInLoop_def handleClose_inv split: if_splits)

text \<open>Changing read interest keeps the write interest.\<close>

lemma setEvents_read_inv:
  assumes "Channel_setEvents ctl tid f (conn_chan (w_user w)) w = Some w'" and "conn_inv w"
    and "\<And>ev. f ev AND kWriteEvent = ev AND kWriteEvent"
  shows "conn_inv w'"
  using assms
  by (auto simp: conn_inv_def stream_ok_def writing_ok_def the_channel_def isWriting_def set_index_def
      elim!: setEvents_effect)

lemma conn_inv_reading [simp]: "conn_inv (w\<lparr>w_user := (w_user w)\<lparr>reading := b\<rparr>\<rparr>) = conn_inv w"
  by (simp add: conn_inv_def stream_ok_def writing_ok_def the_channel_def)

lemma startReadInLoop_inv:
  assumes "startReadInLoop E tid w = Some w'" and "conn_inv w"
  shows "conn_inv w'"
  using assms setEvents_read_inv [of "env_ctl E" tid "\<lambda>ev. ev OR kReadEvent" w]
  by (auto simp: startReadInLoop_def enableReading_def elim!: bind_SomeE split: if_splits)

lemma stopReadInLoop_inv:
  assumes "stopReadInLoop E tid w = Some w'" and "conn_inv w"
  shows "conn_inv w'"
  using assms setEvents_read_inv [of "env_ctl E" tid "\<lambda>ev. ev AND NOT kReadEvent" w]
  by (auto simp: stopReadInLoop_def disableReading_def elim!: bind_SomeE split: if_splits)

lemma run_conn_functor_inv:
  assumes "run_conn_functor E tid f w = Some w'" and "conn_inv w" and "write_ok E"
  shows "conn_inv w'"
  using assms
  by (cases f) (auto intro: sendInLoop_inv shutdownInLoop_inv forceCloseInLoop_inv startReadInLoop_inv
      stopReadInLoop_inv conn_inv_log)

lemma conn_runInLoop_inv:
  assumes "conn_runInLoop E tid f w = Some w'" and "conn_inv w" and "write_ok E"
  shows "conn_inv w'"
  using assms by (auto simp: runInLoop_def split: if_splits intro: run_conn_functor_inv)

lemma conn_inv_disconnecting:
  assumes "conn_inv w" and "conn_state (w_user w) = kConnected \<or> conn_state (w_user w) = kDisconnecting"
  shows "conn_inv (setState kDisconnecting w)"
  using assms
  by (auto simp: conn_inv_def stream_ok_def writing_ok_def the_channel_def setState_def life_ok_def)

lemma handleRead_inv:
  assumes run: "TcpConnection_handleRead E tid readv t w = Some w'" and inv: "conn_inv w"
    and os: "readv_ok readv"
  shows "conn_inv w'"
proof -
  have bi: "Buffer_inv (inputBuffer (w_user w))" using inv by (simp add: conn_inv_def stream_ok_def)
  obtain n e b where r: "readFd readv (inputBuffer (w_user w)) = Some (n, e, b)" "Buffer_inv b"
    using readFd_ok [OF bi os] readFd_err [of readv "inputBuffer (w_user w)"] bi
    by (cases "readv (readFd_iov (inputBuffer (w_user w)))") auto
  let ?w = "conn_upd (inputBuffer_update (\<lambda>_. b)) w"
  have "conn_inv ?w"
    using inv r(2) by (auto simp: conn_inv_def stream_ok_def writing_ok_def the_channel_def)
  then show ?thesis
    using run r(1)
    by (auto simp: TcpConnection_handleRead_def TcpConnection_handleError_def
        split: if_splits intro: handleClose_inv conn_inv_log)
qed

text \<open>A successful write moves a prefix of the output queue to the wire.\<close>

definition flushed :: "nat \<Rightarrow> Buffer \<Rightarrow> 'k cworld \<Rightarrow> 'k cworld" where
  "flushed n b w = w\<lparr>w_user := (w_user w)\<lparr>sock_calls := sock_calls (w_user w) + 1,
     sock_wire := sock_wire (w_user w) @ take n (readable (outputBuffer (w_user w))), outputBuffer := b\<rparr>\<rparr>"

lemma handleWrite_cases [consumes 3, case_names idle blocked part all]:
  assumes run: "TcpConnection_handleWrite E tid w = Some w'" and inv: "conn_inv w" and ok: "write_ok E"
  obtains (idle) "w' = w"
  | (blocked) c where "w' = w\<lparr>w_user := (w_user w)\<lparr>sock_calls := c\<rparr>\<rparr>"
  | (part) n b where "Buffer_inv b" "readable b = drop n (readable (outputBuffer (w_user w)))"
      "readable b \<noteq> []" "w' = flushed n b w"
  | (all) n b w1 el where "Buffer_inv b" "readable b = drop n (readable (outputBuffer (w_user w)))"
      "readable b = []" "n \<le> length (readable (outputBuffer (w_user w)))"
      "disableWriting (env_ctl E) tid (conn_chan (w_user w)) (flushed n b w) = Some w1"
      "if conn_state (w_user w) = kDisconnecting then shutdownInLoop tid (w1\<lparr>w_loop := el\<rparr>) = Some w'
       else w' = w1\<lparr>w_loop := el\<rparr>"
proof -
  let ?c = "w_user w"
  let ?out = "readable (outputBuffer ?c)"
  have bi: "Buffer_inv (outputBuffer ?c)" using inv by (simp add: conn_inv_def stream_ok_def)
  obtain ch where ch: "the_channel w = Some ch" using inv by (auto simp: conn_inv_def writing_ok_def)
  have sl: "slice (Buffer_peek (outputBuffer ?c)) (Buffer_peek (outputBuffer ?c) + readableBytes (outputBuffer ?c))
      (buffer_vec (outputBuffer ?c)) = ?out"
    using toStringPiece_eq [OF bi] by (simp add: toStringPiece_def)
  have tid: "threadId (w_loop w) = tid"
    using run by (auto simp: TcpConnection_handleWrite_def split: if_splits)
  show thesis
  proof (cases "isWriting ch")
    case False
    with run ch tid show ?thesis by (intro idle) (simp add: TcpConnection_handleWrite_def)
  next
    case True
    show ?thesis
    proof (cases "env_write E (sock_calls ?c) ?out")
      case (WErr e)
      with run ch tid True sl show ?thesis
        by (intro blocked [of "sock_calls ?c + 1"]) (simp add: TcpConnection_handleWrite_def sock_write_def)
    next
      case (WOk n)
      with ok have n: "n \<le> length ?out" by (auto simp: write_ok_def)
      show ?thesis
      proof (cases "n = 0")
        case zero: True
        with run ch tid True sl WOk show ?thesis
          by (intro blocked [of "sock_calls ?c + 1"]) (simp add: TcpConnection_handleWrite_def sock_write_def)
      next
        case False
        obtain b where b: "retrieve (outputBuffer ?c) n = Some b" "Buffer_inv b" "readable b = drop n ?out"
          using buf.ret_obtain [OF bi n] .
        show ?thesis
        proof (cases "readable b = []")
          case more: False
          with run ch tid True sl WOk False b readableBytes_0 [OF b(2)] show ?thesis
            by (intro part [of b n])
              (simp_all add: TcpConnection_handleWrite_def sock_write_def flushed_def)
        next
          case empty: True
          with readableBytes_0 [OF b(2)] have rb: "readableBytes b = 0" by simp
          obtain w1 where w1: "disableWriting (env_ctl E) tid (conn_chan ?c) (flushed n b w) = Some w1"
              and w': "(let w = (if has_writeComplete (w_user w1)
                          then w1\<lparr>w_loop := queueInLoop tid FWriteComplete (w_loop w1)\<rparr> else w1)
                 in if conn_state (w_user w) = kDisconnecting then shutdownInLoop tid w else Some w) = Some w'"
            using run ch tid True sl WOk False b rb
            by (auto simp: TcpConnection_handleWrite_def sock_write_def flushed_def elim!: bind_SomeE)
          have u: "w_user w1 = w_user (flushed n b w)"
            using w1 by (auto simp: disableWriting_def elim!: setEvents_effect)
          let ?el = "if has_writeComplete (w_user w1) then queueInLoop tid FWriteComplete (w_loop w1) else w_loop w1"
          have "if conn_state ?c = kDisconnecting then shutdownInLoop tid (w1\<lparr>w_loop := ?el\<rparr>) = Some w'
              else w' = w1\<lparr>w_loop := ?el\<rparr>"
            using w' u by (auto simp: flushed_def split: if_splits)
          with b empty n w1 show ?thesis by (intro all [of b n w1 ?el]) simp_all
        qed
      qed
    qed
  qed
qed

lemma handleWrite_inv:
  assumes run: "TcpConnection_handleWrite E tid w = Some w'" and inv: "conn_inv w" and ok: "write_ok E"
  shows "conn_inv w'"
  using assms
proof (cases rule: handleWrite_cases)
  case idle
  with inv show ?thesis by simp
next
  case (blocked c)
  with inv show ?thesis by (auto simp: conn_inv_def stream_ok_def writing_ok_def the_channel_def)
next
  case (part n b)
  then have ne: "readable (outputBuffer (w_user w)) \<noteq> []" by auto
  have "accepted (w_user w) = (sock_wire (w_user w) @ take n (readable (outputBuffer (w_user w)))) @ readable b"
    using inv part(2) by (simp add: conn_inv_def stream_ok_def)
  with inv part(1,3,4) ne show ?thesis
    by (simp add: flushed_def conn_inv_def stream_ok_def writing_ok_def the_channel_def)
next
  case (all n b w1 el)
  let ?f = "flushed n b w"
  obtain p i ch where w1: "w1 = ?f\<lparr>w_loop := (w_loop ?f)\<lparr>el_poller := p\<rparr>,
      w_chans := (w_chans ?f)(conn_chan (w_user w) \<mapsto>
        set_index i (ch\<lparr>ch_events := ch_events ch AND NOT kWriteEvent, addedToLoop := True\<rparr>))\<rparr>"
    using all(5) unfolding disableWriting_def by (elim setEvents_effect)
  have "conn_inv w1"
    using inv all(1-4)
    by (auto simp: w1 flushed_def conn_inv_def stream_ok_def writing_ok_def the_channel_def
        isWriting_def set_index_def)
  then have "conn_inv (w1\<lparr>w_loop := el\<rparr>)" by simp
  with all(6) show ?thesis
    by (auto split: if_splits intro: shutdownInLoop_inv)
qed

lemma connectEstablished_inv:
  assumes run: "connectEstablished E tid w = Some w'" and inv: "conn_inv w"
  shows "conn_inv w'"
proof -
  let ?w = "setState kConnected w"
  obtain w1 where st: "conn_state (w_user w) = kConnecting"
      and e: "enableReading (env_ctl E) tid (conn_chan (w_user ?w)) ?w = Some w1"
      and w': "w' = log_event (EvConnection (connected (w_user (world_upd (conn_chan (w_user w1)) Channel_tie w1))))
             (world_upd (conn_chan (w_user w1)) Channel_tie w1)"
    using run by (auto simp: connectEstablished_def elim!: bind_SomeE split: if_splits)
  obtain p i ch where ch: "w_chans ?w (conn_chan (w_user ?w)) = Some ch"
      and w1: "w1 = ?w\<lparr>w_loop := (w_loop ?w)\<lparr>el_poller := p\<rparr>,
        w_chans := (w_chans ?w)(conn_chan (w_user ?w) \<mapsto>
          set_index i (ch\<lparr>ch_events := ch_events ch OR kReadEvent, addedToLoop := True\<rparr>))\<rparr>"
    using e unfolding enableReading_def by (elim setEvents_effect)
  show ?thesis
    using inv st ch
    by (auto simp: w' w1 conn_inv_def stream_ok_def writing_ok_def the_channel_def isWriting_def
        set_index_def setState_def log_event_def world_upd_def Channel_tie_def connected_def life_ok_def)
qed

lemma connectDestroyed_inv:
  assumes run: "connectDestroyed E tid w = Some w'" and inv: "conn_inv w"
  shows "conn_inv w'"
proof -
  obtain w1 where w1: "Channel_remove (env_ctl E) tid (conn_chan (w_user w1)) w1 = Some w'"
      and c: "conn_inv w1"
  proof (cases "conn_state (w_user w) = kConnected")
    case False
    with run inv show ?thesis by (intro that [of w]) (auto simp: connectDestroyed_def split: if_splits)
  next
    case True
    let ?w = "setState kDisconnected w"
    obtain w2 where e: "disableAll (env_ctl E) tid (conn_chan (w_user ?w)) ?w = Some w2"
        and r: "Channel_remove (env_ctl E) tid (conn_chan (w_user w2))
          (log_event (EvConnection (connected (w_user w2))) w2) = Some w'"
      using run True by (auto simp: connectDestroyed_def log_event_def elim!: bind_SomeE split: if_splits)
    obtain p i ch where ch: "w_chans ?w (conn_chan (w_user ?w)) = Some ch"
        and w2: "w2 = ?w\<lparr>w_loop := (w_loop ?w)\<lparr>el_poller := p\<rparr>,
          w_chans := (w_chans ?w)(conn_chan (w_user ?w) \<mapsto>
            set_index i (ch\<lparr>ch_events := kNoneEvent, addedToLoop := True\<rparr>))\<rparr>"
      using e unfolding disableAll_def by (elim setEvents_effect)
    have "conn_inv (log_event (EvConnection (connected (w_user w2))) w2)"
      using inv True
      by (auto simp: w2 conn_inv_def stream_ok_def writing_ok_def the_channel_def setState_def
          log_event_def connected_def life_ok_def)
    with r show ?thesis
      by (intro that [of "log_event (EvConnection (connected (w_user w2))) w2"]) (simp_all add: log_event_def)
  qed
  from w1 obtain p i ch where "w_chans w1 (conn_chan (w_user w1)) = Some ch"
      "w' = w1\<lparr>w_loop := (w_loop w1)\<lparr>el_poller := p\<rparr>,
         w_chans := (w_chans w1)(conn_chan (w_user w1) \<mapsto> set_index i (ch\<lparr>addedToLoop := False\<rparr>))\<rparr>"
    by (elim Channel_remove_effect)
  with c show ?thesis
    by (auto simp: conn_inv_def stream_ok_def writing_ok_def the_channel_def isWriting_def set_index_def)
qed

section \<open>Histories of a connection\<close>

text \<open>
  Calls of the interface from any thread \<open>t\<close>, events of the socket in the loop thread \<open>tid\<close>, the
  loop's pending functors, and the user's consumption of input.
\<close>

datatype conn_op =
    CEstablish | CDestroy | CSend int string | CSendBuffer int string | CShutdown int | CForceClose int
  | CStartRead int | CStopRead int | CNoDelay bool
  | CReadable "int option" string Timestamp | CWritable | CHup | CErr | CPending | CConsume nat

text \<open>\<^verbatim>\<open>readv\<close> on a socket with \<open>stream\<close> waiting: an error, or as much as fits.\<close>

definition stream_readv :: "int option \<Rightarrow> string \<Rightarrow> nat list \<Rightarrow> read_result" where
  "stream_readv err stream iov =
     (case err of Some e \<Rightarrow> ReadErr e | None \<Rightarrow> ReadOk (take (sum_list iov) stream))"

lemma stream_readv_ok: "readv_ok (stream_readv err stream)"
  by (auto simp: readv_ok_def stream_readv_def split: option.splits)

fun run_conn_op :: "'k conn_env \<Rightarrow> int \<Rightarrow> conn_op \<Rightarrow> 'k cworld \<Rightarrow> 'k cworld option" where
  "run_conn_op E tid CEstablish w = connectEstablished E tid w"
| "run_conn_op E tid CDestroy w = connectDestroyed E tid w"
| "run_conn_op E tid (CSend t s) w = send_piece E t s w"
| "run_conn_op E tid (CSendBuffer t s) w =
     Buffer_append (Buffer_new kInitialSize) s \<bind> (\<lambda>buf. map_option snd (send_buffer E t buf w))"
| "run_conn_op E tid (CShutdown t) w = TcpConnection_shutdown E t w"
| "run_conn_op E tid (CForceClose t) w = Some (forceClose t w)"
| "run_conn_op E tid (CStartRead t) w = startRead E t w"
| "run_conn_op E tid (CStopRead t) w = stopRead E t w"
| "run_conn_op E tid (CNoDelay b) w = Some (setTcpNoDelay b w)"
| "run_conn_op E tid (CReadable err stream t) w =
     TcpConnection_handleRead E tid (stream_readv err stream) t w"
| "run_conn_op E tid CWritable w = TcpConnection_handleWrite E tid w"
| "run_conn_op E tid CHup w = TcpConnection_handleClose E tid w"
| "run_conn_op E tid CErr w = TcpConnection_handleError w"
| "run_conn_op E tid CPending w = doPendingFunctors (run_conn_functor E tid) w"
| "run_conn_op E tid (CConsume n) w =
     map_option (\<lambda>b. conn_upd (inputBuffer_update (\<lambda>_. b)) w) (retrieve (inputBuffer (w_user w)) n)"

fun run_conn_ops :: "'k conn_env \<Rightarrow> int \<Rightarrow> conn_op list \<Rightarrow> 'k cworld \<Rightarrow> 'k cworld option" where
  "run_conn_ops E tid [] w = Some w"
| "run_conn_ops E tid (op # ops) w = run_conn_op E tid op w \<bind> run_conn_ops E tid ops"

lemma run_calls_conn_inv:
  assumes "run_calls (run_conn_functor E tid) fs w = Some w'" and "conn_inv w" and "write_ok E"
  shows "conn_inv w'"
  using assms
proof (induction fs arbitrary: w)
  case (Cons f fs)
  obtain w1 where "run_conn_functor E tid f w = Some w1" "run_calls (run_conn_functor E tid) fs w1 = Some w'"
    using Cons.prems(1) by (auto elim: bind_SomeE)
  with Cons.IH Cons.prems(2,3) show ?case by (blast intro: run_conn_functor_inv)
qed simp

lemma send_buffer_inv:
  assumes "send_buffer E t buf w = Some (buf', w')" and "conn_inv w" and "write_ok E"
  shows "conn_inv w'"
  using assms
  by (auto simp: send_buffer_def elim!: bind_SomeE split: if_splits
      intro: sendInLoop_inv conn_runInLoop_inv)

lemma conn_inv_consume:
  assumes "conn_inv w" and "retrieve (inputBuffer (w_user w)) n = Some b"
  shows "conn_inv (conn_upd (inputBuffer_update (\<lambda>_. b)) w)"
proof -
  have "Buffer_inv (inputBuffer (w_user w))"
    using assms(1) by (simp add: conn_inv_def stream_ok_def)
  with assms(2) have "Buffer_inv b" by (simp add: buf.ret_Some(2))
  with assms(1) show ?thesis
    by (simp add: conn_inv_def stream_ok_def writing_ok_def the_channel_def)
qed

lemma run_conn_op_inv:
  assumes run: "run_conn_op E tid op w = Some w'" and inv: "conn_inv w" and ok: "write_ok E"
  shows "conn_inv w'"
proof (cases op)
  case (CSendBuffer t s)
  with run obtain buf buf' where "send_buffer E t buf w = Some (buf', w')"
    by (auto elim!: bind_SomeE)
  with inv ok show ?thesis by (blast intro: send_buffer_inv)
next
  case CPending
  with run inv ok show ?thesis
    by (auto simp: doPendingFunctors_def functors_begin_def elim!: bind_SomeE dest: run_calls_conn_inv)
next
  case (CShutdown t)
  with run inv ok show ?thesis
    by (auto simp: TcpConnection_shutdown_def split: if_splits intro: conn_runInLoop_inv conn_inv_disconnecting)
next
  case (CForceClose t)
  with run inv show ?thesis
    by (auto simp: forceClose_def split: if_splits intro: conn_inv_disconnecting)
next
  case (CReadable err stream t)
  with run inv show ?thesis by (auto intro: handleRead_inv stream_readv_ok)
next
  case (CNoDelay b)
  with run inv show ?thesis
    by (auto simp: setTcpNoDelay_def conn_inv_def stream_ok_def writing_ok_def the_channel_def)
next
  case (CConsume n)
  with run inv show ?thesis by (auto intro: conn_inv_consume)
qed (use run inv ok in \<open>auto simp: send_piece_def startRead_def stopRead_def TcpConnection_handleError_def
      split: if_splits
      intro: connectEstablished_inv connectDestroyed_inv sendInLoop_inv conn_runInLoop_inv
        handleWrite_inv handleClose_inv\<close>)

lemma run_conn_ops_inv:
  assumes "run_conn_ops E tid ops w = Some w'" and "conn_inv w" and "write_ok E"
  shows "conn_inv w'"
  using assms
proof (induction ops arbitrary: w)
  case (Cons op ops)
  obtain w1 where "run_conn_op E tid op w = Some w1" "run_conn_ops E tid ops w1 = Some w'"
    using Cons.prems(1) by (auto elim: bind_SomeE)
  with Cons.IH Cons.prems(2,3) show ?case by (blast intro: run_conn_op_inv)
qed simp

text \<open>A new connection in its loop.\<close>

definition conn_start :: "('f, 'k) EventLoop \<Rightarrow> int \<Rightarrow> string \<Rightarrow> bool \<Rightarrow> bool \<Rightarrow>
    ('f, 'k, conn_cb, TcpConnection) world" where
  "conn_start el sockfd name wc hwm =
     \<lparr>w_loop = el, w_chans = [1 \<mapsto> conn_channel (el_this el) sockfd],
      w_user = TcpConnection_new name 1 wc hwm\<rparr>"

lemma conn_start_inv: "conn_inv (conn_start el sockfd name wc hwm)"
  by (simp add: conn_inv_def conn_start_def stream_ok_def writing_ok_def the_channel_def life_ok_def
      TcpConnection_new_def conn_channel_def isWriting_def Channel_new_def setReadCallback_def
      setWriteCallback_def setCloseCallback_def setErrorCallback_def)

section \<open>The callbacks of the channel\<close>

lemma setEvents_part:
  assumes "Channel_setEvents ctl tid f b w = Some w'" and "w_chans w a = Some ch"
  shows "\<exists>ch'. w_chans w' a = Some ch' \<and> dispatch_part ch' = dispatch_part ch"
  using assms by (auto elim!: setEvents_effect simp: set_index_def dispatch_part_def)

lemma handleClose_part:
  assumes "TcpConnection_handleClose E tid w = Some w'" and "w_chans w a = Some ch"
  shows "\<exists>ch'. w_chans w' a = Some ch' \<and> dispatch_part ch' = dispatch_part ch"
proof -
  obtain w1 where "Channel_setEvents (env_ctl E) tid (\<lambda>ev. kNoneEvent) (conn_chan (w_user w))
      (setState kDisconnected w) = Some w1" and "w_chans w' = w_chans w1"
    using assms(1)
    by (auto simp: TcpConnection_handleClose_def disableAll_def log_event_def setState_def
        elim!: bind_SomeE split: if_splits)
  with assms(2) show ?thesis using setEvents_part by (fastforce simp: setState_def)
qed

lemma handleWrite_part:
  assumes "TcpConnection_handleWrite E tid w = Some w'" and "w_chans w a = Some ch"
  shows "\<exists>ch'. w_chans w' a = Some ch' \<and> dispatch_part ch' = dispatch_part ch"
  using assms
  by (auto simp: TcpConnection_handleWrite_def sock_write_def disableWriting_def shutdownInLoop_def
      elim!: bind_SomeE split: if_splits write_result.splits dest!: setEvents_part [where a = a and ch = ch])

interpretation conn: channel_view "world_get a" "world_upd a" "conn_exec E tid readv"
proof unfold_locales
  fix f and s :: "'a cworld"
  show "world_get a (world_upd a f s) = map_option f (world_get a s)"
    by (simp add: world_get_def world_upd_def)
next
  fix s s' :: "'a cworld" and ch c t
  assume get: "world_get a s = Some ch" and run: "conn_exec E tid readv c t s = Some s'"
  show "\<exists>ch'. world_get a s' = Some ch' \<and> dispatch_part ch' = dispatch_part ch"
  proof (cases c)
    case CbHandleRead
    with run obtain n e b where r: "readFd readv (inputBuffer (w_user s)) = Some (n, e, b)"
        and s': "(let w = conn_upd (inputBuffer_update (\<lambda>_. b)) s in
          if 0 < n then Some (log_event (EvMessage t) w)
          else if n = 0 then TcpConnection_handleClose E tid w
          else TcpConnection_handleError w) = Some s'"
      by (auto simp: conn_exec_def TcpConnection_handleRead_def elim!: bind_SomeE split: if_splits)
    from s' get show ?thesis
      using handleClose_part [of E tid "conn_upd (inputBuffer_update (\<lambda>_. b)) s" s' a ch]
      by (auto simp: world_get_def log_event_def TcpConnection_handleError_def split: if_splits)
  qed (use run get handleWrite_part handleClose_part in
      \<open>auto simp: conn_exec_def world_get_def TcpConnection_handleError_def\<close>)
qed

section \<open>A concrete connection\<close>

definition demo_env :: "nat \<Rightarrow> (int \<rightharpoonup> epoll_event) conn_env" where
  "demo_env n = \<lparr>env_ctl = map_epoll_ctl, env_write = (\<lambda>k data. WOk (min n (length data)))\<rparr>"

definition demo_loop :: "(conn_functor, int \<rightharpoonup> epoll_event) EventLoop" where
  "demo_loop = the (EventLoop_new 0 1 (AnEPoll \<lparr>ep_channels = Map.empty, ep_list_size = 16,
     ep_kernel = Map.empty\<rparr>) False None)"

lemma demo_env_ok: "write_ok (demo_env n)"
  by (simp add: write_ok_def demo_env_def)

text \<open>The definitions that evaluate a connection's history on a concrete input.\<close>

lemmas conn_eval = demo_env_def demo_loop_def conn_start_def EventLoop_new_def TcpConnection_new_def
  conn_channel_def Channel_new_def setReadCallback_def setWriteCallback_def setCloseCallback_def
  setErrorCallback_def connectEstablished_def setState_def enableReading_def enableWriting_def
  disableWriting_def disableAll_def Channel_setEvents_def Channel_update_def EventLoop_updateChannel_def
  any_updateChannel_def isInLoopThread_def EPollPoller_updateChannel_def Poller_assertInLoopThread_def
  epoll_index_defs EPollPoller_update_def set_index_def world_upd_def Channel_tie_def log_event_def
  connected_def send_piece_def sendInLoop_def the_channel_def send_direct_def sock_write_def
  send_queue_def isWriting_def isNoneEvent_def poll_consts Buffer_append_def ensure_room_def
  hasWritten_def Buffer_new_def Buffer_size_defs kCheapPrepend_def kInitialSize_def overwrite_def
  TcpConnection_shutdown_def runInLoop_def shutdownInLoop_def

section \<open>Properties\<close>

text \<open>C1: The byte stream of a connection is never corrupted: over every history of sends (any thread,
  any results of \<^verbatim>\<open>write\<close>), shutdowns, closes, reads and writes that does not abort, the bytes the
  kernel took followed by the output queue are exactly the accepted messages in order; and while
  the connection is not disconnected, the channel asks for writability exactly when the queue is
  not empty.\<close>

theorem conn_stream_integrity:
  assumes "write_ok E" and "run_conn_ops E tid ops (conn_start el sockfd name wc hwm) = Some w"
  shows "accepted (w_user w) = sock_wire (w_user w) @ readable (outputBuffer (w_user w))
    \<and> (conn_state (w_user w) \<noteq> kDisconnected \<longrightarrow>
        (\<exists>ch. the_channel w = Some ch \<and>
          (isWriting ch \<longleftrightarrow> readable (outputBuffer (w_user w)) \<noteq> [])))"
  using run_conn_ops_inv [OF assms(2) conn_start_inv assms(1)]
  by (auto simp: conn_inv_def stream_ok_def writing_ok_def)

theorem conn_stream_integrity_witness:
  "\<exists>w. run_conn_ops (demo_env 2) 1 [CEstablish, CSend 1 ''hello''] (conn_start demo_loop 3 ''c'' False False) = Some w
     \<and> accepted (w_user w) = ''hello'' \<and> sock_wire (w_user w) = ''he''
     \<and> readable (outputBuffer (w_user w)) = ''llo''"
proof -
  have "\<exists>w. run_conn_ops (demo_env 2) 1 [CEstablish, CSend 1 ''hello''] (conn_start demo_loop 3 ''c'' False False)
      = Some w \<and> accepted (w_user w) = ''hello'' \<and> sock_wire (w_user w) = ''he''"
    by (simp add: conn_eval)
  then obtain w where w: "run_conn_ops (demo_env 2) 1 [CEstablish, CSend 1 ''hello'']
      (conn_start demo_loop 3 ''c'' False False) = Some w"
      "accepted (w_user w) = ''hello''" "sock_wire (w_user w) = ''he''"
    by blast
  from conn_stream_integrity [OF demo_env_ok w(1)] w show ?thesis by auto
qed

text \<open>C6: The user sees the connection come up exactly once and go down at most once, and the close
  callback at most once and last: the log of life-cycle callbacks is determined by the state.\<close>

theorem conn_life_cycle:
  assumes "write_ok E" and "run_conn_ops E tid ops (conn_start el sockfd name wc hwm) = Some w"
  shows "life_ok (conn_state (w_user w)) (conn_log (w_user w))"
  using run_conn_ops_inv [OF assms(2) conn_start_inv assms(1)] by (simp add: conn_inv_def)

theorem conn_life_cycle_witness:
  "\<exists>w. run_conn_ops (demo_env 2) 1 [CEstablish, CShutdown 1] (conn_start demo_loop 3 ''c'' False False) = Some w
     \<and> conn_state (w_user w) = kDisconnecting \<and> filter is_life (conn_log (w_user w)) = [EvConnection True]"
proof -
  have "\<exists>w. run_conn_ops (demo_env 2) 1 [CEstablish, CShutdown 1] (conn_start demo_loop 3 ''c'' False False)
      = Some w \<and> conn_state (w_user w) = kDisconnecting"
    by (simp add: conn_eval)
  then obtain w where w: "run_conn_ops (demo_env 2) 1 [CEstablish, CShutdown 1]
      (conn_start demo_loop 3 ''c'' False False) = Some w" "conn_state (w_user w) = kDisconnecting"
    by blast
  from conn_life_cycle [OF demo_env_ok w(1)] w show ?thesis by (auto simp: life_ok_def)
qed

text \<open>C26: The write side is shut down only when everything accepted is on the wire: if \<^verbatim>\<open>handleWrite\<close>
  drains the queue of a connection being closed, it shuts the socket down, with no byte left
  behind; if bytes remain, it does not.\<close>

theorem shutdown_after_flush:
  assumes run: "TcpConnection_handleWrite E tid w = Some w'" and inv: "conn_inv w" and ok: "write_ok E"
    and st: "conn_state (w_user w) = kDisconnecting" and ns: "\<not> sock_shut (w_user w)"
  shows "(sock_shut (w_user w') \<longrightarrow> sock_wire (w_user w') = accepted (w_user w'))
    \<and> (readable (outputBuffer (w_user w)) \<noteq> [] \<and> readable (outputBuffer (w_user w')) = [] \<longrightarrow>
        sock_shut (w_user w'))"
proof -
  have inv': "conn_inv w'" using handleWrite_inv [OF run inv ok] .
  have goal: "(sock_shut (w_user w') \<longrightarrow> readable (outputBuffer (w_user w')) = [])
    \<and> (readable (outputBuffer (w_user w)) \<noteq> [] \<and> readable (outputBuffer (w_user w')) = [] \<longrightarrow>
        sock_shut (w_user w'))"
    using run inv ok
  proof (cases rule: handleWrite_cases)
    case (all n b w1 el)
    let ?f = "flushed n b w"
    obtain p i ch where w1: "w1 = ?f\<lparr>w_loop := (w_loop ?f)\<lparr>el_poller := p\<rparr>,
        w_chans := (w_chans ?f)(conn_chan (w_user w) \<mapsto>
          set_index i (ch\<lparr>ch_events := ch_events ch AND NOT kWriteEvent, addedToLoop := True\<rparr>))\<rparr>"
      using all(5) unfolding disableWriting_def by (elim setEvents_effect)
    have "shutdownInLoop tid (w1\<lparr>w_loop := el\<rparr>) = Some w'" using all(6) st by simp
    then have "w_user w' = (w_user w1)\<lparr>sock_shut := True\<rparr>"
      by (auto simp: shutdownInLoop_def w1 the_channel_def flushed_def set_index_def isWriting_def
          split: if_splits)
    with all(3) show ?thesis by (simp add: w1 flushed_def)
  qed (use ns in \<open>auto simp: flushed_def\<close>)
  with inv' show ?thesis
    by (auto simp: conn_inv_def stream_ok_def)
qed

theorem shutdown_after_flush_witness:
  "\<exists>w w'. run_conn_ops (demo_env 3) 1 [CEstablish, CSend 1 ''hello'', CShutdown 1]
        (conn_start demo_loop 3 ''c'' False False) = Some w
     \<and> \<not> sock_shut (w_user w) \<and> TcpConnection_handleWrite (demo_env 3) 1 w = Some w'
     \<and> sock_shut (w_user w') \<and> sock_wire (w_user w') = ''hello''"
proof -
  have "\<exists>w w'. run_conn_ops (demo_env 3) 1 [CEstablish, CSend 1 ''hello'', CShutdown 1]
        (conn_start demo_loop 3 ''c'' False False) = Some w
     \<and> conn_state (w_user w) = kDisconnecting \<and> \<not> sock_shut (w_user w)
     \<and> TcpConnection_handleWrite (demo_env 3) 1 w = Some w'
     \<and> sock_shut (w_user w') \<and> accepted (w_user w') = ''hello''"
    by (simp add: conn_eval TcpConnection_handleWrite_def retrieve_def retrieveAll_def slice_def)
  then obtain w w' where w: "run_conn_ops (demo_env 3) 1 [CEstablish, CSend 1 ''hello'', CShutdown 1]
        (conn_start demo_loop 3 ''c'' False False) = Some w"
      "conn_state (w_user w) = kDisconnecting" "\<not> sock_shut (w_user w)"
      "TcpConnection_handleWrite (demo_env 3) 1 w = Some w'"
      "sock_shut (w_user w')" "accepted (w_user w') = ''hello''"
    by blast
  have "conn_inv w" using run_conn_ops_inv [OF w(1) conn_start_inv demo_env_ok] .
  from shutdown_after_flush [OF w(4) this demo_env_ok w(2,3)] w show ?thesis by auto
qed

text \<open>Events reach a connection in a fixed order: for a channel whose tied connection is alive,
  \<^verbatim>\<open>handleEvent\<close> runs exactly the handlers that the ready events call for (close, error, read,
  write) and nothing in between; for a connection that is gone it does nothing.\<close>

theorem conn_dispatch:
  assumes "w_chans w a = Some ch" and "tied ch"
  shows "handleEvent (world_get a) (world_upd a) alive (conn_exec E tid readv) t w =
    (if alive w
     then run_calls (\<lambda>c. conn_exec E tid readv c t) (ready_calls ch)
            (world_upd a (eventHandling_update (\<lambda>_. True)) w)
          \<bind> (\<lambda>w. Some (world_upd a (eventHandling_update (\<lambda>_. False)) w))
     else Some w)"
proof -
  have get: "world_get a w = Some ch" using assms(1) by (simp add: world_get_def)
  show ?thesis
    using conn.handleEventWithGuard_eq [OF get] get assms(2) by (simp add: handleEvent_def)
qed

theorem conn_dispatch_witness:
  "handleEvent (world_get 1) (world_upd 1) (\<lambda>_. False) (conn_exec (demo_env 1) 1 (\<lambda>_. ReadOk [])) 0
     (world_upd 1 Channel_tie (conn_start demo_loop 3 ''c'' False False))
   = Some (world_upd 1 Channel_tie (conn_start demo_loop 3 ''c'' False False))"
proof -
  let ?w = "world_upd 1 Channel_tie (conn_start demo_loop 3 ''c'' False False)"
  have "w_chans ?w 1 = Some (Channel_tie (conn_channel (el_this demo_loop) 3))"
    by (simp add: world_upd_def conn_start_def)
  moreover have "tied (Channel_tie (conn_channel (el_this demo_loop) 3))"
    by (simp add: Channel_tie_def)
  ultimately show ?thesis
    using conn_dispatch [of ?w 1 "Channel_tie (conn_channel (el_this demo_loop) 3)" "\<lambda>_. False"] by simp
qed

text \<open>\<^verbatim>\<open>send(Buffer*)\<close> from a thread other than the loop's on a connected connection sends nothing:
  neither the connection, the loop's queue nor the buffer changes.\<close>

theorem send_buffer_other_thread:
  assumes "conn_state (w_user w) = kConnected" and "threadId (w_loop w) \<noteq> t"
  shows "send_buffer E t buf w = Some (buf, w)"
  using assms by (simp add: send_buffer_def isInLoopThread_def)

theorem send_buffer_other_thread_witness:
  "\<exists>w. run_conn_ops (demo_env 2) 1 [CEstablish] (conn_start demo_loop 3 ''c'' False False) = Some w
     \<and> send_buffer (demo_env 2) 2 (Buffer_new 16) w = Some (Buffer_new 16, w)"
proof -
  have "\<exists>w. run_conn_ops (demo_env 2) 1 [CEstablish] (conn_start demo_loop 3 ''c'' False False) = Some w
      \<and> conn_state (w_user w) = kConnected \<and> threadId (w_loop w) \<noteq> 2"
    by (simp add: conn_eval)
  then obtain w where "run_conn_ops (demo_env 2) 1 [CEstablish] (conn_start demo_loop 3 ''c'' False False) = Some w"
      and "conn_state (w_user w) = kConnected" "threadId (w_loop w) \<noteq> 2"
    by blast
  with send_buffer_other_thread [OF this(2,3), of "demo_env 2" "Buffer_new 16"] show ?thesis by blast
qed

text \<open>C26: \<^verbatim>\<open>connectDestroyed\<close> aborts for a connection that is shutting down and still enabled: the
  state is not \<^verbatim>\<open>kConnected\<close>, so the events are not disabled before \<^verbatim>\<open>Channel::remove\<close> asserts
  that they are.\<close>

theorem connectDestroyed_while_disconnecting:
  assumes "conn_state (w_user w) = kDisconnecting" and "the_channel w = Some ch" and "\<not> isNoneEvent ch"
  shows "connectDestroyed E tid w = None"
  using assms by (simp add: connectDestroyed_def Channel_remove_def the_channel_def)

theorem connectDestroyed_while_disconnecting_witness:
  "run_conn_ops (demo_env 9) 1 [CEstablish, CShutdown 1, CDestroy] (conn_start demo_loop 3 ''c'' False False) = None"
proof -
  have "\<exists>w ch. run_conn_ops (demo_env 9) 1 [CEstablish, CShutdown 1] (conn_start demo_loop 3 ''c'' False False) = Some w
      \<and> conn_state (w_user w) = kDisconnecting \<and> the_channel w = Some ch \<and> \<not> isNoneEvent ch"
    by (simp add: conn_eval)
  then obtain w ch where w: "run_conn_ops (demo_env 9) 1 [CEstablish, CShutdown 1] (conn_start demo_loop 3 ''c'' False False) = Some w"
      and h: "conn_state (w_user w) = kDisconnecting" "the_channel w = Some ch" "\<not> isNoneEvent ch"
    by blast
  obtain w1 where "run_conn_op (demo_env 9) 1 CEstablish (conn_start demo_loop 3 ''c'' False False) = Some w1"
      "run_conn_op (demo_env 9) 1 (CShutdown 1) w1 = Some w"
    using w by (auto elim!: bind_SomeE)
  with connectDestroyed_while_disconnecting [OF h, of "demo_env 9" 1] show ?thesis by simp
qed

end
