(* ===== verification/Connector.thy ===== *)
theory Connector
  imports Timestamp "HOL-Library.Multiset"
begin

text \<open>
  \<^verbatim>\<open>cnet::net::Connector\<close> (\<^verbatim>\<open>cnet/net/Connector.h\<close>, \<^verbatim>\<open>Connector.cc\<close>): an active opener with
  back-off. The record has the members of the class, and what the object has handed to the rest of
  the program: functors queued in the loop, timers started, sockets created, closed and given to
  \<^verbatim>\<open>newConnectionCallback_\<close>. A system call's result is an argument: \<open>sk\<close> is the descriptor that
  \<^verbatim>\<open>createNonblockingOrDie\<close> returned together with the \<^verbatim>\<open>errno\<close> of \<^verbatim>\<open>connect\<close>. The functions run
  in the loop thread, apart from \<^verbatim>\<open>start\<close> and \<^verbatim>\<open>stop\<close>, which may only queue their functor.

  The results: over every history each socket is closed or handed over exactly once, the delays
  double from half a second up to thirty seconds, and where an assertion can fail.
\<close>

section \<open>State\<close>

datatype States = Disconnected | Connecting | Connected

datatype connector_functor = RunStartInLoop | RunStopInLoop | RunResetChannel

record conn_channel_obj =
  cc_fd :: int
  cc_enabled :: bool

record Connector =
  connect_flag :: bool
  cstate :: States
  cchannel :: "conn_channel_obj option"
  retryDelayMs :: int
  cpending :: "connector_functor list"
  ctimers :: "rat list"
  created :: "int list"
  closed :: "int list"
  handed :: "int list"

definition kMaxRetryDelayMs :: int where "kMaxRetryDelayMs = 30 * 1000"
definition kInitRetryDelayMs :: int where "kInitRetryDelayMs = 500"

definition Connector_new :: Connector where
  "Connector_new = \<lparr>connect_flag = False, cstate = Disconnected, cchannel = None,
     retryDelayMs = kInitRetryDelayMs, cpending = [], ctimers = [], created = [], closed = [], handed = []\<rparr>"

definition sock_close :: "int \<Rightarrow> Connector \<Rightarrow> Connector" where
  "sock_close fd c = c\<lparr>closed := closed c @ [fd]\<rparr>"

section \<open>Operations\<close>

definition retry :: "int \<Rightarrow> Connector \<Rightarrow> Connector" where
  "retry sockfd c =
     (let c = sock_close sockfd c;
          c = c\<lparr>cstate := Disconnected\<rparr>
      in if connect_flag c
         then c\<lparr>ctimers := ctimers c @ [of_int (retryDelayMs c) / 1000],
                retryDelayMs := min (retryDelayMs c * 2) kMaxRetryDelayMs\<rparr>
         else c)"

definition connecting :: "int \<Rightarrow> Connector \<Rightarrow> Connector option" where
  "connecting sockfd c = do {
     let c = c\<lparr>cstate := Connecting\<rparr>;
     assertm (cchannel c = None);
     Some (c\<lparr>cchannel := Some \<lparr>cc_fd = sockfd, cc_enabled = True\<rparr>\<rparr>) }"

definition EINPROGRESS :: int where "EINPROGRESS = 115"
definition EISCONN :: int where "EISCONN = 106"
definition EINTR_c :: int where "EINTR_c = 4"
definition retry_errnos :: "int list" where
  "retry_errnos = [11, 98, 99, 111, 101]"

text \<open>
  \<^verbatim>\<open>EAGAIN\<close>, \<^verbatim>\<open>EADDRINUSE\<close>, \<^verbatim>\<open>EADDRNOTAVAIL\<close>, \<^verbatim>\<open>ECONNREFUSED\<close> and \<^verbatim>\<open>ENETUNREACH\<close> are retried;
  every other error closes the socket.
\<close>

definition Connector_connect :: "int \<times> int \<Rightarrow> Connector \<Rightarrow> Connector option" where
  "Connector_connect sk c =
     (let (sockfd, savedErrno) = sk;
          c = c\<lparr>created := created c @ [sockfd]\<rparr>
      in if savedErrno = 0 \<or> savedErrno = EINPROGRESS \<or> savedErrno = EINTR_c \<or> savedErrno = EISCONN
         then connecting sockfd c
         else if savedErrno \<in> set retry_errnos then Some (retry sockfd c)
         else Some (sock_close sockfd c))"

definition startInLoop :: "int \<times> int \<Rightarrow> Connector \<Rightarrow> Connector option" where
  "startInLoop sk c = do {
     assertm (cstate c = Disconnected);
     if connect_flag c then Connector_connect sk c else Some c }"

text \<open>\<^verbatim>\<open>runInLoop\<close> runs the functor at once in the loop thread and queues it elsewhere.\<close>

definition Connector_start :: "bool \<Rightarrow> int \<times> int \<Rightarrow> Connector \<Rightarrow> Connector option" where
  "Connector_start inLoop sk c =
     (let c = c\<lparr>connect_flag := True\<rparr>
      in if inLoop then startInLoop sk c
         else Some (c\<lparr>cpending := cpending c @ [RunStartInLoop]\<rparr>))"

definition Connector_restart :: "int \<times> int \<Rightarrow> Connector \<Rightarrow> Connector option" where
  "Connector_restart sk c =
     (let c = c\<lparr>cstate := Disconnected, retryDelayMs := kInitRetryDelayMs, connect_flag := True\<rparr>
      in startInLoop sk c)"

definition Connector_stop :: "Connector \<Rightarrow> Connector" where
  "Connector_stop c =
     (let c = c\<lparr>connect_flag := False\<rparr> in c\<lparr>cpending := cpending c @ [RunStopInLoop]\<rparr>)"

definition removeAndResetChannel :: "Connector \<Rightarrow> (int \<times> Connector) option" where
  "removeAndResetChannel c = do {
     ch \<leftarrow> cchannel c;
     let ch = ch\<lparr>cc_enabled := False\<rparr>;
     let c = c\<lparr>cchannel := Some ch, cpending := cpending c @ [RunResetChannel]\<rparr>;
     Some (cc_fd ch, c) }"

definition resetChannel :: "Connector \<Rightarrow> Connector" where
  "resetChannel c = c\<lparr>cchannel := None\<rparr>"

definition stopInLoop :: "Connector \<Rightarrow> Connector option" where
  "stopInLoop c =
     (if cstate c = Connecting
      then do {
        let c = c\<lparr>cstate := Disconnected\<rparr>;
        (sockfd, c) \<leftarrow> removeAndResetChannel c;
        Some (retry sockfd c) }
      else Some c)"

definition Connector_handleWrite :: "int \<Rightarrow> bool \<Rightarrow> Connector \<Rightarrow> Connector option" where
  "Connector_handleWrite so_error selfConnect c =
     (if cstate c = Connecting
      then do {
        (sockfd, c) \<leftarrow> removeAndResetChannel c;
        if so_error \<noteq> 0 then Some (retry sockfd c)
        else if selfConnect then Some (retry sockfd c)
        else let c = c\<lparr>cstate := Connected\<rparr>
             in if connect_flag c then Some (c\<lparr>handed := handed c @ [sockfd]\<rparr>)
                else Some (sock_close sockfd c) }
      else do { assertm (cstate c = Disconnected); Some c })"

definition Connector_handleError :: "Connector \<Rightarrow> Connector option" where
  "Connector_handleError c =
     (if cstate c = Connecting
      then do { (sockfd, c) \<leftarrow> removeAndResetChannel c; Some (retry sockfd c) }
      else Some c)"

definition Connector_dtor :: "Connector \<Rightarrow> unit option" where
  "Connector_dtor c = assertm (cchannel c = None)"

section \<open>Histories\<close>

text \<open>
  What happens to a connector: calls, the next functor of the loop, an expired retry timer, and
  events of its channel, which only arrive while the channel is enabled.
\<close>

datatype connector_op =
    OpStart bool "int \<times> int" | OpRestart "int \<times> int" | OpStop | OpFunctor "int \<times> int" | OpTimer "int \<times> int"
  | OpWritable int bool | OpError

definition chan_enabled :: "Connector \<Rightarrow> bool" where
  "chan_enabled c = (case cchannel c of None \<Rightarrow> False | Some ch \<Rightarrow> cc_enabled ch)"

fun run_connector_op :: "connector_op \<Rightarrow> Connector \<Rightarrow> Connector option" where
  "run_connector_op (OpStart inLoop sk) c = Connector_start inLoop sk c"
| "run_connector_op (OpRestart sk) c = (if cstate c = Connected then Connector_restart sk c else Some c)"
| "run_connector_op OpStop c = Some (Connector_stop c)"
| "run_connector_op (OpFunctor sk) c =
     (case cpending c of
        [] \<Rightarrow> Some c
      | RunStartInLoop # fs \<Rightarrow> startInLoop sk (c\<lparr>cpending := fs\<rparr>)
      | RunStopInLoop # fs \<Rightarrow> stopInLoop (c\<lparr>cpending := fs\<rparr>)
      | RunResetChannel # fs \<Rightarrow> Some (resetChannel (c\<lparr>cpending := fs\<rparr>)))"
| "run_connector_op (OpTimer sk) c =
     (case ctimers c of [] \<Rightarrow> Some c | t # ts \<Rightarrow> startInLoop sk (c\<lparr>ctimers := ts\<rparr>))"
| "run_connector_op (OpWritable err self) c =
     (if chan_enabled c then Connector_handleWrite err self c else Some c)"
| "run_connector_op OpError c = (if chan_enabled c then Connector_handleError c else Some c)"

fun run_connector_ops :: "connector_op list \<Rightarrow> Connector \<Rightarrow> Connector option" where
  "run_connector_ops [] c = Some c"
| "run_connector_ops (op # ops) c = run_connector_op op c \<bind> run_connector_ops ops"

section \<open>Invariant\<close>

definition inflight :: "Connector \<Rightarrow> int multiset" where
  "inflight c = (case cchannel c of None \<Rightarrow> {#} | Some ch \<Rightarrow> if cc_enabled ch then {#cc_fd ch#} else {#})"

text \<open>
  The channel is watched exactly in state \<open>Connecting\<close>; a channel that is no longer watched waits
  for the one \<^verbatim>\<open>resetChannel\<close> functor in the queue.
\<close>

definition Connector_inv :: "Connector \<Rightarrow> bool" where
  "Connector_inv c \<longleftrightarrow> mset (created c) = mset (closed c) + mset (handed c) + inflight c
     \<and> chan_enabled c = (cstate c = Connecting)
     \<and> count_list (cpending c) RunResetChannel = (if cchannel c \<noteq> None \<and> \<not> chan_enabled c then 1 else 0)
     \<and> kInitRetryDelayMs \<le> retryDelayMs c \<and> retryDelayMs c \<le> kMaxRetryDelayMs
     \<and> (\<forall>t \<in> set (ctimers c). 1 / 2 \<le> t \<and> t \<le> 30)"

lemmas connector_defs = startInLoop_def Connector_connect_def
  connecting_def retry_def sock_close_def removeAndResetChannel_def resetChannel_def
lemmas connector_inv_defs = Connector_inv_def inflight_def chan_enabled_def kInitRetryDelayMs_def kMaxRetryDelayMs_def

lemma Connector_new_inv: "Connector_inv Connector_new"
  by (simp add: connector_inv_defs Connector_new_def)

lemma startInLoop_inv:
  "Connector_inv c \<Longrightarrow> startInLoop sk c = Some c' \<Longrightarrow> Connector_inv c'"
  by (cases sk) (auto simp: connector_inv_defs connector_defs elim!: bind_SomeE split: if_splits option.splits)

lemma Connector_inv_flags:
  "Connector_inv (c\<lparr>connect_flag := b\<rparr>) = Connector_inv c"
  "Connector_inv (c\<lparr>cpending := cpending c @ [RunStartInLoop]\<rparr>) = Connector_inv c"
  "Connector_inv (c\<lparr>cpending := cpending c @ [RunStopInLoop]\<rparr>) = Connector_inv c"
  by (simp_all add: connector_inv_defs cong: option.case_cong)

text \<open>Leaving state \<open>Connecting\<close> through \<^verbatim>\<open>removeAndResetChannel\<close>, for the three handlers that do.\<close>

lemma removeAndResetChannel_retry_inv:
  "Connector_inv c \<Longrightarrow> cstate c = Connecting \<Longrightarrow>
   removeAndResetChannel (c\<lparr>cstate := st\<rparr>) = Some (fd, c') \<Longrightarrow> Connector_inv (retry fd c')"
  by (auto simp: connector_inv_defs connector_defs elim!: bind_SomeE split: if_splits option.splits)

lemma removeAndResetChannel_retry_inv':
  "Connector_inv c \<Longrightarrow> cstate c = Connecting \<Longrightarrow>
   removeAndResetChannel c = Some (fd, c') \<Longrightarrow> Connector_inv (retry fd c')"
  using removeAndResetChannel_retry_inv [of c "cstate c" fd c'] by (cases c) simp

lemma Connector_handleWrite_inv:
  assumes "Connector_inv c" and "Connector_handleWrite err self c = Some c'"
  shows "Connector_inv c'"
proof (cases "cstate c = Connecting")
  case True
  then obtain fd c1 where r: "removeAndResetChannel c = Some (fd, c1)"
    using assms by (auto simp: Connector_handleWrite_def elim!: bind_SomeE)
  have "Connector_inv (retry fd c1)"
    using removeAndResetChannel_retry_inv' assms(1) True r by blast
  then show ?thesis
    using assms True r
    by (auto simp: Connector_handleWrite_def connector_inv_defs connector_defs elim!: bind_SomeE
        split: if_splits option.splits)
qed (use assms in \<open>auto simp: Connector_handleWrite_def elim!: bind_SomeE split: if_splits\<close>)

lemma run_connector_op_inv:
  assumes "Connector_inv c" and "run_connector_op op c = Some c'"
  shows "Connector_inv c'"
proof (cases op)
  case (OpStart b sk)
  then show ?thesis
    using assms startInLoop_inv [of "c\<lparr>connect_flag := True\<rparr>" sk c'] Connector_inv_flags(2) [of "c\<lparr>connect_flag := True\<rparr>"]
    by (auto simp: Connector_start_def Connector_inv_flags(1) split: if_splits)
next
  case (OpRestart sk)
  then show ?thesis
    using assms startInLoop_inv [of "c\<lparr>cstate := Disconnected, retryDelayMs := kInitRetryDelayMs, connect_flag := True\<rparr>" sk c']
    by (auto simp: Connector_restart_def connector_inv_defs split: if_splits option.splits)
next
  case OpStop
  then show ?thesis
    using assms by (auto simp: Connector_stop_def connector_inv_defs cong: option.case_cong)
next
  case (OpFunctor sk)
  show ?thesis
  proof (cases "cpending c")
    case (Cons f fs)
    show ?thesis
    proof (cases f)
      case RunStartInLoop
      have "Connector_inv (c\<lparr>cpending := fs\<rparr>)"
        using assms(1) Cons RunStartInLoop by (simp add: connector_inv_defs cong: option.case_cong)
      then show ?thesis using assms OpFunctor Cons RunStartInLoop startInLoop_inv by simp
    next
      case RunStopInLoop
      have i: "Connector_inv (c\<lparr>cpending := fs\<rparr>)"
        using assms(1) Cons RunStopInLoop by (simp add: connector_inv_defs cong: option.case_cong)
      show ?thesis
        using assms OpFunctor Cons RunStopInLoop i removeAndResetChannel_retry_inv [OF i, of Disconnected]
        by (auto simp: stopInLoop_def elim!: bind_SomeE split: if_splits)
    next
      case RunResetChannel
      then show ?thesis
        using assms OpFunctor Cons by (auto simp: connector_inv_defs resetChannel_def split: if_splits option.splits)
    qed
  qed (use assms OpFunctor in simp)
next
  case (OpTimer sk)
  show ?thesis
  proof (cases "ctimers c")
    case (Cons t ts)
    have "Connector_inv (c\<lparr>ctimers := ts\<rparr>)"
      using assms(1) Cons by (simp add: connector_inv_defs cong: option.case_cong)
    then show ?thesis using assms OpTimer Cons startInLoop_inv by simp
  qed (use assms OpTimer in simp)
next
  case (OpWritable err self)
  then show ?thesis using assms Connector_handleWrite_inv by (auto split: if_splits)
next
  case OpError
  then show ?thesis
    using assms removeAndResetChannel_retry_inv' [OF assms(1)]
    by (auto simp: Connector_handleError_def elim!: bind_SomeE split: if_splits)
qed

lemma run_connector_ops_inv:
  "Connector_inv c \<Longrightarrow> run_connector_ops ops c = Some c' \<Longrightarrow> Connector_inv c'"
  by (induction ops arbitrary: c) (auto elim!: bind_SomeE dest: run_connector_op_inv)

text \<open>C15: over every history of a connector (calls, functors, timers, channel events) each socket it
  created has been closed, has been handed to the user or is the one being connected, each counted
  once: no descriptor leaks or is closed twice; every retry timer it ever leaves pending is between
  half a second and thirty seconds; and it never loses the channel it waits on: the channel is
  watched exactly in state connecting.\<close>

theorem connector_sockets_conserved:
  assumes "run_connector_ops ops Connector_new = Some c"
  shows "mset (created c) = mset (closed c) + mset (handed c) + inflight c
    \<and> (cstate c = Connecting \<longleftrightarrow> chan_enabled c)
    \<and> (\<forall>t \<in> set (ctimers c). 1 / 2 \<le> t \<and> t \<le> 30)"
  using run_connector_ops_inv [OF Connector_new_inv assms] by (auto simp: Connector_inv_def)

theorem connector_sockets_conserved_witness:
  "\<exists>c. run_connector_ops [OpStart True (7, 111), OpTimer (8, 115), OpWritable 0 False] Connector_new = Some c
    \<and> closed c = [7] \<and> handed c = [8] \<and> mset (created c) = mset (closed c) + mset (handed c) + inflight c"
proof -
  define c where "c = the (run_connector_ops [OpStart True (7, 111), OpTimer (8, 115), OpWritable 0 False] Connector_new)"
  have r: "run_connector_ops [OpStart True (7, 111), OpTimer (8, 115), OpWritable 0 False] Connector_new = Some c
     \<and> closed c = [7] \<and> handed c = [8]"
    unfolding c_def by code_simp
  with connector_sockets_conserved [of _ c] show ?thesis by blast
qed

section \<open>Back-off\<close>

fun failed_retries :: "int list \<Rightarrow> connector_op list" where
  "failed_retries [] = []"
| "failed_retries (fd # fds) = OpTimer (fd, 111) # failed_retries fds"

definition backoff :: "nat \<Rightarrow> int" where
  "backoff n = min (kInitRetryDelayMs * 2 ^ n) kMaxRetryDelayMs"

lemma backoff_Suc: "min (backoff n * 2) kMaxRetryDelayMs = backoff (Suc n)"
  by (auto simp: backoff_def kInitRetryDelayMs_def kMaxRetryDelayMs_def min_def)

lemma timer_refused:
  "cstate c = Disconnected \<Longrightarrow> connect_flag c \<Longrightarrow> ctimers c = [t] \<Longrightarrow> retryDelayMs c = backoff n \<Longrightarrow>
   run_connector_op (OpTimer (fd, 111)) c =
     Some (c\<lparr>created := created c @ [fd], closed := closed c @ [fd],
       ctimers := [of_int (backoff n) / 1000], retryDelayMs := backoff (Suc n)\<rparr>)"
  by (cases c) (simp add: connector_defs EINPROGRESS_def EINTR_c_def EISCONN_def retry_errnos_def backoff_Suc)

lemma run_failed_retries:
  "cstate c = Disconnected \<Longrightarrow> connect_flag c \<Longrightarrow> ctimers c = [of_int (backoff n) / 1000] \<Longrightarrow>
   retryDelayMs c = backoff (Suc n) \<Longrightarrow>
   \<exists>c'. run_connector_ops (failed_retries fds) c = Some c'
     \<and> ctimers c' = [of_int (backoff (n + length fds)) / 1000] \<and> closed c' = closed c @ fds
     \<and> cstate c' = Disconnected"
proof (induction fds arbitrary: c n)
  case (Cons fd fds)
  show ?case
    using Cons.IH [of "c\<lparr>created := created c @ [fd], closed := closed c @ [fd],
       ctimers := [of_int (backoff (Suc n)) / 1000], retryDelayMs := backoff (Suc (Suc n))\<rparr>" "Suc n"] Cons.prems
      timer_refused [of c "of_int (backoff n) / 1000" "Suc n" fd]
    by (simp del: run_connector_op.simps)
qed simp

text \<open>C30: against a server that refuses every attempt the connector never gives up: after the first
  attempt and \<open>n\<close> retries it waits for exactly one timer, whose delay is half a second doubled \<open>n\<close>
  times and capped at thirty seconds, and every socket it tried is closed.\<close>

theorem connector_backoff:
  "\<exists>c. run_connector_ops (OpStart True (fd, 111) # failed_retries fds) Connector_new = Some c
     \<and> ctimers c = [of_int (min (500 * 2 ^ length fds) 30000) / 1000] \<and> closed c = fd # fds
     \<and> cstate c = Disconnected"
proof -
  let ?c = "Connector_new\<lparr>connect_flag := True, created := [fd], closed := [fd],
      ctimers := [of_int (backoff 0) / 1000], retryDelayMs := backoff 1\<rparr>"
  have "run_connector_op (OpStart True (fd, 111)) Connector_new = Some ?c"
    by (simp add: Connector_start_def connector_defs EINPROGRESS_def EINTR_c_def EISCONN_def retry_errnos_def
        backoff_def Connector_new_def kInitRetryDelayMs_def kMaxRetryDelayMs_def)
  moreover have "cstate ?c = Disconnected" by (simp add: Connector_new_def)
  ultimately show ?thesis
    using run_failed_retries [of ?c 0 fds]
    by (simp add: backoff_def kInitRetryDelayMs_def kMaxRetryDelayMs_def del: run_connector_op.simps)
qed

text \<open>\<^verbatim>\<open>stop\<close> does not cancel the retry timer: when the user stops a connector that waits for its
  timer and starts it again, and that attempt is in progress when the old timer expires, the
  assertion of \<^verbatim>\<open>startInLoop\<close> fails.\<close>

theorem connector_stale_timer_aborts:
  assumes "ctimers c \<noteq> []" and "cstate c = Disconnected" and "cchannel c = None" and "cpending c = []"
  shows "run_connector_ops [OpStop, OpFunctor sk, OpStart True (fd, 115), OpTimer sk'] c = None"
  using assms
  by (cases c, cases "ctimers c")
    (simp_all add: Connector_start_def Connector_stop_def stopInLoop_def connector_defs EINPROGRESS_def)

theorem connector_stale_timer_aborts_witness:
  "run_connector_ops [OpStart True (7, 111)] Connector_new \<noteq> None
   \<and> run_connector_ops [OpStop, OpFunctor (0, 0), OpStart True (8, 115), OpTimer (9, 0)]
      (the (run_connector_ops [OpStart True (7, 111)] Connector_new)) = None"
  using connector_stale_timer_aborts [of "the (run_connector_ops [OpStart True (7, 111)] Connector_new)" "(0, 0)" 8 "(9, 0)"]
  by code_simp

end
