(* ===== verification/Inet.thy ===== *)
theory Inet
  imports Endian
begin

text \<open>
  Socket addresses: \<^verbatim>\<open>cnet/net/InetAddress.h\<close>, \<^verbatim>\<open>InetAddress.cc\<close> and the address functions of
  \<^verbatim>\<open>cnet/net/SocketsOps.cc\<close>. \<^verbatim>\<open>sockaddr_in\<close> and \<^verbatim>\<open>sockaddr_in6\<close> share a union: family and port
  have the same place in both, \<^verbatim>\<open>sin_addr\<close> lies over \<^verbatim>\<open>sin6_flowinfo\<close>, so one record describes the
  storage. Ports and IPv4 addresses are kept in network order, as the memory holds them.
  \<^verbatim>\<open>inet_ntop\<close> and \<^verbatim>\<open>inet_pton\<close> are written out for IPv4 and parameters for IPv6;
  \<^verbatim>\<open>gethostbyname_r\<close> is a parameter.
\<close>

section \<open>The address\<close>

definition AF_INET :: nat where "AF_INET = 2"
definition AF_INET6 :: nat where "AF_INET6 = 10"

record InetAddress =
  sin_family :: nat
  sin_port :: "16 word"
  sin_addr :: "32 word"
  sin6_addr :: string

definition zero_addr :: InetAddress where
  "zero_addr = \<lparr>sin_family = 0, sin_port = 0, sin_addr = 0, sin6_addr = replicate 16 (char_of (0::nat))\<rparr>"

definition kInaddrAny :: "32 word" where "kInaddrAny = 0"
definition kInaddrLoopback :: "32 word" where "kInaddrLoopback = 0x7f000001"
definition in6addr_loopback :: string where
  "in6addr_loopback = replicate 15 (char_of (0::nat)) @ [char_of (1::nat)]"

definition InetAddress_port :: "16 word \<Rightarrow> bool \<Rightarrow> bool \<Rightarrow> InetAddress" where
  "InetAddress_port port loopbackOnly ipv6 =
     (if ipv6
      then zero_addr\<lparr>sin_family := AF_INET6,
             sin6_addr := (if loopbackOnly then in6addr_loopback else replicate 16 (char_of (0::nat))),
             sin_port := hostToNetwork16 port\<rparr>
      else zero_addr\<lparr>sin_family := AF_INET,
             sin_addr := (if loopbackOnly then kInaddrLoopback else kInaddrAny),
             sin_port := hostToNetwork16 port\<rparr>)"

section \<open>Text form\<close>

fun split_dot :: "string \<Rightarrow> string list" where
  "split_dot [] = [[]]"
| "split_dot (c # s) =
     (if c = CHR ''.'' then [] # split_dot s
      else case split_dot s of [] \<Rightarrow> [[c]] | p # ps \<Rightarrow> (c # p) # ps)"

definition octet_ok :: "string \<Rightarrow> bool" where
  "octet_ok p \<longleftrightarrow> p \<noteq> [] \<and> (\<forall>c \<in> set p. is_digit c) \<and> nat_of_digits p \<le> 255 \<and> (hd p = CHR ''0'' \<longrightarrow> length p = 1)"

definition inet_ntop4 :: "32 word \<Rightarrow> string" where
  "inet_ntop4 a =
     (let bs = map (\<lambda>c. dec_nat (of_char c)) (le_bytes 4 a)
      in bs ! 0 @ ''.'' @ bs ! 1 @ ''.'' @ bs ! 2 @ ''.'' @ bs ! 3)"

definition inet_pton4 :: "string \<Rightarrow> 32 word option" where
  "inet_pton4 s =
     (let ps = split_dot s
      in if length ps = 4 \<and> (\<forall>p \<in> set ps. octet_ok p)
         then Some (word_of_le (map (\<lambda>p. char_of (nat_of_digits p)) ps))
         else None)"

text \<open>\<^verbatim>\<open>snprintf\<close> into \<open>sz\<close> bytes keeps at most \<open>sz - 1\<close> characters.\<close>

definition snprintf :: "nat \<Rightarrow> string \<Rightarrow> string" where
  "snprintf sz s = take (sz - 1) s"

definition INET_ADDRSTRLEN :: nat where "INET_ADDRSTRLEN = 16"
definition INET6_ADDRSTRLEN :: nat where "INET6_ADDRSTRLEN = 46"

definition sockets_toIp :: "(string \<Rightarrow> string) \<Rightarrow> nat \<Rightarrow> InetAddress \<Rightarrow> string \<Rightarrow> string option" where
  "sockets_toIp ntop6 sz addr buf =
     (if sin_family addr = AF_INET
      then do { assertm (sz \<ge> INET_ADDRSTRLEN); Some (inet_ntop4 (sin_addr addr)) }
      else if sin_family addr = AF_INET6
      then do { assertm (sz \<ge> INET6_ADDRSTRLEN); Some (ntop6 (sin6_addr addr)) }
      else Some buf)"

definition sockets_toIpPort :: "(string \<Rightarrow> string) \<Rightarrow> nat \<Rightarrow> InetAddress \<Rightarrow> string \<Rightarrow> string option" where
  "sockets_toIpPort ntop6 sz addr buf = do {
     buf \<leftarrow> sockets_toIp ntop6 sz addr buf;
     let end1 = length buf;
     let port = networkToHost16 (sin_port addr);
     assertm (sz > end1);
     Some (buf @ snprintf (sz - end1) ('':'' @ dec_nat (unat port))) }"

text \<open>Both overloads; a string that does not parse is logged and leaves the address zero.\<close>

definition fromIpPort4 :: "string \<Rightarrow> 16 word \<Rightarrow> InetAddress \<Rightarrow> InetAddress" where
  "fromIpPort4 ip port addr =
     (let addr = addr\<lparr>sin_family := AF_INET, sin_port := hostToNetwork16 port\<rparr>
      in case inet_pton4 ip of None \<Rightarrow> addr | Some a \<Rightarrow> addr\<lparr>sin_addr := a\<rparr>)"

definition fromIpPort6 :: "(string \<Rightarrow> string option) \<Rightarrow> string \<Rightarrow> 16 word \<Rightarrow> InetAddress \<Rightarrow> InetAddress" where
  "fromIpPort6 pton6 ip port addr =
     (let addr = addr\<lparr>sin_family := AF_INET6, sin_port := hostToNetwork16 port\<rparr>
      in case pton6 ip of None \<Rightarrow> addr | Some a \<Rightarrow> addr\<lparr>sin6_addr := a\<rparr>)"

definition InetAddress_ip :: "(string \<Rightarrow> string option) \<Rightarrow> string \<Rightarrow> 16 word \<Rightarrow> bool \<Rightarrow> InetAddress" where
  "InetAddress_ip pton6 ip port ipv6 =
     (if ipv6 then fromIpPort6 pton6 ip port zero_addr else fromIpPort4 ip port zero_addr)"

definition toIpPort :: "(string \<Rightarrow> string) \<Rightarrow> InetAddress \<Rightarrow> string option" where
  "toIpPort ntop6 addr = sockets_toIpPort ntop6 64 addr []"

definition toIp :: "(string \<Rightarrow> string) \<Rightarrow> InetAddress \<Rightarrow> string option" where
  "toIp ntop6 addr = sockets_toIp ntop6 64 addr []"

definition ipNetEndian :: "InetAddress \<Rightarrow> 32 word option" where
  "ipNetEndian addr = do { assertm (sin_family addr = AF_INET); Some (sin_addr addr) }"

definition toPort :: "InetAddress \<Rightarrow> 16 word" where
  "toPort addr = networkToHost16 (sin_port addr)"

section \<open>Resolution and self-connection\<close>

record hostent =
  h_addrtype :: nat
  h_length :: nat
  h_addr :: "32 word"

definition resolve :: "(string \<Rightarrow> int \<times> hostent option) \<Rightarrow> string \<Rightarrow> InetAddress \<Rightarrow> (bool \<times> InetAddress) option" where
  "resolve gethostbyname_r hostname out =
     (let (ret, he) = gethostbyname_r hostname
      in case he of
           Some he \<Rightarrow>
             if ret = 0
             then do {
               assertm (h_addrtype he = AF_INET \<and> h_length he = 4);
               Some (True, out\<lparr>sin_addr := h_addr he\<rparr>) }
             else Some (False, out)
         | None \<Rightarrow> Some (False, out))"

definition isSelfConnet :: "InetAddress \<Rightarrow> InetAddress \<Rightarrow> bool" where
  "isSelfConnet localaddr peeraddr =
     (if sin_family localaddr = AF_INET
      then sin_port localaddr = sin_port peeraddr \<and> sin_addr localaddr = sin_addr peeraddr
      else if sin_family localaddr = AF_INET6
      then sin_port localaddr = sin_port peeraddr \<and> sin6_addr localaddr = sin6_addr peeraddr
      else False)"

section \<open>Text form is faithful\<close>

lemma split_dot_nodot: "CHR ''.'' \<notin> set p \<Longrightarrow> split_dot p = [p]"
  by (induction p) auto

lemma split_dot_cons: "CHR ''.'' \<notin> set p \<Longrightarrow> split_dot (p @ CHR ''.'' # s) = p # split_dot s"
  by (induction p) auto

lemma dec_nat_no_dot: "CHR ''.'' \<notin> set (dec_nat n)"
  using dec_nat_digits [of n] by (auto simp: is_digit_def)

lemma dec_nat_hd0: "hd (dec_nat n) = CHR ''0'' \<Longrightarrow> n = 0"
proof (induction n rule: dec_nat.induct)
  case (1 n)
  show ?case
  proof (cases "n < 10")
    case True
    with 1 have "digit_char n = digit_char 0"
      by (simp add: dec_nat.simps [of n])
    with True show ?thesis using digit_char_inj [of n 0] by simp
  next
    case False
    with 1 show ?thesis by (simp add: dec_nat.simps [of n])
  qed
qed

lemma octet_ok_dec: "n \<le> 255 \<Longrightarrow> octet_ok (dec_nat n)"
  using dec_nat_digits [of n] dec_nat_hd0 [of n] by (auto simp: octet_ok_def dec_nat.simps [of 0])

lemma of_char_le_255: "(of_char c :: nat) \<le> 255"
  using nat_of_char_less_256 [of c] by linarith

lemma le_bytes_4E:
  obtains b0 b1 b2 b3 where "le_bytes 4 (a :: 32 word) = [b0, b1, b2, b3]"
  using that length_le_bytes [of "Suc (Suc (Suc (Suc 0)))" a]
  by (auto simp: length_Suc_conv numeral_eq_Suc simp del: length_le_bytes)

lemma inet_pton4_ntop4: "inet_pton4 (inet_ntop4 a) = Some a"
proof -
  obtain b0 b1 b2 b3 where bs: "le_bytes 4 a = [b0, b1, b2, b3]"
    by (rule le_bytes_4E)
  have "split_dot (inet_ntop4 a) = map (\<lambda>c. dec_nat (of_char c)) [b0, b1, b2, b3]"
    by (simp add: inet_ntop4_def bs split_dot_cons split_dot_nodot dec_nat_no_dot)
  moreover have "word_of_le [b0, b1, b2, b3] = a"
    unfolding bs [symmetric] by (rule word_of_le_bytes) simp
  ultimately show ?thesis
    by (simp add: inet_pton4_def octet_ok_dec of_char_le_255)
qed

lemma inet_ntop4_length: "length (inet_ntop4 a) \<le> 15"
proof -
  obtain b0 b1 b2 b3 where bs: "le_bytes 4 a = [b0, b1, b2, b3]"
    by (rule le_bytes_4E)
  have b: "length (dec_nat (of_char c)) \<le> 3" for c
    by (rule length_dec_nat_le) (use of_char_le_255 [of c] in simp_all)
  show ?thesis
    using b [of b0] b [of b1] b [of b2] b [of b3] by (simp add: inet_ntop4_def bs)
qed

lemma length_dec_port: "length (dec_nat (unat (p :: 16 word))) \<le> 5"
  by (rule length_dec_nat_le) (use unsigned_less [where w = p and 'a = nat] in simp_all)

lemma snprintf_fits: "length s < sz \<Longrightarrow> snprintf sz s = s"
  by (simp add: snprintf_def)

lemma toPort_InetAddress: "toPort (InetAddress_ip pton6 ip port ipv6) = port"
  "toPort (InetAddress_port port loopbackOnly ipv6) = port"
  by (auto simp: toPort_def InetAddress_ip_def InetAddress_port_def fromIpPort4_def fromIpPort6_def
      split: option.splits)

lemma toIpPort_v4:
  "sin_family addr = AF_INET \<Longrightarrow>
   toIpPort ntop6 addr = Some (inet_ntop4 (sin_addr addr) @ '':'' @ dec_nat (unat (toPort addr)))"
  using inet_ntop4_length [of "sin_addr addr"] length_dec_port [of "toPort addr"]
  by (simp add: toIpPort_def sockets_toIpPort_def sockets_toIp_def toPort_def INET_ADDRSTRLEN_def snprintf_fits)

lemma toIpPort_v6:
  "sin_family addr = AF_INET6 \<Longrightarrow> length (ntop6 (sin6_addr addr)) < INET6_ADDRSTRLEN \<Longrightarrow>
   toIpPort ntop6 addr = Some (ntop6 (sin6_addr addr) @ '':'' @ dec_nat (unat (toPort addr)))"
  using length_dec_port [of "toPort addr"]
  by (simp add: toIpPort_def sockets_toIpPort_def sockets_toIp_def toPort_def INET6_ADDRSTRLEN_def
      AF_INET_def AF_INET6_def snprintf_fits)

text \<open>Every printed address has at most 51 characters, which is what the connection names rely on.\<close>

lemma toIpPort_length:
  assumes "sin_family addr = AF_INET \<or> sin_family addr = AF_INET6"
    and "\<And>a. length (ntop6 a) < INET6_ADDRSTRLEN"
  shows "\<exists>s. toIpPort ntop6 addr = Some s \<and> length s \<le> 51"
  using assms(1)
proof
  assume "sin_family addr = AF_INET"
  then show ?thesis
    using inet_ntop4_length [of "sin_addr addr"] length_dec_port [of "toPort addr"] by (simp add: toIpPort_v4)
next
  assume "sin_family addr = AF_INET6"
  then show ?thesis
    using assms(2) [of "sin6_addr addr"] length_dec_port [of "toPort addr"]
    by (simp add: toIpPort_v6 INET6_ADDRSTRLEN_def)
qed

text \<open>An address made from the text form of any IPv4 address and a port prints as that text,
  a colon and the port in decimal, and gives the port back; nothing is cut off by the 64-byte
  buffer and no assertion fails.\<close>

theorem inet_text_round_trip:
  "toIpPort ntop6 (InetAddress_ip pton6 (inet_ntop4 a) port False)
     = Some (inet_ntop4 a @ '':'' @ dec_nat (unat port))
   \<and> toIp ntop6 (InetAddress_ip pton6 (inet_ntop4 a) port False) = Some (inet_ntop4 a)
   \<and> ipNetEndian (InetAddress_ip pton6 (inet_ntop4 a) port False) = Some a
   \<and> toPort (InetAddress_ip pton6 (inet_ntop4 a) port False) = port"
  by (simp add: toIpPort_v4 toPort_InetAddress)
    (simp add: InetAddress_ip_def fromIpPort4_def inet_pton4_ntop4 toIp_def sockets_toIp_def
      INET_ADDRSTRLEN_def ipNetEndian_def toIpPort_v4 toPort_def)

text \<open>The constructor stores the loopback constant in host order: the loopback-only endpoint on
  port 80 is 1.0.0.127, not 127.0.0.1.\<close>

theorem inet_loopback_swapped:
  "toIpPort ntop6 (InetAddress_port 80 True False) = Some ''1.0.0.127:80''"
proof -
  have "inet_ntop4 kInaddrLoopback = ''1.0.0.127''"
    by (simp add: inet_ntop4_def le_bytes_def kInaddrLoopback_def upt_rec dec_nat.simps)
  moreover have "dec_nat (unat (80 :: 16 word)) = ''80''"
    by (simp add: dec_nat.simps)
  moreover have "sin_family (InetAddress_port 80 True False) = AF_INET"
    and "sin_addr (InetAddress_port 80 True False) = kInaddrLoopback"
    by (simp_all add: InetAddress_port_def)
  ultimately show ?thesis
    using toPort_InetAddress(2) [of 80 True False] by (simp add: toIpPort_v4)
qed

end
