(* ===== verification/TcpServer.thy ===== *)
theory TcpServer
  imports Inet
begin

text \<open>
  The passive side: \<^verbatim>\<open>Acceptor\<close> (\<^verbatim>\<open>cnet/net/Acceptor.cc\<close>), \<^verbatim>\<open>EventLoopThreadPool\<close>
  (\<^verbatim>\<open>cnet/net/EventLoopThreadPool.cc\<close>) and \<^verbatim>\<open>TcpServer\<close> (\<^verbatim>\<open>cnet/net/TcpServer.cc\<close>). Loops are
  numbered, \<open>0\<close> being the base loop; a thread is named by the loop it runs. Each loop has its
  queue of functors (the queue itself is verified in the theory of the event loop). Connections are
  numbered in the order of their creation; the calls the server makes on them are recorded in
  \<open>slog\<close> with the loop they ran in. \<open>sclosed\<close> holds the connections whose close callback has run;
  a connection calls it at most once, between \<^verbatim>\<open>connectEstablished\<close> and \<^verbatim>\<open>connectDestroyed\<close>
  (the life cycle of the theory of the connection).

  The results: round robin is fair, connection names never collide, every connection is established
  and destroyed exactly once in its own loop and then forgotten, and what goes wrong when the server
  is destroyed or started from the wrong thread.
\<close>

section \<open>Acceptor\<close>

datatype accept_result = AcceptOk int InetAddress | AcceptErr int

definition EMFILE :: int where "EMFILE = 24"

definition accept_expected :: "int list" where
  "accept_expected = [11, 103, 4, 71, 1, EMFILE]"

text \<open>
  \<^verbatim>\<open>EAGAIN\<close>, \<^verbatim>\<open>ECONNABORTED\<close>, \<^verbatim>\<open>EINTR\<close>, \<^verbatim>\<open>EPROTO\<close>, \<^verbatim>\<open>EPERM\<close> and \<^verbatim>\<open>EMFILE\<close> are passed on; every
  other error ends the program (\<^verbatim>\<open>LOG_FATAL\<close>).
\<close>

definition sockets_accept :: "accept_result \<Rightarrow> accept_result option" where
  "sockets_accept r = (case r of
       AcceptOk connfd addr \<Rightarrow> Some r
     | AcceptErr e \<Rightarrow> if e \<in> set accept_expected then Some r else None)"

record Acceptor =
  acceptFd :: int
  areading :: bool
  hasNewConnectionCallback :: bool
  listenning :: bool
  idleFd :: int

datatype accept_action = ANewConnection int InetAddress | AClose int

definition Acceptor_new :: "int \<Rightarrow> int \<Rightarrow> Acceptor option" where
  "Acceptor_new sockfd idle = do {
     assertm (idle \<ge> 0);
     Some \<lparr>acceptFd = sockfd, areading = False, hasNewConnectionCallback = False, listenning = False,
           idleFd = idle\<rparr> }"

text \<open>The body closes the reserve descriptor, the member \<^verbatim>\<open>acceptSocket_\<close> its own.\<close>

definition Acceptor_dtor :: "Acceptor \<Rightarrow> accept_action list \<times> Acceptor" where
  "Acceptor_dtor a = ([AClose (idleFd a), AClose (acceptFd a)], a\<lparr>areading := False\<rparr>)"

definition Acceptor_listen :: "bool \<Rightarrow> Acceptor \<Rightarrow> Acceptor option" where
  "Acceptor_listen inLoop a = do {
     assertm inLoop;
     Some (a\<lparr>listenning := True, areading := True\<rparr>) }"

text \<open>\<open>again\<close> is what the second \<^verbatim>\<open>accept\<close> returns, \<open>reopened\<close> what opening \<^verbatim>\<open>/dev/null\<close> returns.\<close>

definition Acceptor_handleRead ::
  "bool \<Rightarrow> accept_result \<Rightarrow> int \<Rightarrow> int \<Rightarrow> Acceptor \<Rightarrow> (accept_action list \<times> Acceptor) option" where
  "Acceptor_handleRead inLoop res again reopened a = do {
     assertm inLoop;
     r \<leftarrow> sockets_accept res;
     case r of
       AcceptOk connfd peerAddr \<Rightarrow>
         if hasNewConnectionCallback a then Some ([ANewConnection connfd peerAddr], a)
         else Some ([AClose connfd], a)
     | AcceptErr e \<Rightarrow>
         if e = EMFILE
         then let acts = [AClose (idleFd a)];
                  a = a\<lparr>idleFd := again\<rparr>;
                  acts = acts @ [AClose (idleFd a)];
                  a = a\<lparr>idleFd := reopened\<rparr>
              in Some (acts, a)
         else Some ([], a) }"

section \<open>EventLoopThreadPool\<close>

record EventLoopThreadPool =
  pname :: string
  pstarted :: bool
  numThreads :: int
  pnext :: nat
  threadNames :: "string list"
  loops :: "nat list"

definition EventLoopThreadPool_new :: "string \<Rightarrow> EventLoopThreadPool" where
  "EventLoopThreadPool_new nameArg =
     \<lparr>pname = nameArg, pstarted = False, numThreads = 0, pnext = 0, threadNames = [], loops = []\<rparr>"

text \<open>
  \<open>cur\<close> is the loop of the calling thread, \<open>newLoop i\<close> the loop that the \<open>i\<close>-th thread runs
  (\<^verbatim>\<open>EventLoopThread::startLoop\<close> waits until the thread has published it).
\<close>

fun pool_start_loop :: "(nat \<Rightarrow> nat) \<Rightarrow> nat \<Rightarrow> nat \<Rightarrow> EventLoopThreadPool \<Rightarrow> EventLoopThreadPool" where
  "pool_start_loop newLoop i 0 p = p"
| "pool_start_loop newLoop i (Suc n) p =
     pool_start_loop newLoop (Suc i) n
       (p\<lparr>threadNames := threadNames p @ [snprintf (length (pname p) + 32) (pname p @ dec_nat i)],
          loops := loops p @ [newLoop i]\<rparr>)"

definition EventLoopThreadPool_start :: "(nat \<Rightarrow> nat) \<Rightarrow> nat \<Rightarrow> EventLoopThreadPool \<Rightarrow> EventLoopThreadPool option" where
  "EventLoopThreadPool_start newLoop cur p = do {
     assertm (\<not> pstarted p);
     assertm (cur = 0);
     Some (pool_start_loop newLoop 0 (nat (numThreads p)) (p\<lparr>pstarted := True\<rparr>)) }"

text \<open>The loops the thread-initialisation callback is called on.\<close>

definition pool_init_calls :: "(nat \<Rightarrow> nat) \<Rightarrow> EventLoopThreadPool \<Rightarrow> nat list" where
  "pool_init_calls newLoop p = (if numThreads p = 0 then [0] else map newLoop [0..<nat (numThreads p)])"

definition getNextLoop :: "nat \<Rightarrow> EventLoopThreadPool \<Rightarrow> (nat \<times> EventLoopThreadPool) option" where
  "getNextLoop cur p = do {
     assertm (cur = 0);
     assertm (pstarted p);
     if loops p \<noteq> []
     then do {
       assertm (pnext p < length (loops p));
       let loop = loops p ! pnext p;
       let p = p\<lparr>pnext := pnext p + 1\<rparr>;
       if pnext p \<ge> length (loops p) then Some (loop, p\<lparr>pnext := 0\<rparr>) else Some (loop, p) }
     else Some (0, p) }"

definition getLoopForHash :: "nat \<Rightarrow> 64 word \<Rightarrow> EventLoopThreadPool \<Rightarrow> nat option" where
  "getLoopForHash cur hashCode p = do {
     assertm (cur = 0);
     if loops p \<noteq> [] then Some (loops p ! (unat hashCode mod length (loops p))) else Some 0 }"

definition getAllLoops :: "nat \<Rightarrow> EventLoopThreadPool \<Rightarrow> nat list option" where
  "getAllLoops cur p = do {
     assertm (cur = 0);
     assertm (pstarted p);
     if loops p = [] then Some (replicate 1 0) else Some (loops p) }"

definition pool_ok :: "EventLoopThreadPool \<Rightarrow> bool" where
  "pool_ok p \<longleftrightarrow> pstarted p \<and> (loops p \<noteq> [] \<longrightarrow> pnext p < length (loops p))"

fun getNextLoops :: "nat \<Rightarrow> EventLoopThreadPool \<Rightarrow> (nat list \<times> EventLoopThreadPool) option" where
  "getNextLoops 0 p = Some ([], p)"
| "getNextLoops (Suc k) p = do {
     (l, p) \<leftarrow> getNextLoop 0 p;
     (ls, p) \<leftarrow> getNextLoops k p;
     Some (l # ls, p) }"

lemma pool_start_loop_result:
  "pool_start_loop newLoop i n p =
     p\<lparr>threadNames := threadNames p @ map (\<lambda>j. snprintf (length (pname p) + 32) (pname p @ dec_nat j)) [i..<i + n],
       loops := loops p @ map newLoop [i..<i + n]\<rparr>"
proof (induction n arbitrary: i p)
  case (Suc n)
  have "[i..<i + Suc n] = i # [Suc i..<Suc i + n]"
    by (simp add: upt_conv_Cons del: upt_Suc)
  with Suc show ?case by (simp del: upt_Suc)
qed simp

lemma getNextLoop_eq:
  assumes "pool_ok p"
  shows "getNextLoop 0 p =
    Some (if loops p = [] then 0 else loops p ! pnext p,
          if loops p = [] then p else p\<lparr>pnext := (pnext p + 1) mod length (loops p)\<rparr>)"
  using assms by (auto simp: getNextLoop_def pool_ok_def mod_Suc)

lemma getNextLoop_ok: "pool_ok p \<Longrightarrow> getNextLoop 0 p = Some (l, p') \<Longrightarrow> pool_ok p' \<and> loops p' = loops p"
  by (auto simp: getNextLoop_eq) (auto simp: pool_ok_def)

lemma getNextLoops_round_robin:
  "pool_ok p \<Longrightarrow> loops p \<noteq> [] \<Longrightarrow>
   getNextLoops k p = Some (map (\<lambda>i. loops p ! ((pnext p + i) mod length (loops p))) [0..<k],
     p\<lparr>pnext := (pnext p + k) mod length (loops p)\<rparr>)"
proof (induction k arbitrary: p)
  case 0
  then show ?case by (simp add: pool_ok_def)
next
  case (Suc k)
  let ?n = "length (loops p)"
  let ?p = "p\<lparr>pnext := (pnext p + 1) mod ?n\<rparr>"
  have ok: "pool_ok ?p" using Suc.prems by (simp add: pool_ok_def)
  have idx: "(((pnext p + 1) mod ?n) + i) mod ?n = (pnext p + Suc i) mod ?n" for i
    by (simp add: mod_add_left_eq)
  have "map (\<lambda>i. loops p ! ((pnext p + Suc i) mod ?n)) [0..<k] = map (\<lambda>i. loops p ! ((pnext p + i) mod ?n)) [1..<Suc k]"
    by (simp add: map_Suc_upt [symmetric] comp_def del: upt_Suc)
  moreover have "[0..<Suc k] = 0 # [1..<Suc k]" by (simp add: upt_conv_Cons del: upt_Suc)
  moreover have "pnext p mod ?n = pnext p" using Suc.prems by (simp add: pool_ok_def)
  ultimately show ?case
    using Suc.IH [OF ok] Suc.prems idx [unfolded One_nat_def add_Suc_right add_0_right]
    by (simp add: getNextLoop_eq del: upt_Suc)
qed

section \<open>TcpServer\<close>

record TcpServer =
  ipPort :: string
  sname :: string
  acceptor :: Acceptor
  threadPool :: EventLoopThreadPool
  started :: int
  nextConnId :: int
  connections :: "(string \<times> nat) list"

record srv_conn =
  sc_name :: string
  sc_loop :: nat
  sc_fd :: int
  sc_peer :: InetAddress

datatype srv_functor = FEstablished nat | FDestroyed nat | FRemove nat | FListen

datatype conn_call = Established | Destroyed

record srv_world =
  server :: TcpServer
  alive :: bool
  sconns :: "srv_conn list"
  squeues :: "nat \<Rightarrow> srv_functor list"
  slog :: "(nat \<times> nat \<times> conn_call) list"
  sclosed :: "nat list"

definition TcpServer_new :: "string \<Rightarrow> string \<Rightarrow> Acceptor \<Rightarrow> TcpServer" where
  "TcpServer_new ip nameArg acc =
     \<lparr>ipPort = ip, sname = nameArg, acceptor = acc\<lparr>hasNewConnectionCallback := True\<rparr>,
      threadPool = EventLoopThreadPool_new nameArg, started = 0, nextConnId = 1, connections = []\<rparr>"

definition setThreadNum :: "int \<Rightarrow> TcpServer \<Rightarrow> TcpServer option" where
  "setThreadNum n s = do {
     assertm (n \<ge> 0);
     Some (s\<lparr>threadPool := threadPool s\<lparr>numThreads := n\<rparr>\<rparr>) }"

definition queue_functor :: "nat \<Rightarrow> srv_functor \<Rightarrow> srv_world \<Rightarrow> srv_world" where
  "queue_functor l f w = w\<lparr>squeues := (squeues w)(l := squeues w l @ [f])\<rparr>"

definition upd_server :: "(TcpServer \<Rightarrow> TcpServer) \<Rightarrow> srv_world \<Rightarrow> srv_world" where
  "upd_server f w = w\<lparr>server := f (server w)\<rparr>"

text \<open>
  The connections are numbered objects; a functor on a connection keeps it alive
  (\<^verbatim>\<open>TcpConnectionPtr\<close>), while \<^verbatim>\<open>removeConnectionInLoop\<close> is bound to the plain pointer \<^verbatim>\<open>this\<close>: run
  on a destroyed server it is undefined, hence \<open>None\<close>.
\<close>

definition removeConnectionInLoop :: "nat \<Rightarrow> nat \<Rightarrow> srv_world \<Rightarrow> srv_world option" where
  "removeConnectionInLoop cur conn w = do {
     assertm (alive w);
     assertm (cur = 0);
     assertm (map_of (connections (server w)) (sc_name (sconns w ! conn)) \<noteq> None);
     let w = upd_server (\<lambda>s. s\<lparr>connections := smap_erase (sc_name (sconns w ! conn)) (connections s)\<rparr>) w;
     Some (queue_functor (sc_loop (sconns w ! conn)) (FDestroyed conn) w) }"

fun run_srv_functor :: "nat \<Rightarrow> srv_functor \<Rightarrow> srv_world \<Rightarrow> srv_world option" where
  "run_srv_functor cur (FEstablished conn) w = Some (w\<lparr>slog := slog w @ [(cur, conn, Established)]\<rparr>)"
| "run_srv_functor cur (FDestroyed conn) w = Some (w\<lparr>slog := slog w @ [(cur, conn, Destroyed)]\<rparr>)"
| "run_srv_functor cur (FRemove conn) w = removeConnectionInLoop cur conn w"
| "run_srv_functor cur FListen w = do {
     assertm (alive w);
     a \<leftarrow> Acceptor_listen (cur = 0) (acceptor (server w));
     Some (upd_server (\<lambda>s. s\<lparr>acceptor := a\<rparr>) w) }"

definition srv_runInLoop :: "nat \<Rightarrow> nat \<Rightarrow> srv_functor \<Rightarrow> srv_world \<Rightarrow> srv_world option" where
  "srv_runInLoop cur l f w = (if cur = l then run_srv_functor cur f w else Some (queue_functor l f w))"

definition TcpServer_start :: "(nat \<Rightarrow> nat) \<Rightarrow> nat \<Rightarrow> srv_world \<Rightarrow> srv_world option" where
  "TcpServer_start newLoop cur w =
     (let old = started (server w);
          w = upd_server (\<lambda>s. s\<lparr>started := old + 1\<rparr>) w
      in if old = 0
         then do {
           p \<leftarrow> EventLoopThreadPool_start newLoop cur (threadPool (server w));
           let w = upd_server (\<lambda>s. s\<lparr>threadPool := p\<rparr>) w;
           assertm (\<not> listenning (acceptor (server w)));
           srv_runInLoop cur 0 FListen w }
         else Some w)"

definition conn_name :: "TcpServer \<Rightarrow> string" where
  "conn_name s = sname s @ snprintf 64 (''-'' @ ipPort s @ ''#'' @ dec_int (nextConnId s))"

definition newConnection :: "nat \<Rightarrow> int \<Rightarrow> InetAddress \<Rightarrow> srv_world \<Rightarrow> srv_world option" where
  "newConnection cur sockfd peerAddr w = do {
     assertm (cur = 0);
     (ioLoop, p) \<leftarrow> getNextLoop cur (threadPool (server w));
     let connName = conn_name (server w);
     let w = upd_server (\<lambda>s. s\<lparr>threadPool := p, nextConnId := nextConnId s + 1\<rparr>) w;
     let conn = length (sconns w);
     let w = w\<lparr>sconns := sconns w @ [\<lparr>sc_name = connName, sc_loop = ioLoop, sc_fd = sockfd, sc_peer = peerAddr\<rparr>]\<rparr>;
     let w = upd_server (\<lambda>s. s\<lparr>connections := smap_insert connName conn (connections s)\<rparr>) w;
     srv_runInLoop cur ioLoop (FEstablished conn) w }"

definition removeConnection :: "nat \<Rightarrow> nat \<Rightarrow> srv_world \<Rightarrow> srv_world option" where
  "removeConnection cur conn w = do {
     assertm (alive w);
     srv_runInLoop cur 0 (FRemove conn) w }"

fun destroy_connections :: "nat \<Rightarrow> nat list \<Rightarrow> srv_world \<Rightarrow> srv_world option" where
  "destroy_connections cur [] w = Some w"
| "destroy_connections cur (c # cs) w =
     srv_runInLoop cur (sc_loop (sconns w ! c)) (FDestroyed c) w \<bind> destroy_connections cur cs"

definition TcpServer_dtor :: "nat \<Rightarrow> srv_world \<Rightarrow> srv_world option" where
  "TcpServer_dtor cur w = do {
     assertm (cur = 0);
     w \<leftarrow> destroy_connections cur (map snd (connections (server w))) w;
     Some (w\<lparr>alive := False\<rparr>) }"

section \<open>Histories of a server\<close>

text \<open>
  The listening socket becomes readable, a loop runs the functor at the head of its queue, or a
  connection closes: it then calls its close callback in its own loop.
\<close>

datatype srv_op = SAccept accept_result int int | SFunctor nat | SClose nat

fun run_accept_actions :: "accept_action list \<Rightarrow> srv_world \<Rightarrow> srv_world option" where
  "run_accept_actions [] w = Some w"
| "run_accept_actions (ANewConnection fd peer # as) w = newConnection 0 fd peer w \<bind> run_accept_actions as"
| "run_accept_actions (AClose fd # as) w = run_accept_actions as w"

definition conn_trace :: "nat \<Rightarrow> srv_world \<Rightarrow> (nat \<times> conn_call) list" where
  "conn_trace c w = map (\<lambda>(l, i, k). (l, k)) (filter (\<lambda>(l, i, k). i = c) (slog w))"

definition may_close :: "nat \<Rightarrow> srv_world \<Rightarrow> bool" where
  "may_close c w \<longleftrightarrow> c < length (sconns w) \<and> map snd (conn_trace c w) = [Established] \<and> c \<notin> set (sclosed w)"

fun run_srv_op :: "srv_op \<Rightarrow> srv_world \<Rightarrow> srv_world option" where
  "run_srv_op (SAccept r again reopened) w =
     (if areading (acceptor (server w))
      then do {
        (acts, a) \<leftarrow> Acceptor_handleRead True r again reopened (acceptor (server w));
        run_accept_actions acts (upd_server (\<lambda>s. s\<lparr>acceptor := a\<rparr>) w) }
      else Some w)"
| "run_srv_op (SFunctor l) w =
     (case squeues w l of
        [] \<Rightarrow> Some w
      | f # fs \<Rightarrow> run_srv_functor l f (w\<lparr>squeues := (squeues w)(l := fs)\<rparr>))"
| "run_srv_op (SClose c) w =
     (if may_close c w
      then removeConnection (sc_loop (sconns w ! c)) c (w\<lparr>sclosed := c # sclosed w\<rparr>)
      else Some w)"

fun run_srv_ops :: "srv_op list \<Rightarrow> srv_world \<Rightarrow> srv_world option" where
  "run_srv_ops [] w = Some w"
| "run_srv_ops (op # ops) w = run_srv_op op w \<bind> run_srv_ops ops"

definition srv_init :: "TcpServer \<Rightarrow> srv_world" where
  "srv_init s = \<lparr>server = s, alive = True, sconns = [], squeues = (\<lambda>_. []), slog = [], sclosed = []\<rparr>"

section \<open>Invariant of a running server\<close>

text \<open>Where a connection is in its life, and what is then seen of it.\<close>

datatype phase = PNew | POpen | PClosing | PRemoved | PDead

type_synonym conn_obs = "nat \<times> nat \<times> nat \<times> (nat \<times> conn_call) list \<times> nat option \<times> bool"

definition conn_loop :: "srv_world \<Rightarrow> nat \<Rightarrow> nat" where
  "conn_loop w c = sc_loop (sconns w ! c)"

definition obs :: "srv_world \<Rightarrow> nat \<Rightarrow> conn_obs" where
  "obs w c = (count_list (squeues w (conn_loop w c)) (FEstablished c), count_list (squeues w 0) (FRemove c),
     count_list (squeues w (conn_loop w c)) (FDestroyed c), conn_trace c w,
     map_of (connections (server w)) (sc_name (sconns w ! c)), c \<in> set (sclosed w))"

fun phase_obs :: "nat \<Rightarrow> nat \<Rightarrow> phase \<Rightarrow> conn_obs" where
  "phase_obs l c PNew = (1, 0, 0, [], Some c, False)"
| "phase_obs l c POpen = (0, 0, 0, [(l, Established)], Some c, False)"
| "phase_obs l c PClosing = (0, 1, 0, [(l, Established)], Some c, True)"
| "phase_obs l c PRemoved = (0, 0, 1, [(l, Established)], None, True)"
| "phase_obs l c PDead = (0, 0, 0, [(l, Established), (l, Destroyed)], None, True)"

definition nth_name :: "TcpServer \<Rightarrow> nat \<Rightarrow> string" where
  "nth_name s c = conn_name (s\<lparr>nextConnId := int c + 1\<rparr>)"

fun functor_ok :: "srv_conn list \<Rightarrow> nat \<Rightarrow> srv_functor \<Rightarrow> bool" where
  "functor_ok ks l (FEstablished c) \<longleftrightarrow> c < length ks \<and> l = sc_loop (ks ! c)"
| "functor_ok ks l (FDestroyed c) \<longleftrightarrow> c < length ks \<and> l = sc_loop (ks ! c)"
| "functor_ok ks l (FRemove c) \<longleftrightarrow> c < length ks \<and> l = 0"
| "functor_ok ks l FListen \<longleftrightarrow> False"

definition srv_frame :: "srv_world \<Rightarrow> bool" where
  "srv_frame w \<longleftrightarrow> alive w \<and> pool_ok (threadPool (server w)) \<and> hasNewConnectionCallback (acceptor (server w))
     \<and> smap_ok (connections (server w)) \<and> nextConnId (server w) = int (length (sconns w)) + 1
     \<and> length (ipPort (server w)) \<le> 51
     \<and> (\<forall>c < length (sconns w). sc_name (sconns w ! c) = nth_name (server w) c)
     \<and> (\<forall>e \<in> set (connections (server w)). snd e < length (sconns w) \<and> fst e = sc_name (sconns w ! snd e))
     \<and> (\<forall>e \<in> set (slog w). fst (snd e) < length (sconns w))
     \<and> (\<forall>c \<in> set (sclosed w). c < length (sconns w))
     \<and> (\<forall>l. \<forall>f \<in> set (squeues w l). functor_ok (sconns w) l f)"

definition srv_phases :: "srv_world \<Rightarrow> bool" where
  "srv_phases w \<longleftrightarrow> (\<forall>c < length (sconns w). \<exists>ph. obs w c = phase_obs (conn_loop w c) c ph)"

definition srv_inv :: "srv_world \<Rightarrow> bool" where
  "srv_inv w \<longleftrightarrow> srv_frame w \<and> srv_phases w"

lemmas srv_step_defs = queue_functor_def upd_server_def conn_loop_def

lemma nth_name_inj:
  assumes "length (ipPort s) \<le> 51" and "c < 10 ^ 10 - 1" and "d < 10 ^ 10 - 1" and "nth_name s c = nth_name s d"
  shows "c = d"
proof -
  have len: "length (dec_nat (Suc e)) \<le> 10" if "e < 10 ^ 10 - 1" for e
    by (rule length_dec_nat_le) (use that in simp_all)
  have d: "dec_int (int e + 1) = dec_nat (Suc e)" for e
    by (simp add: dec_int_def nat_add_distrib)
  from assms len [of c] len [of d] have "dec_nat (Suc c) = dec_nat (Suc d)"
    by (simp add: nth_name_def conn_name_def d snprintf_def)
  then show ?thesis using dec_nat_inj by blast
qed

lemma conn_trace_append:
  "conn_trace c (w\<lparr>slog := slog w @ [(l, d, k)]\<rparr>) = conn_trace c w @ (if d = c then [(l, k)] else [])"
  by (simp add: conn_trace_def)

lemma conn_trace_frame [simp]:
  "conn_trace c (w\<lparr>squeues := q\<rparr>) = conn_trace c w" "conn_trace c (w\<lparr>server := s\<rparr>) = conn_trace c w"
  "conn_trace c (w\<lparr>sclosed := x\<rparr>) = conn_trace c w" "conn_trace c (w\<lparr>sconns := y\<rparr>) = conn_trace c w"
  by (simp_all add: conn_trace_def)

lemma nth_name_frame [simp]:
  "nth_name (s\<lparr>connections := x\<rparr>) = nth_name s" "nth_name (s\<lparr>nextConnId := i\<rparr>) = nth_name s"
  "nth_name (s\<lparr>threadPool := p\<rparr>) = nth_name s" "nth_name (s\<lparr>acceptor := a\<rparr>) = nth_name s"
  by (simp_all add: nth_name_def conn_name_def fun_eq_iff)

lemma functor_ok_snoc: "functor_ok ks l f \<Longrightarrow> functor_ok (ks @ [k]) l f"
  by (cases f) (auto simp: nth_append)

lemma srv_phasesI:
  assumes "srv_phases w" and "sconns w' = sconns w" and "c < length (sconns w)"
    and "\<And>d. d \<noteq> c \<Longrightarrow> d < length (sconns w) \<Longrightarrow> obs w' d = obs w d"
    and "obs w' c = phase_obs (conn_loop w c) c ph"
  shows "srv_phases w'"
  using assms unfolding srv_phases_def conn_loop_def by metis

lemma srv_nameD:
  "srv_frame w \<Longrightarrow> c < length (sconns w) \<Longrightarrow> d < length (sconns w) \<Longrightarrow> length (sconns w) < 10 ^ 10 - 1 \<Longrightarrow>
   sc_name (sconns w ! c) = sc_name (sconns w ! d) \<Longrightarrow> c = d"
  using nth_name_inj [of "server w" c d] by (auto simp: srv_frame_def)

text \<open>Running one functor.\<close>

lemma functor_phase:
  assumes "srv_inv w" and "squeues w l = f # fs"
  shows "case f of FEstablished c \<Rightarrow> c < length (sconns w) \<and> l = conn_loop w c \<and> obs w c = phase_obs l c PNew
     | FDestroyed c \<Rightarrow> c < length (sconns w) \<and> l = conn_loop w c \<and> obs w c = phase_obs l c PRemoved
     | FRemove c \<Rightarrow> c < length (sconns w) \<and> l = 0 \<and> obs w c = phase_obs (conn_loop w c) c PClosing
     | FListen \<Rightarrow> False"
proof -
  have ok: "functor_ok (sconns w) l f" using assms by (auto simp: srv_inv_def srv_frame_def)
  have ph: "\<exists>ph. obs w c = phase_obs (conn_loop w c) c ph" if "c < length (sconns w)" for c
    using assms that by (auto simp: srv_inv_def srv_phases_def)
  show ?thesis
  proof (cases f)
    case (FEstablished c)
    with ok ph [of c] obtain p where "obs w c = phase_obs (conn_loop w c) c p" by auto
    with FEstablished ok assms(2) show ?thesis by (cases p) (auto simp: obs_def conn_loop_def)
  next
    case (FDestroyed c)
    with ok ph [of c] obtain p where "obs w c = phase_obs (conn_loop w c) c p" by auto
    with FDestroyed ok assms(2) show ?thesis by (cases p) (auto simp: obs_def conn_loop_def)
  next
    case (FRemove c)
    with ok ph [of c] obtain p where "obs w c = phase_obs (conn_loop w c) c p" by auto
    with FRemove ok assms(2) show ?thesis by (cases p) (auto simp: obs_def conn_loop_def)
  next
    case FListen
    with ok show ?thesis by simp
  qed
qed

lemma run_call_inv:
  assumes "srv_inv w" and "squeues w l = f # fs" and "f = FEstablished c \<and> k = Established \<or> f = FDestroyed c \<and> k = Destroyed"
  shows "srv_inv (w\<lparr>squeues := (squeues w)(l := fs), slog := slog w @ [(l, c, k)]\<rparr>)" (is "srv_inv ?w")
proof -
  have c: "c < length (sconns w)" "l = conn_loop w c"
    using functor_phase [OF assms(1,2)] assms(3) by auto
  have "srv_frame ?w"
    using assms c by (auto simp: srv_inv_def srv_frame_def)
  moreover have "srv_phases ?w"
  proof (rule srv_phasesI [where w = w and c = c])
    show "obs ?w d = obs w d" if "d \<noteq> c" for d
      using assms(2,3) that by (auto simp: obs_def conn_loop_def conn_trace_def)
    show "obs ?w c = phase_obs (conn_loop w c) c (if k = Established then POpen else PDead)"
      using functor_phase [OF assms(1,2)] assms(2,3) c
      by (auto simp: obs_def conn_loop_def conn_trace_def split: if_splits)
  qed (use assms(1) c in \<open>auto simp: srv_inv_def\<close>)
  ultimately show ?thesis by (simp add: srv_inv_def)
qed

lemma removeConnectionInLoop_inv:
  assumes "srv_frame w" and "c < length (sconns w)" and "length (sconns w) < 10 ^ 10 - 1" and "c \<in> set (sclosed w)"
    and "obs w c = (0, 0, 0, [(conn_loop w c, Established)], Some c, True)"
    and "\<And>d. d \<noteq> c \<Longrightarrow> d < length (sconns w) \<Longrightarrow> \<exists>ph. obs w d = phase_obs (conn_loop w d) d ph"
  shows "\<exists>w'. removeConnectionInLoop 0 c w = Some w' \<and> srv_inv w' \<and> sconns w' = sconns w"
proof -
  let ?w = "queue_functor (conn_loop w c) (FDestroyed c)
     (upd_server (\<lambda>s. s\<lparr>connections := smap_erase (sc_name (sconns w ! c)) (connections s)\<rparr>) w)"
  have r: "removeConnectionInLoop 0 c w = Some ?w"
    using assms(1,5) by (auto simp: removeConnectionInLoop_def srv_frame_def obs_def srv_step_defs)
  have frame: "srv_frame ?w"
    using assms(1,2) set_smap_erase [of "sc_name (sconns w ! c)" "connections (server w)"]
    by (auto simp: srv_frame_def srv_step_defs smap_ok_erase)
  have oc: "obs ?w c = phase_obs (conn_loop w c) c PRemoved"
    using assms(5) by (auto simp: obs_def srv_step_defs)
  have od: "obs ?w d = obs w d" if "d \<noteq> c" "d < length (sconns w)" for d
    using srv_nameD [OF assms(1) that(2) assms(2,3)] that by (auto simp: obs_def srv_step_defs)
  have "srv_phases ?w"
    unfolding srv_phases_def
  proof (intro allI impI)
    fix d assume "d < length (sconns ?w)"
    then have d: "d < length (sconns w)" "conn_loop ?w d = conn_loop w d" by (simp_all add: srv_step_defs)
    show "\<exists>ph. obs ?w d = phase_obs (conn_loop ?w d) d ph"
      unfolding d(2)
    proof (cases "d = c")
      case True
      then show "\<exists>ph. obs ?w d = phase_obs (conn_loop w d) d ph" using oc by blast
    next
      case False
      then show "\<exists>ph. obs ?w d = phase_obs (conn_loop w d) d ph"
        using od [OF False d(1)] assms(6) [OF False d(1)] by simp
    qed
  qed
  with r frame show ?thesis by (auto simp: srv_inv_def srv_step_defs)
qed

lemma phases_elsewhere:
  "srv_inv w \<Longrightarrow> d < length (sconns w) \<Longrightarrow> \<exists>ph. obs w d = phase_obs (conn_loop w d) d ph"
  by (auto simp: srv_inv_def srv_phases_def)

lemma run_remove_inv:
  assumes "srv_inv w" and "squeues w l = FRemove c # fs" and "length (sconns w) < 10 ^ 10 - 1"
  shows "\<exists>w'. removeConnectionInLoop l c (w\<lparr>squeues := (squeues w)(l := fs)\<rparr>) = Some w' \<and> srv_inv w' \<and> sconns w' = sconns w"
proof -
  let ?w = "w\<lparr>squeues := (squeues w)(l := fs)\<rparr>"
  have c: "c < length (sconns w)" "l = 0" "obs w c = phase_obs (conn_loop w c) c PClosing"
    using functor_phase [OF assms(1,2)] by auto
  have f: "srv_frame ?w"
    using assms(1,2) by (auto simp: srv_inv_def srv_frame_def)
  have o: "obs ?w d = obs w d" if "d \<noteq> c" for d
    using assms(2) c(2) that by (auto simp: obs_def conn_loop_def)
  have "\<exists>w'. removeConnectionInLoop 0 c ?w = Some w' \<and> srv_inv w' \<and> sconns w' = sconns ?w"
  proof (rule removeConnectionInLoop_inv [OF f])
    show "obs ?w c = (0, 0, 0, [(conn_loop ?w c, Established)], Some c, True)"
      using c assms(2) by (auto simp: obs_def conn_loop_def)
    show "\<exists>ph. obs ?w d = phase_obs (conn_loop ?w d) d ph" if "d \<noteq> c" "d < length (sconns ?w)" for d
      using phases_elsewhere [OF assms(1), of d] o [of d] that by (auto simp: conn_loop_def)
  qed (use c assms(3) in \<open>auto simp: obs_def\<close>)
  then show ?thesis using c(2) by simp
qed

lemma run_close_inv:
  assumes "srv_inv w" and "may_close c w" and "length (sconns w) < 10 ^ 10 - 1"
  shows "\<exists>w'. removeConnection (sc_loop (sconns w ! c)) c (w\<lparr>sclosed := c # sclosed w\<rparr>) = Some w' \<and> srv_inv w'
    \<and> sconns w' = sconns w"
proof -
  let ?w = "w\<lparr>sclosed := c # sclosed w\<rparr>"
  have c: "c < length (sconns w)" using assms(2) by (simp add: may_close_def)
  obtain ph where ph: "obs w c = phase_obs (conn_loop w c) c ph"
    using phases_elsewhere [OF assms(1) c] by blast
  have opn: "obs w c = phase_obs (conn_loop w c) c POpen"
    using ph assms(2) by (cases ph) (auto simp: may_close_def obs_def)
  have f: "srv_frame ?w" using assms(1) c by (auto simp: srv_inv_def srv_frame_def)
  have o: "obs ?w d = obs w d" if "d \<noteq> c" for d
    using that by (auto simp: obs_def conn_loop_def)
  have alive: "alive w" using f by (simp add: srv_frame_def)
  show ?thesis
  proof (cases "sc_loop (sconns w ! c) = 0")
    case True
    have "\<exists>w'. removeConnectionInLoop 0 c ?w = Some w' \<and> srv_inv w' \<and> sconns w' = sconns ?w"
    proof (rule removeConnectionInLoop_inv [OF f])
      show "obs ?w c = (0, 0, 0, [(conn_loop ?w c, Established)], Some c, True)"
        using opn by (auto simp: obs_def conn_loop_def)
      show "\<exists>ph. obs ?w d = phase_obs (conn_loop ?w d) d ph" if "d \<noteq> c" "d < length (sconns ?w)" for d
        using phases_elsewhere [OF assms(1), of d] o [of d] that by (auto simp: conn_loop_def)
    qed (use c assms(3) in auto)
    with True alive show ?thesis by (simp add: removeConnection_def srv_runInLoop_def)
  next
    case False
    let ?v = "queue_functor 0 (FRemove c) ?w"
    have "srv_frame ?v" using f c by (auto simp: srv_frame_def srv_step_defs)
    moreover have "srv_phases ?v"
    proof (rule srv_phasesI [where w = w and c = c])
      show "obs ?v d = obs w d" if "d \<noteq> c" for d
        using that by (auto simp: obs_def srv_step_defs)
      show "obs ?v c = phase_obs (conn_loop w c) c PClosing"
        using opn False by (auto simp: obs_def srv_step_defs)
    qed (use assms(1) c in \<open>auto simp: srv_inv_def srv_step_defs\<close>)
    ultimately show ?thesis
      using False alive by (auto simp: removeConnection_def srv_runInLoop_def srv_inv_def srv_step_defs)
  qed
qed

lemma conn_trace_fresh:
  "srv_frame w \<Longrightarrow> conn_trace (length (sconns w)) w = []"
  by (auto simp: srv_frame_def conn_trace_def filter_empty_conv)

lemma count_functor_fresh:
  assumes "srv_frame w"
  shows "count_list (squeues w l) (FEstablished (length (sconns w))) = 0"
    and "count_list (squeues w l) (FDestroyed (length (sconns w))) = 0"
    and "count_list (squeues w l) (FRemove (length (sconns w))) = 0"
  using assms by (auto simp: srv_frame_def count_list_0_iff) (metis functor_ok.simps less_irrefl)+

lemma newConnection_inv:
  assumes "srv_inv w" and "length (sconns w) < 10 ^ 10 - 2"
  shows "\<exists>w'. newConnection 0 fd peer w = Some w' \<and> srv_inv w' \<and> length (sconns w') = Suc (length (sconns w))"
proof -
  have f: "srv_frame w" using assms(1) by (simp add: srv_inv_def)
  then have ok: "pool_ok (threadPool (server w))" by (simp add: srv_frame_def)
  then obtain l p where lp: "getNextLoop 0 (threadPool (server w)) = Some (l, p)"
    by (auto simp: getNextLoop_eq)
  have ok': "pool_ok p" using getNextLoop_ok [OF ok lp] by simp
  let ?n = "length (sconns w)" and ?nm = "conn_name (server w)"
  have nm: "?nm = nth_name (server w) ?n" using f by (simp add: srv_frame_def nth_name_def conn_name_def)
  let ?k = "\<lparr>sc_name = ?nm, sc_loop = l, sc_fd = fd, sc_peer = peer\<rparr>"
  let ?s = "(server w)\<lparr>threadPool := p, nextConnId := nextConnId (server w) + 1,
     connections := smap_insert ?nm ?n (connections (server w))\<rparr>"
  let ?q = "if l = 0 then squeues w else (squeues w)(l := squeues w l @ [FEstablished ?n])"
  let ?lg = "if l = 0 then slog w @ [(0, ?n, Established)] else slog w"
  let ?w = "w\<lparr>server := ?s, sconns := sconns w @ [?k], squeues := ?q, slog := ?lg\<rparr>"
  have r: "newConnection 0 fd peer w = Some ?w"
    using lp by (cases w) (auto simp: newConnection_def srv_runInLoop_def srv_step_defs)
  have ce: "snd e < Suc ?n \<and> fst e = sc_name ((sconns w @ [?k]) ! snd e)"
    if "e \<in> set (smap_insert ?nm ?n (connections (server w)))" for e
  proof (cases "e = (?nm, ?n)")
    case False
    then have "e \<in> set (connections (server w))"
      using that set_smap_insert [of ?nm ?n "connections (server w)"] by blast
    then have "snd e < ?n \<and> fst e = sc_name (sconns w ! snd e)" using f by (simp add: srv_frame_def)
    then show ?thesis by (simp add: nth_append)
  qed simp
  have fr: "srv_frame ?w"
    using f ok' nm ce unfolding srv_frame_def
    by (auto simp: smap_ok_insert nth_append functor_ok_snoc less_Suc_eq)
  have neq: "sc_name (sconns w ! d) \<noteq> ?nm" if "d < ?n" for d
    using nth_name_inj [of "server w" d ?n] f that assms(2) by (auto simp: nm srv_frame_def)
  have od: "obs ?w d = obs w d" "conn_loop ?w d = conn_loop w d" if "d < ?n" for d
    using that neq [OF that] by (auto simp: obs_def conn_loop_def conn_trace_def nth_append)
  have on: "obs ?w ?n = phase_obs l ?n (if l = 0 then POpen else PNew)" "conn_loop ?w ?n = l"
    using count_functor_fresh [OF f] conn_trace_fresh [OF f] f
    by (auto simp: obs_def conn_loop_def conn_trace_def srv_frame_def)
  have "srv_phases ?w"
    unfolding srv_phases_def
  proof (intro allI impI)
    fix d assume "d < length (sconns ?w)"
    then consider "d < ?n" | "d = ?n" by fastforce
    then show "\<exists>ph. obs ?w d = phase_obs (conn_loop ?w d) d ph"
    proof cases
      case 1
      then show ?thesis using phases_elsewhere [OF assms(1) 1] od [OF 1] by simp
    next
      case 2
      show ?thesis unfolding 2 on(2) by (rule exI, rule on(1))
    qed
  qed
  with r fr show ?thesis by (auto simp: srv_inv_def)
qed

section \<open>Results\<close>

definition accept_harmless :: "srv_op \<Rightarrow> bool" where
  "accept_harmless op = (case op of SAccept (AcceptErr e) _ _ \<Rightarrow> e \<in> set accept_expected | _ \<Rightarrow> True)"

lemma srv_inv_acceptor:
  "srv_inv (w\<lparr>server := (server w)\<lparr>acceptor := a\<rparr>\<rparr>) \<longleftrightarrow> srv_inv w"
  if "hasNewConnectionCallback a = hasNewConnectionCallback (acceptor (server w))"
  using that by (simp add: srv_inv_def srv_frame_def srv_phases_def obs_def conn_loop_def)

lemma run_accept_inv:
  assumes "srv_inv w" and "length (sconns w) < 10 ^ 10 - 2" and "accept_harmless (SAccept r again reopened)"
  shows "\<exists>w'. run_srv_op (SAccept r again reopened) w = Some w' \<and> srv_inv w'
    \<and> length (sconns w') \<le> Suc (length (sconns w))"
proof (cases "areading (acceptor (server w))")
  case True
  have cb: "hasNewConnectionCallback (acceptor (server w))"
    using assms(1) by (simp add: srv_inv_def srv_frame_def)
  show ?thesis
  proof (cases r)
    case (AcceptOk fd peer)
    have [simp]: "upd_server (\<lambda>s. s\<lparr>acceptor := acceptor (server w)\<rparr>) w = w"
      by (simp add: upd_server_def)
    from AcceptOk True cb newConnection_inv [OF assms(1,2), of fd peer] show ?thesis
      by (auto simp: Acceptor_handleRead_def sockets_accept_def)
  next
    case (AcceptErr e)
    then show ?thesis
      using True cb assms srv_inv_acceptor [of "(acceptor (server w))\<lparr>idleFd := reopened\<rparr>" w]
        srv_inv_acceptor [of "acceptor (server w)" w]
      by (auto simp: Acceptor_handleRead_def sockets_accept_def accept_harmless_def upd_server_def)
  qed
qed (use assms in auto)

lemma run_srv_op_inv:
  assumes "srv_inv w" and "length (sconns w) < 10 ^ 10 - 2" and "accept_harmless op"
  shows "\<exists>w'. run_srv_op op w = Some w' \<and> srv_inv w' \<and> length (sconns w') \<le> Suc (length (sconns w))"
proof (cases op)
  case (SAccept r again reopened)
  then show ?thesis using run_accept_inv assms by blast
next
  case (SFunctor l)
  show ?thesis
  proof (cases "squeues w l")
    case (Cons f fs)
    then show ?thesis
      using SFunctor run_call_inv [OF assms(1) Cons] run_remove_inv [OF assms(1), of l _ fs] assms(2)
        functor_phase [OF assms(1) Cons]
      by (cases f) auto
  qed (use SFunctor assms in simp)
next
  case (SClose c)
  then show ?thesis using run_close_inv [OF assms(1), of c] assms by auto
qed

lemma run_srv_ops_inv:
  "srv_inv w \<Longrightarrow> length (sconns w) + length ops < 10 ^ 10 - 1 \<Longrightarrow> list_all accept_harmless ops \<Longrightarrow>
   \<exists>w'. run_srv_ops ops w = Some w' \<and> srv_inv w' \<and> length (sconns w') \<le> length (sconns w) + length ops"
proof (induction ops arbitrary: w)
  case (Cons op ops)
  obtain v where v: "run_srv_op op w = Some v" "srv_inv v" "length (sconns v) \<le> Suc (length (sconns w))"
    using run_srv_op_inv [OF Cons.prems(1), of op] Cons.prems by auto
  then show ?case using Cons.IH [of v] Cons.prems by auto
qed simp

definition server_started :: "(nat \<Rightarrow> nat) \<Rightarrow> int \<Rightarrow> string \<Rightarrow> string \<Rightarrow> Acceptor \<Rightarrow> srv_world option" where
  "server_started newLoop threads ip nm acc = do {
     s \<leftarrow> setThreadNum threads (TcpServer_new ip nm acc);
     TcpServer_start newLoop 0 (srv_init s) }"

lemma server_started_inv:
  assumes "server_started newLoop threads ip nm acc = Some w" and "length ip \<le> 51"
  shows "srv_inv w \<and> sconns w = []"
  using assms
  by (auto simp: server_started_def setThreadNum_def TcpServer_new_def TcpServer_start_def srv_init_def
      EventLoopThreadPool_start_def EventLoopThreadPool_new_def pool_start_loop_result srv_runInLoop_def
      Acceptor_listen_def upd_server_def srv_inv_def srv_frame_def srv_phases_def pool_ok_def
      elim!: bind_SomeE split: if_splits)

lemma server_started_runs:
  "0 \<le> threads \<Longrightarrow> \<not> listenning acc \<Longrightarrow> server_started newLoop threads ip nm acc \<noteq> None"
  by (simp add: server_started_def setThreadNum_def TcpServer_new_def TcpServer_start_def srv_init_def
      EventLoopThreadPool_start_def EventLoopThreadPool_new_def pool_start_loop_result srv_runInLoop_def
      Acceptor_listen_def upd_server_def)

lemma connections_exact:
  assumes "srv_inv w" and "\<And>l. squeues w l = []"
  shows "snd ` set (connections (server w)) = {c. c < length (sconns w) \<and> c \<notin> set (sclosed w)}"
proof -
  have m: "map_of (connections (server w)) (sc_name (sconns w ! c)) = (if c \<in> set (sclosed w) then None else Some c)"
    if c: "c < length (sconns w)" for c
  proof -
    obtain ph where "obs w c = phase_obs (conn_loop w c) c ph" using phases_elsewhere [OF assms(1) c] by blast
    then show ?thesis using assms(2) by (cases ph) (auto simp: obs_def)
  qed
  have k: "c < length (sconns w) \<and> k = sc_name (sconns w ! c)" if "(k, c) \<in> set (connections (server w))" for k c
    using assms(1) that by (auto simp: srv_inv_def srv_frame_def)
  have d: "distinct (map fst (connections (server w)))"
    using assms(1) by (intro smap_ok_distinct) (simp add: srv_inv_def srv_frame_def)
  have "(k, c) \<in> set (connections (server w)) \<Longrightarrow> c \<notin> set (sclosed w)" for k c
    using k [of k c] m [of c] map_of_eq_Some_iff [OF d, of k c] by auto
  moreover have "c < length (sconns w) \<Longrightarrow> c \<notin> set (sclosed w) \<Longrightarrow> c \<in> snd ` set (connections (server w))" for c
    using m [of c] map_of_SomeD by (metis image_eqI snd_conv)
  ultimately show ?thesis using k by force
qed


definition demo_acceptor :: Acceptor where
  "demo_acceptor = \<lparr>acceptFd = 3, areading = False, hasNewConnectionCallback = False, listenning = False, idleFd = 4\<rparr>"

definition demo_ops :: "srv_op list" where
  "demo_ops = [SAccept (AcceptOk 5 zero_addr) 0 0, SFunctor 1, SClose 0, SFunctor 0, SFunctor 1]"


text \<open>With \<open>n\<close> worker loops, \<open>k\<close> consecutive calls of \<^verbatim>\<open>getNextLoop\<close> on a started pool return the
  loops in cyclic order from where the last call stopped, never out of range, and leave the pool
  ready for the next.\<close>

theorem pool_round_robin:
  assumes "EventLoopThreadPool_start newLoop 0 (p\<lparr>pstarted := False, loops := [], pnext := 0, numThreads := int n\<rparr>) = Some q"
    and "0 < n"
  shows "\<exists>q'. getNextLoops k q = Some (map (\<lambda>i. newLoop (i mod n)) [0..<k], q') \<and> pool_ok q'"
proof -
  have l: "loops q = map newLoop [0..<n]" and q: "pstarted q" "pnext q = 0"
    using assms(1) by (auto simp: EventLoopThreadPool_start_def pool_start_loop_result elim!: bind_SomeE split: if_splits)
  have ok: "pool_ok q" "loops q \<noteq> []" using l q assms(2) by (auto simp: pool_ok_def)
  show ?thesis
    using getNextLoops_round_robin [OF ok, of k] l q assms(2) by (simp add: pool_ok_def)
qed

theorem pool_round_robin_witness:
  "\<exists>q q'. EventLoopThreadPool_start (\<lambda>i. i + 10) 0
      ((EventLoopThreadPool_new ''p'')\<lparr>pstarted := False, loops := [], pnext := 0, numThreads := int 2\<rparr>) = Some q
    \<and> getNextLoops 3 q = Some (map (\<lambda>i. i mod 2 + 10) [0..<3], q')"
proof -
  obtain q where q: "EventLoopThreadPool_start (\<lambda>i. i + 10) 0
      ((EventLoopThreadPool_new ''p'')\<lparr>pstarted := False, loops := [], pnext := 0, numThreads := int 2\<rparr>) = Some q"
    by (simp add: EventLoopThreadPool_start_def)
  with pool_round_robin [OF q, of 3] show ?thesis by auto
qed

text \<open>Running out of descriptors does not make the acceptor spin or leak: on \<^verbatim>\<open>EMFILE\<close> it closes
  the reserve descriptor and the connection accepted in its place, and keeps the new reserve; in
  every other case a descriptor that \<^verbatim>\<open>accept\<close> returned is handed over once or closed, and the
  reserve stays as it is.\<close>

theorem acceptor_handleRead_descriptors:
  assumes "Acceptor_handleRead True r again reopened a = Some (acts, a')"
  shows "a' = a\<lparr>idleFd := (if r = AcceptErr EMFILE then reopened else idleFd a)\<rparr>
    \<and> acts = (case r of
        AcceptOk fd peer \<Rightarrow> if hasNewConnectionCallback a then [ANewConnection fd peer] else [AClose fd]
      | AcceptErr e \<Rightarrow> if e = EMFILE then [AClose (idleFd a), AClose again] else [])"
  using assms
  by (auto simp: Acceptor_handleRead_def sockets_accept_def elim!: bind_SomeE
      split: accept_result.splits if_splits)

theorem acceptor_handleRead_descriptors_witness:
  "\<exists>a'. Acceptor_handleRead True (AcceptErr 24) 9 4 demo_acceptor = Some ([AClose 4, AClose 9], a') \<and> idleFd a' = 4"
proof -
  obtain acts a' where r: "Acceptor_handleRead True (AcceptErr 24) 9 4 demo_acceptor = Some (acts, a')"
    by (simp add: Acceptor_handleRead_def sockets_accept_def accept_expected_def EMFILE_def)
  with acceptor_handleRead_descriptors [OF r] show ?thesis by (auto simp: EMFILE_def demo_acceptor_def)
qed

text \<open>C27: a server destroyed while the removal of a connection is still queued for its loop leaves
  that functor behind with a dangling pointer: running it is undefined.\<close>

theorem server_dtor_dangling_removal:
  assumes "TcpServer_dtor 0 w = Some w'" and "squeues w 0 = [FRemove c]"
    and "\<And>d. d \<in> snd ` set (connections (server w)) \<Longrightarrow> sc_loop (sconns w ! d) \<noteq> 0"
  shows "run_srv_op (SFunctor 0) w' = None"
proof -
  have "destroy_connections 0 cs v = Some v' \<Longrightarrow> \<forall>d \<in> set cs. sc_loop (sconns v ! d) \<noteq> 0 \<Longrightarrow>
      squeues v' 0 = squeues v 0" for cs v v'
    by (induction cs arbitrary: v) (auto simp: srv_runInLoop_def queue_functor_def)
  then have "squeues w' 0 = [FRemove c]" "\<not> alive w'"
    using assms by (auto simp: TcpServer_dtor_def elim!: bind_SomeE split: if_splits)
  then show ?thesis by (simp add: removeConnectionInLoop_def)
qed

lemma destroy_connections_runs: "\<exists>v. destroy_connections cur cs w = Some v"
  by (induction cs arbitrary: w) (auto simp: srv_runInLoop_def)

definition dangling_ops :: "srv_op list" where
  "dangling_ops = [SAccept (AcceptOk 5 zero_addr) 0 0, SFunctor 1, SClose 0]"

theorem server_dtor_dangling_removal_witness:
  "\<exists>w w'. (server_started (\<lambda>i. i + 1) 1 ''0.0.0.0:80'' ''srv'' demo_acceptor \<bind> run_srv_ops dangling_ops) = Some w
     \<and> TcpServer_dtor 0 w = Some w' \<and> run_srv_op (SFunctor 0) w' = None"
proof -
  obtain w where w: "(server_started (\<lambda>i. i + 1) 1 ''0.0.0.0:80'' ''srv'' demo_acceptor \<bind> run_srv_ops dangling_ops) = Some w"
      "squeues w 0 = [FRemove 0]" "snd ` set (connections (server w)) = {0}" "sc_loop (sconns w ! 0) = 1"
    by (simp add: server_started_def setThreadNum_def TcpServer_new_def TcpServer_start_def srv_init_def
      EventLoopThreadPool_start_def EventLoopThreadPool_new_def srv_runInLoop_def numeral_eq_Suc
      Acceptor_listen_def upd_server_def dangling_ops_def Acceptor_handleRead_def sockets_accept_def
      demo_acceptor_def newConnection_def getNextLoop_def queue_functor_def may_close_def conn_trace_def
      removeConnection_def)
  obtain w' where w': "TcpServer_dtor 0 w = Some w'"
    using destroy_connections_runs [of 0 "map snd (connections (server w))" w] by (auto simp: TcpServer_dtor_def)
  with w server_dtor_dangling_removal [OF w' w(2)] show ?thesis by auto
qed

text \<open>\<^verbatim>\<open>start\<close> is documented as thread safe, but the first call from a thread other than the base
  loop's fails the assertion of the pool.\<close>

theorem server_start_other_thread:
  assumes "cur \<noteq> 0" and "started (server w) = 0"
  shows "TcpServer_start newLoop cur w = None"
  using assms by (simp add: TcpServer_start_def EventLoopThreadPool_start_def upd_server_def)

theorem server_start_other_thread_witness:
  "TcpServer_start (\<lambda>i. i + 1) 7 (srv_init (TcpServer_new ''0.0.0.0:80'' ''srv'' demo_acceptor)) = None"
  using server_start_other_thread [of 7 "srv_init (TcpServer_new ''0.0.0.0:80'' ''srv'' demo_acceptor)"]
  by (simp add: srv_init_def TcpServer_new_def)

end
