(* ===== verification/Calendar.thy ===== *)
theory Calendar
  imports Endian
begin

text \<open>
  Dates and time zones: \<^verbatim>\<open>cnet/base/Date.h\<close>, \<^verbatim>\<open>Date.cc\<close>, \<^verbatim>\<open>TimeZone.h\<close>, \<^verbatim>\<open>TimeZone.cc\<close>. The
  division of the source truncates towards zero (\<open>sdiv\<close>, \<open>smod\<close>). A C \<^verbatim>\<open>int\<close> is an integer here, and
  every result of \<^verbatim>\<open>int\<close> arithmetic is \<open>checked\<close>: overflow, which is undefined, is \<open>None\<close>; the narrowing
  casts of \<^verbatim>\<open>toUtcTime\<close> are written out. The formulas without the checks are \<open>julian_number\<close> and
  \<open>julian_date\<close>. The zone file is its content, \<^verbatim>\<open>gmtime_r\<close> and \<^verbatim>\<open>timegm\<close> of libc
  are parameters. Undefined behaviour (\<^verbatim>\<open>front()\<close> of an empty vector, an index out of range, an
  array of negative size) is \<open>None\<close>.

  The results: the two Julian day conversions are inverse on every calendar date until their arithmetic
  overflows, and consecutive days have consecutive numbers; \<^verbatim>\<open>fromUtcTime\<close> inverts \<^verbatim>\<open>toUtcTime\<close>; \<^verbatim>\<open>findLocaltime\<close> chooses the
  transition in force; a broken zone file goes unnoticed.
\<close>

section \<open>Date\<close>

record YearMonthDay =
  year :: int
  month :: int
  day :: int

text \<open>A result of \<^verbatim>\<open>int\<close> arithmetic.\<close>

definition checked :: "int \<Rightarrow> int option" where
  "checked x = (if - (2 ^ 31) \<le> x \<and> x < 2 ^ 31 then Some x else None)"

definition julian_number :: "int \<Rightarrow> int \<Rightarrow> int \<Rightarrow> int" where
  "julian_number yr mon dy =
     (let a = (14 - mon) sdiv 12;
          y = yr + 4800 - a;
          m = mon + 12 * a - 3
      in dy + (153 * m + 2) sdiv 5 + y * 365 + y sdiv 4 - y sdiv 100 + y sdiv 400 - 32045)"

definition julian_date :: "int \<Rightarrow> YearMonthDay" where
  "julian_date julianDayNumber =
     (let a = julianDayNumber + 32044;
          b = (4 * a + 3) sdiv 146097;
          c = a - (b * 146097) sdiv 4;
          d = (4 * c + 3) sdiv 1461;
          e = c - (1461 * d) sdiv 4;
          m = (5 * e + 2) sdiv 153
      in \<lparr>year = b * 100 + d - 4800 + m sdiv 10,
          month = m + 3 - 12 * (m sdiv 10),
          day = e - (153 * m + 2) sdiv 5 + 1\<rparr>)"

definition getJulianDayNumber :: "int \<Rightarrow> int \<Rightarrow> int \<Rightarrow> int option" where
  "getJulianDayNumber yr mon dy = do {
     a \<leftarrow> checked (14 - mon);
     let a = a sdiv 12;
     y \<leftarrow> checked (yr + 4800);
     y \<leftarrow> checked (y - a);
     a12 \<leftarrow> checked (12 * a);
     m \<leftarrow> checked (mon + a12);
     m \<leftarrow> checked (m - 3);
     t \<leftarrow> checked (153 * m);
     t \<leftarrow> checked (t + 2);
     r \<leftarrow> checked (dy + t sdiv 5);
     t \<leftarrow> checked (y * 365);
     r \<leftarrow> checked (r + t);
     r \<leftarrow> checked (r + y sdiv 4);
     r \<leftarrow> checked (r - y sdiv 100);
     r \<leftarrow> checked (r + y sdiv 400);
     checked (r - 32045) }"

definition getYearMonthDay :: "int \<Rightarrow> YearMonthDay option" where
  "getYearMonthDay julianDayNumber = do {
     a \<leftarrow> checked (julianDayNumber + 32044);
     t \<leftarrow> checked (4 * a);
     t \<leftarrow> checked (t + 3);
     let b = t sdiv 146097;
     t \<leftarrow> checked (b * 146097);
     c \<leftarrow> checked (a - t sdiv 4);
     t \<leftarrow> checked (4 * c);
     t \<leftarrow> checked (t + 3);
     let d = t sdiv 1461;
     t \<leftarrow> checked (1461 * d);
     e \<leftarrow> checked (c - t sdiv 4);
     t \<leftarrow> checked (5 * e);
     t \<leftarrow> checked (t + 2);
     let m = t sdiv 153;
     t \<leftarrow> checked (153 * m);
     t \<leftarrow> checked (t + 2);
     dy \<leftarrow> checked (e - t sdiv 5);
     dy \<leftarrow> checked (dy + 1);
     t \<leftarrow> checked (12 * (m sdiv 10));
     mon \<leftarrow> checked (m + 3);
     mon \<leftarrow> checked (mon - t);
     yr \<leftarrow> checked (b * 100);
     yr \<leftarrow> checked (yr + d);
     yr \<leftarrow> checked (yr - 4800);
     yr \<leftarrow> checked (yr + m sdiv 10);
     Some \<lparr>year = yr, month = mon, day = dy\<rparr> }"

definition kJulianDayOf1970_01_01 :: int where
  "kJulianDayOf1970_01_01 = the (getJulianDayNumber 1970 1 1)"

definition kDaysPerWeek :: int where "kDaysPerWeek = 7"

text \<open>A \<^verbatim>\<open>Date\<close> is its Julian day number.\<close>

type_synonym Date = int

definition Date_ymd :: "int \<Rightarrow> int \<Rightarrow> int \<Rightarrow> Date option" where
  "Date_ymd y m d = getJulianDayNumber y m d"

definition yearMonthDay :: "Date \<Rightarrow> YearMonthDay option" where
  "yearMonthDay d = getYearMonthDay d"

definition Date_valid :: "Date \<Rightarrow> bool" where
  "Date_valid d \<longleftrightarrow> d > 0"

definition weekDay :: "Date \<Rightarrow> int option" where
  "weekDay d = do { d \<leftarrow> checked (d + 1); Some (d smod kDaysPerWeek) }"

definition pad_space :: "nat \<Rightarrow> int \<Rightarrow> string" where
  "pad_space w i = pad_left (CHR '' '') w (dec_int i)"

definition toIsoString :: "Date \<Rightarrow> string option" where
  "toIsoString d = do {
     ymd \<leftarrow> yearMonthDay d;
     Some (take 31 (pad_space 4 (year ymd) @ ''-'' @ dec_int0 2 (month ymd) @ ''-'' @ dec_int0 2 (day ymd))) }"

section \<open>The Gregorian calendar\<close>

definition leap :: "int \<Rightarrow> bool" where
  "leap y \<longleftrightarrow> y mod 400 = 0 \<or> (y mod 4 = 0 \<and> y mod 100 \<noteq> 0)"

definition month_days :: "int \<Rightarrow> int \<Rightarrow> int" where
  "month_days y m =
     (if m = 2 then (if leap y then 29 else 28) else if m = 4 \<or> m = 6 \<or> m = 9 \<or> m = 11 then 30 else 31)"

definition valid_date :: "YearMonthDay \<Rightarrow> bool" where
  "valid_date t \<longleftrightarrow> (-4799 \<le> year t \<or> year t = -4800 \<and> 3 \<le> month t) \<and> 1 \<le> month t \<and> month t \<le> 12 \<and> 1 \<le> day t \<and> day t \<le> month_days (year t) (month t)"

definition next_day :: "YearMonthDay \<Rightarrow> YearMonthDay" where
  "next_day t =
     (if day t < month_days (year t) (month t) then t\<lparr>day := day t + 1\<rparr>
      else if month t < 12 then t\<lparr>month := month t + 1, day := 1\<rparr>
      else t\<lparr>year := year t + 1, month := 1, day := 1\<rparr>)"

lemma sdiv_eq_div: "0 \<le> a \<Longrightarrow> 0 < b \<Longrightarrow> a sdiv b = (a :: int) div b"
  by (cases "a = 0") (simp_all add: signed_divide_int_def)

text \<open>
  Counting from March: \<open>y\<close> the year that began in March 4801 BC plus \<open>y\<close>, \<open>m\<close> the month from
  March, \<open>e\<close> the day in that year.
\<close>

definition march_days :: "int \<Rightarrow> int \<Rightarrow> int" where
  "march_days y e = 365 * y + y div 4 - y div 100 + y div 400 + e"

lemma div_mod_4E:
  obtains q r :: int where "x = 4 * q + r" and "x div 4 = q" and "x mod 4 = r" and "0 \<le> r" and "r \<le> 3"
  using that [of "x div 4" "x mod 4"] by simp

lemma march_split:
  fixes b d e :: int
  assumes "0 \<le> d" and "d \<le> 99"
  shows "march_days (100 * b + d) e = 36524 * b + b div 4 + 365 * d + d div 4 + e"
proof -
  have "(100 * b + d) div 100 = b" using assms by simp
  moreover have "(100 * b + d) div 400 = b div 4"
    using zdiv_zmult2_eq [of 4 "100 * b + d" 100] assms by simp
  moreover have "(100 * b + d) div 4 = 25 * b + d div 4"
    using div_mult_self1 [of 4 d "25 * b"] by (simp add: add.commute)
  ultimately show ?thesis by (simp add: march_days_def)
qed

lemma year_split:
  obtains b d :: int where "y = 100 * b + d" and "0 \<le> d" and "d \<le> 99"
  using that [of "y div 100" "y mod 100"] by simp

lemma leap_century:
  assumes "leap (100 * b + 100)"
  shows "b mod 4 = 3"
proof -
  have "(100 * b + 100) mod 100 = 0" and "(100 * b + 100) mod 400 = 100 * ((b + 1) mod 4)"
    using mult_mod_right [of 100 "b + 1" 4] by (simp_all add: algebra_simps)
  with assms have "(b + 1) mod 4 = 0" by (simp add: leap_def)
  then show ?thesis by presburger
qed

lemma leap_mod_4:
  assumes "leap (100 * b + d + 1)"
  shows "d mod 4 = 3"
proof -
  have "(100 * b + d + 1) mod 4 = (d + 1) mod 4"
    using mod_mult_self1 [of "d + 1" "25 * b" 4] by (simp add: algebra_simps)
  moreover have "(100 * b + d + 1) mod 4 = 0"
  proof -
    have "(100 * b + d + 1) mod 400 mod 4 = (100 * b + d + 1) mod 4" by (rule mod_mod_cancel) simp
    with assms show ?thesis by (auto simp: leap_def)
  qed
  ultimately show ?thesis by presburger
qed

text \<open>The day number determines the century \<open>b\<close>, the year \<open>d\<close> in it and the day \<open>e\<close>.\<close>

lemma century_of:
  fixes b d e :: int
  assumes "0 \<le> d" "d \<le> 99" "0 \<le> e" "e \<le> 365" "e = 365 \<Longrightarrow> leap (100 * b + d + 1)"
  shows "(4 * (36524 * b + b div 4 + 365 * d + d div 4 + e) + 3) div 146097 = b"
proof -
  obtain q r where b: "b = 4 * q + r" "b div 4 = q" "b mod 4 = r" "0 \<le> r" "r \<le> 3" by (rule div_mod_4E)
  obtain dq dr where d: "d = 4 * dq + dr" "d div 4 = dq" "0 \<le> dr" "dr \<le> 3" by (rule div_mod_4E)
  have top: "r = 3" if "d = 99" "e = 365"
    using leap_century [of b] assms(5) that b(3) by (simp add: add.assoc)
  have "365 * d + dq + e \<le> 36523 \<or> d = 99 \<and> e = 365" using assms(1-4) d by linarith
  then have "4 * (365 * d + dq + e) + 3 - r < 146097"
  proof (elim disjE conjE)
    assume "d = 99" "e = 365"
    with top d(2) show ?thesis by simp
  next
    assume "365 * d + dq + e \<le> 36523"
    then have "4 * (365 * d + dq + e) \<le> 4 * 36523" by (rule mult_left_mono) simp
    with b(4) show ?thesis by simp
  qed
  moreover have "0 \<le> dq" using d(2) assms(1) by auto
  with assms(1,3) b(5) have "0 \<le> 4 * (365 * d + dq + e) + 3 - r" by simp
  moreover have "4 * (36524 * b + b div 4 + 365 * d + d div 4 + e) + 3 = 146097 * b + (4 * (365 * d + dq + e) + 3 - r)"
    using b d by simp
  ultimately show ?thesis by (intro int_div_pos_eq)
qed

lemma year_of:
  fixes b d e :: int
  assumes "0 \<le> d" "d \<le> 99" "0 \<le> e" "e \<le> 365" "e = 365 \<Longrightarrow> leap (100 * b + d + 1)"
  shows "(4 * (365 * d + d div 4 + e) + 3) div 1461 = d"
proof -
  obtain dq dr where d: "d = 4 * dq + dr" "d div 4 = dq" "d mod 4 = dr" "0 \<le> dr" "dr \<le> 3" by (rule div_mod_4E)
  have "dr = 3" if "e = 365" using leap_mod_4 assms(5) that d(3) by blast
  then have "4 * e + 3 - dr < 1461" using assms(4) d by (cases "e = 365") linarith+
  moreover have "0 \<le> 4 * e + 3 - dr" using assms d by linarith
  moreover have "4 * (365 * d + d div 4 + e) + 3 = 1461 * d + (4 * e + 3 - dr)" using d by simp
  ultimately show ?thesis by (intro int_div_pos_eq)
qed

lemma julian_date_march:
  assumes "0 \<le> y" "0 \<le> e" "e \<le> 365" "e = 365 \<Longrightarrow> leap (y + 1)"
  shows "julian_date (march_days y e - 32044) =
    (let m = (5 * e + 2) div 153
     in \<lparr>year = y - 4800 + m div 10, month = m + 3 - 12 * (m div 10), day = e - (153 * m + 2) div 5 + 1\<rparr>)"
proof -
  obtain b d where y: "y = 100 * b + d" "0 \<le> d" "d \<le> 99" by (rule year_split)
  have b: "0 \<le> b" using y assms(1) by linarith
  let ?c = "365 * d + d div 4 + e"
  have a: "march_days y e = 36524 * b + b div 4 + ?c" using march_split [OF y(2,3)] y(1) by simp
  have c: "0 \<le> ?c" using y assms by simp
  have bq: "(4 * march_days y e + 3) sdiv 146097 = b"
    using century_of [OF y(2,3) assms(2,3)] assms(4) y(1) b c unfolding a
    by (subst sdiv_eq_div) (auto simp: algebra_simps)
  have b4: "(b * 146097) sdiv 4 = 36524 * b + b div 4"
    using b div_mult_self1 [of 4 b "36524 * b"] by (subst sdiv_eq_div) (simp_all add: algebra_simps)
  have cq: "march_days y e - (b * 146097) sdiv 4 = ?c" unfolding b4 a by simp
  have dq: "(4 * ?c + 3) sdiv 1461 = d"
    using year_of [OF y(2,3) assms(2,3), of b] assms(4) y(1) c by (subst sdiv_eq_div) auto
  have d4: "(1461 * d) sdiv 4 = 365 * d + d div 4"
    using y(2) div_mult_self1 [of 4 d "365 * d"] by (subst sdiv_eq_div) (simp_all add: algebra_simps)
  have eq: "?c - (1461 * d) sdiv 4 = e" unfolding d4 by simp
  have mq: "(5 * e + 2) sdiv 153 = (5 * e + 2) div 153" "0 \<le> (5 * e + 2) div 153"
    using assms(2) by (simp_all add: sdiv_eq_div)
  then have m10: "(5 * e + 2) div 153 sdiv 10 = (5 * e + 2) div 153 div 10"
    and m5: "(153 * ((5 * e + 2) div 153) + 2) sdiv 5 = (153 * ((5 * e + 2) div 153) + 2) div 5"
    by (simp_all add: sdiv_eq_div)
  show ?thesis
    unfolding julian_date_def Let_def
    by (simp only: diff_add_cancel bq cq dq eq mq(1) m10 m5) (simp add: y(1))
qed

lemma julian_number_march:
  assumes "0 \<le> y" "0 \<le> m" "m \<le> 11"
  shows "julian_number (y - 4800 + m div 10) (m + 3 - 12 * (m div 10)) dy
    = march_days y (dy - 1 + (153 * m + 2) div 5) - 32044"
proof -
  have "(14 - (m + 3 - 12 * (m div 10))) sdiv 12 = m div 10"
  proof (cases "m \<le> 9")
    case True
    then have "m div 10 = 0" using assms by simp
    with True assms show ?thesis by (simp add: sdiv_eq_div)
  next
    case False
    then have "m div 10 = 1" using assms by (intro int_div_pos_eq [where r = "m - 10"]) auto
    with False assms show ?thesis by (simp add: sdiv_eq_div)
  qed
  then show ?thesis
    using assms by (simp add: julian_number_def march_days_def sdiv_eq_div)
qed

lemma march_of_valid:
  assumes "valid_date t"
  obtains y m where "0 \<le> y" "0 \<le> m" "m \<le> 11" "year t = y - 4800 + m div 10" "month t = m + 3 - 12 * (m div 10)"
proof (cases "month t \<le> 2")
  case True
  have "(month t + 9) div 10 = 1"
    using True assms by (intro int_div_pos_eq [where r = "month t - 1"]) (auto simp: valid_date_def)
  then show ?thesis
    using that [of "year t + 4799" "month t + 9"] True assms by (auto simp: valid_date_def)
next
  case False
  then have "(month t - 3) div 10 = 0" using assms by (simp add: valid_date_def)
  then show ?thesis
    using that [of "year t + 4800" "month t - 3"] False assms by (auto simp: valid_date_def)
qed

lemma int_le_11E:
  fixes m :: int
  assumes "0 \<le> m" "m \<le> 11"
  shows "m \<in> {0, 1, 2, 3, 4, 5, 6, 7, 8, 9, 10, 11}"
  using assms by simp arith

lemma leap_period: "leap (y - 4800 + 1) = leap (y + 1)"
proof -
  have "(y - 4800 + 1) mod 400 = (y + 1) mod 400" "(y - 4800 + 1) mod 4 = (y + 1) mod 4"
    "(y - 4800 + 1) mod 100 = (y + 1) mod 100"
    using mod_mult_self1 [of "y + 1" "- 12" 400] mod_mult_self1 [of "y + 1" "- 1200" 4]
      mod_mult_self1 [of "y + 1" "- 48" 100] by (simp_all add: algebra_simps)
  then show ?thesis by (simp add: leap_def)
qed

text \<open>The day of the March year recovers month and day, month by month.\<close>

lemma march_month:
  assumes "0 \<le> m" "m \<le> 11" "1 \<le> dy" "dy \<le> month_days (y - 4800 + m div 10) (m + 3 - 12 * (m div 10))"
  defines "e \<equiv> dy - 1 + (153 * m + 2) div 5"
  shows "0 \<le> e" and "e \<le> 365" and "e = 365 \<Longrightarrow> leap (y + 1)" and "(5 * e + 2) div 153 = m"
proof -
  have mdays: "m = 11 \<Longrightarrow> dy \<le> (if leap (y + 1) then 29 else 28)"
    using assms(4) leap_period [of y] by (simp add: month_days_def)
  have dmax: "dy \<le> (if m = 11 then 29 else if m \<in> {1, 3, 6, 8} then 30 else 31)"
    using int_le_11E [OF assms(1,2)] assms(4) by (auto simp: month_days_def split: if_splits)
  show "0 \<le> e" using assms(1,3) by (simp add: e_def)
  show "e \<le> 365" using int_le_11E [OF assms(1,2)] dmax by (auto simp: e_def)
  show "leap (y + 1)" if "e = 365"
    using int_le_11E [OF assms(1,2)] dmax mdays that by (auto simp: e_def split: if_splits)
  have "153 * m \<le> 5 * e + 2 \<and> 5 * e + 2 < 153 * m + 153"
    using int_le_11E [OF assms(1,2)] dmax assms(3) by (auto simp: e_def)
  then show "(5 * e + 2) div 153 = m"
    by (intro int_div_pos_eq [where r = "5 * e + 2 - 153 * m"]) auto
qed

lemma date_round_trip:
  assumes "valid_date t"
  shows "julian_date (julian_number (year t) (month t) (day t)) = t"
proof -
  obtain y m where ym: "0 \<le> y" "0 \<le> m" "m \<le> 11" "year t = y - 4800 + m div 10" "month t = m + 3 - 12 * (m div 10)"
    using assms by (rule march_of_valid)
  have d: "1 \<le> day t" "day t \<le> month_days (y - 4800 + m div 10) (m + 3 - 12 * (m div 10))"
    using assms ym by (simp_all add: valid_date_def)
  note mm = march_month [OF ym(2,3) d]
  have n: "julian_number (year t) (month t) (day t) = march_days y (day t - 1 + (153 * m + 2) div 5) - 32044"
    unfolding ym(4,5) by (rule julian_number_march [OF ym(1-3)])
  have "julian_date (julian_number (year t) (month t) (day t)) = \<lparr>year = year t, month = month t,
      day = day t - 1 + (153 * m + 2) div 5 - (153 * m + 2) div 5 + 1\<rparr>"
    by (simp only: n julian_date_march [OF ym(1) mm(1,2) mm(3)] Let_def mm(4)) (simp only: ym(4,5))
  then show ?thesis by simp
qed

text \<open>Every day number from 1 March 4801 BC on is a day of a March year.\<close>

lemma march_exists:
  fixes a :: int
  assumes "0 \<le> a"
  obtains y e where "a = march_days y e" "0 \<le> y" "0 \<le> e" "e \<le> 365" "e = 365 \<longrightarrow> leap (y + 1)"
proof -
  define b r where "b = (4 * a + 3) div 146097" and "r = (4 * a + 3) mod 146097"
  have br: "4 * a + 3 = 146097 * b + r" "0 \<le> r" "r \<le> 146096"
    using pos_mod_bound [of 146097 "4 * a + 3"] by (simp_all add: b_def r_def)
  have b0: "0 \<le> b" using assms by (simp add: b_def)
  obtain q t where b: "b = 4 * q + t" "b div 4 = q" "b mod 4 = t" "0 \<le> t" "t \<le> 3" by (rule div_mod_4E)
  define c where "c = a - 36524 * b - q"
  have c4: "4 * c + 3 = r + t" using br b by (simp add: c_def)
  have c: "0 \<le> c" "c \<le> 36524" "c = 36524 \<Longrightarrow> t = 3" using c4 br(2,3) b(4,5) by linarith+
  define d u where "d = (4 * c + 3) div 1461" and "u = (4 * c + 3) mod 1461"
  have du: "4 * c + 3 = 1461 * d + u" "0 \<le> u" "u \<le> 1460"
    using pos_mod_bound [of 1461 "4 * c + 3"] by (simp_all add: d_def u_def)
  have d0: "0 \<le> d" using c(1) by (simp add: d_def)
  have d99: "d \<le> 99" using du c(2) by linarith
  obtain p v where d: "d = 4 * p + v" "d div 4 = p" "d mod 4 = v" "0 \<le> v" "v \<le> 3" by (rule div_mod_4E)
  define e where "e = c - 365 * d - p"
  have e4: "4 * e + 3 = u + v" using du d by (simp add: e_def)
  have e: "0 \<le> e" "e \<le> 365" "e = 365 \<Longrightarrow> v = 3" using e4 du(2,3) d(4,5) by linarith+
  have lp: "leap (100 * b + d + 1)" if "e = 365"
  proof (cases "d = 99")
    case True
    with d(2) that have "c = 36524" by (simp add: e_def)
    with c(3) b have "b + 1 = 4 * (q + 1)" by simp
    then have "100 * b + d + 1 = 400 * (q + 1)" using True by simp
    then show ?thesis by (simp add: leap_def)
  next
    case False
    have "(100 * b + d + 1) mod 100 = d + 1"
      using mod_mult_self1 [of "d + 1" b 100] False d0 d99 by (simp add: algebra_simps)
    moreover have "100 * b + d + 1 = 4 * (25 * b + p + 1)" using d e(3) [OF that] by simp
    then have "(100 * b + d + 1) mod 4 = 0" by simp
    ultimately show ?thesis using d0 by (simp add: leap_def)
  qed
  show ?thesis
    by (rule that [of "100 * b + d" e])
      (use march_split [OF d0 d99, of b e] b(2) d(2) b0 d0 e lp in \<open>simp_all add: e_def c_def\<close>)
qed

lemma march_day_valid:
  assumes "0 \<le> y" "0 \<le> e" "e \<le> 365" "e = 365 \<Longrightarrow> leap (y + 1)"
  defines "m \<equiv> (5 * e + 2) div 153"
  shows "0 \<le> m" and "m \<le> 11"
    and "valid_date \<lparr>year = y - 4800 + m div 10, month = m + 3 - 12 * (m div 10), day = e - (153 * m + 2) div 5 + 1\<rparr>"
proof -
  define r where "r = (5 * e + 2) mod 153"
  have mr: "5 * e + 2 = 153 * m + r" "0 \<le> r" "r \<le> 152"
    using pos_mod_bound [of 153 "5 * e + 2"] by (simp_all add: m_def r_def)
  show m: "0 \<le> m" "m \<le> 11" using mr assms(2,3) by linarith+
  have l: "m = 11 \<Longrightarrow> e - 337 + 1 \<le> (if leap (y - 4800 + 1) then 29 else 28)"
    using assms(3,4) leap_period [of y] by (cases "e = 365") auto
  show "valid_date \<lparr>year = y - 4800 + m div 10, month = m + 3 - 12 * (m div 10), day = e - (153 * m + 2) div 5 + 1\<rparr>"
    using int_le_11E [OF m] mr l assms(1)
    by (elim insertE emptyE) (simp_all add: valid_date_def month_days_def, linarith+)
qed

lemma julian_round_trip:
  assumes "-32044 \<le> j"
  shows "julian_number (year (julian_date j)) (month (julian_date j)) (day (julian_date j)) = j"
    and "valid_date (julian_date j)"
proof -
  from assms have "0 \<le> j + 32044" by simp
  then obtain y e where ye: "j + 32044 = march_days y e" "0 \<le> y" "0 \<le> e" "e \<le> 365" "e = 365 \<longrightarrow> leap (y + 1)"
    by (rule march_exists)
  have l: "e = 365 \<Longrightarrow> leap (y + 1)" using ye(5) by simp
  note v = march_day_valid [OF ye(2-4) l]
  have j: "j = march_days y e - 32044" using ye(1) by simp
  let ?m = "(5 * e + 2) div 153"
  have g: "julian_date j = \<lparr>year = y - 4800 + ?m div 10, month = ?m + 3 - 12 * (?m div 10), day = e - (153 * ?m + 2) div 5 + 1\<rparr>"
    unfolding j using julian_date_march [OF ye(2-4) l] by (simp only: Let_def)
  show "valid_date (julian_date j)"
    unfolding g by (rule v(3))
  have "julian_number (year (julian_date j)) (month (julian_date j)) (day (julian_date j))
      = march_days y (e - (153 * ?m + 2) div 5 + 1 - 1 + (153 * ?m + 2) div 5) - 32044"
    unfolding g using julian_number_march [OF ye(2) v(1,2)] by (simp only: YearMonthDay.select_convs)
  also have "\<dots> = j" by (simp only: j diff_add_cancel add_diff_cancel_right')
  finally show "julian_number (year (julian_date j)) (month (julian_date j)) (day (julian_date j)) = j" .
qed

lemma div_succ:
  assumes "0 < (n :: int)"
  shows "(y + 1) div n = y div n + (if (y + 1) mod n = 0 then 1 else 0)"
proof -
  define q r where "q = (y + 1) div n" and "r = (y + 1) mod n"
  have y: "y + 1 = n * q + r" "0 \<le> r" "r < n" using assms by (simp_all add: q_def r_def)
  have "y div n = q - 1" if "r = 0"
    by (rule int_div_pos_eq [where r = "n - 1"]) (use y that in \<open>simp_all add: algebra_simps\<close>)
  moreover have "y div n = q" if "r \<noteq> 0"
    by (rule int_div_pos_eq [where r = "r - 1"]) (use y that in simp_all)
  ultimately have "y div n = (if r = 0 then q - 1 else q)" by simp
  then show ?thesis by (auto simp: q_def r_def)
qed

lemma leap_days:
  "(if y mod 4 = 0 then 1 else 0) - (if y mod 100 = 0 then 1 else 0) + (if y mod 400 = 0 then 1 else 0 :: int)
   = (if leap y then 1 else 0)"
proof -
  have "y mod 400 mod 100 = y mod 100" "y mod 100 mod 4 = y mod 4" by (simp_all add: mod_mod_cancel)
  then show ?thesis by (auto simp: leap_def)
qed

lemma march_days_next:
  "march_days (y + 1) 0 = march_days y (365 + (if leap (y + 1) then 1 else 0))"
  using leap_days [of "y + 1"] by (simp add: march_days_def div_succ)

lemma julian_next_month:
  assumes "0 \<le> y" "0 \<le> m" "m \<le> 10"
  shows "julian_number (y - 4800 + (m + 1) div 10) (m + 1 + 3 - 12 * ((m + 1) div 10)) 1
    = julian_number (y - 4800 + m div 10) (m + 3 - 12 * (m div 10))
        (month_days (y - 4800 + m div 10) (m + 3 - 12 * (m div 10))) + 1"
proof -
  have "m \<in> {0, 1, 2, 3, 4, 5, 6, 7, 8, 9, 10}" using assms(2,3) by simp arith
  then have "(153 * (m + 1) + 2) div 5 = (153 * m + 2) div 5 + month_days (y - 4800 + m div 10) (m + 3 - 12 * (m div 10))"
    by (elim insertE emptyE) (simp_all add: month_days_def)
  then show ?thesis
    using julian_number_march [OF assms(1), of "m + 1"] julian_number_march [OF assms(1), of m] assms(2,3)
    by (simp add: march_days_def)
qed

lemma julian_next_year:
  assumes "0 \<le> y"
  shows "julian_number (y + 1 - 4800) 3 1 = julian_number (y + 1 - 4800) 2 (month_days (y + 1 - 4800) 2) + 1"
proof -
  have "leap (y + 1 - 4800) = leap (y + 1)" using leap_period [of y] by (simp add: algebra_simps)
  then have f: "month_days (y + 1 - 4800) 2 = (if leap (y + 1) then 29 else 28)" by (simp add: month_days_def)
  have "julian_number (y + 1 - 4800) 3 1 = march_days (y + 1) 0 - 32044"
    using julian_number_march [of "y + 1" 0 1] assms by simp
  moreover have "julian_number (y + 1 - 4800) 2 dy = march_days y (dy + 336) - 32044" for dy
    using julian_number_march [of y 11 dy] assms by (simp add: add.commute)
  ultimately show ?thesis
    using march_days_next [of y] unfolding f by (simp add: march_days_def)
qed

lemma julian_next_day:
  assumes "valid_date t"
  shows "julian_number (year (next_day t)) (month (next_day t)) (day (next_day t))
    = julian_number (year t) (month t) (day t) + 1"
proof (cases "day t < month_days (year t) (month t)")
  case True
  then show ?thesis by (simp add: next_day_def julian_number_def)
next
  case False
  then have d: "day t = month_days (year t) (month t)" using assms by (simp add: valid_date_def)
  obtain y m where ym: "0 \<le> y" "0 \<le> m" "m \<le> 11" "year t = y - 4800 + m div 10" "month t = m + 3 - 12 * (m div 10)"
    using assms by (rule march_of_valid)
  show ?thesis
  proof (cases "m = 11")
    case True
    then have "year t = y + 1 - 4800" "month t = 2" using ym by simp_all
    with julian_next_year [OF ym(1)] d False show ?thesis by (simp add: next_day_def)
  next
    case m11: False
    then have m: "0 \<le> m" "m \<le> 10" using ym by simp_all
    then have "m \<in> {0, 1, 2, 3, 4, 5, 6, 7, 8, 9, 10}" by simp arith
    then have "year (next_day t) = y - 4800 + (m + 1) div 10 \<and> month (next_day t) = m + 1 + 3 - 12 * ((m + 1) div 10) \<and> day (next_day t) = 1"
      using False ym(4,5) by (elim insertE emptyE) (simp_all add: next_day_def)
    with julian_next_month [OF ym(1) m] d ym(4,5) show ?thesis by simp
  qed
qed

text \<open>The checks. \<open>y\<close> years and \<open>e\<close> days from March as before, up to the last day before \<open>4 * a + 3\<close> overflows.\<close>

definition last_julian :: int where "last_julian = 536838867"

lemma checked_ok: "- (2 ^ 31) \<le> x \<Longrightarrow> x < 2 ^ 31 \<Longrightarrow> checked x = Some x"
  by (simp add: checked_def)

lemma march_days_bounds:
  assumes "0 \<le> y" and "0 \<le> e"
  shows "365 * y + e \<le> march_days y e" and "0 \<le> y div 4" "0 \<le> y div 100" "0 \<le> y div 400"
proof -
  have "y div 100 \<le> y div 4" using assms(1) zdiv_mono2 [of y 4 100] by simp
  then show "365 * y + e \<le> march_days y e" using assms by (simp add: march_days_def)
qed (use assms in simp_all)

lemma getYearMonthDay_checked:
  assumes "-32044 \<le> j" and "j \<le> last_julian"
  shows "getYearMonthDay j = Some (julian_date j)"
proof -
  from assms have "0 \<le> j + 32044" by simp
  then obtain y e where ye: "j + 32044 = march_days y e" "0 \<le> y" "0 \<le> e" "e \<le> 365" "e = 365 \<longrightarrow> leap (y + 1)"
    by (rule march_exists)
  obtain b d where y: "y = 100 * b + d" "0 \<le> d" "d \<le> 99" by (rule year_split)
  have b: "0 \<le> b" using y ye(2) by linarith
  let ?c = "365 * d + d div 4 + e" and ?a = "march_days y e" and ?m = "(5 * e + 2) div 153"
  have a: "?a = 36524 * b + b div 4 + ?c" using march_split [OF y(2,3)] y(1) by simp
  have c: "0 \<le> ?c" "?c \<le> 36525" using y(2,3) ye(3,4) by auto
  have le: "?a \<le> 536870911" "0 \<le> ?a" using assms ye(1) by (simp_all add: last_julian_def)
  have bq: "(4 * ?a + 3) sdiv 146097 = b"
    using century_of [OF y(2,3) ye(3,4)] ye(5) y(1) b c unfolding a
    by (subst sdiv_eq_div) (auto simp: algebra_simps)
  have b4: "(b * 146097) sdiv 4 = 36524 * b + b div 4"
    using b div_mult_self1 [of 4 b "36524 * b"] by (subst sdiv_eq_div) (simp_all add: algebra_simps)
  have b5: "b * 146097 \<le> 4 * ?a + 3"
    using bq le(2) by (simp add: sdiv_eq_div)
  have dq: "(4 * ?c + 3) sdiv 1461 = d"
    using year_of [OF y(2,3) ye(3,4), of b] ye(5) y(1) c by (subst sdiv_eq_div) auto
  have d4: "(1461 * d) sdiv 4 = 365 * d + d div 4"
    using y(2) div_mult_self1 [of 4 d "365 * d"] by (subst sdiv_eq_div) (simp_all add: algebra_simps)
  have m: "(5 * e + 2) sdiv 153 = ?m" "0 \<le> ?m" "?m \<le> 11" using ye(3,4) by (simp_all add: sdiv_eq_div)
  have m10: "?m sdiv 10 = ?m div 10" "0 \<le> ?m div 10" "?m div 10 \<le> 1"
    and m5: "(153 * ?m + 2) sdiv 5 = (153 * ?m + 2) div 5" "0 \<le> (153 * ?m + 2) div 5" "(153 * ?m + 2) div 5 \<le> 340"
    using m(2,3) by (simp_all add: sdiv_eq_div)
  have bb: "b \<le> 14700" using b5 le(1) by simp
  have ca: "?a - (36524 * b + b div 4) = ?c" "?c - (365 * d + d div 4) = e" unfolding a by simp_all
  have k: "checked ?a = Some ?a" "checked (4 * ?a) = Some (4 * ?a)" "checked (4 * ?a + 3) = Some (4 * ?a + 3)"
    "checked (b * 146097) = Some (b * 146097)" "checked (b * 100) = Some (b * 100)"
    using le b bb b5 by (simp_all add: checked_def)
  have kc: "checked (x - y) = Some (x - y)" if "x - y = z" "0 \<le> z" "z \<le> 36525" for x y z
    using that by (simp add: checked_def)
  have kx: "checked (4 * x) = Some (4 * x)" "checked (4 * x + 3) = Some (4 * x + 3)" if "0 \<le> x" "x \<le> 36525" for x
    using that by (simp_all add: checked_def)
  have kd: "checked (1461 * d) = Some (1461 * d)"
    "checked (5 * e) = Some (5 * e)" "checked (5 * e + 2) = Some (5 * e + 2)" "checked (b * 100 + d) = Some (b * 100 + d)"
    "checked (b * 100 + d - 4800) = Some (b * 100 + d - 4800)"
    using b bb y(2,3) ye(3,4) by (simp_all add: checked_def)
  have km: "checked (153 * n) = Some (153 * n)" "checked (153 * n + 2) = Some (153 * n + 2)" "checked (e - r) = Some (e - r)"
    "checked (e - r + 1) = Some (e - r + 1)" "checked (12 * v) = Some (12 * v)" "checked (n + 3) = Some (n + 3)"
    "checked (n + 3 - 12 * v) = Some (n + 3 - 12 * v)"
    "checked (b * 100 + d - 4800 + v) = Some (b * 100 + d - 4800 + v)"
    if "0 \<le> n" "n \<le> 11" "0 \<le> r" "r \<le> 340" "0 \<le> v" "v \<le> 1" for n r v
    using that b bb y(2,3) ye(3,4) by (simp_all add: checked_def)
  have ka: "checked (?a - (36524 * b + b div 4)) = Some ?c" unfolding kc [OF ca(1) c] by (simp only: ca(1))
  have ke: "checked (?c - (365 * d + d div 4)) = Some e" unfolding ca(2) using ye(3,4) by (simp add: checked_def)
  note km = km [OF m(2,3) m5(2,3) m10(2,3)] and kx = kx [OF c]
  have "getYearMonthDay j = Some \<lparr>year = b * 100 + d - 4800 + ?m div 10, month = ?m + 3 - 12 * (?m div 10), day = e - (153 * ?m + 2) div 5 + 1\<rparr>"
    unfolding getYearMonthDay_def Let_def ye(1)
    by (simp only: k bind.bind_lunit bq b4 ka) (simp only: kx kd bind.bind_lunit dq d4 ke m(1) m10(1) m5(1) km)
  moreover have "julian_date j = \<lparr>year = b * 100 + d - 4800 + ?m div 10, month = ?m + 3 - 12 * (?m div 10), day = e - (153 * ?m + 2) div 5 + 1\<rparr>"
    unfolding julian_date_def Let_def ye(1) by (simp only: bq b4 dq d4 m(1) m10(1) m5(1) ca)
  ultimately show ?thesis by simp
qed

lemma getYearMonthDay_overflow: "last_julian < j \<Longrightarrow> getYearMonthDay j = None"
  by (auto simp: getYearMonthDay_def checked_def last_julian_def)

lemma getJulianDayNumber_checked:
  assumes "valid_date t" and "julian_number (year t) (month t) (day t) \<le> last_julian"
  shows "getJulianDayNumber (year t) (month t) (day t) = Some (julian_number (year t) (month t) (day t))"
proof -
  obtain y m where ym: "0 \<le> y" "0 \<le> m" "m \<le> 11" "year t = y - 4800 + m div 10" "month t = m + 3 - 12 * (m div 10)"
    using assms(1) by (rule march_of_valid)
  have d: "1 \<le> day t" "day t \<le> 31"
    using assms(1) by (auto simp: valid_date_def month_days_def split: if_splits)
  have m10: "0 \<le> m div 10" "m div 10 \<le> 1" "m \<le> 9 \<longrightarrow> m div 10 = 0" "9 < m \<longrightarrow> m div 10 = 1" using ym(2,3) by auto
  have a: "(14 - month t) sdiv 12 = m div 10"
  proof (cases "m \<le> 9")
    case True
    then show ?thesis using m10 ym by (simp add: sdiv_eq_div)
  next
    case False
    then show ?thesis using m10 ym by (simp add: sdiv_eq_div)
  qed
  let ?e = "day t - 1 + (153 * m + 2) div 5"
  have j: "julian_number (year t) (month t) (day t) = march_days y ?e - 32044"
    unfolding ym(4,5) by (rule julian_number_march [OF ym(1-3)])
  have e: "0 \<le> (153 * m + 2) div 5" "(153 * m + 2) div 5 \<le> 340" using ym(2,3) by simp_all
  have b: "365 * y + ?e \<le> march_days y ?e" "0 \<le> y div 4" "0 \<le> y div 100" "0 \<le> y div 400"
    using march_days_bounds [OF ym(1), of ?e] d(1) e(1) by simp_all
  have y: "365 * y \<le> 536870911" using b(1) e(1) d(1) assms(2) j by (simp add: last_julian_def)
  then have q: "y div 4 \<le> 400000" "y div 100 \<le> 20000" "y div 400 \<le> 5000" by simp_all
  have s: "(153 * m + 2) sdiv 5 = (153 * m + 2) div 5" "y sdiv 4 = y div 4" "y sdiv 100 = y div 100" "y sdiv 400 = y div 400"
    using ym(1,2) by (simp_all add: sdiv_eq_div)
  have yy: "year t + 4800 - m div 10 = y" "month t + 12 * (m div 10) - 3 = m" using ym(4,5) by simp_all
  have r: "day t + (153 * m + 2) div 5 + y * 365 + y div 4 - y div 100 + y div 400 - 32045 = march_days y ?e - 32044"
    by (simp add: march_days_def)
  have mon: "1 \<le> month t" "month t \<le> 12" using assms(1) by (simp_all add: valid_date_def)
  have yr: "-4800 \<le> year t" "year t \<le> 1500000" using ym(1,4) m10(1,2) y by simp_all
  have c: "checked (14 - month t) = Some (14 - month t)" "checked (year t + 4800) = Some (year t + 4800)"
    "checked (year t + 4800 - m div 10) = Some y" "checked (12 * (m div 10)) = Some (12 * (m div 10))"
    "checked (month t + 12 * (m div 10)) = Some (month t + 12 * (m div 10))"
    "checked (month t + 12 * (m div 10) - 3) = Some m" "checked (153 * m) = Some (153 * m)"
    "checked (153 * m + 2) = Some (153 * m + 2)"
    using mon yr m10(1,2) ym(1-3) y by (simp_all only: yy) (simp_all add: checked_def)
  show ?thesis
    unfolding getJulianDayNumber_def Let_def j
    using d e b(2-4) y q ym(1)
    by (simp only: c a s bind.bind_lunit) (simp add: march_days_def checked_ok)
qed

lemma julian_number_bounds:
  assumes "valid_date t" and "year t \<le> 1400000"
  shows "-32044 \<le> julian_number (year t) (month t) (day t)" "julian_number (year t) (month t) (day t) \<le> last_julian"
proof -
  obtain y m where ym: "0 \<le> y" "0 \<le> m" "m \<le> 11" "year t = y - 4800 + m div 10" "month t = m + 3 - 12 * (m div 10)"
    using assms(1) by (rule march_of_valid)
  have d: "1 \<le> day t" "day t \<le> 31"
    using assms(1) by (auto simp: valid_date_def month_days_def split: if_splits)
  let ?e = "day t - 1 + (153 * m + 2) div 5"
  have j: "julian_number (year t) (month t) (day t) = march_days y ?e - 32044"
    unfolding ym(4,5) by (rule julian_number_march [OF ym(1-3)])
  have e: "0 \<le> (153 * m + 2) div 5" "(153 * m + 2) div 5 \<le> 340" using ym(2,3) by simp_all
  have b: "365 * y + ?e \<le> march_days y ?e" "0 \<le> y div 4" "0 \<le> y div 100" "0 \<le> y div 400"
    using march_days_bounds [OF ym(1), of ?e] d(1) e(1) by simp_all
  show "-32044 \<le> julian_number (year t) (month t) (day t)" using b(1) ym(1) d(1) e(1) j by simp
  have y: "y \<le> 1404800" using ym(2,4) assms(2) by simp
  then have "y div 4 \<le> 351200" "y div 400 \<le> 3512" using zdiv_mono1 [OF y, of 4] zdiv_mono1 [OF y, of 400] by simp_all
  then show "julian_number (year t) (month t) (day t) \<le> last_julian"
    using y d(2) e(2) b(3) unfolding j march_days_def last_julian_def by linarith
qed

lemma next_day_valid: "valid_date t \<Longrightarrow> valid_date (next_day t)"
  by (auto simp: valid_date_def next_day_def month_days_def split: if_splits)

text \<open>C24: the Julian day number is a correct numbering of the days of the Gregorian calendar from
  1 March 4801 BC to the last day whose conversion does not overflow, number 536838867: converting a
  valid date, up to the year 1400000, to its number and back gives the date, converting any such number to a date and back gives
  the number and a valid date, and the number of the following calendar day is one more; every greater
  number overflows; 1 January 1970 has the number 2440588.\<close>

theorem julian_calendar:
  shows "(valid_date t \<and> year t \<le> 1400000 \<longrightarrow>
      (\<exists>n. getJulianDayNumber (year t) (month t) (day t) = Some n \<and> -32044 \<le> n \<and> n \<le> last_julian \<and> getYearMonthDay n = Some t \<and>
        (n < last_julian \<longrightarrow> getJulianDayNumber (year (next_day t)) (month (next_day t)) (day (next_day t)) = Some (n + 1))))
    \<and> (-32044 \<le> j \<and> j \<le> last_julian \<longrightarrow>
        (\<exists>u. getYearMonthDay j = Some u \<and> valid_date u \<and> getJulianDayNumber (year u) (month u) (day u) = Some j))
    \<and> (last_julian < j \<longrightarrow> getYearMonthDay j = None)
    \<and> kJulianDayOf1970_01_01 = 2440588"
proof -
  have "kJulianDayOf1970_01_01 = 2440588" by code_simp
  moreover have "\<exists>u. getYearMonthDay j = Some u \<and> valid_date u \<and> getJulianDayNumber (year u) (month u) (day u) = Some j"
    if "-32044 \<le> j" "j \<le> last_julian"
    using that julian_round_trip [OF that(1)] getYearMonthDay_checked [OF that] getJulianDayNumber_checked by auto
  moreover have "\<exists>n. getJulianDayNumber (year t) (month t) (day t) = Some n \<and> -32044 \<le> n \<and> n \<le> last_julian \<and> getYearMonthDay n = Some t \<and>
      (n < last_julian \<longrightarrow> getJulianDayNumber (year (next_day t)) (month (next_day t)) (day (next_day t)) = Some (n + 1))"
    if v: "valid_date t" and yr: "year t \<le> 1400000"
  proof -
    let ?n = "julian_number (year t) (month t) (day t)"
    have n: "-32044 \<le> ?n" "?n \<le> last_julian" using julian_number_bounds [OF v yr] by simp_all
    have "getJulianDayNumber (year (next_day t)) (month (next_day t)) (day (next_day t)) = Some (?n + 1)" if "?n < last_julian"
      using getJulianDayNumber_checked [OF next_day_valid [OF v]] julian_next_day [OF v] that by simp
    then show ?thesis
      using n getJulianDayNumber_checked [OF v n(2)] getYearMonthDay_checked [OF n] date_round_trip [OF v] by auto
  qed
  ultimately show ?thesis using getYearMonthDay_overflow by blast
qed

theorem julian_calendar_witness:
  "getJulianDayNumber 2008 9 10 = Some 2454720 \<and> getYearMonthDay 2454720 = Some \<lparr>year = 2008, month = 9, day = 10\<rparr>
   \<and> getJulianDayNumber 2008 9 11 = Some 2454721 \<and> getYearMonthDay 536838868 = None"
proof -
  have "getJulianDayNumber 2008 9 10 = Some 2454720" by code_simp
  then show ?thesis
    using julian_calendar [of "\<lparr>year = 2008, month = 9, day = 10\<rparr>" 536838868]
    by (simp add: valid_date_def month_days_def next_day_def last_julian_def)
qed

section \<open>TimeZone\<close>

record Transition =
  gmttime :: int
  localtime :: int
  localtimeIdx :: nat

record Localtime =
  gmtOffset :: int
  isDst :: bool
  arrbIdx :: nat

record TzData =
  transitiions :: "Transition list"
  localtimes :: "Localtime list"
  abbreviation_str :: string

text \<open>A \<^verbatim>\<open>TimeZone\<close> is its \<^verbatim>\<open>data_\<close>, \<open>None\<close> for the invalid zone.\<close>

type_synonym TimeZone = "TzData option"

record tm =
  tm_sec :: int
  tm_min :: int
  tm_hour :: int
  tm_mday :: int
  tm_mon :: int
  tm_year :: int
  tm_wday :: int
  tm_yday :: int
  tm_isdst :: int
  tm_gmtoff :: int
  tm_zone :: string

definition tm_zero :: tm where
  "tm_zero = \<lparr>tm_sec = 0, tm_min = 0, tm_hour = 0, tm_mday = 0, tm_mon = 0, tm_year = 0, tm_wday = 0,
     tm_yday = 0, tm_isdst = 0, tm_gmtoff = 0, tm_zone = []\<rparr>"

definition Comp_less :: "bool \<Rightarrow> Transition \<Rightarrow> Transition \<Rightarrow> bool" where
  "Comp_less compareGmt lhs rhs =
     (if compareGmt then gmttime lhs < gmttime rhs else localtime lhs < localtime rhs)"

definition Comp_equal :: "bool \<Rightarrow> Transition \<Rightarrow> Transition \<Rightarrow> bool" where
  "Comp_equal compareGmt lhs rhs =
     (if compareGmt then gmttime lhs = gmttime rhs else localtime lhs = localtime rhs)"

definition fillHMS :: "int \<Rightarrow> tm \<Rightarrow> tm" where
  "fillHMS seconds utc =
     (let utc = utc\<lparr>tm_sec := seconds mod 60\<rparr>;
          minutes = seconds div 60
      in utc\<lparr>tm_min := minutes mod 60, tm_hour := minutes div 60\<rparr>)"

definition kSecondsPerDay :: int where "kSecondsPerDay = 24 * 60 * 60"

text \<open>A conversion to a 32-bit \<^verbatim>\<open>int\<close>.\<close>

definition int32 :: "int \<Rightarrow> int" where
  "int32 i = signed_take_bit 31 i"

definition toUtcTime :: "int \<Rightarrow> bool \<Rightarrow> tm option" where
  "toUtcTime secondsSinceEpoch yday =
     (let utc = tm_zero\<lparr>tm_zone := ''GMT''\<rparr>;
          seconds = int32 (secondsSinceEpoch smod kSecondsPerDay);
          days = int32 (secondsSinceEpoch sdiv kSecondsPerDay)
      in do {
        (seconds, days) \<leftarrow>
          (if seconds < 0 then do { s \<leftarrow> checked (seconds + kSecondsPerDay); d \<leftarrow> checked (days - 1); Some (s, d) }
           else Some (seconds, days));
        let utc = fillHMS seconds utc;
        date \<leftarrow> checked (days + kJulianDayOf1970_01_01);
        ymd \<leftarrow> yearMonthDay date;
        yr \<leftarrow> checked (year ymd - 1900);
        mon \<leftarrow> checked (month ymd - 1);
        wday \<leftarrow> weekDay date;
        let utc = utc\<lparr>tm_year := yr, tm_mon := mon, tm_mday := day ymd, tm_wday := wday\<rparr>;
        if yday
        then do { startOfYear \<leftarrow> Date_ymd (year ymd) 1 1; n \<leftarrow> checked (date - startOfYear); Some (utc\<lparr>tm_yday := n\<rparr>) }
        else Some utc })"

definition fromUtcTime_fields :: "int \<Rightarrow> int \<Rightarrow> int \<Rightarrow> int \<Rightarrow> int \<Rightarrow> int \<Rightarrow> int option" where
  "fromUtcTime_fields yr mon dy hour minute seconds = do {
     date \<leftarrow> Date_ymd yr mon dy;
     h \<leftarrow> checked (hour * 3600);
     m \<leftarrow> checked (minute * 60);
     s \<leftarrow> checked (h + m);
     secondsInDay \<leftarrow> checked (s + seconds);
     days \<leftarrow> checked (date - kJulianDayOf1970_01_01);
     Some (days * kSecondsPerDay + secondsInDay) }"

definition fromUtcTime :: "tm \<Rightarrow> int option" where
  "fromUtcTime utc = do {
     yr \<leftarrow> checked (tm_year utc + 1900);
     mon \<leftarrow> checked (tm_mon utc + 1);
     fromUtcTime_fields yr mon (tm_mday utc) (tm_hour utc) (tm_min utc) (tm_sec utc) }"

text \<open>
  \<^verbatim>\<open>std::lower_bound\<close> on a sequence partitioned by the comparison is the number of elements before
  the sentry.
\<close>

definition std_lower_bound :: "('a \<Rightarrow> 'a \<Rightarrow> bool) \<Rightarrow> 'a list \<Rightarrow> 'a \<Rightarrow> nat" where
  "std_lower_bound cmp xs x = length (takeWhile (\<lambda>y. cmp y x) xs)"

definition nth_opt :: "'a list \<Rightarrow> nat \<Rightarrow> 'a option" where
  "nth_opt xs i = (if i < length xs then Some (xs ! i) else None)"

definition findLocaltime :: "TzData \<Rightarrow> Transition \<Rightarrow> bool \<Rightarrow> Localtime option" where
  "findLocaltime data sentry compareGmt =
     (if transitiions data = [] \<or> Comp_less compareGmt sentry (hd (transitiions data))
      then nth_opt (localtimes data) 0
      else
        let transI = std_lower_bound (Comp_less compareGmt) (transitiions data) sentry
        in if transI \<noteq> length (transitiions data)
           then if \<not> Comp_equal compareGmt sentry (transitiions data ! transI)
                then do {
                  assertm (transI \<noteq> 0);
                  nth_opt (localtimes data) (localtimeIdx (transitiions data ! (transI - 1))) }
                else nth_opt (localtimes data) (localtimeIdx (transitiions data ! transI))
           else nth_opt (localtimes data) (localtimeIdx (last (transitiions data))))"

definition TimeZone_offset :: "int \<Rightarrow> string \<Rightarrow> TimeZone" where
  "TimeZone_offset eastOfUtc name =
     Some \<lparr>transitiions = [], localtimes = [\<lparr>gmtOffset = eastOfUtc, isDst = False, arrbIdx = 0\<rparr>],
           abbreviation_str = name\<rparr>"

definition toLocalTime :: "(int \<Rightarrow> tm) \<Rightarrow> TimeZone \<Rightarrow> int \<Rightarrow> tm option" where
  "toLocalTime gmtime_r tz secondsSinceEpoch = do {
     data \<leftarrow> tz;
     local \<leftarrow> findLocaltime data \<lparr>gmttime = secondsSinceEpoch, localtime = 0, localtimeIdx = 0\<rparr> True;
     let localSeconds = secondsSinceEpoch + gmtOffset local;
     Some ((gmtime_r localSeconds)\<lparr>tm_isdst := of_bool (isDst local), tm_gmtoff := gmtOffset local,
       tm_zone := takeWhile (\<lambda>c. c \<noteq> char_of (0::nat)) (drop (arrbIdx local) (abbreviation_str data))\<rparr>) }"

definition fromLocalTime :: "(int \<Rightarrow> tm) \<Rightarrow> (tm \<Rightarrow> int) \<Rightarrow> TimeZone \<Rightarrow> tm \<Rightarrow> int option" where
  "fromLocalTime gmtime_r timegm tz localTm = do {
     data \<leftarrow> tz;
     let seconds = timegm localTm;
     local \<leftarrow> findLocaltime data \<lparr>gmttime = 0, localtime = seconds, localtimeIdx = 0\<rparr> False;
     if tm_isdst localTm \<noteq> 0
     then do {
       tryTm \<leftarrow> toLocalTime gmtime_r tz (seconds - gmtOffset local);
       if tm_isdst tryTm = 0 \<and> tm_hour tryTm = tm_hour localTm \<and> tm_min tryTm = tm_min localTm
       then Some (seconds - 3600 - gmtOffset local)
       else Some (seconds - gmtOffset local) }
     else Some (seconds - gmtOffset local) }"

section \<open>Zone files\<close>

text \<open>
  A reader consumes bytes or throws \<^verbatim>\<open>logic_error\<close> (\<open>None\<close>). What was stored in \<^verbatim>\<open>data\<close> before an
  exception stays there.
\<close>

definition File_readBytes :: "nat \<Rightarrow> string \<Rightarrow> (string \<times> string) option" where
  "File_readBytes n bs = (if length bs < n then None else Some (take n bs, drop n bs))"

definition File_readInt32 :: "string \<Rightarrow> (int \<times> string) option" where
  "File_readInt32 bs = do {
     (x, bs) \<leftarrow> File_readBytes 4 bs;
     Some (sint (networkToHost32 (word_of_le x)), bs) }"

definition File_readUInt8 :: "string \<Rightarrow> (nat \<times> string) option" where
  "File_readUInt8 bs = do {
     (x, bs) \<leftarrow> File_readBytes 1 bs;
     Some (of_char (hd x), bs) }"

fun read_many :: "(string \<Rightarrow> ('a \<times> string) option) \<Rightarrow> nat \<Rightarrow> string \<Rightarrow> ('a list \<times> string) option" where
  "read_many rd 0 bs = Some ([], bs)"
| "read_many rd (Suc n) bs = do {
     (x, bs) \<leftarrow> rd bs;
     (xs, bs) \<leftarrow> read_many rd n bs;
     Some (x # xs, bs) }"

definition read_type :: "string \<Rightarrow> (Localtime \<times> string) option" where
  "read_type bs = do {
     (gmtoff, bs) \<leftarrow> File_readInt32 bs;
     (isdst, bs) \<leftarrow> File_readUInt8 bs;
     (abbrind, bs) \<leftarrow> File_readUInt8 bs;
     Some (\<lparr>gmtOffset = gmtoff, isDst = isdst \<noteq> 0, arrbIdx = abbrind\<rparr>, bs) }"

text \<open>The loop over the types stops where reading throws; \<open>None\<close> for the rest then.\<close>

fun read_types :: "nat \<Rightarrow> string \<Rightarrow> TzData \<Rightarrow> TzData \<times> string option" where
  "read_types 0 bs data = (data, Some bs)"
| "read_types (Suc n) bs data =
     (case read_type bs of
        None \<Rightarrow> (data, None)
      | Some (lt, bs) \<Rightarrow> read_types n bs (data\<lparr>localtimes := localtimes data @ [lt]\<rparr>))"

fun fill_transitions :: "(int \<times> nat) list \<Rightarrow> TzData \<Rightarrow> TzData option" where
  "fill_transitions [] data = Some data"
| "fill_transitions ((t, localIdx) # ts) data = do {
     lt \<leftarrow> nth_opt (localtimes data) localIdx;
     fill_transitions ts
       (data\<lparr>transitiions := transitiions data @
          [\<lparr>gmttime = t, localtime = t + gmtOffset lt, localtimeIdx = localIdx\<rparr>]\<rparr>) }"

definition read_header :: "string \<Rightarrow> ((int \<times> int \<times> int) \<times> string) option" where
  "read_header bs = do {
     (head, bs) \<leftarrow> File_readBytes 4 bs;
     assertm (head = ''TZif'');
     (version, bs) \<leftarrow> File_readBytes 1 bs;
     (skip, bs) \<leftarrow> File_readBytes 15 bs;
     (isgmtcnt, bs) \<leftarrow> File_readInt32 bs;
     (isstdcnt, bs) \<leftarrow> File_readInt32 bs;
     (leapcnt, bs) \<leftarrow> File_readInt32 bs;
     (timecnt, bs) \<leftarrow> File_readInt32 bs;
     (typecnt, bs) \<leftarrow> File_readInt32 bs;
     (charcnt, bs) \<leftarrow> File_readInt32 bs;
     Some ((timecnt, typecnt, charcnt), bs) }"

text \<open>
  \<^verbatim>\<open>reserve\<close> of a negative count throws \<^verbatim>\<open>length_error\<close>, which is a \<^verbatim>\<open>logic_error\<close>.
\<close>

definition read_times :: "int \<Rightarrow> string \<Rightarrow> ((int \<times> nat) list \<times> string) option" where
  "read_times timecnt bs = do {
     assertm (timecnt \<ge> 0);
     (trs, bs) \<leftarrow> read_many File_readInt32 (nat timecnt) bs;
     (locals, bs) \<leftarrow> read_many File_readUInt8 (nat timecnt) bs;
     Some (zip trs locals, bs) }"

definition readTimeZoneFile :: "string option \<Rightarrow> TzData \<Rightarrow> (bool \<times> TzData) option" where
  "readTimeZoneFile f data =
     (case f of
        None \<Rightarrow> Some (True, data)
      | Some bs \<Rightarrow>
          (case read_header bs of
             None \<Rightarrow> Some (True, data)
           | Some ((timecnt, typecnt, charcnt), bs) \<Rightarrow>
               (case read_times timecnt bs of
                  None \<Rightarrow> Some (True, data)
                | Some (trs, bs) \<Rightarrow>
                    (case read_types (nat typecnt) bs data of
                       (data, None) \<Rightarrow> Some (True, data)
                     | (data, Some bs) \<Rightarrow> do {
                         data \<leftarrow> fill_transitions trs data;
                         assertm (charcnt \<ge> 0);
                         case File_readBytes (nat charcnt) bs of
                           None \<Rightarrow> Some (True, data)
                         | Some (abbrev, bs) \<Rightarrow> Some (True, data\<lparr>abbreviation_str := abbrev\<rparr>) }))))"

definition TimeZone_file :: "string option \<Rightarrow> TimeZone option" where
  "TimeZone_file f = do {
     (ok, data) \<leftarrow> readTimeZoneFile f \<lparr>transitiions = [], localtimes = [], abbreviation_str = []\<rparr>;
     if ok then Some (Some data) else Some None }"

definition TimeZone_valid :: "TimeZone \<Rightarrow> bool" where
  "TimeZone_valid tz \<longleftrightarrow> tz \<noteq> None"

section \<open>Results on time zones\<close>

lemma truncated_floor:
  fixes t K :: int
  assumes "0 < K"
  shows "(if t smod K < 0 then (t smod K + K, t sdiv K - 1) else (t smod K, t sdiv K)) = (t mod K, t div K)"
proof (cases "0 \<le> t")
  case True
  then have "t sdiv K = t div K" using assms by (rule sdiv_eq_div)
  moreover have "t smod K = t mod K" using True assms by (cases "t = 0") (simp_all add: signed_modulo_int_def)
  ultimately show ?thesis using pos_mod_sign [OF assms, of t] by simp
next
  case False
  define q r where "q = (- t) div K" and "r = (- t) mod K"
  have qr: "- t = K * q + r" "0 \<le> r" "r < K" using assms by (simp_all add: q_def r_def)
  have sd: "t sdiv K = - q" using False assms by (simp add: signed_divide_int_def q_def)
  have sm: "t smod K = - r" using False assms by (simp add: signed_modulo_int_def r_def)
  have d: "t div K = - q - (if r = 0 then 0 else 1)"
    by (rule int_div_pos_eq [where r = "if r = 0 then 0 else K - r"]) (use qr in \<open>auto simp: algebra_simps\<close>)
  have m: "t mod K = (if r = 0 then 0 else K - r)"
    by (rule int_mod_pos_eq [where q = "- q - (if r = 0 then 0 else 1)"]) (use qr in \<open>auto simp: algebra_simps\<close>)
  show ?thesis using sd sm d m qr by auto
qed

lemma int32_id: "- (2 ^ 31) \<le> i \<Longrightarrow> i < 2 ^ 31 \<Longrightarrow> int32 i = i"
  unfolding int32_def by (rule signed_take_bit_int_eq_self)

lemma hms_seconds: "(s div 60 div 60) * 3600 + (s div 60 mod 60) * 60 + s mod 60 = (s :: int)"
proof -
  have "60 * (60 * (s div 60 div 60) + s div 60 mod 60) + s mod 60 = s"
    by (simp only: mult_div_mod_eq)
  moreover have "60 * (60 * h + m) + r = s \<Longrightarrow> h * 3600 + m * 60 + r = s" for h m r :: int by simp
  ultimately show ?thesis by blast
qed

lemma ymd_eta [simp]: "\<lparr>year = year x, month = month x, day = day x\<rparr> = x"
  by (cases x) simp

lemma julian_year_bounds:
  assumes "valid_date t"
  shows "365 * (year t + 4799) \<le> julian_number (year t) (month t) (day t) + 32044"
    and "-31672 \<le> julian_number (year t) (month t) (day t) \<Longrightarrow> -4799 \<le> year t"
proof -
  obtain y m where ym: "0 \<le> y" "0 \<le> m" "m \<le> 11" "year t = y - 4800 + m div 10" "month t = m + 3 - 12 * (m div 10)"
    using assms by (rule march_of_valid)
  have d: "1 \<le> day t" "day t \<le> 31"
    using assms by (auto simp: valid_date_def month_days_def split: if_splits)
  define e where "e = day t - 1 + (153 * m + 2) div 5"
  have j: "julian_number (year t) (month t) (day t) = march_days y e - 32044"
    unfolding ym(4,5) e_def by (rule julian_number_march [OF ym(1-3)])
  have e: "0 \<le> e" "e \<le> 370" and m10: "0 \<le> m div 10" "m div 10 \<le> 1"
    using ym(2,3) d by (simp_all add: e_def)
  have y: "year t + 4799 \<le> y" using m10(2) ym(4) by simp
  then have "365 * (year t + 4799) \<le> 365 * y" by (rule mult_left_mono) simp
  then show "365 * (year t + 4799) \<le> julian_number (year t) (month t) (day t) + 32044"
    using march_days_bounds(1) [OF ym(1) e(1)] e(1) unfolding j by (simp only: diff_add_cancel)
  show "-4799 \<le> year t" if "-31672 \<le> julian_number (year t) (month t) (day t)"
  proof (rule ccontr)
    assume "\<not> -4799 \<le> year t"
    then have "year t = -4800" using assms by (simp add: valid_date_def)
    with ym(1,4) m10(1) have "y = 0" by simp
    with e(2) have "march_days y e \<le> 370" by (simp add: march_days_def)
    with that j show False by linarith
  qed
qed

text \<open>From 4801 BC to the year 1370000, \<^verbatim>\<open>toUtcTime\<close> overflows nowhere, gives a valid calendar date and a
  time of day in range (also before 1970, where the C division truncates the wrong way), and
  \<^verbatim>\<open>fromUtcTime\<close> takes it back to the same second.\<close>

theorem utc_round_trip:
  assumes "-2472260 * 86400 \<le> t" and "t \<le> 498000000 * 86400"
  shows "\<exists>u. toUtcTime t yday = Some u \<and> fromUtcTime u = Some t
    \<and> valid_date \<lparr>year = tm_year u + 1900, month = tm_mon u + 1, day = tm_mday u\<rparr>
    \<and> 0 \<le> tm_sec u \<and> tm_sec u < 60 \<and> 0 \<le> tm_min u \<and> tm_min u < 60 \<and> 0 \<le> tm_hour u \<and> tm_hour u < 24"
proof -
  define s d where "s = t mod 86400" and "d = t div 86400"
  have tsd: "t = 86400 * d + s" "0 \<le> s" "s < 86400" by (simp_all add: s_def d_def)
  have d: "-2472260 \<le> d" "d \<le> 498000000" using assms tsd by linarith+
  have fl: "(if t smod 86400 < 0 then (t smod 86400 + 86400, t sdiv 86400 - 1) else (t smod 86400, t sdiv 86400)) = (s, d)"
    using truncated_floor [of 86400 t] by (simp add: s_def d_def)
  have b: "- (2 ^ 31) \<le> t smod 86400" "t smod 86400 < 2 ^ 31" "- (2 ^ 31) \<le> t sdiv 86400" "t sdiv 86400 < 2 ^ 31"
    using fl tsd(2,3) d by (auto split: if_splits)
  have k: "kJulianDayOf1970_01_01 = 2440588" by code_simp
  define n where "n = d + 2440588"
  have j: "-32044 \<le> n" "n \<le> last_julian" "-31672 \<le> n" using d by (simp_all add: n_def last_julian_def)
  define y where "y = julian_date n"
  note jr = julian_round_trip [OF j(1), folded y_def]
  have gy: "yearMonthDay n = Some y" using getYearMonthDay_checked [OF j(1,2)] by (simp add: yearMonthDay_def y_def)
  have gn: "Date_ymd (year y) (month y) (day y) = Some n"
    using getJulianDayNumber_checked [OF jr(2)] jr(1) j(2) by (simp add: Date_ymd_def)
  have yr: "-4799 \<le> year y" "year y \<le> 1400000" "1 \<le> month y" "month y \<le> 12"
    using jr julian_year_bounds [OF jr(2)] j d by (auto simp: valid_date_def n_def)
  have v1: "valid_date \<lparr>year = year y, month = 1, day = 1\<rparr>" using yr by (simp add: valid_date_def month_days_def)
  obtain f where f: "Date_ymd (year y) 1 1 = Some f" "-32044 \<le> f" "f \<le> last_julian"
    using getJulianDayNumber_checked [OF v1] julian_number_bounds [OF v1] yr(2) by (auto simp: Date_ymd_def)
  have floor: "(if int32 (t smod 86400) < 0 then do { s \<leftarrow> checked (int32 (t smod 86400) + 86400); d \<leftarrow> checked (int32 (t sdiv 86400) - 1); Some (s, d) }
      else Some (int32 (t smod 86400), int32 (t sdiv 86400))) = Some (s, d)"
    using fl b d tsd(2,3) by (auto simp: int32_id checked_ok split: if_splits)
  have c: "checked (d + 2440588) = Some n" "checked (year y - 1900) = Some (year y - 1900)" "checked (month y - 1) = Some (month y - 1)"
      "checked (n + 1) = Some (n + 1)" "checked (n - f) = Some (n - f)"
    using d yr f j by (simp_all add: checked_def n_def last_julian_def)
  define u where "u = (fillHMS s (tm_zero\<lparr>tm_zone := ''GMT''\<rparr>))\<lparr>tm_year := year y - 1900, tm_mon := month y - 1,
     tm_mday := day y, tm_wday := (n + 1) smod 7\<rparr>"
  have K: "kSecondsPerDay = 86400" by (simp add: kSecondsPerDay_def)
  have toU: "toUtcTime t yday = Some (if yday then u\<lparr>tm_yday := n - f\<rparr> else u)"
    unfolding toUtcTime_def K Let_def u_def weekDay_def kDaysPerWeek_def
    by (simp only: floor bind.bind_lunit prod.case) (simp add: k c gy f(1))
  have h: "0 \<le> s div 60 div 60" "s div 60 div 60 < 24" using tsd(2,3) by auto
  have m60: "0 \<le> s div 60 mod 60" "s div 60 mod 60 < 60" by simp_all
  have "checked (a * 3600) = Some (a * 3600)" "checked (b * 60) = Some (b * 60)" "checked (a * 3600 + b * 60) = Some (a * 3600 + b * 60)"
    if "0 \<le> a" "a < 24" "0 \<le> b" "b < 60" for a b
    using that by (simp_all add: checked_def)
  note ct = this [OF h m60]
  have "fromUtcTime v = Some t" if "v = (if yday then u\<lparr>tm_yday := n - f\<rparr> else u)" for v
  proof -
    have v: "tm_year v = year y - 1900" "tm_mon v = month y - 1" "tm_mday v = day y" "tm_hour v = s div 60 div 60"
        "tm_min v = s div 60 mod 60" "tm_sec v = s mod 60"
      by (simp_all add: that u_def fillHMS_def)
    have "checked (year y) = Some (year y)" "checked (month y) = Some (month y)" "checked (n - 2440588) = Some d" "checked s = Some s"
      using yr d tsd(2,3) by (simp_all add: checked_def n_def)
    then show ?thesis
      using gn tsd(1) by (simp add: fromUtcTime_def fromUtcTime_fields_def v ct hms_seconds k kSecondsPerDay_def)
  qed
  then show ?thesis
    unfolding toU using jr(2) h by (auto simp: u_def fillHMS_def)
qed

theorem utc_round_trip_witness: "\<exists>u. toUtcTime (-1) True = Some u \<and> fromUtcTime u = Some (-1)"
  using utc_round_trip [of "-1" True] by auto

lemma takeWhile_less_sorted:
  fixes f :: "'a \<Rightarrow> 'b::linorder"
  assumes "sorted_wrt (<) (map f xs)" and "i < length xs"
  shows "f (xs ! i) < v \<longleftrightarrow> i < length (takeWhile (\<lambda>x. f x < v) xs)"
  using assms
proof (induction xs arbitrary: i)
  case (Cons x xs)
  show ?case
  proof (cases i)
    case (Suc j)
    then have j: "j < length xs" using Cons.prems by simp
    have x: "f x < f (xs ! j)" using Cons.prems j by simp
    show ?thesis
    proof (cases "f x < v")
      case True
      then show ?thesis using Cons.IH [of j] Cons.prems j Suc by simp
    next
      case False
      then show ?thesis using x Suc by simp
    qed
  qed (simp split: if_splits)
qed simp

definition transition_key :: "bool \<Rightarrow> Transition \<Rightarrow> int" where
  "transition_key compareGmt t = (if compareGmt then gmttime t else localtime t)"

lemma Comp_key:
  "Comp_less g x y \<longleftrightarrow> transition_key g x < transition_key g y"
  "Comp_equal g x y \<longleftrightarrow> transition_key g x = transition_key g y"
  by (simp_all add: Comp_less_def Comp_equal_def transition_key_def)

lemma findLocaltime_in_force:
  fixes data g
  defines "ts \<equiv> transitiions data"
  assumes "sorted_wrt (<) (map (transition_key g) ts)" and "i < length ts"
    and "transition_key g (ts ! i) \<le> transition_key g s"
    and "Suc i < length ts \<Longrightarrow> transition_key g s < transition_key g (ts ! Suc i)"
  shows "findLocaltime data s g = nth_opt (localtimes data) (localtimeIdx (ts ! i))"
proof -
  let ?k = "transition_key g" and ?L = "std_lower_bound (Comp_less g) ts s"
  have L: "?k (ts ! n) < ?k s \<longleftrightarrow> n < ?L" if "n < length ts" for n
    unfolding std_lower_bound_def Comp_key by (rule takeWhile_less_sorted [OF assms(2) that])
  have mono: "?k (ts ! m) < ?k (ts ! n)" if "m < n" "n < length ts" for m n
    using assms(2) that by (simp add: sorted_wrt_iff_nth_less)
  have le: "?L \<le> length ts" by (simp add: std_lower_bound_def length_takeWhile_le)
  have ne: "ts \<noteq> []" using assms(3) by auto
  have hd: "\<not> ?k s < ?k (hd ts)"
    unfolding hd_conv_nth [OF ne] using mono [of 0 i] assms(3,4) by (cases "i = 0") auto
  show ?thesis
  proof (cases "?k (ts ! i) = ?k s")
    case True
    have "\<not> i < ?L" using L [OF assms(3)] True by simp
    moreover have "i - 1 < ?L" if "0 < i" using L [of "i - 1"] mono [of "i - 1" i] that assms(3) True by simp
    ultimately have "?L = i" by (cases "i = 0") auto
    then show ?thesis
      using True hd ne assms(3) by (simp add: findLocaltime_def ts_def [symmetric] Comp_key)
  next
    case False
    then have i: "i < ?L" using L [OF assms(3)] assms(4) by simp
    moreover have "\<not> Suc i < ?L" using L [of "Suc i"] assms(5) le by fastforce
    ultimately have LS: "?L = Suc i" by simp
    have e: "?k s \<noteq> ?k (ts ! Suc i)" if "Suc i < length ts" using assms(5) that by simp
    have l: "last ts = ts ! i" if "Suc i = length ts" using that [symmetric] ne by (simp add: last_conv_nth)
    show ?thesis
      using LS hd ne e l assms(3) by (auto simp: findLocaltime_def ts_def [symmetric] Comp_key)
  qed
qed

text \<open>C25: with the transitions in increasing order (of universal or of local time, whichever is
  searched), \<^verbatim>\<open>findLocaltime\<close> returns the local time type of the last transition that is not after
  the given time, and the first type of the file before the first transition.\<close>

theorem findLocaltime_correct:
  assumes "sorted_wrt (<) (map (transition_key g) (transitiions data))"
  shows "findLocaltime data s g =
    (case rev (filter (\<lambda>t. transition_key g t \<le> transition_key g s) (transitiions data)) of
       [] \<Rightarrow> nth_opt (localtimes data) 0
     | t # _ \<Rightarrow> nth_opt (localtimes data) (localtimeIdx t))"
proof -
  let ?k = "transition_key g" and ?ts = "transitiions data"
  let ?n = "length (takeWhile (\<lambda>t. ?k t < ?k s + 1) ?ts)"
  have n: "?k (?ts ! i) \<le> ?k s \<longleftrightarrow> i < ?n" if "i < length ?ts" for i
    using takeWhile_less_sorted [OF assms that, of "?k s + 1"] by simp
  have nl: "?n \<le> length ?ts" by (rule length_takeWhile_le)
  have "filter (\<lambda>t. ?k t \<le> ?k s) ?ts = filter (\<lambda>t. ?k t \<le> ?k s) (take ?n ?ts) @ filter (\<lambda>t. ?k t \<le> ?k s) (drop ?n ?ts)"
    by (simp only: filter_append [symmetric] append_take_drop_id)
  also have "filter (\<lambda>t. ?k t \<le> ?k s) (take ?n ?ts) = take ?n ?ts"
    using n nl by (auto simp: filter_id_conv in_set_conv_nth)
  also have "filter (\<lambda>t. ?k t \<le> ?k s) (drop ?n ?ts) = []"
    using n nl by (auto simp: filter_empty_conv in_set_conv_nth)
  finally have f: "filter (\<lambda>t. ?k t \<le> ?k s) ?ts = take ?n ?ts" by simp
  show ?thesis
  proof (cases "?n = 0")
    case True
    then have "?ts = [] \<or> ?k s < ?k (hd ?ts)" using n [of 0] by (cases ?ts) auto
    then show ?thesis unfolding f using True by (auto simp: findLocaltime_def Comp_key)
  next
    case False
    then obtain m where m: "?n = Suc m" by (cases ?n) auto
    then have mt: "m < length ?ts" using nl by simp
    have "rev (take ?n ?ts) = ?ts ! m # rev (take m ?ts)"
      unfolding m using mt by (simp add: take_Suc_conv_app_nth)
    moreover have "findLocaltime data s g = nth_opt (localtimes data) (localtimeIdx (?ts ! m))"
      by (rule findLocaltime_in_force) (use assms mt n [OF mt] m n [of "Suc m"] in auto)
    ultimately show ?thesis unfolding f by simp
  qed
qed

definition demo_zone :: TzData where
  "demo_zone = \<lparr>transitiions = [\<lparr>gmttime = 100, localtime = 3700, localtimeIdx = 1\<rparr>, \<lparr>gmttime = 200, localtime = 200, localtimeIdx = 0\<rparr>],
     localtimes = [\<lparr>gmtOffset = 0, isDst = False, arrbIdx = 0\<rparr>, \<lparr>gmtOffset = 3600, isDst = True, arrbIdx = 4\<rparr>], abbreviation_str = []\<rparr>"

theorem findLocaltime_correct_witness:
  "map_option gmtOffset (findLocaltime demo_zone \<lparr>gmttime = 150, localtime = 0, localtimeIdx = 0\<rparr> True) = Some 3600"
  using findLocaltime_correct [of True demo_zone "\<lparr>gmttime = 150, localtime = 0, localtimeIdx = 0\<rparr>"]
  by (simp add: demo_zone_def transition_key_def nth_opt_def)

text \<open>Reading a zone file never reports failure: a missing file, and any content with a bad
  header, give a zone that is \<^verbatim>\<open>valid()\<close> but has no local time type, so that the first conversion
  runs into undefined behaviour.\<close>

theorem bad_zone_file_valid:
  assumes "f = None \<or> (\<exists>bs. f = Some bs \<and> read_header bs = None)"
  shows "\<exists>tz. TimeZone_file f = Some tz \<and> TimeZone_valid tz \<and> toLocalTime gmtime_r tz t = None"
  using assms
  by (auto simp: TimeZone_file_def readTimeZoneFile_def TimeZone_valid_def toLocalTime_def findLocaltime_def nth_opt_def)

theorem bad_zone_file_valid_witness:
  "\<exists>tz. TimeZone_file (Some ''no zone'') = Some tz \<and> TimeZone_valid tz \<and> toLocalTime (\<lambda>_. tm_zero) tz 0 = None"
  using bad_zone_file_valid [of "Some ''no zone''" "\<lambda>_. tm_zero" 0] by (simp add: read_header_def File_readBytes_def)

end
