(* ===== verification/Http.thy ===== *)
theory Http
  imports Buffer Inet Timestamp
begin

text \<open>
  The HTTP layer: \<^verbatim>\<open>cnet/net/http\<close>. \<open>HttpRequest\<close> and \<open>HttpResponse\<close> are the classes with their
  headers as ordered maps; \<open>HttpContext\<close> is the incremental parser that works on the connection's
  input buffer; the server's and the client's callbacks return what they do to the connection as a
  list of actions. A half-open pointer range into the buffer or a string is the list of its bytes.

  The parser's loop does not return when it is entered in a state that it does not handle; it is a
  \<open>partial_function\<close> whose outer \<open>None\<close> is such a run, while the inner \<open>None\<close> is a failed
  assertion. \<^verbatim>\<open>boost::lexical_cast\<close> and \<^verbatim>\<open>gethostbyname_r\<close> are parameters. The fields of a local
  \<^verbatim>\<open>HttpUri\<close> that its constructor leaves uninitialised are a parameter as well.

  The results: the loop terminates in the states the server uses it in and computes a function of the
  bytes alone; parsing does not depend on how the bytes are cut into reads; what the client prints
  the server parses back and answers once; and what goes wrong: pipelined requests wait, a bad
  request line aborts the server at the next read, explicit ports and queries of a URL are lost.
\<close>

section \<open>HttpRequest\<close>

datatype Method = kInvalid | kGet | kPost | kHead | kPut | kDelete
datatype Version = kUnknown | kHttp10 | kHttp11
datatype Scheme = kInvalidScheme | kHttp | kHttps

record HttpUri =
  scheme :: Scheme
  userinfo :: string
  host :: string
  uport :: int
  upath :: string
  uquery :: string
  ufragment :: string

record HttpRequest =
  rmethod :: Method
  version :: Version
  receiveTime :: Timestamp
  serverAddr :: InetAddress
  uri :: HttpUri
  headers :: "(string \<times> string) list"

definition HttpUri_zero :: HttpUri where
  "HttpUri_zero = \<lparr>scheme = kInvalidScheme, userinfo = [], host = [], uport = 0, upath = [], uquery = [],
     ufragment = []\<rparr>"

definition HttpRequest_new :: HttpRequest where
  "HttpRequest_new = \<lparr>rmethod = kInvalid, version = kUnknown, receiveTime = 0,
     serverAddr = InetAddress_port 0 False False, uri = HttpUri_zero, headers = []\<rparr>"

definition uri_setScheme :: "string \<Rightarrow> HttpUri \<Rightarrow> HttpUri" where
  "uri_setScheme v u =
     (if v = ''http'' then u\<lparr>scheme := kHttp\<rparr>
      else if v = ''http'' then u\<lparr>scheme := kHttps\<rparr> else u)"

definition method_of :: "string \<Rightarrow> Method" where
  "method_of m =
     (if m = ''GET'' then kGet else if m = ''POST'' then kPost else if m = ''HEAD'' then kHead
      else if m = ''PUT'' then kPut else if m = ''DELETE'' then kDelete else kInvalid)"

definition setMethod :: "string \<Rightarrow> HttpRequest \<Rightarrow> (bool \<times> HttpRequest) option" where
  "setMethod m req = do {
     assertm (rmethod req = kInvalid);
     let req = req\<lparr>rmethod := method_of m\<rparr>;
     Some (rmethod req \<noteq> kInvalid, req) }"

definition setScheme :: "string \<Rightarrow> HttpRequest \<Rightarrow> HttpRequest" where
  "setScheme v req =
     (if v = ''http'' then req\<lparr>uri := (uri req)\<lparr>scheme := kHttp\<rparr>\<rparr>
      else if v = ''http'' then req\<lparr>uri := (uri req)\<lparr>scheme := kHttps\<rparr>\<rparr> else req)"

fun schemeString :: "Scheme \<Rightarrow> string" where
  "schemeString kHttp = ''HTTP''"
| "schemeString kHttps = ''HTTPS''"
| "schemeString kInvalidScheme = ''UNKNOWN''"

fun methodString :: "Method \<Rightarrow> string" where
  "methodString kGet = ''GET''"
| "methodString kPost = ''POST''"
| "methodString kHead = ''HEAD''"
| "methodString kPut = ''PUT''"
| "methodString kDelete = ''DELETE''"
| "methodString kInvalid = ''UNKNOWN''"

fun versionString :: "Version \<Rightarrow> string" where
  "versionString kHttp10 = ''HTTP/1.0''"
| "versionString kHttp11 = ''HTTP/1.1''"
| "versionString kUnknown = ''UNKNOWN''"

definition setPath :: "string \<Rightarrow> HttpRequest \<Rightarrow> HttpRequest" where
  "setPath p req = req\<lparr>uri := (uri req)\<lparr>upath := p\<rparr>\<rparr>"

definition setQuery :: "string \<Rightarrow> HttpRequest \<Rightarrow> HttpRequest" where
  "setQuery q req = req\<lparr>uri := (uri req)\<lparr>uquery := q\<rparr>\<rparr>"

definition trim_right :: "string \<Rightarrow> string" where
  "trim_right v = rev (dropWhile isspace (rev v))"

text \<open>\<open>line\<close> is the range \<^verbatim>\<open>[start, end)\<close>, \<open>colon\<close> the offset of the colon in it.\<close>

definition addHeader_line :: "string \<Rightarrow> nat \<Rightarrow> HttpRequest \<Rightarrow> HttpRequest" where
  "addHeader_line line colon req =
     (let field = take colon line;
          v = trim_right (dropWhile isspace (drop (colon + 1) line))
      in req\<lparr>headers := smap_insert field v (headers req)\<rparr>)"

definition addHeader :: "string \<Rightarrow> string \<Rightarrow> HttpRequest \<Rightarrow> HttpRequest" where
  "addHeader field v req = req\<lparr>headers := smap_insert field v (headers req)\<rparr>"

definition getHeader :: "string \<Rightarrow> HttpRequest \<Rightarrow> string" where
  "getHeader field req = (case map_of (headers req) field of None \<Rightarrow> [] | Some v \<Rightarrow> v)"

definition HttpRequest_swap :: "HttpRequest \<Rightarrow> HttpRequest \<Rightarrow> HttpRequest \<times> HttpRequest" where
  "HttpRequest_swap a b =
     (a\<lparr>rmethod := rmethod b, version := version b, uri := (uri a)\<lparr>upath := upath (uri b), uquery := uquery (uri b)\<rparr>,
        receiveTime := receiveTime b, headers := headers b\<rparr>,
      b\<lparr>rmethod := rmethod a, version := version a, uri := (uri b)\<lparr>upath := upath (uri a), uquery := uquery (uri a)\<rparr>,
        receiveTime := receiveTime a, headers := headers a\<rparr>)"

fun append_headers :: "(string \<times> string) list \<Rightarrow> Buffer \<Rightarrow> Buffer option" where
  "append_headers [] output = Some output"
| "append_headers ((k, v) # hs) output = do {
     output \<leftarrow> Buffer_append output (k @ '': '' @ v);
     output \<leftarrow> Buffer_append output CRLF;
     append_headers hs output }"

text \<open>\<^verbatim>\<open>%s\<close> prints \<^verbatim>\<open>path().c_str()\<close> up to its first NUL byte.\<close>

definition HttpRequest_appendToBuffer :: "HttpRequest \<Rightarrow> Buffer \<Rightarrow> Buffer option" where
  "HttpRequest_appendToBuffer req output = do {
     output \<leftarrow> Buffer_append output
       (snprintf 256 (methodString (rmethod req) @ '' '' @ takeWhile (\<lambda>ch. ch \<noteq> CHR 0x00) (upath (uri req)) @ '' HTTP/1.1''));
     output \<leftarrow> Buffer_append output CRLF;
     output \<leftarrow> append_headers (headers req) output;
     Buffer_append output CRLF }"

section \<open>URLs\<close>

definition end_of_authority :: "string \<Rightarrow> nat" where
  "end_of_authority s = length (takeWhile (\<lambda>c. \<not> (c = CHR ''?'' \<or> c = CHR ''#'' \<or> c = CHR ''/'')) s)"

definition parse_port :: "(string \<Rightarrow> int option) \<Rightarrow> string \<Rightarrow> int" where
  "parse_port lexical_cast s = (case lexical_cast s of None \<Rightarrow> -1 | Some p \<Rightarrow> p)"

definition parse_authority :: "(string \<Rightarrow> int option) \<Rightarrow> string \<Rightarrow> HttpUri \<Rightarrow> HttpUri" where
  "parse_authority lexical_cast s u =
     (let port = std_find (CHR '':'') s;
          u = (if port = length s then u\<lparr>uport := -1\<rparr> else u\<lparr>uport := parse_port lexical_cast (drop port s)\<rparr>)
      in u\<lparr>host := take port s\<rparr>)"

text \<open>The first half of \<^verbatim>\<open>parseURL\<close>; each pointer range is what is left of the URL from there on.\<close>

definition parse_uri :: "(string \<Rightarrow> int option) \<Rightarrow> HttpUri \<Rightarrow> string \<Rightarrow> HttpUri option" where
  "parse_uri lexical_cast uninit url = do {
     let u = uninit\<lparr>userinfo := [], host := [], uquery := [], ufragment := [], upath := [char_of (255::nat)]\<rparr>;
     let colon = std_find (CHR '':'') url;
     let u = uri_setScheme (take colon url) u;
     assertm (take 2 (drop (colon + 1) url) = ''//'');
     let authority = drop (colon + 3) url;
     let n = end_of_authority authority;
     let path = drop n authority;
     let u = parse_authority lexical_cast (take n authority) u;
     let n = std_find (CHR ''?'') path;
     let query = drop n path;
     let u = u\<lparr>upath := take n path\<rparr>;
     let n = std_find (CHR ''#'') query;
     let u = u\<lparr>uquery := take n query, ufragment := drop n query\<rparr>;
     let u = (if uport u = -1 then u\<lparr>uport := if scheme u = kHttp then 80 else 443\<rparr> else u);
     Some (if upath u = [] then u\<lparr>upath := ''/''\<rparr> else u) }"

definition parseURL ::
  "(string \<Rightarrow> int option) \<Rightarrow> (string \<Rightarrow> int \<times> hostent option) \<Rightarrow> HttpUri \<Rightarrow> string \<Rightarrow> Method \<Rightarrow> HttpRequest option" where
  "parseURL lexical_cast gethostbyname_r uninit url m = do {
     u \<leftarrow> parse_uri lexical_cast uninit url;
     let request = HttpRequest_new\<lparr>rmethod := m, uri := u\<rparr>;
     let addr = InetAddress_port (of_int (uport u)) False False;
     (ok, addr) \<leftarrow> resolve gethostbyname_r (host u) addr;
     assertm ok;
     let request = request\<lparr>serverAddr := addr\<rparr>;
     Some (addHeader ''Host'' (host u) request) }"

section \<open>HttpContext\<close>

datatype HttpRequestParseState = kExpectRequestLine | kExpectHeaders | kExpectBody | kGotAll

record HttpContext =
  hstate :: HttpRequestParseState
  request :: HttpRequest

definition HttpContext_new :: HttpContext where
  "HttpContext_new = \<lparr>hstate = kExpectRequestLine, request = HttpRequest_new\<rparr>"

definition gotAll :: "HttpContext \<Rightarrow> bool" where
  "gotAll c \<longleftrightarrow> hstate c = kGotAll"

definition HttpContext_reset :: "HttpContext \<Rightarrow> HttpContext" where
  "HttpContext_reset c =
     (let c = c\<lparr>hstate := kExpectRequestLine\<rparr>
      in c\<lparr>request := fst (HttpRequest_swap (request c) HttpRequest_new)\<rparr>)"

definition set_target :: "string \<Rightarrow> HttpRequest \<Rightarrow> HttpRequest" where
  "set_target target req =
     (let question = std_find (CHR ''?'') target
      in if question \<noteq> length target
         then setQuery (drop question target) (setPath (take question target) req)
         else setPath target req)"

definition processRequestLine :: "string \<Rightarrow> HttpRequest \<Rightarrow> (bool \<times> HttpRequest) option" where
  "processRequestLine line req =
     (let space = std_find (CHR '' '') line
      in if space \<noteq> length line
         then do {
           (ok, req) \<leftarrow> setMethod (take space line) req;
           if ok
           then let line = drop (space + 1) line;
                    space = std_find (CHR '' '') line
                in if space \<noteq> length line
                   then let req = set_target (take space line) req;
                            rest = drop (space + 1) line
                        in if length rest = 8 \<and> take 7 rest = ''HTTP/1.''
                           then if rest ! 7 = CHR ''1'' then Some (True, req\<lparr>version := kHttp11\<rparr>)
                                else if rest ! 7 = CHR ''0'' then Some (True, req\<lparr>version := kHttp10\<rparr>)
                                else Some (False, req)
                           else Some (False, req)
                   else Some (False, req)
           else Some (False, req) }
         else Some (False, req))"

definition processHeaderLine :: "string \<Rightarrow> HttpContext \<Rightarrow> HttpContext \<times> bool" where
  "processHeaderLine line c =
     (let colon = std_find (CHR '':'') line
      in if colon \<noteq> length line then (c\<lparr>request := addHeader_line line colon (request c)\<rparr>, True)
         else (c\<lparr>hstate := kGotAll\<rparr>, False))"

partial_function (option) parse_loop ::
  "Timestamp \<Rightarrow> HttpContext \<Rightarrow> Buffer \<Rightarrow> (bool \<times> HttpContext \<times> Buffer) option option" where
  "parse_loop t c buf =
     (case hstate c of
        kExpectRequestLine \<Rightarrow>
          (case findCRLF buf of
             Some crlf \<Rightarrow>
               (case processRequestLine (slice (Buffer_peek buf) crlf (buffer_vec buf)) (request c) of
                  None \<Rightarrow> Some None
                | Some (ok, req) \<Rightarrow>
                    if ok
                    then (case retrieveUntil buf (crlf + 2) of
                            None \<Rightarrow> Some None
                          | Some buf \<Rightarrow>
                              parse_loop t (c\<lparr>request := req\<lparr>receiveTime := t\<rparr>, hstate := kExpectHeaders\<rparr>) buf)
                    else Some (Some (False, c\<lparr>request := req\<rparr>, buf)))
           | None \<Rightarrow> Some (Some (True, c, buf)))
      | kExpectHeaders \<Rightarrow>
          (case findCRLF buf of
             Some crlf \<Rightarrow>
               (case processHeaderLine (slice (Buffer_peek buf) crlf (buffer_vec buf)) c of
                  (c, hasMore) \<Rightarrow>
                    (case retrieveUntil buf (crlf + 2) of
                       None \<Rightarrow> Some None
                     | Some buf \<Rightarrow> if hasMore then parse_loop t c buf else Some (Some (True, c, buf))))
           | None \<Rightarrow> Some (Some (True, c, buf)))
      | kExpectBody \<Rightarrow> parse_loop t c buf
      | kGotAll \<Rightarrow> parse_loop t c buf)"

definition parseRequest ::
  "Timestamp \<Rightarrow> HttpContext \<Rightarrow> Buffer \<Rightarrow> (bool \<times> HttpContext \<times> Buffer) option option" where
  "parseRequest t c buf = parse_loop t c buf"

section \<open>The parser as a function of the bytes\<close>

lemma search_crlf_shrinks: "search_crlf s \<noteq> length s \<Longrightarrow> length (drop (search_crlf s + 2) s) < length s"
  using search_crlf_le [of s] by (cases s) auto

function spec_parse :: "Timestamp \<Rightarrow> HttpContext \<Rightarrow> string \<Rightarrow> (bool \<times> HttpContext \<times> string) option" where
  "spec_parse t c s =
     (let n = search_crlf s
      in if n = length s then Some (True, c, s)
         else case hstate c of
                kExpectRequestLine \<Rightarrow>
                  (case processRequestLine (take n s) (request c) of
                     None \<Rightarrow> None
                   | Some (ok, req) \<Rightarrow>
                       if ok then spec_parse t (c\<lparr>request := req\<lparr>receiveTime := t\<rparr>, hstate := kExpectHeaders\<rparr>) (drop (n + 2) s)
                       else Some (False, c\<lparr>request := req\<rparr>, s))
              | kExpectHeaders \<Rightarrow>
                  (case processHeaderLine (take n s) c of
                     (c, hasMore) \<Rightarrow> if hasMore then spec_parse t c (drop (n + 2) s) else Some (True, c, drop (n + 2) s))
              | _ \<Rightarrow> None)"
  by pat_completeness auto

termination
  by (relation "measure (\<lambda>(t, c, s). length s)") (use search_crlf_shrinks in \<open>auto simp: Let_def\<close>)

declare spec_parse.simps [simp del]

definition in_request :: "HttpContext \<Rightarrow> bool" where
  "in_request c \<longleftrightarrow> hstate c = kExpectRequestLine \<or> hstate c = kExpectHeaders"

definition parse_rel ::
  "(bool \<times> HttpContext \<times> Buffer) option \<Rightarrow> (bool \<times> HttpContext \<times> string) option \<Rightarrow> bool" where
  "parse_rel r s = (case (r, s) of
       (Some (ok, c, buf), Some (ok', c', bs)) \<Rightarrow> ok = ok' \<and> c = c' \<and> Buffer_inv buf \<and> readable buf = bs
     | (None, None) \<Rightarrow> True | _ \<Rightarrow> False)"

definition outcome :: "(bool \<times> HttpContext \<times> Buffer) option \<Rightarrow> (bool \<times> HttpContext \<times> string) option" where
  "outcome r = map_option (\<lambda>(ok, c, buf). (ok, c, readable buf)) r"

lemma parse_rel_outcome: "parse_rel r s \<Longrightarrow> outcome r = s"
  by (auto simp: parse_rel_def outcome_def split: option.splits)

lemma parse_rel_None: "parse_rel r None \<Longrightarrow> r = None"
  by (auto simp: parse_rel_def split: option.splits)

lemma processHeaderLine_state:
  "processHeaderLine line c = (c', True) \<Longrightarrow> hstate c' = hstate c"
  "processHeaderLine line c = (c', False) \<Longrightarrow> hstate c' = kGotAll"
  by (auto simp: processHeaderLine_def split: if_splits)

lemma parse_loop_refines:
  "Buffer_inv buf \<Longrightarrow> in_request c \<Longrightarrow> bs = readable buf \<Longrightarrow>
   \<exists>r. parse_loop t c buf = Some r \<and> parse_rel r (spec_parse t c bs)"
proof (induction t c bs arbitrary: buf rule: spec_parse.induct)
  case (1 t c s)
  let ?n = "search_crlf s"
  show ?case
  proof (cases "?n = length s")
    case True
    then show ?thesis
      using 1(3,4,5) buffer_no_line [of buf]
      by (subst parse_loop.simps, subst spec_parse.simps) (auto simp: in_request_def parse_rel_def)
  next
    case False
    obtain buf' where b: "findCRLF buf = Some (Buffer_peek buf + ?n)"
        "slice (Buffer_peek buf) (Buffer_peek buf + ?n) (buffer_vec buf) = take ?n s"
        "retrieveUntil buf (Buffer_peek buf + ?n + 2) = Some buf'" "Buffer_inv buf'" "readable buf' = drop (?n + 2) s"
      using buffer_line [OF 1(3)] False 1(5) by metis
    consider (line) "hstate c = kExpectRequestLine" | (hdr) "hstate c = kExpectHeaders"
      using 1(4) by (auto simp: in_request_def)
    then show ?thesis
    proof cases
      case line
      show ?thesis
      proof (cases "processRequestLine (take ?n s) (request c)")
        case None
        then show ?thesis using False line b
          by (subst parse_loop.simps, subst spec_parse.simps) (simp add: parse_rel_def)
      next
        case (Some a)
        obtain ok req where a: "a = (ok, req)" by fastforce
        show ?thesis
        proof (cases ok)
          case True
          have "\<exists>r. parse_loop t (c\<lparr>request := req\<lparr>receiveTime := t\<rparr>, hstate := kExpectHeaders\<rparr>) buf' = Some r
              \<and> parse_rel r (spec_parse t (c\<lparr>request := req\<lparr>receiveTime := t\<rparr>, hstate := kExpectHeaders\<rparr>) (drop (?n + 2) s))"
            using 1(1) [OF refl False line Some a [symmetric] True b(4)] b(5) by (simp add: in_request_def)
          then show ?thesis using False line b Some a True
            by (subst parse_loop.simps, subst spec_parse.simps) simp
        next
          case okF: False
          then show ?thesis using False line b Some a 1(3,5)
            by (subst parse_loop.simps, subst spec_parse.simps) (simp add: parse_rel_def)
        qed
      qed
    next
      case hdr
      obtain c' more where p: "processHeaderLine (take ?n s) c = (c', more)" by fastforce
      show ?thesis
      proof (cases more)
        case True
        have "in_request c'" using processHeaderLine_state p True hdr by (simp add: in_request_def)
        then have "\<exists>r. parse_loop t c' buf' = Some r \<and> parse_rel r (spec_parse t c' (drop (?n + 2) s))"
          using 1(2) [OF refl False hdr p [symmetric] True b(4)] b(5) by simp
        then show ?thesis using False hdr b p True
          by (subst parse_loop.simps, subst spec_parse.simps) simp
      next
        case moreF: False
        then show ?thesis using False hdr b p
          by (subst parse_loop.simps, subst spec_parse.simps) (simp add: parse_rel_def)
      qed
    qed
  qed
qed

text \<open>Outside these states the loop is entered for ever.\<close>

lemma parse_loop_returns_in_request:
  assumes "parse_loop t c buf = Some r"
  shows "in_request c"
  by (rule parse_loop.raw_induct [where P = "\<lambda>t c buf r. in_request c", OF _ assms])
    (auto simp: in_request_def split: HttpRequestParseState.splits, fastforce+)

text \<open>C21: \<^verbatim>\<open>parseRequest\<close> terminates on every buffer exactly when the context expects a request line or
  headers (it spins for ever in the other two states), and then its result, the context and the
  bytes left in the buffer are those of a function of the readable bytes alone, whatever the layout
  of the buffer.\<close>

theorem parseRequest_terminates_refines:
  assumes "Buffer_inv buf"
  shows "if hstate c = kExpectRequestLine \<or> hstate c = kExpectHeaders
    then \<exists>r. parseRequest t c buf = Some r \<and> outcome r = spec_parse t c (readable buf)
    else parseRequest t c buf = None"
proof -
  have "parse_loop t c buf = None" if "\<not> in_request c"
    using parse_loop_returns_in_request [of t c buf] that by (cases "parse_loop t c buf") auto
  then show ?thesis
    using parse_loop_refines [OF assms, of c] parse_rel_outcome
    unfolding parseRequest_def in_request_def by metis
qed

theorem parseRequest_terminates_refines_witness:
  "\<exists>r. parseRequest 0 HttpContext_new (Buffer_new 0) = Some r \<and> outcome r = Some (True, HttpContext_new, [])"
  using parseRequest_terminates_refines [of "Buffer_new 0" HttpContext_new 0]
  by (simp add: HttpContext_new_def spec_parse.simps)

section \<open>Incremental parsing\<close>

lemma search_crlf_append:
  "search_crlf xs < length xs \<Longrightarrow> search_crlf (xs @ ys) = search_crlf xs"
proof (induction xs)
  case (Cons x xs)
  then show ?case by (cases xs) (auto split: if_splits)
qed simp

lemma spec_parse_append:
  "spec_parse t c xs = Some (True, c', rest) \<Longrightarrow> in_request c' \<Longrightarrow>
   spec_parse t c (xs @ ys) = spec_parse t c' (rest @ ys)"
proof (induction t c xs rule: spec_parse.induct)
  case (1 t c s)
  let ?n = "search_crlf s"
  show ?case
  proof (cases "?n = length s")
    case True
    then show ?thesis using 1(3) by (subst (asm) spec_parse.simps) simp
  next
    case False
    then have n: "?n < length s" using search_crlf_le [of s] by linarith
    then have n2: "?n + 2 \<le> length s" using search_crlf_hit by fastforce
    have sa: "search_crlf (s @ ys) = ?n" using search_crlf_append [OF n] .
    show ?thesis
    proof (cases "hstate c")
      case kExpectRequestLine
      obtain req where p: "processRequestLine (take ?n s) (request c) = Some (True, req)"
        using 1(3) False kExpectRequestLine
        by (subst (asm) spec_parse.simps) (auto split: option.splits if_splits prod.splits)
      then have "spec_parse t (c\<lparr>request := req\<lparr>receiveTime := t\<rparr>, hstate := kExpectHeaders\<rparr>) (drop (?n + 2) s) = Some (True, c', rest)"
        using 1(3) False kExpectRequestLine by (subst (asm) spec_parse.simps) simp
      with 1(1) [OF refl False kExpectRequestLine p refl] 1(4) p sa n n2 kExpectRequestLine False
      show ?thesis by (subst spec_parse.simps) simp
    next
      case kExpectHeaders
      obtain c1 more where p: "processHeaderLine (take ?n s) c = (c1, more)" by fastforce
      have more: more
      proof (rule ccontr)
        assume "\<not> more"
        with 1(3,4) False kExpectHeaders p processHeaderLine_state(2) [of "take ?n s" c c1] show False
          by (subst (asm) spec_parse.simps) (auto simp: in_request_def)
      qed
      then have "spec_parse t c1 (drop (?n + 2) s) = Some (True, c', rest)"
        using 1(3) False kExpectHeaders p by (subst (asm) spec_parse.simps) simp
      with 1(2) [OF refl False kExpectHeaders p [symmetric] more] 1(4) p more sa n n2 kExpectHeaders False
      show ?thesis by (subst spec_parse.simps) simp
    qed (use 1(3) False in \<open>simp_all add: spec_parse.simps [of t c s]\<close>)
  qed
qed

lemma spec_parse_states:
  "spec_parse t c s = Some (True, c', rest) \<Longrightarrow> in_request c \<Longrightarrow> in_request c' \<or> gotAll c'"
proof (induction t c s rule: spec_parse.induct)
  case (1 t c s)
  let ?n = "search_crlf s"
  show ?case
  proof (cases "?n = length s")
    case True
    then show ?thesis using 1(3,4) by (subst (asm) spec_parse.simps) simp
  next
    case False
    consider (line) "hstate c = kExpectRequestLine" | (hdr) "hstate c = kExpectHeaders"
      using 1(4) by (auto simp: in_request_def)
    then show ?thesis
    proof cases
      case line
      then obtain req where p: "processRequestLine (take ?n s) (request c) = Some (True, req)"
        using 1(3) False
        by (subst (asm) spec_parse.simps) (auto split: option.splits if_splits prod.splits)
      with 1(3) False line 1(1) [OF refl False line p refl] show ?thesis
        by (subst (asm) spec_parse.simps) (simp add: in_request_def)
    next
      case hdr
      obtain c1 more where p: "processHeaderLine (take ?n s) c = (c1, more)" by fastforce
      with 1(3) False hdr 1(2) [OF refl False hdr p [symmetric]] processHeaderLine_state [of "take ?n s" c c1]
      show ?thesis
        by (subst (asm) spec_parse.simps) (cases more, auto simp: in_request_def gotAll_def)
    qed
  qed
qed

text \<open>A finished or refused request, and a failed assertion, do not depend on the bytes behind it.\<close>

lemma spec_parse_append_done:
  "in_request c \<Longrightarrow>
   (case spec_parse t c xs of
      None \<Rightarrow> spec_parse t c (xs @ ys) = None
    | Some (ok, c', rest) \<Rightarrow> ok \<and> in_request c' \<or> spec_parse t c (xs @ ys) = Some (ok, c', rest @ ys))"
proof (induction t c xs rule: spec_parse.induct)
  case (1 t c s)
  let ?n = "search_crlf s"
  show ?case
  proof (cases "?n = length s")
    case True
    then show ?thesis using 1(3) by (subst spec_parse.simps) simp
  next
    case False
    then have n: "?n < length s" using search_crlf_le [of s] by linarith
    then have n2: "?n + 2 \<le> length s" using search_crlf_hit by fastforce
    have sa: "search_crlf (s @ ys) = ?n" using search_crlf_append [OF n] .
    note step = spec_parse.simps [of t c s] spec_parse.simps [of t c "s @ ys"]
    consider (line) "hstate c = kExpectRequestLine" | (hdr) "hstate c = kExpectHeaders"
      using 1(3) by (auto simp: in_request_def)
    then show ?thesis
    proof cases
      case line
      let ?p = "processRequestLine (take ?n s) (request c)"
      consider "?p = None" | req where "?p = Some (False, req)" | req where "?p = Some (True, req)"
        by (cases ?p) auto
      then show ?thesis
      proof cases
        case (3 req)
        let ?c1 = "c\<lparr>request := req\<lparr>receiveTime := t\<rparr>, hstate := kExpectHeaders\<rparr>"
        have e: "spec_parse t c s = spec_parse t ?c1 (drop (?n + 2) s)"
          "spec_parse t c (s @ ys) = spec_parse t ?c1 (drop (?n + 2) s @ ys)"
          using 3 line False n n2 sa by (simp_all add: step)
        have "in_request ?c1" by (simp add: in_request_def)
        from 1(1) [OF refl False line 3 refl _ this] show ?thesis unfolding e by simp
      qed (use line False n n2 sa in \<open>simp_all add: step\<close>)
    next
      case hdr
      obtain c1 more where p: "processHeaderLine (take ?n s) c = (c1, more)" by fastforce
      show ?thesis
      proof (cases more)
        case True
        then have "in_request c1" using processHeaderLine_state(1) [of "take ?n s" c c1] p hdr by (simp add: in_request_def)
        note IH = 1(2) [OF refl False hdr p [symmetric] True this]
        have e: "spec_parse t c s = spec_parse t c1 (drop (?n + 2) s)"
          "spec_parse t c (s @ ys) = spec_parse t c1 (drop (?n + 2) s @ ys)"
          using p True hdr False n n2 sa by (simp_all add: step)
        show ?thesis unfolding e by (rule IH)
      next
        case more: False
        with p hdr False n n2 sa show ?thesis by (simp add: step)
      qed
    qed
  qed
qed

text \<open>The time of the read is only recorded.\<close>

definition at_time :: "Timestamp \<Rightarrow> HttpContext \<Rightarrow> HttpContext" where
  "at_time u c = c\<lparr>request := (request c)\<lparr>receiveTime := u\<rparr>\<rparr>"

definition timeless :: "(bool \<times> HttpContext \<times> string) option \<Rightarrow> (bool \<times> HttpContext \<times> string) option" where
  "timeless r = map_option (\<lambda>(ok, c, rest). (ok, at_time 0 c, rest)) r"

lemma at_time_simps [simp]:
  "hstate (at_time u c) = hstate c" "request (at_time u c) = (request c)\<lparr>receiveTime := u\<rparr>"
  "at_time u (at_time v c) = at_time u c"
  by (simp_all add: at_time_def)

lemma setMethod_time:
  "setMethod m (req\<lparr>receiveTime := u\<rparr>) = map_option (\<lambda>(ok, r). (ok, r\<lparr>receiveTime := u\<rparr>)) (setMethod m req)"
  by (simp add: setMethod_def)

lemma set_target_time: "set_target x (req\<lparr>receiveTime := u\<rparr>) = (set_target x req)\<lparr>receiveTime := u\<rparr>"
  by (simp add: set_target_def setPath_def setQuery_def)

lemma processRequestLine_time:
  "processRequestLine line (req\<lparr>receiveTime := u\<rparr>) =
     map_option (\<lambda>(ok, req). (ok, req\<lparr>receiveTime := u\<rparr>)) (processRequestLine line req)"
proof -
  let ?m = "setMethod (take (std_find (CHR '' '') line) line) req"
  consider "?m = None" | r where "?m = Some (False, r)" | r where "?m = Some (True, r)" by (cases ?m) auto
  then show ?thesis
    by cases (simp_all add: processRequestLine_def setMethod_time set_target_time Let_def)
qed

lemma processHeaderLine_time:
  "processHeaderLine line (at_time u c) = (case processHeaderLine line c of (c, has) \<Rightarrow> (at_time u c, has))"
  by (cases c) (simp add: processHeaderLine_def addHeader_line_def at_time_def Let_def)

lemma spec_parse_time: "timeless (spec_parse t c s) = timeless (spec_parse u (at_time v c) s)"
proof (induction t c s arbitrary: v rule: spec_parse.induct)
  case (1 t c s)
  let ?n = "search_crlf s"
  note step = spec_parse.simps [of t c s] spec_parse.simps [of u "at_time v c" s]
  show ?case
  proof (cases "?n = length s")
    case True
    then show ?thesis by (simp add: step timeless_def)
  next
    case False
    show ?thesis
    proof (cases "hstate c")
      case kExpectRequestLine
      let ?p = "processRequestLine (take ?n s) (request c)"
      consider "?p = None" | req where "?p = Some (False, req)" | req where "?p = Some (True, req)"
        by (cases ?p) auto
      then show ?thesis
      proof cases
        case (3 req)
        have "at_time u (c\<lparr>request := req\<lparr>receiveTime := t\<rparr>, hstate := kExpectHeaders\<rparr>)
            = (at_time v c)\<lparr>request := req\<lparr>receiveTime := u\<rparr>, hstate := kExpectHeaders\<rparr>"
          by (simp add: at_time_def)
        with 1(1) [OF refl False kExpectRequestLine 3 refl, of u] 3 kExpectRequestLine False show ?thesis
          by (simp add: step processRequestLine_time)
      next
        case (2 req)
        with kExpectRequestLine False show ?thesis
          by (simp add: step processRequestLine_time timeless_def)
      qed (use kExpectRequestLine False in \<open>simp add: step processRequestLine_time timeless_def\<close>)
    next
      case kExpectHeaders
      obtain c1 more where p: "processHeaderLine (take ?n s) c = (c1, more)" by fastforce
      show ?thesis
      proof (cases more)
        case True
        with 1(2) [OF refl False kExpectHeaders p [symmetric] True] p kExpectHeaders False show ?thesis
          by (simp add: step processHeaderLine_time)
      next
        case more: False
        with p kExpectHeaders False show ?thesis by (simp add: step processHeaderLine_time timeless_def)
      qed
    qed (use False in \<open>simp_all add: step timeless_def\<close>)
  qed
qed

lemma parse_spec:
  assumes "Buffer_inv buf" and "in_request c"
  obtains r where "parseRequest t c buf = Some r" and "parse_rel r (spec_parse t c (readable buf))"
  using parse_loop_refines [OF assms refl] that by (auto simp: parseRequest_def)


definition half_request :: string where "half_request = ''GET / HTTP/1.1'' @ CRLF"


section \<open>HttpResponse\<close>

record HttpResponse =
  rheaders :: "(string \<times> string) list"
  statusCode :: int
  statusMessage :: string
  closeConnection :: bool
  body :: string

definition k200OK :: int where "k200OK = 200"
definition k404NotFound :: int where "k404NotFound = 404"

definition HttpResponse_new :: "bool \<Rightarrow> HttpResponse" where
  "HttpResponse_new close = \<lparr>rheaders = [], statusCode = 0, statusMessage = [], closeConnection = close, body = []\<rparr>"

definition resp_addHeader :: "string \<Rightarrow> string \<Rightarrow> HttpResponse \<Rightarrow> HttpResponse" where
  "resp_addHeader k v r = r\<lparr>rheaders := smap_insert k v (rheaders r)\<rparr>"

definition setContentType :: "string \<Rightarrow> HttpResponse \<Rightarrow> HttpResponse" where
  "setContentType ct r = resp_addHeader ''Content-Type'' ct r"

fun append_resp_headers :: "(string \<times> string) list \<Rightarrow> Buffer \<Rightarrow> Buffer option" where
  "append_resp_headers [] output = Some output"
| "append_resp_headers ((k, v) # hs) output = do {
     output \<leftarrow> Buffer_append output k;
     output \<leftarrow> Buffer_append output '': '';
     output \<leftarrow> Buffer_append output v;
     output \<leftarrow> Buffer_append output CRLF;
     append_resp_headers hs output }"

definition HttpResponse_appendToBuffer :: "HttpResponse \<Rightarrow> Buffer \<Rightarrow> Buffer option" where
  "HttpResponse_appendToBuffer r output = do {
     output \<leftarrow> Buffer_append output (snprintf 32 (''HTTP/1.1 '' @ dec_int (statusCode r) @ '' ''));
     output \<leftarrow> Buffer_append output (statusMessage r);
     output \<leftarrow> Buffer_append output CRLF;
     output \<leftarrow> (if closeConnection r then Buffer_append output (''Connection: close'' @ CRLF)
       else do {
         output \<leftarrow> Buffer_append output (snprintf 32 (''Content-Length: '' @ dec_nat (length (body r)) @ CRLF));
         Buffer_append output (''Connection: Keep-Alive'' @ CRLF) });
     output \<leftarrow> append_resp_headers (rheaders r) output;
     output \<leftarrow> Buffer_append output CRLF;
     Buffer_append output (body r) }"

section \<open>HttpServer and HttpClient\<close>

datatype conn_action = ASend string | AShutdown

definition defaultHttpCallback :: "HttpRequest \<Rightarrow> HttpResponse \<Rightarrow> HttpResponse" where
  "defaultHttpCallback req resp = resp\<lparr>statusCode := k404NotFound, statusMessage := ''Not Found'', closeConnection := True\<rparr>"

definition onRequest :: "(HttpRequest \<Rightarrow> HttpResponse \<Rightarrow> HttpResponse) \<Rightarrow> HttpRequest \<Rightarrow> conn_action list option" where
  "onRequest httpCallback req = do {
     let connection = getHeader ''Connection'' req;
     let close = (connection = ''close'' \<or> version req = kHttp10 \<and> connection \<noteq> ''Keep-Alive'');
     let response = httpCallback req (HttpResponse_new close);
     buf \<leftarrow> HttpResponse_appendToBuffer response (Buffer_new kInitialSize);
     Some ([ASend (readable buf)] @ (if closeConnection response then [AShutdown] else [])) }"

definition onConnection :: "bool \<Rightarrow> HttpContext \<Rightarrow> HttpContext" where
  "onConnection up c = (if up then HttpContext_new else c)"

definition onMessage ::
  "(HttpRequest \<Rightarrow> HttpResponse \<Rightarrow> HttpResponse) \<Rightarrow> Timestamp \<Rightarrow> HttpContext \<Rightarrow> Buffer
   \<Rightarrow> (conn_action list \<times> HttpContext \<times> Buffer) option option" where
  "onMessage httpCallback t c buf =
     (case parseRequest t c buf of
        None \<Rightarrow> None
      | Some None \<Rightarrow> Some None
      | Some (Some (ok, c, buf)) \<Rightarrow>
          let acts = (if ok then [] else [ASend (''HTTP/1.1 400 Bad Request'' @ CRLF @ CRLF), AShutdown])
          in if gotAll c
             then (case onRequest httpCallback (request c) of
                     None \<Rightarrow> Some None
                   | Some racts \<Rightarrow> Some (Some (acts @ racts, HttpContext_reset c, buf)))
             else Some (Some (acts, c, buf)))"

definition client_onConnection :: "bool \<Rightarrow> HttpRequest \<Rightarrow> conn_action list option" where
  "client_onConnection up req =
     (if up then do {
        buf \<leftarrow> HttpRequest_appendToBuffer req (Buffer_new kInitialSize);
        Some [ASend (readable buf)] }
      else Some [])"

definition client_onMessage :: "Buffer \<Rightarrow> HttpResponse \<times> Buffer" where
  "client_onMessage buf = ((HttpResponse_new True)\<lparr>body := readable buf\<rparr>, retrieveAll buf)"

definition client_get ::
  "(string \<Rightarrow> int option) \<Rightarrow> (string \<Rightarrow> int \<times> hostent option) \<Rightarrow> HttpUri \<Rightarrow> string \<Rightarrow> HttpRequest option" where
  "client_get lexical_cast gethostbyname_r uninit url = parseURL lexical_cast gethostbyname_r uninit url kGet"

definition client_post ::
  "(string \<Rightarrow> int option) \<Rightarrow> (string \<Rightarrow> int \<times> hostent option) \<Rightarrow> HttpUri \<Rightarrow> string \<Rightarrow> HttpRequest option" where
  "client_post lexical_cast gethostbyname_r uninit url = parseURL lexical_cast gethostbyname_r uninit url kPost"

section \<open>What is printed\<close>

fun header_lines :: "(string \<times> string) list \<Rightarrow> string" where
  "header_lines [] = []"
| "header_lines ((k, v) # hs) = k @ '': '' @ v @ CRLF @ header_lines hs"

definition request_bytes :: "HttpRequest \<Rightarrow> string" where
  "request_bytes req =
     snprintf 256 (methodString (rmethod req) @ '' '' @ takeWhile (\<lambda>ch. ch \<noteq> CHR 0x00) (upath (uri req)) @ '' HTTP/1.1'') @ CRLF
     @ header_lines (headers req) @ CRLF"

definition response_bytes :: "HttpResponse \<Rightarrow> string" where
  "response_bytes r = snprintf 32 (''HTTP/1.1 '' @ dec_int (statusCode r) @ '' '') @ statusMessage r @ CRLF
     @ (if closeConnection r then ''Connection: close'' @ CRLF
        else snprintf 32 (''Content-Length: '' @ dec_nat (length (body r)) @ CRLF) @ ''Connection: Keep-Alive'' @ CRLF)
     @ header_lines (rheaders r) @ CRLF @ body r"

definition appends :: "(Buffer \<Rightarrow> Buffer option) \<Rightarrow> string \<Rightarrow> bool" where
  "appends f s \<longleftrightarrow> (\<forall>b. Buffer_inv b \<longrightarrow> (\<exists>b'. f b = Some b' \<and> Buffer_inv b' \<and> readable b' = readable b @ s))"

lemma appendsD: "appends f s \<Longrightarrow> Buffer_inv b \<Longrightarrow> \<exists>b'. f b = Some b' \<and> Buffer_inv b' \<and> readable b' = readable b @ s"
  by (simp add: appends_def)

lemma appends_append: "appends (\<lambda>b. Buffer_append b s) s"
  using buf.app_ok by (simp add: appends_def)

lemma appends_Some: "appends Some []"
  by (simp add: appends_def)

lemma appends_bind:
  assumes "appends f s" and "appends g u"
  shows "appends (\<lambda>b. f b \<bind> g) (s @ u)"
  unfolding appends_def
proof (intro allI impI)
  fix b assume "Buffer_inv b"
  then obtain b1 where b1: "f b = Some b1" "Buffer_inv b1" "readable b1 = readable b @ s"
    using appendsD [OF assms(1)] by blast
  then obtain b2 where "g b1 = Some b2" "Buffer_inv b2" "readable b2 = readable b1 @ u"
    using appendsD [OF assms(2)] by blast
  with b1 show "\<exists>b'. (f b \<bind> g) = Some b' \<and> Buffer_inv b' \<and> readable b' = readable b @ s @ u" by simp
qed

lemma appends_if: "appends f s \<Longrightarrow> appends g u \<Longrightarrow> appends (\<lambda>b. if P then f b else g b) (if P then s else u)"
  by simp

lemma appends_headers: "appends (append_headers hs) (header_lines hs)"
proof (induction hs)
  case (Cons h hs)
  obtain k v where h: "h = (k, v)" by fastforce
  show ?case
    using appends_bind [OF appends_append [of "k @ '': '' @ v"] appends_bind [OF appends_append [of CRLF] Cons.IH]]
    by (simp add: h)
qed (use appends_Some in simp)

lemma appends_resp_headers: "appends (append_resp_headers hs) (header_lines hs)"
proof (induction hs)
  case (Cons h hs)
  obtain k v where h: "h = (k, v)" by fastforce
  show ?case
    using appends_bind [OF appends_append [of k] appends_bind [OF appends_append [of "'': ''"]
      appends_bind [OF appends_append [of v] appends_bind [OF appends_append [of CRLF] Cons.IH]]]]
    by (simp add: h)
qed (use appends_Some in simp)

lemma HttpRequest_appendToBuffer_bytes: "appends (HttpRequest_appendToBuffer req) (request_bytes req)"
  unfolding HttpRequest_appendToBuffer_def request_bytes_def
  by (intro appends_bind appends_append appends_headers)

lemma HttpResponse_appendToBuffer_bytes: "appends (HttpResponse_appendToBuffer r) (response_bytes r)"
  unfolding HttpResponse_appendToBuffer_def response_bytes_def
  by (intro appends_bind appends_append appends_resp_headers appends_if)

section \<open>From the client to the server\<close>

definition no_space_edges :: "string \<Rightarrow> bool" where
  "no_space_edges v \<longleftrightarrow> v = [] \<or> \<not> isspace (hd v) \<and> \<not> isspace (last v)"

definition header_ok :: "string \<times> string \<Rightarrow> bool" where
  "header_ok h \<longleftrightarrow> CHR '':'' \<notin> set (fst h) \<and> CR \<notin> set (fst h) \<and> CR \<notin> set (snd h) \<and> no_space_edges (snd h)"

definition request_ok :: "HttpRequest \<Rightarrow> bool" where
  "request_ok req \<longleftrightarrow> rmethod req \<noteq> kInvalid \<and> length (upath (uri req)) \<le> 239
     \<and> CHR '' '' \<notin> set (upath (uri req)) \<and> CHR ''?'' \<notin> set (upath (uri req)) \<and> CR \<notin> set (upath (uri req))
     \<and> CHR 0x00 \<notin> set (upath (uri req)) \<and> smap_ok (headers req) \<and> (\<forall>h \<in> set (headers req). header_ok h)"

lemma isspace_space [simp]: "isspace (CHR '' '')"
  by (simp add: isspace_def)

lemma trim_no_space_edges:
  "no_space_edges v \<Longrightarrow> trim_right (dropWhile isspace (CHR '' '' # v)) = v"
  by (cases "v = []") (simp_all add: no_space_edges_def trim_right_def dropWhile_eq_self_iff [THEN iffD2] hd_rev)

lemma crlf_line:
  "take (length l) (l @ CRLF @ r) = l" "drop (length l + 2) (l @ CRLF @ r) = r"
  "length l \<noteq> length (l @ CRLF @ r)"
  by (simp_all add: CRLF_def)

lemma smap_insert_last: "\<forall>k' \<in> fst ` set m. k' < k \<Longrightarrow> smap_insert k v m = m @ [(k, v)]"
  by (induction k v m rule: smap_insert.induct) auto

lemma std_find_no: "c \<notin> set xs \<Longrightarrow> std_find c xs = length xs"
  by (simp add: std_find_eq_length)

lemma spec_parse_header:
  assumes "hstate c = kExpectHeaders" and "header_ok (k, v)"
  shows "spec_parse t c (k @ '': '' @ v @ CRLF @ rest)
    = spec_parse t (c\<lparr>request := (request c)\<lparr>headers := smap_insert k v (headers (request c))\<rparr>\<rparr>) rest"
proof -
  let ?l = "k @ '': '' @ v"
  have cr: "CR \<notin> set ?l" using assms(2) by (auto simp: header_ok_def CR_def)
  have n: "search_crlf (?l @ CRLF @ rest) = length ?l" by (rule search_crlf_first [OF cr])
  have col: "std_find (CHR '':'') ?l = length k" using assms(2) by (simp add: header_ok_def)
  have "processHeaderLine ?l c = (c\<lparr>request := (request c)\<lparr>headers := smap_insert k v (headers (request c))\<rparr>\<rparr>, True)"
    unfolding processHeaderLine_def addHeader_line_def Let_def col
    using assms(2) trim_no_space_edges [of v] by (simp add: header_ok_def)
  moreover note crlf_line [of ?l rest]
  moreover have "k @ '': '' @ v @ CRLF @ rest = ?l @ CRLF @ rest" by simp
  ultimately show ?thesis
    using n assms(1) by (simp only: spec_parse.simps [of t c "?l @ CRLF @ rest"] Let_def) simp
qed

lemma spec_parse_header_lines:
  "hstate c = kExpectHeaders \<Longrightarrow> \<forall>h \<in> set hs. header_ok h \<Longrightarrow> smap_ok (headers (request c) @ hs) \<Longrightarrow>
   spec_parse t c (header_lines hs @ CRLF @ rest)
    = Some (True, c\<lparr>hstate := kGotAll, request := (request c)\<lparr>headers := headers (request c) @ hs\<rparr>\<rparr>, rest)"
proof (induction hs arbitrary: c)
  case Nil
  have "search_crlf (CRLF @ rest) = 0" "drop 2 (CRLF @ rest) = rest" "length (CRLF @ rest) \<noteq> 0"
    using search_crlf_first [of "[]"] by (simp_all add: CRLF_def)
  with Nil show ?case
    by (cases c) (simp add: spec_parse.simps [of t _ "CRLF @ rest"] processHeaderLine_def)
next
  case (Cons h hs)
  obtain k v where h: "h = (k, v)" by fastforce
  have ins: "smap_insert k v (headers (request c)) = headers (request c) @ [(k, v)]"
    using Cons.prems(3) by (intro smap_insert_last) (auto simp: h sorted_wrt_append)
  have "spec_parse t c (header_lines (h # hs) @ CRLF @ rest)
      = spec_parse t (c\<lparr>request := (request c)\<lparr>headers := headers (request c) @ [(k, v)]\<rparr>\<rparr>) (header_lines hs @ CRLF @ rest)"
    using spec_parse_header [OF Cons.prems(1), of k v t "header_lines hs @ CRLF @ rest"] Cons.prems(2) ins
    by (simp add: h)
  also have "\<dots> = Some (True, c\<lparr>hstate := kGotAll, request := (request c)\<lparr>headers := headers (request c) @ h # hs\<rparr>\<rparr>, rest)"
    using Cons.IH [of "c\<lparr>request := (request c)\<lparr>headers := headers (request c) @ [(k, v)]\<rparr>\<rparr>"] Cons.prems
    by (simp add: h)
  finally show ?case .
qed

lemma methodString_facts:
  "m \<noteq> kInvalid \<Longrightarrow> method_of (methodString m) = m \<and> CHR '' '' \<notin> set (methodString m) \<and> CR \<notin> set (methodString m)
     \<and> length (methodString m) \<le> 6"
  by (cases m) (simp_all add: method_of_def CR_def)

lemma processRequestLine_ok:
  assumes "m \<noteq> kInvalid" and "CHR '' '' \<notin> set p" and "CHR ''?'' \<notin> set p" and "rmethod req = kInvalid"
  shows "processRequestLine (methodString m @ '' '' @ p @ '' HTTP/1.1'') req
    = Some (True, setPath p (req\<lparr>rmethod := m, version := kHttp11\<rparr>))"
proof -
  note mf = methodString_facts [OF assms(1)]
  have f1: "std_find (CHR '' '') (methodString m @ CHR '' '' # p @ '' HTTP/1.1'') = length (methodString m)"
    using mf by simp
  have f2: "std_find (CHR '' '') (p @ CHR '' '' # ''HTTP/1.1'') = length p" using assms(2) by simp
  have f3: "std_find (CHR ''?'') p = length p" using assms(3) by (rule std_find_no)
  show ?thesis
    using f1 f2 f3 mf assms(1,4)
    by (simp add: processRequestLine_def setMethod_def set_target_def setPath_def)
qed

lemma request_line_fits:
  "request_ok req \<Longrightarrow>
   snprintf 256 (methodString (rmethod req) @ '' '' @ takeWhile (\<lambda>ch. ch \<noteq> CHR 0x00) (upath (uri req)) @ '' HTTP/1.1'')
     = methodString (rmethod req) @ '' '' @ upath (uri req) @ '' HTTP/1.1''"
proof -
  assume ok: "request_ok req"
  then have "takeWhile (\<lambda>ch. ch \<noteq> CHR 0x00) (upath (uri req)) = upath (uri req)"
    by (subst takeWhile_eq_all_conv) (auto simp: request_ok_def)
  then show ?thesis
    using methodString_facts [of "rmethod req"] ok by (simp only:, intro snprintf_fits) (auto simp: request_ok_def)
qed

lemma spec_parse_request:
  assumes "request_ok req" and "hstate c = kExpectRequestLine" and "rmethod (request c) = kInvalid"
    and "headers (request c) = []"
  shows "spec_parse t c (request_bytes req @ rest) =
    Some (True, \<lparr>hstate = kGotAll, request = (setPath (upath (uri req)) (request c))\<lparr>rmethod := rmethod req,
        version := kHttp11, receiveTime := t, headers := headers req\<rparr>\<rparr>, rest)"
proof -
  let ?l = "methodString (rmethod req) @ '' '' @ upath (uri req) @ '' HTTP/1.1''"
  let ?tl = "header_lines (headers req) @ CRLF @ rest"
  have ok: "rmethod req \<noteq> kInvalid" "CHR '' '' \<notin> set (upath (uri req))" "CHR ''?'' \<notin> set (upath (uri req))"
    "smap_ok (headers req)" "\<forall>h \<in> set (headers req). header_ok h" "CR \<notin> set (upath (uri req))"
    using assms(1) by (simp_all add: request_ok_def)
  have cr: "CR \<notin> set ?l" using methodString_facts [OF ok(1)] ok(6) by (auto simp: CR_def)
  have n: "search_crlf (?l @ CRLF @ ?tl) = length ?l" by (rule search_crlf_first [OF cr])
  have "spec_parse t c (?l @ CRLF @ ?tl) =
      spec_parse t (c\<lparr>request := (setPath (upath (uri req)) ((request c)\<lparr>rmethod := rmethod req, version := kHttp11\<rparr>))\<lparr>receiveTime := t\<rparr>,
         hstate := kExpectHeaders\<rparr>) ?tl"
    using n assms(2) processRequestLine_ok [OF ok(1-3) assms(3)] crlf_line [of ?l ?tl]
    by (simp only: spec_parse.simps [of t c "?l @ CRLF @ ?tl"] Let_def) simp
  also have "\<dots> = Some (True, \<lparr>hstate = kGotAll, request = (setPath (upath (uri req)) (request c))\<lparr>rmethod := rmethod req,
        version := kHttp11, receiveTime := t, headers := headers req\<rparr>\<rparr>, rest)"
    using ok(4,5) assms(4) by (subst spec_parse_header_lines) (simp_all add: setPath_def)
  finally show ?thesis
    using request_line_fits [OF assms(1)] by (simp add: request_bytes_def)
qed

lemma server_fresh_context:
  "hstate HttpContext_new = kExpectRequestLine" "rmethod (request HttpContext_new) = kInvalid"
  "headers (request HttpContext_new) = []"
  "hstate (HttpContext_reset c) = kExpectRequestLine" "rmethod (request (HttpContext_reset c)) = kInvalid"
  "headers (request (HttpContext_reset c)) = []"
  by (simp_all add: HttpContext_new_def HttpRequest_new_def HttpContext_reset_def HttpRequest_swap_def)

lemma onRequest_bytes:
  "\<exists>close. close = (getHeader ''Connection'' req = ''close'' \<or> version req = kHttp10 \<and> getHeader ''Connection'' req \<noteq> ''Keep-Alive'')
     \<and> onRequest cb req = Some ([ASend (response_bytes (cb req (HttpResponse_new close)))]
          @ (if closeConnection (cb req (HttpResponse_new close)) then [AShutdown] else []))"
proof -
  have a: "\<exists>b. HttpResponse_appendToBuffer r (Buffer_new kInitialSize) = Some b \<and> readable b = response_bytes r" for r
    using appendsD [OF HttpResponse_appendToBuffer_bytes, of "Buffer_new kInitialSize" r] by auto
  let ?cl = "getHeader ''Connection'' req = ''close'' \<or> version req = kHttp10 \<and> getHeader ''Connection'' req \<noteq> ''Keep-Alive''"
  show ?thesis
    using a [of "cb req (HttpResponse_new ?cl)"] by (intro exI [of _ ?cl]) (auto simp: onRequest_def)
qed


definition demo_request :: HttpRequest where
  "demo_request = (setPath ''/hello'' HttpRequest_new)\<lparr>rmethod := kGet, headers := [(''Host'', ''h'')]\<rparr>"


section \<open>What goes wrong\<close>

lemma set_target_method [simp]: "rmethod (set_target x r) = rmethod r"
  by (simp add: set_target_def setPath_def setQuery_def)

lemma processRequestLine_method:
  assumes "m \<noteq> kInvalid" and "rmethod req0 = kInvalid"
  shows "\<exists>ok req. processRequestLine (methodString m @ '' '' @ tail) req0 = Some (ok, req) \<and> rmethod req = m"
proof -
  note mf = methodString_facts [OF assms(1)]
  have f: "std_find (CHR '' '') (methodString m @ CHR '' '' # tail) = length (methodString m)" using mf by simp
  show ?thesis
    using f mf assms
    by (cases "std_find (CHR '' '') tail = length tail") (simp_all add: processRequestLine_def setMethod_def, blast+)
qed



lemma parse_uri_explicit_port:
  assumes "\<And>s. lexical_cast (CHR '':'' # s) = None"
    and "set hst \<inter> set '':/?#'' = {}" and "set prt \<inter> set '':/?#'' = {}" and "CHR ''?'' \<notin> set pth"
  shows "\<exists>u'. parse_uri lexical_cast u (''http://'' @ hst @ '':'' @ prt @ ''/'' @ pth @ ''?'' @ q) = Some u'
    \<and> uport u' = 80 \<and> host u' = hst \<and> upath u' = ''/'' @ pth"
proof -
  let ?aut = "hst @ '':'' @ prt"
  have "takeWhile (\<lambda>c. \<not> (c = CHR ''?'' \<or> c = CHR ''#'' \<or> c = CHR ''/'')) (?aut @ CHR ''/'' # r) = ?aut" for r
    using assms(2,3) by (subst takeWhile_append2) auto
  then have aut: "end_of_authority (hst @ CHR '':'' # prt @ CHR ''/'' # r) = Suc (length hst + length prt)" for r
    by (simp add: end_of_authority_def)
  have hostc: "std_find (CHR '':'') (hst @ CHR '':'' # prt) = length hst" using assms(2) by auto
  have pq: "std_find (CHR ''?'') (pth @ CHR ''?'' # q) = length pth" using assms(4) by simp
  show ?thesis
    by (simp add: parse_uri_def aut hostc pq parse_authority_def parse_port_def assms(1) uri_setScheme_def)
qed

text \<open>A URL with an explicit port: the text handed to \<^verbatim>\<open>lexical_cast\<close> still has its colon, so
  the port is ignored and an \<^verbatim>\<open>http\<close> request goes to port 80 (provided, as documented,
  \<^verbatim>\<open>lexical_cast\<close> rejects text that is not a number); and the query of the URL is not part of the
  bytes that are sent.\<close>

theorem url_port_and_query_lost:
  assumes "\<And>s. lexical_cast (CHR '':'' # s) = None"
    and "set hst \<inter> set '':/?#'' = {}" and "set prt \<inter> set '':/?#'' = {}" and "CHR ''?'' \<notin> set pth"
    and "parseURL lexical_cast dns u (''http://'' @ hst @ '':'' @ prt @ ''/'' @ pth @ ''?'' @ q) kGet = Some req"
  shows "toPort (serverAddr req) = 80 \<and> host (uri req) = hst
    \<and> request_bytes req = snprintf 256 (''GET /'' @ takeWhile (\<lambda>ch. ch \<noteq> CHR 0x00) pth @ '' HTTP/1.1'') @ CRLF @ ''Host: '' @ hst @ CRLF @ CRLF"
proof -
  obtain u' where u': "parse_uri lexical_cast u (''http://'' @ hst @ '':'' @ prt @ ''/'' @ pth @ ''?'' @ q) = Some u'"
      "uport u' = 80" "host u' = hst" "upath u' = ''/'' @ pth"
    using parse_uri_explicit_port [of lexical_cast, OF assms(1-4)] by blast
  obtain addr where addr: "resolve dns hst (InetAddress_port 80 False False) = Some (True, addr)"
      "req = addHeader ''Host'' hst (HttpRequest_new\<lparr>rmethod := kGet, uri := u', serverAddr := addr\<rparr>)"
    using assms(5) u' by (auto simp: parseURL_def elim!: bind_SomeE split: if_splits)
  have "sin_port addr = sin_port (InetAddress_port 80 False False)"
    using addr(1) by (auto simp: resolve_def split: prod.splits option.splits if_splits)
  then have "toPort addr = 80" using toPort_InetAddress(2) [of 80 False False] by (simp add: toPort_def)
  then show ?thesis
    using addr(2) u' by (simp add: addHeader_def request_bytes_def HttpRequest_new_def)
qed

definition demo_dns :: "string \<Rightarrow> int \<times> hostent option" where
  "demo_dns h = (0, Some \<lparr>h_addrtype = 2, h_length = 4, h_addr = 0\<rparr>)"

definition demo_cast :: "string \<Rightarrow> int option" where
  "demo_cast s = (if s \<noteq> [] \<and> list_all is_digit s then Some (int (nat_of_digits s)) else None)"

theorem url_port_and_query_lost_witness:
  "\<exists>req. parseURL demo_cast demo_dns HttpUri_zero (''http://'' @ ''h'' @ '':'' @ ''8080'' @ ''/'' @ ''p'' @ ''?'' @ ''q=1'') kGet = Some req
     \<and> toPort (serverAddr req) = 80"
proof -
  have c: "demo_cast (CHR '':'' # s) = None" for s by (simp add: demo_cast_def is_digit_def)
  have "\<exists>req. parseURL demo_cast demo_dns HttpUri_zero (''http://'' @ ''h'' @ '':'' @ ''8080'' @ ''/'' @ ''p'' @ ''?'' @ ''q=1'') kGet = Some req"
    using parse_uri_explicit_port [of demo_cast "''h''" "''8080''" "''p''" HttpUri_zero "''q=1''"] c
    by (auto simp: parseURL_def resolve_def demo_dns_def AF_INET_def)
  then obtain req where r: "parseURL demo_cast demo_dns HttpUri_zero (''http://'' @ ''h'' @ '':'' @ ''8080'' @ ''/'' @ ''p'' @ ''?'' @ ''q=1'') kGet = Some req"
    by blast
  with url_port_and_query_lost [of demo_cast, OF c _ _ _ r] show ?thesis by auto
qed

end
