(* ===== verification/Memcache_Store.thy ===== *)
theory Memcache_Store
  imports Buffer
begin

text \<open>
  The storage of the memcached example: \<^verbatim>\<open>examples/memcached/server/Item.h\<close>, \<^verbatim>\<open>Item.cc\<close> and the table
  of \<^verbatim>\<open>MemcacheServer.h\<close>, \<^verbatim>\<open>MemcacheServer.cc\<close>. An item owns one block with the key and, behind it, the
  value with its final CR LF; the block is filled piecewise. The table is an array of 4096 hash sets,
  each with a lock that is held during one operation, so that the operations are atomic.
  \<^verbatim>\<open>boost::hash_range\<close> is a parameter. A fresh block is all zero (\<^verbatim>\<open>malloc\<close> leaves it unspecified; it is
  never read before it is written).

  The result: for every hash function the sharded table behaves as one map from keys to entries, with
  the six update policies as specified there.
\<close>

section \<open>Item\<close>

datatype UpdatePolicy = pInvalid | kSet | kAdd | kReplace | kAppend | kPrepend | kCas

record Item =
  keylen :: nat
  iflags :: "32 word"
  rel_exptime :: int
  valuelen :: int
  receivedBytes :: nat
  icas :: "64 word"
  ihash :: "64 word"
  idata :: string

definition totalLen :: "Item \<Rightarrow> int" where
  "totalLen it = int (keylen it) + valuelen it"

text \<open>An \<^verbatim>\<open>int\<close> difference converted to \<^verbatim>\<open>size_t\<close>.\<close>

definition neededBytes :: "Item \<Rightarrow> nat" where
  "neededBytes it = nat ((totalLen it - int (receivedBytes it)) mod 2 ^ 64)"

definition Item_append :: "string \<Rightarrow> Item \<Rightarrow> Item option" where
  "Item_append data it = do {
     assertm (length data \<le> neededBytes it);
     let it = it\<lparr>idata := overwrite (idata it) (receivedBytes it) data,
                 receivedBytes := receivedBytes it + length data\<rparr>;
     assertm (int (receivedBytes it) \<le> totalLen it);
     Some it }"

text \<open>\<^verbatim>\<open>totalLen()\<close> is an \<^verbatim>\<open>int\<close>: its overflow is undefined.\<close>

definition makeItem ::
  "(string \<Rightarrow> 64 word) \<Rightarrow> string \<Rightarrow> 32 word \<Rightarrow> int \<Rightarrow> int \<Rightarrow> 64 word \<Rightarrow> Item option" where
  "makeItem hash_range keyArg flagsArg exptimeArg vlen casArg = do {
     let it = \<lparr>keylen = length keyArg, iflags = flagsArg, rel_exptime = exptimeArg, valuelen = vlen,
               receivedBytes = 0, icas = casArg, ihash = hash_range keyArg,
               idata = replicate (nat (int (length keyArg) + vlen)) (CHR 0x00)\<rparr>;
     assertm (totalLen it < 2 ^ 31);
     assertm (valuelen it \<ge> 2);
     assertm (int (receivedBytes it) < totalLen it);
     Item_append keyArg it }"

definition ikey :: "Item \<Rightarrow> string" where
  "ikey it = take (keylen it) (idata it)"

definition ivalue :: "Item \<Rightarrow> string" where
  "ivalue it = take (nat (valuelen it)) (drop (keylen it) (idata it))"

definition endsWithCRLF :: "Item \<Rightarrow> bool" where
  "endsWithCRLF it \<longleftrightarrow> int (receivedBytes it) = totalLen it
     \<and> idata it ! nat (totalLen it - 2) = CR \<and> idata it ! nat (totalLen it - 1) = LF"

definition setCas :: "64 word \<Rightarrow> Item \<Rightarrow> Item" where
  "setCas c it = it\<lparr>icas := c\<rparr>"

definition Item_output :: "bool \<Rightarrow> Item \<Rightarrow> Buffer \<Rightarrow> Buffer option" where
  "Item_output needCas it out = do {
     out \<leftarrow> Buffer_append out ''VALUE '';
     out \<leftarrow> Buffer_append out (take (keylen it) (idata it));
     let buf = '' '' @ dec_nat (unat (iflags it)) @ '' '' @ dec_int (valuelen it - 2)
               @ (if needCas then '' '' @ dec_nat (unat (icas it)) else []) @ CRLF;
     out \<leftarrow> Buffer_append out buf;
     Buffer_append out (ivalue it) }"

definition resetKey :: "(string \<Rightarrow> 64 word) \<Rightarrow> string \<Rightarrow> Item \<Rightarrow> Item option" where
  "resetKey hash_range k it = do {
     assertm (length k \<le> 250);
     let it = it\<lparr>keylen := length k, receivedBytes := 0\<rparr>;
     it \<leftarrow> Item_append k it;
     Some (it\<lparr>ihash := hash_range k\<rparr>) }"

section \<open>MemcacheServer\<close>

definition kShards :: nat where "kShards = 4096"

record MemcacheServer =
  shards :: "nat \<Rightarrow> Item list"
  g_cas :: "64 word"
  startTime :: int

definition shard_of :: "Item \<Rightarrow> nat" where
  "shard_of it = unat (ihash it) mod kShards"

definition incrementAndGet :: "MemcacheServer \<Rightarrow> 64 word \<times> MemcacheServer" where
  "incrementAndGet m = (g_cas m + 1, m\<lparr>g_cas := g_cas m + 1\<rparr>)"

text \<open>The hash set compares keys.\<close>

definition items_find :: "Item \<Rightarrow> Item list \<Rightarrow> Item option" where
  "items_find it items = find (\<lambda>x. ikey x = ikey it) items"

definition items_erase :: "Item \<Rightarrow> Item list \<Rightarrow> Item list" where
  "items_erase it items = filter (\<lambda>x. ikey x \<noteq> ikey it) items"

definition items_insert :: "Item \<Rightarrow> Item list \<Rightarrow> Item list" where
  "items_insert it items = (if items_find it items = None then items @ [it] else items)"

definition put_shard :: "Item \<Rightarrow> Item list \<Rightarrow> MemcacheServer \<Rightarrow> MemcacheServer" where
  "put_shard it items m = m\<lparr>shards := (shards m)(shard_of it := items)\<rparr>"

definition concat_items ::
  "(string \<Rightarrow> 64 word) \<Rightarrow> UpdatePolicy \<Rightarrow> Item \<Rightarrow> Item \<Rightarrow> 64 word \<Rightarrow> Item option" where
  "concat_items hash_range policy item oldItem c = do {
     let newLen = signed_take_bit 31 (valuelen item + valuelen oldItem - 2);
     newItem \<leftarrow> makeItem hash_range (ikey item) (iflags oldItem) (rel_exptime oldItem) newLen c;
     newItem \<leftarrow> (if policy = kAppend
       then do {
         n \<leftarrow> Item_append (take (nat (valuelen oldItem - 2)) (ivalue oldItem)) newItem;
         Item_append (ivalue item) n }
       else do {
         n \<leftarrow> Item_append (take (nat (valuelen item - 2)) (ivalue item)) newItem;
         Item_append (ivalue oldItem) n });
     assertm (neededBytes newItem = 0);
     assertm (endsWithCRLF newItem);
     Some newItem }"

definition storeItem ::
  "(string \<Rightarrow> 64 word) \<Rightarrow> Item \<Rightarrow> UpdatePolicy \<Rightarrow> MemcacheServer \<Rightarrow> (bool \<times> bool \<times> MemcacheServer) option" where
  "storeItem hash_range item policy m = do {
     assertm (neededBytes item = 0);
     let items = shards m (shard_of item);
     let old = items_find item items;
     let present = (old \<noteq> None);
     case policy of
       kSet \<Rightarrow>
         let (c, m) = incrementAndGet m;
             item = setCas c item;
             items = (if present then items_erase item items else items)
         in Some (True, present, put_shard item (items_insert item items) m)
     | kAdd \<Rightarrow>
         if present then Some (False, present, m)
         else let (c, m) = incrementAndGet m;
                  item = setCas c item
              in Some (True, present, put_shard item (items_insert item items) m)
     | kReplace \<Rightarrow>
         if present
         then let (c, m) = incrementAndGet m;
                  item = setCas c item
              in Some (True, present, put_shard item (items_insert item (items_erase item items)) m)
         else Some (False, present, m)
     | kCas \<Rightarrow>
         (case old of
            Some it \<Rightarrow>
              if icas it = icas item
              then let (c, m) = incrementAndGet m;
                       item = setCas c item
                   in Some (True, present, put_shard item (items_insert item (items_erase item items)) m)
              else Some (False, present, m)
          | None \<Rightarrow> Some (False, present, m))
     | pInvalid \<Rightarrow> Some (True, present, m)
     | _ \<Rightarrow>
         (case old of
            Some oldItem \<Rightarrow> do {
              let (c, m) = incrementAndGet m;
              newItem \<leftarrow> concat_items hash_range policy item oldItem c;
              Some (True, present, put_shard item (items_insert newItem (items_erase item items)) m) }
          | None \<Rightarrow> Some (False, present, m)) }"

definition getItem :: "Item \<Rightarrow> MemcacheServer \<Rightarrow> Item option" where
  "getItem k m = items_find k (shards m (shard_of k))"

definition deleteItem :: "Item \<Rightarrow> MemcacheServer \<Rightarrow> bool \<times> MemcacheServer" where
  "deleteItem k m =
     (let items = shards m (shard_of k)
      in (items_find k items \<noteq> None, put_shard k (items_erase k items) m))"

section \<open>The table as a map\<close>

record entry =
  e_flags :: "32 word"
  e_exptime :: int
  e_value :: string
  e_cas :: "64 word"

definition entry_of :: "Item \<Rightarrow> entry" where
  "entry_of it = \<lparr>e_flags = iflags it, e_exptime = rel_exptime it, e_value = ivalue it, e_cas = icas it\<rparr>"

definition table :: "(string \<Rightarrow> 64 word) \<Rightarrow> MemcacheServer \<Rightarrow> string \<rightharpoonup> entry" where
  "table hash_range m k =
     map_option entry_of (find (\<lambda>x. ikey x = k) (shards m (unat (hash_range k) mod kShards)))"

text \<open>An item that has been received completely.\<close>

definition item_ok :: "(string \<Rightarrow> 64 word) \<Rightarrow> Item \<Rightarrow> bool" where
  "item_ok hash_range it \<longleftrightarrow> 2 \<le> valuelen it \<and> length (idata it) = nat (totalLen it) \<and> endsWithCRLF it
     \<and> totalLen it < 2 ^ 31 \<and> ihash it = hash_range (ikey it)"

definition store_inv :: "(string \<Rightarrow> 64 word) \<Rightarrow> MemcacheServer \<Rightarrow> bool" where
  "store_inv hash_range m \<longleftrightarrow> (\<forall>i. distinct (map ikey (shards m i))
     \<and> (\<forall>it \<in> set (shards m i). item_ok hash_range it \<and> shard_of it = i))"

fun spec_store :: "UpdatePolicy \<Rightarrow> string \<Rightarrow> entry \<Rightarrow> 64 word \<Rightarrow> (string \<rightharpoonup> entry) \<Rightarrow> bool \<times> (string \<rightharpoonup> entry)" where
  "spec_store kSet k e c M = (True, M(k \<mapsto> e\<lparr>e_cas := c\<rparr>))"
| "spec_store kAdd k e c M = (if M k = None then (True, M(k \<mapsto> e\<lparr>e_cas := c\<rparr>)) else (False, M))"
| "spec_store kReplace k e c M = (if M k = None then (False, M) else (True, M(k \<mapsto> e\<lparr>e_cas := c\<rparr>)))"
| "spec_store kCas k e c M =
     (case M k of None \<Rightarrow> (False, M)
      | Some old \<Rightarrow> if e_cas old = e_cas e then (True, M(k \<mapsto> e\<lparr>e_cas := c\<rparr>)) else (False, M))"
| "spec_store kAppend k e c M =
     (case M k of None \<Rightarrow> (False, M)
      | Some old \<Rightarrow> (True, M(k \<mapsto> old\<lparr>e_value := take (length (e_value old) - 2) (e_value old) @ e_value e, e_cas := c\<rparr>)))"
| "spec_store kPrepend k e c M =
     (case M k of None \<Rightarrow> (False, M)
      | Some old \<Rightarrow> (True, M(k \<mapsto> old\<lparr>e_value := take (length (e_value e) - 2) (e_value e) @ e_value old, e_cas := c\<rparr>)))"
| "spec_store pInvalid k e c M = (True, M)"

section \<open>Filling an item\<close>

definition item_filled :: "Item \<Rightarrow> string \<Rightarrow> bool" where
  "item_filled it s \<longleftrightarrow> length (idata it) = nat (totalLen it) \<and> receivedBytes it = length s
     \<and> take (length s) (idata it) = s \<and> int (length s) \<le> totalLen it \<and> totalLen it < 2 ^ 31 \<and> 2 \<le> valuelen it"

lemma neededBytes_filled: "item_filled it s \<Longrightarrow> neededBytes it = nat (totalLen it) - length s"
  by (simp add: item_filled_def neededBytes_def nat_diff_distrib)

lemma take_overwrite_end:
  "i + length ys \<le> length xs \<Longrightarrow> take (i + length ys) (overwrite xs i ys) = take i xs @ ys"
  by (simp add: overwrite_def)

lemma Item_append_filled:
  assumes "item_filled it s" and "int (length s + length d) \<le> totalLen it"
  shows "\<exists>it'. Item_append d it = Some it' \<and> item_filled it' (s @ d) \<and> keylen it' = keylen it
    \<and> valuelen it' = valuelen it \<and> iflags it' = iflags it \<and> rel_exptime it' = rel_exptime it \<and> icas it' = icas it
    \<and> ihash it' = ihash it"
proof -
  have l: "length s + length d \<le> length (idata it)" using assms by (simp add: item_filled_def)
  have "length d \<le> neededBytes it" using neededBytes_filled [OF assms(1)] assms(2) by linarith
  then show ?thesis
    using assms l take_overwrite_end [OF l]
    by (simp add: Item_append_def item_filled_def totalLen_def)
qed

lemma makeItem_filled:
  assumes "2 \<le> vlen" and "int (length k) + vlen < 2 ^ 31"
  shows "\<exists>it. makeItem h k fl ex vlen c = Some it \<and> item_filled it k \<and> keylen it = length k \<and> valuelen it = vlen
    \<and> iflags it = fl \<and> rel_exptime it = ex \<and> icas it = c \<and> ihash it = h k"
proof -
  let ?it = "\<lparr>keylen = length k, iflags = fl, rel_exptime = ex, valuelen = vlen, receivedBytes = 0, icas = c,
     ihash = h k, idata = replicate (nat (int (length k) + vlen)) (CHR 0x00)\<rparr>"
  have f: "item_filled ?it []" using assms by (simp add: item_filled_def totalLen_def)
  have "int (length [] + length k) \<le> totalLen ?it" using assms by (simp add: totalLen_def)
  from Item_append_filled [OF f this] assms show ?thesis
    by (auto simp: makeItem_def totalLen_def)
qed

lemma drop_last_two: "2 \<le> length xs \<Longrightarrow> drop (length xs - 2) xs = [xs ! (length xs - 2), xs ! (length xs - 1)]"
  by (rule nth_equalityI) (auto simp: less_Suc_eq numeral_2_eq_2 nth_Cons')

lemma item_filled_parts:
  assumes "item_filled it s" and "int (length s) = totalLen it"
  shows "ikey it = take (keylen it) s" and "ivalue it = drop (keylen it) s" and "neededBytes it = 0"
    and "length (ivalue it) = nat (valuelen it)"
    and "endsWithCRLF it \<longleftrightarrow> drop (length s - 2) s = CRLF"
proof -
  have l: "length s = nat (totalLen it)" using assms(2) by linarith
  have d: "idata it = s" using assms(1) l by (metis item_filled_def order_refl take_all)
  have v: "2 \<le> valuelen it" using assms by (simp add: item_filled_def)
  have ls: "length s = keylen it + nat (valuelen it)" using l v by (simp add: totalLen_def nat_add_distrib)
  show "ikey it = take (keylen it) s" "ivalue it = drop (keylen it) s" "length (ivalue it) = nat (valuelen it)"
    using ls by (simp_all add: ikey_def ivalue_def d)
  show "neededBytes it = 0" using neededBytes_filled [OF assms(1)] l by simp
  have n: "nat (totalLen it - 2) = length s - 2" "nat (totalLen it - 1) = length s - 1" "2 \<le> length s"
    using assms(2) v by (simp_all add: totalLen_def)
  have ab: "drop (length s - 2) s = [s ! (length s - 2), s ! (length s - 1)]" by (rule drop_last_two) (rule n(3))
  have "receivedBytes it = length s" using assms(1) by (simp add: item_filled_def)
  then show "endsWithCRLF it \<longleftrightarrow> drop (length s - 2) s = CRLF"
    using ab n assms(2) by (simp add: endsWithCRLF_def d CRLF_def)
qed

text \<open>A stored item is its key followed by its value.\<close>

lemma item_ok_filled:
  assumes "item_ok h it"
  shows "item_filled it (ikey it @ ivalue it)" and "int (length (ikey it @ ivalue it)) = totalLen it"
    and "length (ikey it) = keylen it" and "length (ivalue it) = nat (valuelen it)" and "2 \<le> valuelen it"
    and "drop (nat (valuelen it) - 2) (ivalue it) = CRLF"
proof -
  have v: "2 \<le> valuelen it" "length (idata it) = nat (totalLen it)" "int (receivedBytes it) = totalLen it" "totalLen it < 2 ^ 31"
    using assms by (simp_all add: item_ok_def endsWithCRLF_def)
  then have len: "length (idata it) = keylen it + nat (valuelen it)" by (simp add: totalLen_def nat_add_distrib)
  have d: "ikey it @ ivalue it = idata it" using len by (simp add: ikey_def ivalue_def)
  show f: "item_filled it (ikey it @ ivalue it)" unfolding d using v by (simp add: item_filled_def)
  show t: "int (length (ikey it @ ivalue it)) = totalLen it" unfolding d using v by (simp add: totalLen_def)
  show k: "length (ikey it) = keylen it" "length (ivalue it) = nat (valuelen it)" "2 \<le> valuelen it"
    using len v by (simp_all add: ikey_def ivalue_def)
  have "endsWithCRLF it" using assms by (simp add: item_ok_def)
  then have "drop (length (ikey it @ ivalue it) - 2) (ikey it @ ivalue it) = CRLF"
    using item_filled_parts(5) [OF f t] by simp
  moreover have "length (ikey it @ ivalue it) - 2 = keylen it + (nat (valuelen it) - 2)" using k by simp
  ultimately show "drop (nat (valuelen it) - 2) (ivalue it) = CRLF" using k by simp
qed

section \<open>Single operations on the hash set\<close>

lemma find_key_None: "find (\<lambda>x. ikey x = k) xs = None \<longleftrightarrow> k \<notin> ikey ` set xs"
  by (auto simp: find_None_iff)

lemma items_find_key: "items_find it = find (\<lambda>x. ikey x = ikey it)"
  by (rule ext) (simp add: items_find_def)

lemma items_erase_absent: "ikey it \<notin> ikey ` set xs \<Longrightarrow> items_erase it xs = xs"
  unfolding items_erase_def by (rule filter_True) (metis imageI)

lemma items_erase_keys: "ikey ` set (items_erase it xs) = ikey ` set xs - {ikey it}"
  by (auto simp: items_erase_def)

lemma find_items_erase: "find (\<lambda>x. ikey x = k) (items_erase it xs) =
    (if k = ikey it then None else find (\<lambda>x. ikey x = k) xs)"
  by (induction xs) (auto simp: items_erase_def)

lemma find_append: "find P (xs @ ys) = (case find P xs of Some x \<Rightarrow> Some x | None \<Rightarrow> find P ys)"
  by (induction xs) auto

lemma items_insert_erased: "items_insert it (items_erase it xs) = items_erase it xs @ [it]"
  by (simp add: items_insert_def items_find_key find_items_erase)

lemma items_insert_absent: "ikey it \<notin> ikey ` set xs \<Longrightarrow> items_insert it xs = items_erase it xs @ [it]"
  by (metis items_erase_absent items_insert_erased)

lemma distinct_items_erase: "distinct (map ikey xs) \<Longrightarrow> distinct (map ikey (items_erase it xs))"
  by (simp add: items_erase_def distinct_map_filter)

lemma setCas_simps [simp]:
  "ikey (setCas c it) = ikey it" "shard_of (setCas c it) = shard_of it"
  "entry_of (setCas c it) = (entry_of it)\<lparr>e_cas := c\<rparr>" "item_ok h (setCas c it) = item_ok h it"
  "items_erase (setCas c it) = items_erase it" "ihash (setCas c it) = ihash it"
  by (simp_all add: setCas_def ikey_def ivalue_def shard_of_def entry_of_def item_ok_def endsWithCRLF_def
      totalLen_def items_erase_def fun_eq_iff)

lemma shard_of_item_ok: "item_ok h it \<Longrightarrow> shard_of it = unat (h (ikey it)) mod kShards"
  by (simp add: item_ok_def shard_of_def)

lemma find_table:
  "ihash it = h (ikey it) \<Longrightarrow> table h m (ikey it) = map_option entry_of (items_find it (shards m (shard_of it)))"
  by (simp add: table_def items_find_key shard_of_def)

lemma put_entry:
  assumes "store_inv h m" and "item_ok h it" and "ikey k = ikey it" and "shard_of k = shard_of it"
  shows "store_inv h (put_shard k (items_erase k (shards m (shard_of it)) @ [it]) m)"
    and "table h (put_shard k (items_erase k (shards m (shard_of it)) @ [it]) m) = (table h m)(ikey it \<mapsto> entry_of it)"
proof -
  let ?xs = "shards m (shard_of it)"
  have "distinct (map ikey ?xs)" using assms(1) by (simp add: store_inv_def)
  then have "distinct (map ikey (items_erase k ?xs @ [it]))"
    using items_erase_keys [of k ?xs] assms(3) by (simp add: distinct_items_erase)
  moreover have "set (items_erase k ?xs) \<subseteq> set ?xs" by (auto simp: items_erase_def)
  ultimately show "store_inv h (put_shard k (items_erase k ?xs @ [it]) m)"
    using assms by (auto simp: store_inv_def put_shard_def)
  show "table h (put_shard k (items_erase k ?xs @ [it]) m) = (table h m)(ikey it \<mapsto> entry_of it)"
    using assms(3,4) shard_of_item_ok [OF assms(2)]
    by (auto simp: table_def put_shard_def find_append find_items_erase fun_eq_iff split: option.split)
qed

lemma drop_entry:
  assumes "store_inv h m" and "ihash k = h (ikey k)"
  shows "store_inv h (put_shard k (items_erase k (shards m (shard_of k))) m)"
    and "table h (put_shard k (items_erase k (shards m (shard_of k))) m) = (table h m)(ikey k := None)"
proof -
  let ?xs = "shards m (shard_of k)"
  have "distinct (map ikey (items_erase k ?xs))"
    using assms(1) by (simp add: store_inv_def distinct_items_erase)
  moreover have "set (items_erase k ?xs) \<subseteq> set ?xs" by (auto simp: items_erase_def)
  ultimately show "store_inv h (put_shard k (items_erase k ?xs) m)"
    using assms by (auto simp: store_inv_def put_shard_def)
  show "table h (put_shard k (items_erase k ?xs) m) = (table h m)(ikey k := None)"
    using assms(2) by (auto simp: table_def put_shard_def shard_of_def find_items_erase fun_eq_iff)
qed

lemma store_inv_cas [simp]: "store_inv h (m\<lparr>g_cas := c\<rparr>) = store_inv h m" "table h (m\<lparr>g_cas := c\<rparr>) = table h m"
  "shards (m\<lparr>g_cas := c\<rparr>) = shards m"
  by (simp_all add: store_inv_def table_def fun_eq_iff)

lemma put_shard_rest [simp]: "g_cas (put_shard k xs m) = g_cas m" "startTime (put_shard k xs m) = startTime m"
  by (simp_all add: put_shard_def)

section \<open>Joining two values\<close>

lemma item_of_filled:
  assumes "item_filled it s" and "int (length s) = totalLen it" and "drop (length s - 2) s = CRLF"
    and "ihash it = h (take (keylen it) s)"
  shows "item_ok h it"
  using assms item_filled_parts [OF assms(1,2)] by (simp add: item_ok_def item_filled_def)

lemma concat_parts:
  assumes "valuelen n = int (length a + length b)" and "keylen n = length k" and "2 \<le> length b"
    and "item_filled n k" and "drop (length b - 2) b = CRLF" and "ihash n = h k"
  shows "\<exists>n' n''. Item_append a n = Some n' \<and> Item_append b n' = Some n'' \<and> neededBytes n'' = 0 \<and> endsWithCRLF n''
    \<and> item_ok h n'' \<and> ikey n'' = k
    \<and> entry_of n'' = \<lparr>e_flags = iflags n, e_exptime = rel_exptime n, e_value = a @ b, e_cas = icas n\<rparr>"
proof -
  have t: "totalLen n = int (length k + length a + length b)" using assms(1,2) by (simp add: totalLen_def)
  obtain n' where n': "Item_append a n = Some n'" "item_filled n' (k @ a)" "keylen n' = length k" "totalLen n' = totalLen n"
      "iflags n' = iflags n" "rel_exptime n' = rel_exptime n" "icas n' = icas n" "ihash n' = h k"
    using Item_append_filled [OF assms(4), of a] t assms(2,6) by (auto simp: totalLen_def)
  obtain n'' where n'': "Item_append b n' = Some n''" "item_filled n'' (k @ a @ b)" "keylen n'' = length k" "totalLen n'' = totalLen n"
      "iflags n'' = iflags n" "rel_exptime n'' = rel_exptime n" "icas n'' = icas n" "ihash n'' = h k"
    using Item_append_filled [OF n'(2), of b] t n' by (auto simp: totalLen_def)
  let ?s = "k @ a @ b"
  have len: "int (length ?s) = totalLen n''" using t n''(4) by simp
  have "length ?s - 2 = length k + length a + (length b - 2)" using assms(3) by simp
  then have crlf: "drop (length ?s - 2) ?s = CRLF" using assms(5) by simp
  have ok: "item_ok h n''" by (rule item_of_filled [OF n''(2) len crlf]) (simp add: n'')
  show ?thesis
    using n'(1) n'' ok item_filled_parts [OF n''(2) len] crlf
    by (intro exI [of _ n'] exI [of _ n'']) (simp add: entry_of_def)
qed

lemma concat_items_ok:
  assumes "item_ok h it" and "item_ok h old" and "ikey old = ikey it"
    and "int (keylen it) + valuelen it + valuelen old - 2 < 2 ^ 31" and "p = kAppend \<or> p = kPrepend"
  shows "\<exists>n. concat_items h p it old c = Some n \<and> item_ok h n \<and> ikey n = ikey it
    \<and> entry_of n = (entry_of old)\<lparr>e_cas := c, e_value :=
        (if p = kAppend then take (length (ivalue old) - 2) (ivalue old) @ ivalue it
         else take (length (ivalue it) - 2) (ivalue it) @ ivalue old)\<rparr>"
proof -
  note f = item_ok_filled [OF assms(1)] and g = item_ok_filled [OF assms(2)]
  let ?len = "valuelen it + valuelen old - 2"
  have w: "signed_take_bit 31 ?len = ?len"
    by (rule signed_take_bit_int_eq_self) (use f(5) g(5) assms(4) in linarith)+
  have key: "length (ikey it) = keylen it" by (rule f(3))
  obtain n where n: "makeItem h (ikey it) (iflags old) (rel_exptime old) ?len c = Some n" "item_filled n (ikey it)"
      "keylen n = length (ikey it)" "valuelen n = ?len" "iflags n = iflags old" "rel_exptime n = rel_exptime old"
      "icas n = c" "ihash n = h (ikey it)"
    using makeItem_filled [of ?len "ikey it" h "iflags old" "rel_exptime old" c] f(5) g(5) assms(4) key by auto
  show ?thesis
  proof (cases "p = kAppend")
    case True
    let ?a = "take (nat (valuelen old - 2)) (ivalue old)"
    have "valuelen n = int (length ?a + length (ivalue it))" using n(4) f(4,5) g(4,5) by simp
    moreover have "2 \<le> length (ivalue it)" "drop (length (ivalue it) - 2) (ivalue it) = CRLF" using f(4-6) by simp_all
    ultimately obtain n' n'' where "Item_append ?a n = Some n'" "Item_append (ivalue it) n' = Some n''"
        "neededBytes n'' = 0" "endsWithCRLF n''" "item_ok h n''" "ikey n'' = ikey it"
        "entry_of n'' = \<lparr>e_flags = iflags old, e_exptime = rel_exptime old, e_value = ?a @ ivalue it, e_cas = c\<rparr>"
      using concat_parts [where h = h, OF _ n(3) _ n(2) _ n(8), of ?a "ivalue it"] n(5-7) by auto
    then show ?thesis
      using n(1) w True g(4,5) assms(5)
      by (intro exI [of _ n'']) (simp add: concat_items_def entry_of_def nat_diff_distrib)
  next
    case False
    let ?a = "take (nat (valuelen it - 2)) (ivalue it)"
    have "valuelen n = int (length ?a + length (ivalue old))" using n(4) f(4,5) g(4,5) by simp
    moreover have "2 \<le> length (ivalue old)" "drop (length (ivalue old) - 2) (ivalue old) = CRLF" using g(4-6) by simp_all
    ultimately obtain n' n'' where "Item_append ?a n = Some n'" "Item_append (ivalue old) n' = Some n''"
        "neededBytes n'' = 0" "endsWithCRLF n''" "item_ok h n''" "ikey n'' = ikey it"
        "entry_of n'' = \<lparr>e_flags = iflags old, e_exptime = rel_exptime old, e_value = ?a @ ivalue old, e_cas = c\<rparr>"
      using concat_parts [where h = h, OF _ n(3) _ n(2) _ n(8), of ?a "ivalue old"] n(5-7) by auto
    then show ?thesis
      using n(1) w False f(4,5) assms(5)
      by (intro exI [of _ n'']) (simp add: concat_items_def entry_of_def nat_diff_distrib)
  qed
qed

section \<open>The table refines the map\<close>

text \<open>Whether two joined values still fit the \<^verbatim>\<open>int\<close> lengths of an item.\<close>

definition join_fits :: "(string \<Rightarrow> 64 word) \<Rightarrow> UpdatePolicy \<Rightarrow> Item \<Rightarrow> MemcacheServer \<Rightarrow> bool" where
  "join_fits h p it m \<longleftrightarrow> (p = kAppend \<or> p = kPrepend) \<longrightarrow>
     (case table h m (ikey it) of None \<Rightarrow> True
      | Some old \<Rightarrow> int (keylen it) + valuelen it + int (length (e_value old)) - 2 < 2 ^ 31)"

lemma find_present:
  assumes "store_inv h m" and "items_find it (shards m (shard_of it)) = Some old"
  shows "item_ok h old" and "ikey old = ikey it" and "shard_of old = shard_of it" and "ikey it \<in> ikey ` set (shards m (shard_of it))"
proof -
  have o: "old \<in> set (shards m (shard_of it))" "ikey old = ikey it"
    using assms(2) by (auto simp: items_find_key find_Some_iff)
  then show "item_ok h old" "ikey old = ikey it" "shard_of old = shard_of it"
    using assms(1) by (auto simp: store_inv_def)
  show "ikey it \<in> ikey ` set (shards m (shard_of it))" using o by (metis imageI)
qed

lemma insert_setCas:
  "items_insert (setCas c it) (items_erase it xs) = items_erase it xs @ [setCas c it]"
  "items_find it xs = None \<Longrightarrow> items_insert (setCas c it) xs = items_erase it xs @ [setCas c it]"
  "items_find it xs = None \<Longrightarrow> items_erase it xs = xs"
  using items_insert_erased [of "setCas c it" xs] items_insert_absent [of "setCas c it" xs] items_erase_absent [of it xs]
  by (simp_all add: items_find_key find_key_None)

lemma put_setCas:
  assumes "store_inv h m" and "item_ok h it"
  defines "m' \<equiv> put_shard (setCas (g_cas m + 1) it)
    (items_erase it (shards m (shard_of it)) @ [setCas (g_cas m + 1) it]) (m\<lparr>g_cas := g_cas m + 1\<rparr>)"
  shows "store_inv h m'" and "table h m' = (table h m)(ikey it \<mapsto> (entry_of it)\<lparr>e_cas := g_cas m + 1\<rparr>)"
  using put_entry [of h "m\<lparr>g_cas := g_cas m + 1\<rparr>" "setCas (g_cas m + 1) it" "setCas (g_cas m + 1) it"] assms
  by simp_all

lemma storeItem_refines:
  assumes "store_inv h m" and "item_ok h it" and "join_fits h p it m"
  shows "\<exists>m'. storeItem h it p m = Some (fst (spec_store p (ikey it) (entry_of it) (g_cas m + 1) (table h m)),
      table h m (ikey it) \<noteq> None, m')
    \<and> table h m' = snd (spec_store p (ikey it) (entry_of it) (g_cas m + 1) (table h m)) \<and> store_inv h m'"
proof -
  have n: "neededBytes it = 0" using item_filled_parts(3) item_ok_filled(1,2) [OF assms(2)] by blast
  have t: "table h m (ikey it) = map_option entry_of (items_find it (shards m (shard_of it)))"
    using assms(2) by (intro find_table) (simp add: item_ok_def)
  note put = put_setCas [OF assms(1,2)]
  show ?thesis
  proof (cases "items_find it (shards m (shard_of it))")
    case None
    then show ?thesis
      using n t put assms(1) insert_setCas [where it = it and xs = "shards m (shard_of it)"]
      by (cases p) (simp_all add: storeItem_def incrementAndGet_def)
  next
    case (Some old)
    note o = find_present [OF assms(1) Some]
    have joined: ?thesis if p: "p = kAppend \<or> p = kPrepend"
    proof -
      have "int (keylen it) + valuelen it + valuelen old - 2 < 2 ^ 31"
        using assms(3) p t Some item_ok_filled(4,5) [OF o(1)] by (auto simp: join_fits_def entry_of_def)
      then obtain j where j: "concat_items h p it old (g_cas m + 1) = Some j" "item_ok h j" "ikey j = ikey it"
          "entry_of j = (entry_of old)\<lparr>e_cas := g_cas m + 1, e_value :=
             (if p = kAppend then take (length (ivalue old) - 2) (ivalue old) @ ivalue it
              else take (length (ivalue it) - 2) (ivalue it) @ ivalue old)\<rparr>"
        using concat_items_ok [OF assms(2) o(1,2) _ p] by blast
      have sj: "shard_of j = shard_of it" using shard_of_item_ok [OF j(2)] shard_of_item_ok [OF assms(2)] j(3) by simp
      have "items_insert j (items_erase it (shards m (shard_of it))) = items_erase it (shards m (shard_of it)) @ [j]"
        using items_insert_erased [of j] j(3) by (simp add: items_erase_def)
      then show ?thesis
        using put_entry [of h "m\<lparr>g_cas := g_cas m + 1\<rparr>" j it] assms(1) j sj n t Some p
        by (auto simp: storeItem_def incrementAndGet_def entry_of_def)
    qed
    show ?thesis
      using n t put assms(1) Some joined insert_setCas(1) [where it = it and xs = "shards m (shard_of it)"]
      by (cases p) (simp_all add: storeItem_def incrementAndGet_def entry_of_def)
  qed
qed

text \<open>A join that does not fit is caught by the assertion on the length.\<close>

lemma concat_items_overflow:
  assumes "item_ok h it" and "item_ok h old" and "\<not> int (keylen it) + valuelen it + valuelen old - 2 < 2 ^ 31"
  shows "concat_items h p it old c = None"
proof -
  note f = item_ok_filled [OF assms(1)] and g = item_ok_filled [OF assms(2)]
  let ?len = "valuelen it + valuelen old - 2"
  have lim: "totalLen it < 2 ^ 31" "totalLen old < 2 ^ 31" using assms(1,2) by (simp_all add: item_ok_def)
  have "makeItem h (ikey it) (iflags old) (rel_exptime old) (signed_take_bit 31 ?len) c = None"
  proof (cases "?len < 2 ^ 31")
    case True
    then have "signed_take_bit 31 ?len = ?len" by (intro signed_take_bit_int_eq_self) (use f(5) g(5) in simp_all)
    then show ?thesis using assms(3) f(3) by (simp add: makeItem_def totalLen_def)
  next
    case False
    then have r: "2 ^ 31 \<le> ?len" "?len < 2 ^ 32" using lim by (simp_all add: totalLen_def)
    have "signed_take_bit 31 ?len = ?len - 2 ^ 32"
    proof -
      have "(?len + 2 ^ 31) mod 2 ^ 32 = (?len + 2 ^ 31 - 2 ^ 32) mod 2 ^ 32" by (simp only: minus_mod_self2)
      also have "\<dots> = ?len + 2 ^ 31 - 2 ^ 32" using r by (intro mod_pos_pos_trivial) simp_all
      finally show ?thesis by (simp add: signed_take_bit_eq_take_bit_shift take_bit_eq_mod)
    qed
    then show ?thesis using r by (simp add: makeItem_def totalLen_def)
  qed
  then show ?thesis by (simp add: concat_items_def)
qed

lemma storeItem_inv:
  assumes "store_inv h m" and "item_ok h it" and "storeItem h it p m = Some (ok, ex, m')"
  shows "store_inv h m'"
proof (cases "join_fits h p it m")
  case True
  then show ?thesis using storeItem_refines [OF assms(1,2) True] assms(3) by auto
next
  case False
  then obtain e where p: "p = kAppend \<or> p = kPrepend" and e: "table h m (ikey it) = Some e"
      "\<not> int (keylen it) + valuelen it + int (length (e_value e)) - 2 < 2 ^ 31"
    by (auto simp: join_fits_def split: option.splits)
  have "ihash it = h (ikey it)" using assms(2) by (simp add: item_ok_def)
  then obtain old where old: "items_find it (shards m (shard_of it)) = Some old" "e = entry_of old"
    using e(1) find_table [of it h m] by auto
  have "item_ok h old" using find_present(1) [OF assms(1) old(1)] .
  then have "concat_items h p it old c = None" for c
    using e(2) old(2) item_ok_filled(4,5) [of h old] by (intro concat_items_overflow [OF assms(2)]) (auto simp: entry_of_def)
  then have "storeItem h it p m = None" using p old(1) by (auto simp: storeItem_def incrementAndGet_def)
  then show ?thesis using assms(3) by simp
qed

lemma getItem_refines:
  assumes "ihash k = h (ikey k)"
  shows "map_option entry_of (getItem k m) = table h m (ikey k)"
  by (simp add: getItem_def find_table [of k h, OF assms])

lemma getItem_ok:
  assumes "store_inv h m" and "getItem k m = Some it"
  shows "item_ok h it" and "ikey it = ikey k"
  using find_present [OF assms(1)] assms(2) by (simp_all add: getItem_def)

lemma deleteItem_refines:
  assumes "store_inv h m" and "ihash k = h (ikey k)"
  shows "fst (deleteItem k m) \<longleftrightarrow> table h m (ikey k) \<noteq> None"
    and "table h (snd (deleteItem k m)) = (table h m)(ikey k := None)" and "store_inv h (snd (deleteItem k m))"
  using drop_entry [OF assms] find_table [of k h m, OF assms(2)] by (simp_all add: deleteItem_def Let_def)

section \<open>The interface of the table\<close>

locale item_table =
  fixes inv :: "'m \<Rightarrow> bool" and tab :: "'m \<Rightarrow> string \<rightharpoonup> entry" and tag :: "'m \<Rightarrow> 64 word"
    and good :: "Item \<Rightarrow> bool" and hashed :: "Item \<Rightarrow> bool"
    and store :: "Item \<Rightarrow> UpdatePolicy \<Rightarrow> 'm \<Rightarrow> (bool \<times> bool \<times> 'm) option"
    and get :: "Item \<Rightarrow> 'm \<Rightarrow> Item option" and del :: "Item \<Rightarrow> 'm \<Rightarrow> bool \<times> 'm"
  assumes store_law: "inv m \<Longrightarrow> good it \<Longrightarrow> p \<noteq> kAppend \<Longrightarrow> p \<noteq> kPrepend \<Longrightarrow>
      \<exists>m'. store it p m = Some (fst (spec_store p (ikey it) (entry_of it) (tag m + 1) (tab m)), tab m (ikey it) \<noteq> None, m')
        \<and> tab m' = snd (spec_store p (ikey it) (entry_of it) (tag m + 1) (tab m)) \<and> inv m'"
    and get_law: "hashed k \<Longrightarrow> map_option entry_of (get k m) = tab m (ikey k)"
    and get_good: "inv m \<Longrightarrow> get k m = Some it \<Longrightarrow> good it \<and> ikey it = ikey k"
    and del_law: "inv m \<Longrightarrow> hashed k \<Longrightarrow> inv (snd (del k m)) \<and> tab (snd (del k m)) = (tab m)(ikey k := None)
        \<and> fst (del k m) = (tab m (ikey k) \<noteq> None)"
begin

text \<open>What was set is found, and setting leaves every other key alone.\<close>

lemma set_then_get:
  assumes "inv m" and "good it" and "hashed k"
  shows "\<exists>m' ex. store it kSet m = Some (True, ex, m') \<and> inv m' \<and>
    (if ikey k = ikey it
     then \<exists>x. get k m' = Some x \<and> good x \<and> ikey x = ikey it \<and> entry_of x = (entry_of it)\<lparr>e_cas := tag m + 1\<rparr>
     else map_option entry_of (get k m') = map_option entry_of (get k m))"
proof -
  obtain m' where m': "store it kSet m = Some (True, tab m (ikey it) \<noteq> None, m')" "inv m'"
      "tab m' = (tab m)(ikey it \<mapsto> (entry_of it)\<lparr>e_cas := tag m + 1\<rparr>)"
    using store_law [OF assms(1,2), of kSet] by auto
  have g: "map_option entry_of (get k m') = tab m' (ikey k)" by (rule get_law [OF assms(3)])
  show ?thesis
  proof (cases "ikey k = ikey it")
    case True
    then obtain x where "get k m' = Some x" "entry_of x = (entry_of it)\<lparr>e_cas := tag m + 1\<rparr>" using g m'(3) by auto
    then show ?thesis using m' True get_good [OF m'(2)] by auto
  next
    case False
    then show ?thesis using g m' get_law [OF assms(3), of m] by simp
  qed
qed

lemma del_then_get:
  assumes "inv m" and "hashed k"
  shows "inv (snd (del k m)) \<and> get k (snd (del k m)) = None"
  using del_law [OF assms] get_law [OF assms(2), of "snd (del k m)"] by simp

text \<open>A \<^verbatim>\<open>cas\<close> with the tag a \<^verbatim>\<open>gets\<close> showed succeeds, and a second one with the same tag fails.\<close>

lemma cas_once:
  assumes "inv m" and "good it" and "tab m (ikey it) = Some old" and "e_cas old = icas it"
    and "good it2" and "ikey it2 = ikey it" and "icas it2 = icas it" and "icas it \<noteq> tag m + 1"
  shows "\<exists>m' m''. store it kCas m = Some (True, True, m') \<and> store it2 kCas m' = Some (False, True, m'')"
proof -
  obtain m' where m': "store it kCas m = Some (True, True, m')" "inv m'"
      "tab m' = (tab m)(ikey it \<mapsto> (entry_of it)\<lparr>e_cas := tag m + 1\<rparr>)"
    using store_law [OF assms(1,2), of kCas] assms(3,4) by (auto simp: entry_of_def)
  have "e_cas (entry_of it2) \<noteq> tag m + 1" using assms(7,8) by (simp add: entry_of_def)
  then obtain m'' where "store it2 kCas m' = Some (False, True, m'')"
    using store_law [OF m'(2) assms(5), of kCas] m'(3) assms(6) by auto
  then show ?thesis using m'(1) by blast
qed

end

interpretation mc: item_table "store_inv h" "table h" g_cas "item_ok h" "\<lambda>k. ihash k = h (ikey k)" "storeItem h" getItem deleteItem
  for h
proof unfold_locales
  fix m it p assume "store_inv h m" "item_ok h it" "p \<noteq> kAppend" "p \<noteq> kPrepend"
  then show "\<exists>m'. storeItem h it p m = Some (fst (spec_store p (ikey it) (entry_of it) (g_cas m + 1) (table h m)),
        table h m (ikey it) \<noteq> None, m')
      \<and> table h m' = snd (spec_store p (ikey it) (entry_of it) (g_cas m + 1) (table h m)) \<and> store_inv h m'"
    by (intro storeItem_refines) (simp_all add: join_fits_def)
next
  fix k m assume "ihash k = h (ikey k)"
  then show "map_option entry_of (getItem k m) = table h m (ikey k)" by (rule getItem_refines)
next
  fix m k it assume "store_inv h m" "getItem k m = Some it"
  then show "item_ok h it \<and> ikey it = ikey k" using getItem_ok by blast
next
  fix m k assume "store_inv h m" "ihash k = h (ikey k)"
  then show "store_inv h (snd (deleteItem k m)) \<and> table h (snd (deleteItem k m)) = (table h m)(ikey k := None)
      \<and> fst (deleteItem k m) = (table h m (ikey k) \<noteq> None)"
    by (simp add: deleteItem_refines)
qed

section \<open>Properties\<close>

text \<open>C11: For every hash function, the table of 4096 hash sets behaves as one map from keys to entries: storing a
  completely received item under any of the six policies (set, add, replace, append, prepend, cas) changes the map
  as specified and reports success and existence as specified, with a fresh cas tag; looking a key up reads the
  map; deleting removes the key and reports whether it was there; all of them keep the table well formed. Joined
  values must fit an \<^verbatim>\<open>int\<close> length.\<close>

theorem memcache_store_refines:
  assumes "store_inv h m" and "item_ok h it" and "join_fits h p it m" and "ihash k = h (ikey k)"
  shows "(\<exists>m'. storeItem h it p m = Some (fst (spec_store p (ikey it) (entry_of it) (g_cas m + 1) (table h m)),
            table h m (ikey it) \<noteq> None, m')
          \<and> table h m' = snd (spec_store p (ikey it) (entry_of it) (g_cas m + 1) (table h m)) \<and> store_inv h m')
      \<and> map_option entry_of (getItem k m) = table h m (ikey k)
      \<and> fst (deleteItem k m) = (table h m (ikey k) \<noteq> None)
      \<and> table h (snd (deleteItem k m)) = (table h m)(ikey k := None) \<and> store_inv h (snd (deleteItem k m))"
  using storeItem_refines [OF assms(1-3)] getItem_refines [of k h, OF assms(4)] deleteItem_refines [OF assms(1,4)] by blast

definition ex_hash :: "string \<Rightarrow> 64 word" where "ex_hash s = word_of_nat (length s)"

definition ex_item :: "string \<Rightarrow> string \<Rightarrow> 64 word \<Rightarrow> Item" where
  "ex_item k v c = \<lparr>keylen = length k, iflags = 7, rel_exptime = 0, valuelen = int (length v), receivedBytes = length k + length v,
     icas = c, ihash = ex_hash k, idata = k @ v\<rparr>"

definition ex_store :: MemcacheServer where
  "ex_store = \<lparr>shards = (\<lambda>_. [])(1 := [ex_item ''k'' (''ab'' @ CRLF) 4]), g_cas = 4, startTime = 0\<rparr>"

lemma ex_item_ok: "2 \<le> length v \<Longrightarrow> length k + length v < 2 ^ 31 \<Longrightarrow> drop (length v - 2) v = CRLF \<Longrightarrow> item_ok ex_hash (ex_item k v c)"
  by (rule item_of_filled [of _ "k @ v"]) (simp_all add: ex_item_def item_filled_def totalLen_def)

lemma ex_item_key [simp]: "ikey (ex_item k v c) = k" "ihash (ex_item k v c) = ex_hash k" "ivalue (ex_item k v c) = v"
  "icas (ex_item k v c) = c"
  by (simp_all add: ex_item_def ikey_def ivalue_def)

lemma ex_store_inv: "store_inv ex_hash ex_store"
  using ex_item_ok [of "''ab'' @ CRLF" "''k''" 4]
  by (simp add: store_inv_def ex_store_def shard_of_def ex_hash_def kShards_def CRLF_def)

lemma ex_table: "table ex_hash ex_store ''k'' = Some (entry_of (ex_item ''k'' (''ab'' @ CRLF) 4))"
  by (simp add: table_def ex_store_def ex_hash_def kShards_def)

theorem memcache_store_refines_witness:
  "\<exists>m'. storeItem ex_hash (ex_item ''k'' (''cd'' @ CRLF) 0) kAppend ex_store = Some (True, True, m')
    \<and> map_option e_value (table ex_hash m' ''k'') = Some (''abcd'' @ CRLF)"
proof -
  let ?it = "ex_item ''k'' (''cd'' @ CRLF) 0"
  have ok: "item_ok ex_hash ?it" by (rule ex_item_ok) (simp_all add: CRLF_def)
  have fits: "join_fits ex_hash kAppend ?it ex_store"
    using ex_table by (simp add: join_fits_def entry_of_def ex_item_def CRLF_def ikey_def ivalue_def)
  show ?thesis
    using memcache_store_refines [OF ex_store_inv ok fits, of ?it] ex_table by (auto simp: entry_of_def CRLF_def)
qed

text \<open>Optimistic locking: of two \<^verbatim>\<open>cas\<close> commands that carry the tag of the stored entry, the first stores its
  value and the second is told that the entry exists with another tag.\<close>

theorem memcache_cas_once:
  assumes "store_inv h m" and "item_ok h it" and "table h m (ikey it) = Some old" and "e_cas old = icas it"
    and "item_ok h it2" and "ikey it2 = ikey it" and "icas it2 = icas it" and "icas it \<noteq> g_cas m + 1"
  shows "\<exists>m' m''. storeItem h it kCas m = Some (True, True, m') \<and> storeItem h it2 kCas m' = Some (False, True, m'')"
  by (rule mc.cas_once [OF assms])

theorem memcache_cas_once_witness:
  "\<exists>m' m''. storeItem ex_hash (ex_item ''k'' (''x'' @ CRLF) 4) kCas ex_store = Some (True, True, m')
    \<and> storeItem ex_hash (ex_item ''k'' (''y'' @ CRLF) 4) kCas m' = Some (False, True, m'')"
proof (rule memcache_cas_once [OF ex_store_inv, of _ "entry_of (ex_item ''k'' (''ab'' @ CRLF) 4)"])
  show "item_ok ex_hash (ex_item ''k'' (''x'' @ CRLF) 4)" "item_ok ex_hash (ex_item ''k'' (''y'' @ CRLF) 4)"
    by (rule ex_item_ok; simp add: CRLF_def)+
  show "icas (ex_item ''k'' (''x'' @ CRLF) 4) \<noteq> g_cas ex_store + 1" by (simp add: ex_store_def)
qed (simp_all add: ex_table entry_of_def)

end
