(* ===== verification/Memcache_Session.thy ===== *)
theory Memcache_Session
  imports Memcache_Store
begin

text \<open>
  A client session of the memcached example: \<^verbatim>\<open>examples/memcached/server/Session.h\<close>, \<^verbatim>\<open>Session.cc\<close>. The session
  reads command lines and value blocks from the connection's input buffer and works on the table of
  \<open>Memcache_Store\<close>. Its calls on the connection and the server are recorded in order in \<open>acts\<close>; the
  connection executes them in its loop, where \<^verbatim>\<open>send(Buffer*)\<close> always empties the buffer it is given.

  \<^verbatim>\<open>boost::tokenizer\<close> with the space separator is the list of tokens, an iterator the tokens that are left;
  dereferencing the end iterator is a failed assertion (\<open>None\<close>). The loop of \<^verbatim>\<open>onMessage\<close> spins for ever when
  the protocol is binary; it is a \<open>partial_function\<close> whose outer \<open>None\<close> is such a run.
\<close>

section \<open>State\<close>

datatype State = kNewCommand | kReceiveValue | kDiscardValue
datatype Protocol = kAscii | kBinary | kAuto

text \<open>The calls on the connection: \<open>SShrinkOver n\<close> shrinks the connection's output buffer to \<open>n\<close> writable bytes
  if it has more.\<close>

datatype call = SSend string | SSendBuffer string | SShutdown | SShrinkOver nat | SStop

record Session =
  sstate :: State
  protocol :: Protocol
  command :: string
  noreply :: bool
  policy :: UpdatePolicy
  currItem :: "Item option"
  bytesToDiscard :: nat
  needle :: Item
  outputBuf :: Buffer
  bytesRead :: nat
  requestsProcessed :: nat
  acts :: "call list"

definition kLongestKeySize :: nat where "kLongestKeySize = 250"

definition kLongestKey :: string where "kLongestKey = replicate kLongestKeySize (CHR ''x'')"

definition Session_new :: "(string \<Rightarrow> 64 word) \<Rightarrow> Session option" where
  "Session_new hash_range = do {
     n \<leftarrow> makeItem hash_range kLongestKey 0 0 2 0;
     Some \<lparr>sstate = kNewCommand, protocol = kAscii, command = [], noreply = False, policy = pInvalid, currItem = None,
           bytesToDiscard = 0, needle = n, outputBuf = Buffer_new kInitialSize, bytesRead = 0, requestsProcessed = 0,
           acts = []\<rparr> }"

definition call_conn :: "call \<Rightarrow> Session \<Rightarrow> Session" where
  "call_conn c s = s\<lparr>acts := acts s @ [c]\<rparr>"

section \<open>Operations\<close>

definition isBinaryProtocol :: "char \<Rightarrow> bool" where
  "isBinaryProtocol firstByte \<longleftrightarrow> (of_char firstByte :: nat) = 0x80"

text \<open>One call of the separator: the token and what follows it, \<open>None\<close> at the end.\<close>

definition SpaceSeparator :: "string \<Rightarrow> (string \<times> string) option" where
  "SpaceSeparator nxt =
     (let start = dropWhile (\<lambda>c. c = CHR '' '') nxt
      in if start = [] then None
         else Some (takeWhile (\<lambda>c. c \<noteq> CHR '' '') start, dropWhile (\<lambda>c. c \<noteq> CHR '' '') start))"


lemma SpaceSeparator_shrinks: "SpaceSeparator s = Some (tok, rest) \<Longrightarrow> length rest < length s"
proof -
  assume a: "SpaceSeparator s = Some (tok, rest)"
  let ?t = "dropWhile (\<lambda>c. c = CHR '' '') s"
  from a have t: "?t \<noteq> []" "rest = dropWhile (\<lambda>c. c \<noteq> CHR '' '') ?t" by (auto simp: SpaceSeparator_def Let_def split: if_splits)
  then have "hd ?t \<noteq> CHR '' ''" using hd_dropWhile [OF t(1)] by simp
  then have "length rest < length ?t" using t
    by (cases ?t) (auto simp: less_Suc_eq_le length_dropWhile_le)
  then show ?thesis using length_dropWhile_le [of "\<lambda>c. c = CHR '' ''" s] by linarith
qed

function tokens :: "string \<Rightarrow> string list" where
  "tokens s = (case SpaceSeparator s of None \<Rightarrow> [] | Some (tok, rest) \<Rightarrow> tok # tokens rest)"
  by pat_completeness auto

termination
  by (relation "measure length") (use SpaceSeparator_shrinks in auto)

declare tokens.simps [simp del]

text \<open>\<^verbatim>\<open>strtoull\<close> on a token, accepted when it ends at the end of the token: leading blanks, a sign, digits;
  values that do not fit saturate, a minus sign negates modulo \<open>2 ^ 64\<close>.\<close>

definition strtoull_token :: "string \<Rightarrow> 64 word option" where
  "strtoull_token tok =
     (let t = dropWhile isspace tok;
          neg = (t \<noteq> [] \<and> hd t = CHR ''-'');
          ds = (if t \<noteq> [] \<and> (hd t = CHR ''-'' \<or> hd t = CHR ''+'') then tl t else t)
      in if ds = [] \<or> \<not> list_all is_digit ds then None
         else if nat_of_digits ds \<ge> 2 ^ 64 then Some (- 1)
         else if neg then Some (- of_nat (nat_of_digits ds))
         else Some (of_nat (nat_of_digits ds)))"

fun Reader_read :: "string list \<Rightarrow> (64 word \<times> string list) option" where
  "Reader_read [] = None"
| "Reader_read (tok # rest) = (case strtoull_token tok of None \<Rightarrow> None | Some x \<Rightarrow> Some (x, rest))"

definition resetRequest :: "Session \<Rightarrow> Session" where
  "resetRequest s = s\<lparr>command := [], noreply := False, policy := pInvalid, currItem := None, bytesToDiscard := 0\<rparr>"

definition reply :: "string \<Rightarrow> Session \<Rightarrow> Session" where
  "reply msg s = (if noreply s then s else call_conn (SSend msg) s)"

definition policy_of :: "string \<Rightarrow> UpdatePolicy option" where
  "policy_of c =
     (if c = ''set'' then Some kSet else if c = ''add'' then Some kAdd else if c = ''replace'' then Some kReplace
      else if c = ''append'' then Some kAppend else if c = ''prepend'' then Some kPrepend
      else if c = ''cas'' then Some kCas else None)"

text \<open>The fields of an update line: flags (\<^verbatim>\<open>uint32_t\<close>), exptime (\<^verbatim>\<open>time_t\<close>), bytes (\<^verbatim>\<open>int\<close>) and, for \<^verbatim>\<open>cas\<close>, the tag.\<close>

definition update_fields ::
  "UpdatePolicy \<Rightarrow> string \<Rightarrow> string list \<Rightarrow> (32 word \<times> int \<times> int \<times> 64 word) option" where
  "update_fields pol key r = do {
     assertm (length key < kLongestKeySize);
     (flags, r) \<leftarrow> Reader_read r;
     (exptime, r) \<leftarrow> Reader_read r;
     (bytes, r) \<leftarrow> Reader_read r;
     (cas, r) \<leftarrow> (if pol = kCas then Reader_read r else Some (0, r));
     Some (ucast flags, sint exptime, sint (ucast bytes :: 32 word), cas) }"

definition relative_exptime :: "int \<Rightarrow> int \<Rightarrow> int" where
  "relative_exptime start exptime =
     (if exptime > 60 * 60 * 24 * 30 then max 1 (signed_take_bit 31 (exptime - start))
      else signed_take_bit 31 exptime)"

definition doUpdate ::
  "(string \<Rightarrow> 64 word) \<Rightarrow> string list \<Rightarrow> Session \<Rightarrow> MemcacheServer \<Rightarrow> (bool \<times> Session \<times> MemcacheServer) option" where
  "doUpdate hash_range beg s m = do {
     pol \<leftarrow> policy_of (command s);
     let s = s\<lparr>policy := pol\<rparr>;
     assertm (beg \<noteq> []);
     let key = hd beg;
     (case update_fields pol key (tl beg) of
        None \<Rightarrow> Some (True, reply (''CLIENT_ERROR bad command line format'' @ CRLF) s, m)
      | Some (flags, exptime, bytes, cas) \<Rightarrow>
          if bytes > 1024 * 1024
          then do {
            let s = reply (''SERVER_ERROR object too large for cache'' @ CRLF) s;
            n \<leftarrow> resetKey hash_range key (needle s);
            let m = snd (deleteItem n m);
            assertm (bytes + 2 < 2 ^ 31);
            Some (False, s\<lparr>needle := n, bytesToDiscard := nat (bytes + 2), sstate := kDiscardValue\<rparr>, m) }
          else do {
            it \<leftarrow> makeItem hash_range key flags (relative_exptime (startTime m) exptime) (bytes + 2) cas;
            Some (False, s\<lparr>currItem := Some it, sstate := kReceiveValue\<rparr>, m) }) }"

text \<open>The keys of a \<^verbatim>\<open>get\<close>; the flag tells whether all of them were looked up.\<close>

fun get_loop ::
  "(string \<Rightarrow> 64 word) \<Rightarrow> bool \<Rightarrow> string list \<Rightarrow> Session \<Rightarrow> MemcacheServer \<Rightarrow> (bool \<times> Session) option" where
  "get_loop hash_range cas [] s m = Some (True, s)"
| "get_loop hash_range cas (key # beg) s m =
     (if length key > kLongestKeySize
      then Some (False, reply (''CLIENT_ERROR bad command line format'' @ CRLF) s)
      else do {
        n \<leftarrow> resetKey hash_range key (needle s);
        let s = s\<lparr>needle := n\<rparr>;
        s \<leftarrow> (case getItem n m of
                None \<Rightarrow> Some s
              | Some it \<Rightarrow> do { out \<leftarrow> Item_output cas it (outputBuf s); Some (s\<lparr>outputBuf := out\<rparr>) });
        get_loop hash_range cas beg s m })"

definition doGet ::
  "(string \<Rightarrow> 64 word) \<Rightarrow> string list \<Rightarrow> Session \<Rightarrow> MemcacheServer \<Rightarrow> Session option" where
  "doGet hash_range beg s m = do {
     (fin, s) \<leftarrow> get_loop hash_range (command s = ''gets'') beg s m;
     if \<not> fin then Some s
     else do {
       out \<leftarrow> Buffer_append (outputBuf s) (''END'' @ CRLF);
       let s = call_conn (SShrinkOver (65535 + readableBytes out)) s;
       Some ((call_conn (SSendBuffer (readable out)) s)\<lparr>outputBuf := retrieveAll out\<rparr>) } }"

definition doDelete ::
  "(string \<Rightarrow> 64 word) \<Rightarrow> string list \<Rightarrow> Session \<Rightarrow> MemcacheServer \<Rightarrow> (Session \<times> MemcacheServer) option" where
  "doDelete hash_range beg s m = do {
     assertm (command s = ''delete'');
     assertm (beg \<noteq> []);
     let key = hd beg;
     let beg = tl beg;
     if \<not> length key \<le> kLongestKeySize
     then Some (reply (''CLIENT_ERROR bad command line format'' @ CRLF) s, m)
     else if beg \<noteq> [] \<and> hd beg \<noteq> ''0''
     then Some (reply (''CLIENT_ERROR bad command line format. Usage: delete <key> [noreply]'' @ CRLF) s, m)
     else do {
       n \<leftarrow> resetKey hash_range key (needle s);
       let s = s\<lparr>needle := n\<rparr>;
       let (ok, m) = deleteItem n m;
       Some (reply ((if ok then ''DELETED'' else ''NOT_FOUND'') @ CRLF) s, m) } }"

definition split_noreply :: "string \<Rightarrow> bool \<times> string" where
  "split_noreply req =
     (if length req \<ge> 8 \<and> drop (length req - 8) req = '' noreply'' then (True, take (length req - 8) req)
      else (False, req))"

definition processRequest ::
  "(string \<Rightarrow> 64 word) \<Rightarrow> string \<Rightarrow> Session \<Rightarrow> MemcacheServer \<Rightarrow> (bool \<times> Session \<times> MemcacheServer) option" where
  "processRequest hash_range req s m = do {
     assertm (command s = []);
     assertm (\<not> noreply s);
     assertm (policy s = pInvalid);
     assertm (currItem s = None);
     assertm (bytesToDiscard s = 0);
     let s = s\<lparr>requestsProcessed := requestsProcessed s + 1\<rparr>;
     let (quiet, req) = split_noreply req;
     let s = (if quiet then s\<lparr>noreply := True\<rparr> else s);
     (case tokens req of
        [] \<Rightarrow> Some (True, reply (''ERROR'' @ CRLF) s, m)
      | cmd # beg \<Rightarrow>
          let s = s\<lparr>command := cmd\<rparr> in
          if cmd = ''set'' \<or> cmd = ''add'' \<or> cmd = ''replace'' \<or> cmd = ''append'' \<or> cmd = ''prepend'' \<or> cmd = ''cas''
          then doUpdate hash_range beg s m
          else if cmd = ''get'' \<or> cmd = ''gets'' then do { s \<leftarrow> doGet hash_range beg s m; Some (True, s, m) }
          else if cmd = ''delete'' then do { (s, m) \<leftarrow> doDelete hash_range beg s m; Some (True, s, m) }
          else if cmd = ''version'' then Some (True, reply (''VERSION 0.01 cnet'' @ CRLF) s, m)
          else if cmd = ''quit'' then Some (True, call_conn SShutdown s, m)
          else if cmd = ''shutdown'' then Some (True, call_conn SStop (call_conn SShutdown s), m)
          else Some (True, reply (''ERROR'' @ CRLF) s, m)) }"

definition store_reply :: "UpdatePolicy \<Rightarrow> bool \<Rightarrow> bool \<Rightarrow> string" where
  "store_reply pol ok present =
     (if ok then ''STORED'' @ CRLF
      else if pol = kCas then (if present then ''EXISTS'' else ''NOT_FOUND'' @ CRLF)
      else ''NOT_FOUND'')"

text \<open>The source also asserts that the item under construction is not shared, which holds as nobody else has it.\<close>

definition receiveValue ::
  "(string \<Rightarrow> 64 word) \<Rightarrow> Buffer \<Rightarrow> Session \<Rightarrow> MemcacheServer \<Rightarrow> (Session \<times> MemcacheServer \<times> Buffer) option" where
  "receiveValue hash_range buf s m = do {
     it \<leftarrow> currItem s;
     assertm (sstate s = kReceiveValue);
     let avail = min (readableBytes buf) (neededBytes it);
     it \<leftarrow> Item_append (slice (Buffer_peek buf) (Buffer_peek buf + avail) (buffer_vec buf)) it;
     buf \<leftarrow> retrieve buf avail;
     let s = s\<lparr>currItem := Some it\<rparr>;
     if neededBytes it = 0
     then do {
       (s, m) \<leftarrow> (if endsWithCRLF it
          then do {
            (ok, present, m) \<leftarrow> storeItem hash_range it (policy s) m;
            Some (reply (store_reply (policy s) ok present) s, m) }
          else Some (reply (''CLIENT_ERROR bad data chunk'' @ CRLF) s, m));
       Some ((resetRequest s)\<lparr>sstate := kNewCommand\<rparr>, m, buf) }
     else Some (s, m, buf) }"

definition discardValue :: "Buffer \<Rightarrow> Session \<Rightarrow> (Session \<times> Buffer) option" where
  "discardValue buf s = do {
     assertm (currItem s = None);
     assertm (sstate s = kDiscardValue);
     if readableBytes buf < bytesToDiscard s
     then Some (s\<lparr>bytesToDiscard := bytesToDiscard s - readableBytes buf\<rparr>, retrieveAll buf)
     else do {
       buf \<leftarrow> retrieve buf (bytesToDiscard s);
       Some ((resetRequest (s\<lparr>bytesToDiscard := 0\<rparr>))\<lparr>sstate := kNewCommand\<rparr>, buf) } }"

definition choose_protocol :: "Buffer \<Rightarrow> Session \<Rightarrow> Session option" where
  "choose_protocol buf s = do {
     s \<leftarrow> (if protocol s = kAuto
           then do {
             assertm (bytesRead s = 0);
             Some (s\<lparr>protocol := (if isBinaryProtocol (buffer_vec buf ! Buffer_peek buf) then kBinary else kAscii)\<rparr>) }
           else Some s);
     assertm (protocol s = kAscii \<or> protocol s = kBinary);
     Some s }"

partial_function (option) message_loop ::
  "(string \<Rightarrow> 64 word) \<Rightarrow> Session \<Rightarrow> MemcacheServer \<Rightarrow> Buffer \<Rightarrow> (Session \<times> MemcacheServer \<times> Buffer) option option" where
  "message_loop hash_range s m buf =
     (if readableBytes buf > 0
      then (case sstate s of
          kNewCommand \<Rightarrow>
            (case choose_protocol buf s of
               None \<Rightarrow> Some None
             | Some s \<Rightarrow>
                 if protocol s = kBinary then message_loop hash_range s m buf
                 else (case findCRLF buf of
                     Some crlf \<Rightarrow>
                       (case processRequest hash_range (slice (Buffer_peek buf) crlf (buffer_vec buf)) s m of
                          None \<Rightarrow> Some None
                        | Some (fin, s, m) \<Rightarrow>
                            (case retrieveUntil buf (crlf + 2) of
                               None \<Rightarrow> Some None
                             | Some buf \<Rightarrow> message_loop hash_range (if fin then resetRequest s else s) m buf))
                   | None \<Rightarrow> Some (Some (if readableBytes buf > 1024 then call_conn SShutdown s else s, m, buf))))
        | kReceiveValue \<Rightarrow>
            (case receiveValue hash_range buf s m of
               None \<Rightarrow> Some None
             | Some (s, m, buf) \<Rightarrow> message_loop hash_range s m buf)
        | kDiscardValue \<Rightarrow>
            (case discardValue buf s of
               None \<Rightarrow> Some None
             | Some (s, buf) \<Rightarrow> message_loop hash_range s m buf))
      else Some (Some (s, m, buf)))"

definition Session_onMessage ::
  "(string \<Rightarrow> 64 word) \<Rightarrow> Session \<Rightarrow> MemcacheServer \<Rightarrow> Buffer \<Rightarrow> (Session \<times> MemcacheServer \<times> Buffer) option option" where
  "Session_onMessage hash_range s m buf =
     (let initialReadable = readableBytes buf
      in map_option (map_option (\<lambda>(s, m, buf).
           (s\<lparr>bytesRead := bytesRead s + (initialReadable - readableBytes buf)\<rparr>, m, buf)))
         (message_loop hash_range s m buf))"

text \<open>\<^verbatim>\<open>MemcacheServer::onConnection\<close>: the sessions by connection name.\<close>

definition Server_onConnection ::
  "(string \<Rightarrow> 64 word) \<Rightarrow> string \<Rightarrow> bool \<Rightarrow> (string \<rightharpoonup> Session) \<Rightarrow> (string \<rightharpoonup> Session) option" where
  "Server_onConnection hash_range name up sessions =
     (if up
      then do {
        session \<leftarrow> Session_new hash_range;
        assertm (sessions name = None);
        Some (sessions(name \<mapsto> session)) }
      else do {
        assertm (sessions name \<noteq> None);
        Some (sessions(name := None)) })"

section \<open>Invariant\<close>

definition needle_ok :: "Item \<Rightarrow> bool" where
  "needle_ok n \<longleftrightarrow> length (idata n) = 252 \<and> valuelen n = 2"

definition idle :: "Session \<Rightarrow> bool" where
  "idle s \<longleftrightarrow> sstate s = kNewCommand \<and> command s = [] \<and> \<not> noreply s \<and> policy s = pInvalid \<and> currItem s = None
     \<and> bytesToDiscard s = 0"

definition partial_item :: "(string \<Rightarrow> 64 word) \<Rightarrow> Item \<Rightarrow> string \<Rightarrow> bool" where
  "partial_item h it d \<longleftrightarrow> item_filled it d \<and> int (length d) < totalLen it \<and> keylen it \<le> length d
     \<and> ihash it = h (take (keylen it) d)"

definition receiving :: "(string \<Rightarrow> 64 word) \<Rightarrow> Session \<Rightarrow> bool" where
  "receiving h s \<longleftrightarrow> sstate s = kReceiveValue \<and> (\<exists>it d. currItem s = Some it \<and> partial_item h it d)"

definition discarding :: "Session \<Rightarrow> bool" where
  "discarding s \<longleftrightarrow> sstate s = kDiscardValue \<and> currItem s = None \<and> 0 < bytesToDiscard s"

definition session_base :: "(string \<Rightarrow> 64 word) \<Rightarrow> Session \<Rightarrow> MemcacheServer \<Rightarrow> bool" where
  "session_base h s m \<longleftrightarrow> store_inv h m \<and> needle_ok (needle s) \<and> Buffer_inv (outputBuf s) \<and> protocol s = kAscii"

definition session_inv :: "(string \<Rightarrow> 64 word) \<Rightarrow> Session \<Rightarrow> MemcacheServer \<Rightarrow> bool" where
  "session_inv h s m \<longleftrightarrow> session_base h s m \<and> (idle s \<or> receiving h s \<or> discarding s)"

lemma reply_simps [simp]:
  "sstate (reply msg s) = sstate s" "protocol (reply msg s) = protocol s" "command (reply msg s) = command s"
  "noreply (reply msg s) = noreply s" "policy (reply msg s) = policy s" "currItem (reply msg s) = currItem s"
  "bytesToDiscard (reply msg s) = bytesToDiscard s" "needle (reply msg s) = needle s"
  "outputBuf (reply msg s) = outputBuf s"
  by (simp_all add: reply_def call_conn_def)

lemma call_conn_simps [simp]:
  "sstate (call_conn c s) = sstate s" "protocol (call_conn c s) = protocol s" "command (call_conn c s) = command s"
  "noreply (call_conn c s) = noreply s" "policy (call_conn c s) = policy s" "currItem (call_conn c s) = currItem s"
  "bytesToDiscard (call_conn c s) = bytesToDiscard s" "needle (call_conn c s) = needle s"
  "outputBuf (call_conn c s) = outputBuf s" "acts (call_conn c s) = acts s @ [c]"
  by (simp_all add: call_conn_def)

lemma idle_resetRequest [simp]: "sstate s = kNewCommand \<Longrightarrow> idle (resetRequest s)"
  by (simp add: idle_def resetRequest_def)

lemma resetRequest_simps [simp]:
  "sstate (resetRequest s) = sstate s" "protocol (resetRequest s) = protocol s" "needle (resetRequest s) = needle s"
  "outputBuf (resetRequest s) = outputBuf s" "acts (resetRequest s) = acts s"
  by (simp_all add: resetRequest_def)

lemma resetKey_ok:
  assumes "needle_ok n" and "length k \<le> 250"
  shows "\<exists>n'. resetKey h k n = Some n' \<and> needle_ok n' \<and> ikey n' = k \<and> ihash n' = h k"
  using assms
  by (simp add: resetKey_def Item_append_def neededBytes_def totalLen_def needle_ok_def ikey_def overwrite_def)

lemma Session_new_ok: "\<exists>s. Session_new h = Some s \<and> idle s \<and> needle_ok (needle s) \<and> Buffer_inv (outputBuf s)
    \<and> protocol s = kAscii \<and> readable (outputBuf s) = [] \<and> acts s = []"
proof -
  obtain it where it: "makeItem h kLongestKey 0 0 2 0 = Some it" "item_filled it kLongestKey" "keylen it = 250" "valuelen it = 2"
    using makeItem_filled [of 2 kLongestKey h 0 0 0] by (auto simp: kLongestKey_def kLongestKeySize_def)
  then have "needle_ok it" by (simp add: needle_ok_def item_filled_def totalLen_def)
  then show ?thesis using it(1) by (simp add: Session_new_def idle_def)
qed

lemma makeItem_partial:
  assumes "makeItem h k fl ex vlen c = Some it"
  shows "partial_item h it k" and "keylen it = length k"
proof -
  have v: "2 \<le> vlen" "int (length k) + vlen < 2 ^ 31"
    using assms by (auto simp: makeItem_def totalLen_def split: if_splits)
  from makeItem_filled [OF this, of h fl ex c] assms v show "partial_item h it k" "keylen it = length k"
    by (auto simp: partial_item_def totalLen_def)
qed

lemma Item_output_ok:
  assumes "Buffer_inv b"
  shows "\<exists>b'. Item_output cas it b = Some b' \<and> Buffer_inv b' \<and> readable b' = readable b @ ''VALUE '' @ ikey it
    @ '' '' @ dec_nat (unat (iflags it)) @ '' '' @ dec_int (valuelen it - 2)
    @ (if cas then '' '' @ dec_nat (unat (icas it)) else []) @ CRLF @ ivalue it"
proof -
  obtain b1 where b1: "Buffer_append b ''VALUE '' = Some b1" "Buffer_inv b1" "readable b1 = readable b @ ''VALUE ''"
    using buf.app_obtain [OF assms] .
  obtain b2 where b2: "Buffer_append b1 (ikey it) = Some b2" "Buffer_inv b2" "readable b2 = readable b1 @ ikey it"
    using buf.app_obtain [OF b1(2)] .
  let ?h = "'' '' @ dec_nat (unat (iflags it)) @ '' '' @ dec_int (valuelen it - 2)
    @ (if cas then '' '' @ dec_nat (unat (icas it)) else []) @ CRLF"
  obtain b3 where b3: "Buffer_append b2 ?h = Some b3" "Buffer_inv b3" "readable b3 = readable b2 @ ?h"
    using buf.app_obtain [OF b2(2)] .
  obtain b4 where b4: "Buffer_append b3 (ivalue it) = Some b4" "Buffer_inv b4" "readable b4 = readable b3 @ ivalue it"
    using buf.app_obtain [OF b3(2)] .
  have "Item_output cas it b = Some b4"
    using b1(1) b2(1) b3(1) b4(1) unfolding Item_output_def ikey_def [symmetric] by (simp only: bind.bind_lunit Let_def)
  then show ?thesis using b1 b2 b3 b4 by simp
qed

lemma get_loop_base:
  "session_base h s m \<Longrightarrow> get_loop h cas ks s m = Some (fin, s') \<Longrightarrow>
   session_base h s' m \<and> sstate s' = sstate s \<and> command s' = command s"
proof (induction ks arbitrary: s)
  case (Cons k ks)
  show ?case
  proof (cases "length k > kLongestKeySize")
    case True
    then show ?thesis using Cons.prems by (auto simp: session_base_def)
  next
    case False
    then have "length k \<le> 250" by (simp add: kLongestKeySize_def)
    moreover have "needle_ok (needle s)" using Cons.prems(1) by (simp add: session_base_def)
    ultimately obtain n where n: "resetKey h k (needle s) = Some n" "needle_ok n" using resetKey_ok by blast
    obtain s1 where s1: "get_loop h cas ks s1 m = Some (fin, s')" "session_base h s1 m" "sstate s1 = sstate s" "command s1 = command s"
    proof (cases "getItem n m")
      case None
      then show ?thesis using that [of "s\<lparr>needle := n\<rparr>"] False n Cons.prems by (simp add: session_base_def)
    next
      case (Some it)
      obtain b where "Item_output cas it (outputBuf s) = Some b" "Buffer_inv b"
        using Item_output_ok [of "outputBuf s" cas it] Cons.prems(1) by (auto simp: session_base_def)
      then show ?thesis using that [of "s\<lparr>needle := n, outputBuf := b\<rparr>"] Some False n Cons.prems by (simp add: session_base_def)
    qed
    show ?thesis using Cons.IH [OF s1(2,1)] s1 by simp
  qed
qed simp

lemma doGet_base:
  assumes "session_base h s m" and "doGet h ks s m = Some s'"
  shows "session_base h s' m \<and> sstate s' = sstate s"
proof -
  obtain fin s1 where s1: "get_loop h (command s = ''gets'') ks s m = Some (fin, s1)"
    using assms(2) by (auto simp: doGet_def elim!: bind_SomeE)
  note b = get_loop_base [OF assms(1) s1]
  obtain out where "Buffer_append (outputBuf s1) (''END'' @ CRLF) = Some out" "Buffer_inv out"
    using buf.app_obtain [of "outputBuf s1" "''END'' @ CRLF"] b by (auto simp: session_base_def)
  then show ?thesis using s1 b assms(2) by (auto simp: doGet_def session_base_def Let_def split: if_splits)
qed

lemma deleteItem_store_inv:
  assumes "store_inv h m" and "needle_ok n" and "length k \<le> 250" and "resetKey h k n = Some n'"
  shows "store_inv h (snd (deleteItem n' m))" and "needle_ok n'"
  using resetKey_ok [OF assms(2,3), of h] assms(1,4) deleteItem_refines(3) [of h m n'] by auto

lemma doDelete_base:
  assumes "session_base h s m" and "doDelete h ks s m = Some (s', m')"
  shows "session_base h s' m' \<and> sstate s' = sstate s"
  using assms deleteItem_store_inv [of h m "needle s" "hd ks"]
  by (auto simp: doDelete_def session_base_def kLongestKeySize_def Let_def elim!: bind_SomeE split: if_splits prod.splits)

lemma update_fields_key: "update_fields pol k r = Some x \<Longrightarrow> length k < 250"
  by (auto simp: update_fields_def kLongestKeySize_def split: if_splits)

lemma doUpdate_inv:
  assumes "session_base h s m" and "sstate s = kNewCommand" and "currItem s = None" and "doUpdate h ks s m = Some (fin, s', m')"
  shows "session_base h s' m' \<and> (if fin then sstate s' = kNewCommand else receiving h s' \<or> discarding s')"
proof -
  obtain pol where pol: "policy_of (command s) = Some pol" and ks: "ks \<noteq> []"
    using assms(4) by (auto simp: doUpdate_def elim!: bind_SomeE split: if_splits)
  show ?thesis
  proof (cases "update_fields pol (hd ks) (tl ks)")
    case None
    then show ?thesis using assms pol ks by (auto simp: doUpdate_def session_base_def)
  next
    case (Some x)
    obtain fl ex n c where x: "x = (fl, ex, n, c)" by (cases x)
    have k: "length (hd ks) \<le> 250" using update_fields_key [OF Some] by simp
    show ?thesis
    proof (cases "n > 1024 * 1024")
      case True
      then show ?thesis
        using assms pol ks Some x deleteItem_store_inv [OF _ _ k, of h m "needle s"]
        by (auto simp: doUpdate_def session_base_def discarding_def Let_def elim!: bind_SomeE split: if_splits)
    next
      case False
      then show ?thesis
        using assms pol ks Some x makeItem_partial [of h "hd ks" fl "relative_exptime (startTime m) ex" "n + 2" c]
        by (auto simp: doUpdate_def session_base_def receiving_def elim!: bind_SomeE)
    qed
  qed
qed

definition started :: "string \<Rightarrow> Session \<Rightarrow> Session" where
  "started req s = s\<lparr>requestsProcessed := requestsProcessed s + 1, noreply := fst (split_noreply req)\<rparr>"

lemma started_simps [simp]:
  "sstate (started req s) = sstate s" "protocol (started req s) = protocol s" "needle (started req s) = needle s"
  "outputBuf (started req s) = outputBuf s" "currItem (started req s) = currItem s" "policy (started req s) = policy s"
  "bytesToDiscard (started req s) = bytesToDiscard s" "noreply (started req s) = fst (split_noreply req)"
  "acts (started req s) = acts s"
  by (simp_all add: started_def)

lemma processRequest_idle:
  assumes "idle s"
  shows "processRequest h req s m =
     (case tokens (snd (split_noreply req)) of
        [] \<Rightarrow> Some (True, reply (''ERROR'' @ CRLF) (started req s), m)
      | cmd # beg \<Rightarrow>
          let s = (started req s)\<lparr>command := cmd\<rparr> in
          if cmd = ''set'' \<or> cmd = ''add'' \<or> cmd = ''replace'' \<or> cmd = ''append'' \<or> cmd = ''prepend'' \<or> cmd = ''cas''
          then doUpdate h beg s m
          else if cmd = ''get'' \<or> cmd = ''gets'' then do { s \<leftarrow> doGet h beg s m; Some (True, s, m) }
          else if cmd = ''delete'' then do { (s, m) \<leftarrow> doDelete h beg s m; Some (True, s, m) }
          else if cmd = ''version'' then Some (True, reply (''VERSION 0.01 cnet'' @ CRLF) s, m)
          else if cmd = ''quit'' then Some (True, call_conn SShutdown s, m)
          else if cmd = ''shutdown'' then Some (True, call_conn SStop (call_conn SShutdown s), m)
          else Some (True, reply (''ERROR'' @ CRLF) s, m))"
proof -
  have i: "command s = []" "\<not> noreply s" "policy s = pInvalid" "currItem s = None" "bytesToDiscard s = 0"
    using assms by (simp_all add: idle_def)
  let ?s = "s\<lparr>requestsProcessed := requestsProcessed s + 1\<rparr>"
  have s0: "(if fst (split_noreply req) then ?s\<lparr>noreply := True\<rparr> else ?s) = started req s"
    using i(2) by (cases s) (simp add: started_def)
  show ?thesis
    unfolding processRequest_def case_prod_beta Let_def s0 by (simp only: i assertm_bind if_True simp_thms)
qed

lemma request_done:
  assumes "session_base h s m" and "if fin then sstate s = kNewCommand else receiving h s \<or> discarding s"
  shows "session_inv h (if fin then resetRequest s else s) m"
  using assms by (auto simp: session_inv_def session_base_def)

lemma if_chain:
  assumes "(if a then x1 else if b then x2 else if c then x3 else if d then x4 else if e then x5 else if f then x6 else x7) = y"
  obtains (1) "x1 = y" | (2) "x2 = y" | (3) "x3 = y" | (4) "x4 = y" | (5) "x5 = y" | (6) "x6 = y" | (7) "x7 = y"
  using assms by (auto split: if_splits)

lemma processRequest_inv:
  assumes "session_base h s m" and "idle s" and "processRequest h req s m = Some (fin, s', m')"
  shows "session_inv h (if fin then resetRequest s' else s') m'"
proof -
  have i: "currItem s = None" "sstate s = kNewCommand" using assms(2) by (simp_all add: idle_def)
  note r = assms(3) [unfolded processRequest_idle [OF assms(2)] Let_def]
  have finish: "session_inv h (if fin then resetRequest s' else s') m'"
    if "Some (True, t, m) = Some (fin, s', m')" and "session_base h t m" and "sstate t = kNewCommand" for t
    using that by (intro request_done) simp_all
  show ?thesis
  proof (cases "tokens (snd (split_noreply req))")
    case Nil
    show ?thesis
      by (rule finish [OF r [unfolded Nil list.case]]) (use assms(1) i in \<open>simp_all add: session_base_def\<close>)
  next
    case (Cons cmd ks)
    let ?s = "(started req s)\<lparr>command := cmd\<rparr>"
    have b: "session_base h ?s m" "sstate ?s = kNewCommand" "currItem ?s = None"
      using assms(1) i by (simp_all add: session_base_def)
    have c: "session_base h (call_conn a t) m" "session_base h (reply msg t) m" if "session_base h t m" for a msg t
      using that by (simp_all add: session_base_def)
    show ?thesis
    proof (rule if_chain [OF r [unfolded Cons list.case]])
      assume "doUpdate h ks ?s m = Some (fin, s', m')"
      from doUpdate_inv [OF b this] show ?thesis by (intro request_done) simp_all
    next
      assume "(do { s \<leftarrow> doGet h ks ?s m; Some (True, s, m) }) = Some (fin, s', m')"
      then obtain t where t: "doGet h ks ?s m = Some t" "Some (True, t, m) = Some (fin, s', m')" by (rule bind_SomeE)
      show ?thesis by (rule finish [OF t(2)]) (use doGet_base [OF b(1) t(1)] b(2) in simp_all)
    next
      assume "(do { (s, m) \<leftarrow> doDelete h ks ?s m; Some (True, s, m) }) = Some (fin, s', m')"
      then have "doDelete h ks ?s m = Some (s', m')" fin by (auto elim!: bind_SomeE)
      with doDelete_base [OF b(1)] b(2) show ?thesis by (intro request_done) simp_all
    qed (erule finish; use b c in simp)+
  qed
qed

section \<open>Lines that fail an assertion\<close>

text \<open>
  An update command without a key (the end iterator is dereferenced), or with a length that is negative or whose sum
  with the two bytes of the line end is no \<^verbatim>\<open>int\<close>; and \<^verbatim>\<open>delete\<close> without a key.
\<close>

definition line_aborts :: "string \<Rightarrow> bool" where
  "line_aborts req \<longleftrightarrow> (case tokens (snd (split_noreply req)) of
       [] \<Rightarrow> False
     | cmd # beg \<Rightarrow>
         (case policy_of cmd of
            Some pol \<Rightarrow> beg = [] \<or> (case update_fields pol (hd beg) (tl beg) of
                None \<Rightarrow> False | Some (flags, exptime, bytes, cas) \<Rightarrow> bytes < 0 \<or> 2 ^ 31 \<le> bytes + 2)
          | None \<Rightarrow> cmd = ''delete'' \<and> beg = []))"

definition table_sub :: "(string \<Rightarrow> 64 word) \<Rightarrow> MemcacheServer \<Rightarrow> MemcacheServer \<Rightarrow> bool" where
  "table_sub h m' m \<longleftrightarrow> (\<forall>k e. table h m' k = Some e \<longrightarrow> table h m k = Some e)"

text \<open>The bytes of the current item that have arrived.\<close>

definition pending :: "Session \<Rightarrow> nat" where
  "pending s = (case currItem s of None \<Rightarrow> 0 | Some it \<Rightarrow> receivedBytes it)"

lemma pending_reset [simp]: "pending (resetRequest s) = 0"
  by (simp add: pending_def resetRequest_def)

lemma table_sub_refl [simp]: "table_sub h m m"
  by (simp add: table_sub_def)

lemma token_length: "t \<in> set (tokens s) \<Longrightarrow> length t \<le> length s"
proof (induction s rule: tokens.induct)
  case (1 s)
  show ?case
  proof (cases "SpaceSeparator s")
    case None
    then show ?thesis using 1(2) by (subst (asm) tokens.simps) simp
  next
    case (Some x)
    obtain tok rest where x: "x = (tok, rest)" by (cases x)
    have "length tok \<le> length s"
      using Some x length_takeWhile_le [of "\<lambda>c. c \<noteq> CHR '' ''" "dropWhile (\<lambda>c. c = CHR '' '') s"]
        length_dropWhile_le [of "\<lambda>c. c = CHR '' ''" s]
      by (auto simp: SpaceSeparator_def Let_def split: if_splits)
    moreover have "length rest < length s" using SpaceSeparator_shrinks Some x by blast
    moreover have "t = tok \<or> t \<in> set (tokens rest)" using 1(2) Some x by (subst (asm) tokens.simps) simp
    ultimately show ?thesis using 1(1) [OF Some x [symmetric]] by fastforce
  qed
qed

lemma split_noreply_length: "length (snd (split_noreply req)) \<le> length req"
  by (simp add: split_noreply_def)

lemma deleteItem_sub:
  assumes "store_inv h m" and "needle_ok n" and "length k \<le> 250" and "resetKey h k n = Some n'"
  shows "table_sub h (snd (deleteItem n' m)) m"
  using resetKey_ok [OF assms(2,3), of h] assms(1,4) deleteItem_refines(2) [of h m n'] by (auto simp: table_sub_def)

lemma doUpdate_outcome:
  assumes "session_base h s m" and "currItem s = None" and "policy_of (command s) = Some pol"
  shows "doUpdate h ks s m = None \<longleftrightarrow> ks = [] \<or> (case update_fields pol (hd ks) (tl ks) of
      None \<Rightarrow> False | Some (flags, exptime, bytes, cas) \<Rightarrow> bytes < 0 \<or> 2 ^ 31 \<le> bytes + 2)"
    and "doUpdate h ks s m = Some (fin, s', m') \<Longrightarrow> table_sub h m' m \<and> (fin \<or> pending s' \<le> length (hd ks))"
proof -
  have "(doUpdate h ks s m = None \<longleftrightarrow> ks = [] \<or> (case update_fields pol (hd ks) (tl ks) of
      None \<Rightarrow> False | Some (flags, exptime, bytes, cas) \<Rightarrow> bytes < 0 \<or> 2 ^ 31 \<le> bytes + 2)) \<and>
    (doUpdate h ks s m = Some (fin, s', m') \<longrightarrow> table_sub h m' m \<and> (fin \<or> pending s' \<le> length (hd ks)))"
  proof (cases "ks = []")
    case True
    then show ?thesis using assms(3) by (simp add: doUpdate_def)
  next
    case ks: False
    show ?thesis
    proof (cases "update_fields pol (hd ks) (tl ks)")
      case None
      then show ?thesis using assms(3) ks by (simp add: doUpdate_def)
    next
      case (Some x)
      obtain fl ex n c where x: "x = (fl, ex, n, c)" by (cases x)
      have k: "length (hd ks) < 250" using update_fields_key [OF Some] .
      show ?thesis
      proof (cases "n > 1024 * 1024")
        case True
        obtain n' where n': "resetKey h (hd ks) (needle s) = Some n'"
          using resetKey_ok [of "needle s" "hd ks" h] assms(1) k by (auto simp: session_base_def)
        have "table_sub h (snd (deleteItem n' m)) m"
          using deleteItem_sub [OF _ _ _ n'] assms(1) k by (simp add: session_base_def)
        then show ?thesis using True assms(2,3) ks Some x n' by (auto simp: doUpdate_def Let_def pending_def)
      next
        case False
        have none: "makeItem h (hd ks) fl (relative_exptime (startTime m) ex) (n + 2) c = None" if "n < 0"
          using that by (auto simp: makeItem_def)
        have ok: "\<exists>it. makeItem h (hd ks) fl (relative_exptime (startTime m) ex) (n + 2) c = Some it \<and> receivedBytes it = length (hd ks)"
          if "0 \<le> n"
          using makeItem_filled [of "n + 2" "hd ks" h fl "relative_exptime (startTime m) ex" c] that False k
          by (fastforce simp: item_filled_def)
        show ?thesis
        proof (cases "n < 0")
          case True
          then show ?thesis using False assms(3) ks Some x none by (simp add: doUpdate_def)
        next
          case pos: False
          then show ?thesis using False assms(3) ks Some x ok by (auto simp: doUpdate_def pending_def)
        qed
      qed
    qed
  qed
  note both = this
  show "doUpdate h ks s m = None \<longleftrightarrow> ks = [] \<or> (case update_fields pol (hd ks) (tl ks) of
      None \<Rightarrow> False | Some (flags, exptime, bytes, cas) \<Rightarrow> bytes < 0 \<or> 2 ^ 31 \<le> bytes + 2)"
    by (rule conjunct1 [OF both])
  show "table_sub h m' m \<and> (fin \<or> pending s' \<le> length (hd ks))" if "doUpdate h ks s m = Some (fin, s', m')"
    using both that by blast
qed

lemma get_loop_total:
  "session_base h s m \<Longrightarrow> \<exists>fin s'. get_loop h cas ks s m = Some (fin, s')"
proof (induction ks arbitrary: s)
  case (Cons k ks)
  show ?case
  proof (cases "length k > kLongestKeySize")
    case False
    then have "length k \<le> 250" by (simp add: kLongestKeySize_def)
    moreover have "needle_ok (needle s)" using Cons.prems by (simp add: session_base_def)
    ultimately obtain n where n: "resetKey h k (needle s) = Some n" "needle_ok n" using resetKey_ok by blast
    show ?thesis
    proof (cases "getItem n m")
      case None
      then show ?thesis using Cons.IH [of "s\<lparr>needle := n\<rparr>"] False n Cons.prems by (simp add: session_base_def)
    next
      case (Some it)
      obtain b where "Item_output cas it (outputBuf s) = Some b" "Buffer_inv b"
        using Item_output_ok [of "outputBuf s" cas it] Cons.prems by (auto simp: session_base_def)
      then show ?thesis using Cons.IH [of "s\<lparr>needle := n, outputBuf := b\<rparr>"] Some False n Cons.prems by (simp add: session_base_def)
    qed
  qed auto
qed auto

lemma doGet_total:
  assumes "session_base h s m"
  shows "\<exists>s'. doGet h ks s m = Some s'"
proof -
  obtain fin s1 where s1: "get_loop h (command s = ''gets'') ks s m = Some (fin, s1)" using get_loop_total [OF assms] by blast
  obtain out where "Buffer_append (outputBuf s1) (''END'' @ CRLF) = Some out"
    using buf.app_obtain [of "outputBuf s1" "''END'' @ CRLF"] get_loop_base [OF assms s1] by (auto simp: session_base_def)
  then show ?thesis using s1 by (simp add: doGet_def Let_def)
qed

lemma doDelete_outcome:
  assumes "session_base h s m" and "command s = ''delete''"
  shows "doDelete h ks s m = None \<longleftrightarrow> ks = []" and "doDelete h ks s m = Some (s', m') \<Longrightarrow> table_sub h m' m"
proof -
  have n: "\<exists>n'. resetKey h (hd ks) (needle s) = Some n'" if "length (hd ks) \<le> 250"
    using resetKey_ok [of "needle s" "hd ks" h] assms(1) that by (auto simp: session_base_def)
  then show "doDelete h ks s m = None \<longleftrightarrow> ks = []"
    using assms(2) by (auto simp: doDelete_def kLongestKeySize_def Let_def split: prod.splits)
  show "table_sub h m' m" if "doDelete h ks s m = Some (s', m')"
    using that deleteItem_sub [of h m "needle s" "hd ks"] assms
    by (auto simp: doDelete_def session_base_def kLongestKeySize_def Let_def elim!: bind_SomeE split: if_splits prod.splits)
qed

lemma policy_of_cases:
  "(cmd = ''set'' \<or> cmd = ''add'' \<or> cmd = ''replace'' \<or> cmd = ''append'' \<or> cmd = ''prepend'' \<or> cmd = ''cas'') \<longleftrightarrow> policy_of cmd \<noteq> None"
  by (auto simp: policy_of_def)

lemma processRequest_cmd:
  assumes "idle s" and "tokens (snd (split_noreply req)) = cmd # ks"
  shows "policy_of cmd = Some pol \<Longrightarrow> processRequest h req s m = doUpdate h ks ((started req s)\<lparr>command := cmd\<rparr>) m"
    and "cmd = ''delete'' \<Longrightarrow> processRequest h req s m =
      do { (s, m) \<leftarrow> doDelete h ks ((started req s)\<lparr>command := cmd\<rparr>) m; Some (True, s, m) }"
    and "policy_of cmd = None \<Longrightarrow> cmd \<noteq> ''delete'' \<Longrightarrow> processRequest h req s m =
      (if cmd = ''get'' \<or> cmd = ''gets'' then do { s \<leftarrow> doGet h ks ((started req s)\<lparr>command := cmd\<rparr>) m; Some (True, s, m) }
       else Some (True, (let s = (started req s)\<lparr>command := cmd\<rparr> in
          if cmd = ''version'' then reply (''VERSION 0.01 cnet'' @ CRLF) s
          else if cmd = ''quit'' then call_conn SShutdown s
          else if cmd = ''shutdown'' then call_conn SStop (call_conn SShutdown s)
          else reply (''ERROR'' @ CRLF) s), m))"
proof -
  have d: "policy_of ''delete'' = None" by (simp add: policy_of_def)
  have g: "''delete'' \<noteq> ''get''" "''delete'' \<noteq> ''gets''" by simp_all
  note pr = processRequest_idle [OF assms(1), of h req m, unfolded assms(2) list.case Let_def policy_of_cases]
  show "processRequest h req s m = doUpdate h ks ((started req s)\<lparr>command := cmd\<rparr>) m" if "policy_of cmd = Some pol"
    unfolding pr that by (simp only: option.distinct simp_thms if_True)
  show "processRequest h req s m = do { (s, m) \<leftarrow> doDelete h ks ((started req s)\<lparr>command := cmd\<rparr>) m; Some (True, s, m) }"
    if "cmd = ''delete''"
    unfolding pr that d by (simp only: g simp_thms if_True if_False)
  show "processRequest h req s m =
      (if cmd = ''get'' \<or> cmd = ''gets'' then do { s \<leftarrow> doGet h ks ((started req s)\<lparr>command := cmd\<rparr>) m; Some (True, s, m) }
       else Some (True, (let s = (started req s)\<lparr>command := cmd\<rparr> in
          if cmd = ''version'' then reply (''VERSION 0.01 cnet'' @ CRLF) s
          else if cmd = ''quit'' then call_conn SShutdown s
          else if cmd = ''shutdown'' then call_conn SStop (call_conn SShutdown s)
          else reply (''ERROR'' @ CRLF) s), m))"
    if "policy_of cmd = None" "cmd \<noteq> ''delete''"
    unfolding pr that(1) Let_def using that(2) by (simp only: simp_thms if_False) (simp only: if_distrib [of "\<lambda>s. Some (True, s, m)"])
qed

lemma processRequest_outcome:
  assumes "session_base h s m" and "idle s"
  shows "processRequest h req s m = None \<longleftrightarrow> line_aborts req"
    and "processRequest h req s m = Some (fin, s', m') \<Longrightarrow>
      table_sub h m' m \<and> pending (if fin then resetRequest s' else s') \<le> length req"
proof -
  have i: "currItem s = None" using assms(2) by (simp add: idle_def)
  have both: "(processRequest h req s m = None \<longleftrightarrow> line_aborts req) \<and>
    (processRequest h req s m = Some (fin, s', m') \<longrightarrow>
      table_sub h m' m \<and> pending (if fin then resetRequest s' else s') \<le> length req)"
  proof (cases "tokens (snd (split_noreply req))")
    case Nil
    then show ?thesis unfolding processRequest_idle [OF assms(2)] line_aborts_def by simp
  next
    case (Cons cmd ks)
    let ?s = "(started req s)\<lparr>command := cmd\<rparr>"
    have b: "session_base h ?s m" "currItem ?s = None" "command ?s = cmd"
      using assms(1) i by (simp_all add: session_base_def)
    have len: "length t \<le> length req" if "t \<in> set (cmd # ks)" for t
      using token_length [of t "snd (split_noreply req)"] split_noreply_length [of req] that Cons by simp
    note pr = processRequest_cmd [OF assms(2) Cons, where h = h and m = m]
    note la = line_aborts_def [of req, unfolded Cons list.case]
    show ?thesis
    proof (cases "policy_of cmd")
      case (Some pol)
      have "policy_of (command ?s) = Some pol" using b(3) Some by simp
      note o = doUpdate_outcome [OF b(1,2) this, of ks]
      have "table_sub h m' m \<and> pending (if fin then resetRequest s' else s') \<le> length req"
        if u: "doUpdate h ks ?s m = Some (fin, s', m')"
      proof -
        have "ks \<noteq> []" using o(1) u by auto
        then have "length (hd ks) \<le> length req" using len by simp
        then show ?thesis using o(2) [OF u] by auto
      qed
      moreover have "doUpdate h ks ?s m = None \<longleftrightarrow> line_aborts req" unfolding la Some option.case by (rule o(1))
      ultimately show ?thesis unfolding pr(1) [OF Some] by blast
    next
      case None
      show ?thesis
      proof (cases "cmd = ''delete''")
        case True
        note d = doDelete_outcome [OF b(1), of ks, unfolded b(3), OF True]
        show ?thesis unfolding pr(2) [OF True] la None option.case
          using d True by (cases "doDelete h ks ?s m") (auto split: prod.splits)
      next
        case False
        obtain g where g: "doGet h ks ?s m = Some g" using doGet_total [OF b(1)] by blast
        show ?thesis unfolding pr(3) [OF None False] la None option.case g bind.bind_lunit using False by auto
      qed
    qed
  qed
  show "processRequest h req s m = None \<longleftrightarrow> line_aborts req" by (rule conjunct1 [OF both])
  show "table_sub h m' m \<and> pending (if fin then resetRequest s' else s') \<le> length req"
    if "processRequest h req s m = Some (fin, s', m')" using both that by blast
qed

text \<open>
  Room in the table for \<open>n\<close> bytes more: whatever a client appends, keys with their values stay below the \<^verbatim>\<open>int\<close> length of an
  item.
\<close>

definition room :: "(string \<rightharpoonup> entry) \<Rightarrow> nat \<Rightarrow> bool" where
  "room M n \<longleftrightarrow> n < 2 ^ 31 \<and> (\<forall>k e. M k = Some e \<longrightarrow> length k + length (e_value e) + n < 2 ^ 31)"

lemma room_mono: "room M n \<Longrightarrow> n' \<le> n \<Longrightarrow> room M n'"
  by (fastforce simp: room_def)

lemma room_sub: "room (table h m) n \<Longrightarrow> table_sub h m' m \<Longrightarrow> room (table h m') n"
  by (simp add: room_def table_sub_def)

lemma room_spec_store:
  assumes "room M (length k + length (e_value e) + n)"
  shows "room (snd (spec_store p k e c M)) n"
proof -
  have r: "length k + length (e_value e) + n < 2 ^ 31" "M j = Some x \<Longrightarrow> length j + length (e_value x) + (length k + length (e_value e) + n) < 2 ^ 31" for j x
    using assms by (auto simp: room_def)
  have base: "room M n" using room_mono [OF assms] by simp
  have upd: "room (M(k \<mapsto> x)) n" if "length k + length (e_value x) + n < 2 ^ 31" for x
    using base that by (auto simp: room_def)
  show ?thesis
  proof (cases p)
    case kAppend
    then show ?thesis using base r(2) [of k] by (cases "M k") (auto intro!: upd)
  next
    case kPrepend
    then show ?thesis using base r(2) [of k] by (cases "M k") (auto intro!: upd)
  qed (use base r(1) in \<open>auto intro!: upd split: option.splits\<close>)
qed

section \<open>The loop\<close>

lemma readableBytes_pos: "Buffer_inv b \<Longrightarrow> 0 < readableBytes b \<longleftrightarrow> readable b \<noteq> []"
  by (metis length_greater_0_conv length_readable)

lemma neededBytes_zero: "item_filled it s \<Longrightarrow> neededBytes it = 0 \<longleftrightarrow> int (length s) = totalLen it"
proof -
  assume f: "item_filled it s"
  then have "int (length s) \<le> totalLen it" by (simp add: item_filled_def)
  then show ?thesis using neededBytes_filled [OF f] by linarith
qed

lemma partial_item_append:
  assumes "partial_item h it d" and "int (length d + length v) \<le> totalLen it"
  obtains it' where "Item_append v it = Some it'" and "item_filled it' (d @ v)" and "keylen it' = keylen it"
    and "valuelen it' = valuelen it" and "iflags it' = iflags it" and "rel_exptime it' = rel_exptime it"
    and "ihash it' = h (take (keylen it) d)" and "totalLen it' = totalLen it"
proof -
  have f: "item_filled it d" "ihash it = h (take (keylen it) d)" using assms(1) by (simp_all add: partial_item_def)
  from Item_append_filled [OF f(1) assms(2)] f(2) show ?thesis
    using that by (auto simp: totalLen_def)
qed

text \<open>Receiving a piece of the value: either all of the buffer is taken and more is needed, or the item is complete.\<close>

lemma receiveValue_step:
  assumes "session_base h s m" and "sstate s = kReceiveValue" and "currItem s = Some it" and "partial_item h it d"
    and "Buffer_inv buf" and "readable buf \<noteq> []" and "receiveValue h buf s m = Some (s', m', buf')"
  shows "session_inv h s' m' \<and> Buffer_inv buf' \<and> readableBytes buf' < readableBytes buf
    \<and> (\<exists>n. readable buf' = drop n (readable buf))"
proof -
  let ?n = "min (readableBytes buf) (neededBytes it)"
  have need: "neededBytes it = nat (totalLen it) - length d" "int (length d) < totalLen it"
    using assms(4) neededBytes_filled [of it d] by (auto simp: partial_item_def)
  have len: "?n \<le> length (readable buf)" "0 < readableBytes buf" using assms(5,6) by (simp_all add: readableBytes_pos)
  then have n: "0 < ?n" using need by simp
  have sl: "slice (Buffer_peek buf) (Buffer_peek buf + ?n) (buffer_vec buf) = take ?n (readable buf)"
    using slice_readable [OF assms(5) len(1)] .
  have "int (length d + length (take ?n (readable buf))) \<le> totalLen it" using len need by simp
  then obtain it' where it': "Item_append (take ?n (readable buf)) it = Some it'" "item_filled it' (d @ take ?n (readable buf))"
      "keylen it' = keylen it" "ihash it' = h (take (keylen it) d)" "totalLen it' = totalLen it"
    by (rule partial_item_append [OF assms(4)])
  obtain b where b: "retrieve buf ?n = Some b" "Buffer_inv b" "readable b = drop ?n (readable buf)"
    using buf.ret_obtain [OF assms(5) len(1)] .
  have less: "readableBytes b < readableBytes buf"
    using n len b(3) length_readable [OF b(2)] length_readable [OF assms(5)] by (metis diff_less length_drop)
  let ?s = "s\<lparr>currItem := Some it'\<rparr>"
  have base: "session_base h ?s m" using assms(1) by (simp add: session_base_def)
  have done_inv: "session_inv h ((resetRequest t)\<lparr>sstate := kNewCommand\<rparr>) m1" if "session_base h t m1" for t m1
    using that by (simp add: session_inv_def session_base_def idle_def resetRequest_def)
  have k: "keylen it \<le> length d" using assms(4) by (simp add: partial_item_def)
  show ?thesis
  proof (cases "neededBytes it' = 0")
    case False
    then have "s' = ?s" "m' = m" "buf' = b" using assms(2,3,7) sl it'(1) b(1) by (simp_all add: receiveValue_def Let_def)
    moreover have "partial_item h it' (d @ take ?n (readable buf))"
      using it' False neededBytes_filled [OF it'(2)] k by (simp add: partial_item_def)
    ultimately show ?thesis using base assms(2) b less by (auto simp: session_inv_def receiving_def)
  next
    case zero: True
    have full: "int (length (d @ take ?n (readable buf))) = totalLen it'"
      using zero neededBytes_zero [OF it'(2)] by blast
    have ok: "item_ok h it'" if "endsWithCRLF it'"
      by (rule item_of_filled [OF it'(2) full]) (use that item_filled_parts(5) [OF it'(2) full] it'(3,4) k in simp_all)
    have "session_inv h s' m' \<and> buf' = b"
      using assms(1,2,3,7) sl it'(1) b(1) zero storeItem_inv [OF _ ok, of m]
      by (auto simp: receiveValue_def Let_def session_base_def elim!: bind_SomeE split: if_splits intro!: done_inv)
    then show ?thesis using b less by auto
  qed
qed

lemma discardValue_step:
  assumes "session_base h s m" and "discarding s" and "Buffer_inv buf" and "readable buf \<noteq> []"
  shows "\<exists>s' buf'. discardValue buf s = Some (s', buf') \<and> session_inv h s' m \<and> Buffer_inv buf'
    \<and> readableBytes buf' < readableBytes buf \<and> (\<exists>n. readable buf' = drop n (readable buf))"
proof -
  have d: "currItem s = None" "sstate s = kDiscardValue" "0 < bytesToDiscard s" using assms(2) by (simp_all add: discarding_def)
  have pos: "0 < readableBytes buf" using assms(3,4) by (simp add: readableBytes_pos)
  show ?thesis
  proof (cases "readableBytes buf < bytesToDiscard s")
    case True
    have "readableBytes (retrieveAll buf) = 0" using length_readable [OF retrieveAll_inv [OF assms(3)]] by simp
    moreover have "readable (retrieveAll buf) = drop (length (readable buf)) (readable buf)" by simp
    ultimately show ?thesis
      using True d assms(1,3) pos by (auto simp: discardValue_def session_inv_def session_base_def discarding_def)
  next
    case False
    then have le: "bytesToDiscard s \<le> length (readable buf)" using length_readable [OF assms(3)] by simp
    obtain b where b: "retrieve buf (bytesToDiscard s) = Some b" "Buffer_inv b" "readable b = drop (bytesToDiscard s) (readable buf)"
      using buf.ret_obtain [OF assms(3) le] .
    have "readableBytes b < readableBytes buf"
      using b(3) d(3) pos length_readable [OF b(2)] length_readable [OF assms(3)] by (metis diff_less length_drop)
    then show ?thesis
      using False d b assms(1) by (auto simp: discardValue_def session_inv_def session_base_def idle_def resetRequest_def)
  qed
qed

text \<open>While the table has room for the bytes to come, receiving a value fails no assertion.\<close>

lemma receiveValue_room:
  assumes "session_base h s m" and "sstate s = kReceiveValue" and "currItem s = Some it" and "partial_item h it d"
    and "Buffer_inv buf" and "readable buf \<noteq> []" and "room (table h m) (pending s + length (readable buf))"
  shows "\<exists>s' m' buf'. receiveValue h buf s m = Some (s', m', buf') \<and> room (table h m') (pending s' + length (readable buf'))"
proof -
  let ?n = "min (readableBytes buf) (neededBytes it)" and ?r = "readable buf"
  have need: "neededBytes it = nat (totalLen it) - length d" "int (length d) < totalLen it" "pending s = length d"
    using assms(3,4) neededBytes_filled [of it d] by (auto simp: partial_item_def pending_def item_filled_def)
  have len: "?n \<le> length ?r" using assms(5) by simp
  have sl: "slice (Buffer_peek buf) (Buffer_peek buf + ?n) (buffer_vec buf) = take ?n ?r"
    using slice_readable [OF assms(5) len] .
  have "int (length d + length (take ?n ?r)) \<le> totalLen it" using len need by simp
  then obtain it' where it': "Item_append (take ?n ?r) it = Some it'" "item_filled it' (d @ take ?n ?r)"
      "keylen it' = keylen it" "ihash it' = h (take (keylen it) d)" "totalLen it' = totalLen it"
    by (rule partial_item_append [OF assms(4)])
  obtain b where b: "retrieve buf ?n = Some b" "readable b = drop ?n ?r"
    using buf.ret_obtain [OF assms(5) len] by metis
  let ?s = "s\<lparr>currItem := Some it'\<rparr>"
  have sum: "length (d @ take ?n ?r) + length (drop ?n ?r) = pending s + length ?r" using len need(3) by simp
  have k: "keylen it \<le> length d" using assms(4) by (simp add: partial_item_def)
  show ?thesis
  proof (cases "neededBytes it' = 0")
    case False
    have "pending ?s = length (d @ take ?n ?r)" using it'(2) by (simp add: pending_def item_filled_def)
    then show ?thesis
      using False assms(2,3,7) sl it'(1) b sum by (auto simp: receiveValue_def Let_def)
  next
    case zero: True
    have full: "int (length (d @ take ?n ?r)) = totalLen it'" using zero neededBytes_zero [OF it'(2)] by blast
    have p0: "pending ((resetRequest t)\<lparr>sstate := kNewCommand\<rparr>) = 0" for t by (simp add: pending_def resetRequest_def)
    show ?thesis
    proof (cases "endsWithCRLF it'")
      case False
      have "room (table h m) (length (drop ?n ?r))" by (rule room_mono [OF assms(7)]) simp
      then show ?thesis using False zero assms(2,3) sl it'(1) b p0 by (simp add: receiveValue_def Let_def)
    next
      case True
      have ok: "item_ok h it'"
        by (rule item_of_filled [OF it'(2) full]) (use True item_filled_parts(5) [OF it'(2) full] it'(3,4) k in simp_all)
      have v: "length (ikey it') + length (e_value (entry_of it')) = length (d @ take ?n ?r)"
        using item_ok_filled(2) [OF ok] full by (simp add: entry_of_def)
      have r: "room (table h m) (length (ikey it') + length (e_value (entry_of it')) + length (drop ?n ?r))"
        unfolding v sum by (rule assms(7))
      have "int (keylen it') + valuelen it' = int (length (d @ take ?n ?r))" using full by (simp add: totalLen_def)
      then have "join_fits h (policy s) it' m"
        using r v by (fastforce simp: join_fits_def room_def split: option.splits)
      then obtain ok' present m' where st: "storeItem h it' (policy s) m = Some (ok', present, m')"
          "table h m' = snd (spec_store (policy s) (ikey it') (entry_of it') (g_cas m + 1) (table h m))"
        using storeItem_refines [of h m it' "policy s"] ok assms(1) by (auto simp: session_base_def)
      have "room (table h m') (length (drop ?n ?r))" unfolding st(2) by (rule room_spec_store [OF r])
      then show ?thesis using True zero assms(2,3) sl it'(1) b p0 st(1) by (simp add: receiveValue_def Let_def)
    qed
  qed
qed

text \<open>What a call of the loop guarantees: it returns. An assertion fails only at a line that \<open>line_aborts\<close>; otherwise
  the invariant holds, the bytes left are the end of what was there, and they are an unfinished command line.\<close>

definition loop_post ::
  "(string \<Rightarrow> 64 word) \<Rightarrow> string \<Rightarrow> (Session \<times> MemcacheServer \<times> Buffer) option \<Rightarrow> bool" where
  "loop_post h bs r = (case r of None \<Rightarrow> \<exists>n line rest. drop n bs = line @ CRLF @ rest \<and> line_aborts line
     | Some (s, m, buf) \<Rightarrow> session_inv h s m \<and> Buffer_inv buf \<and> (\<exists>n. readable buf = drop n bs)
         \<and> (readable buf \<noteq> [] \<longrightarrow> idle s \<and> search_crlf (readable buf) = length (readable buf)))"

lemma loop_post_drop: "loop_post h (drop n bs) r \<Longrightarrow> loop_post h bs r"
  by (auto simp: loop_post_def split: option.splits)

lemma message_loop_line:
  assumes "idle s" and "protocol s = kAscii" and "Buffer_inv buf" and "search_crlf (readable buf) \<noteq> length (readable buf)"
  shows "\<exists>buf'. Buffer_inv buf' \<and> readable buf' = drop (search_crlf (readable buf) + 2) (readable buf)
    \<and> readableBytes buf' < readableBytes buf
    \<and> message_loop h s m buf = (case processRequest h (take (search_crlf (readable buf)) (readable buf)) s m of
         None \<Rightarrow> Some None | Some (fin, s, m) \<Rightarrow> message_loop h (if fin then resetRequest s else s) m buf')"
proof -
  let ?n = "search_crlf (readable buf)"
  have pos: "0 < readableBytes buf" using assms(3,4) by (auto simp: readableBytes_pos)
  have st: "sstate s = kNewCommand" using assms(1) by (simp add: idle_def)
  have pr: "choose_protocol buf s = Some s" using assms(2) by (simp add: choose_protocol_def)
  obtain buf' where b: "findCRLF buf = Some (Buffer_peek buf + ?n)"
      "slice (Buffer_peek buf) (Buffer_peek buf + ?n) (buffer_vec buf) = take ?n (readable buf)"
      "retrieveUntil buf (Buffer_peek buf + ?n + 2) = Some buf'" "Buffer_inv buf'" "readable buf' = drop (?n + 2) (readable buf)"
    using buffer_line [OF assms(3,4)] .
  have "readableBytes buf' < readableBytes buf"
    using b(5) pos length_readable [OF b(4)] length_readable [OF assms(3)] by (metis diff_less length_drop add_gr_0 zero_less_numeral)
  moreover have "message_loop h s m buf = (case processRequest h (take ?n (readable buf)) s m of
         None \<Rightarrow> Some None | Some (fin, s, m) \<Rightarrow> message_loop h (if fin then resetRequest s else s) m buf')"
    using pos st pr assms(2) b by (subst message_loop.simps) (simp split: option.split)
  ultimately show ?thesis using b(4,5) by blast
qed

lemma line_length: "xs = l @ CRLF @ r \<Longrightarrow> length r + length l \<le> length xs"
  by simp

lemma message_loop_returns:
  "session_inv h s m \<Longrightarrow> Buffer_inv buf \<Longrightarrow> room (table h m) (pending s + length (readable buf)) \<Longrightarrow>
   \<exists>r. message_loop h s m buf = Some r \<and> loop_post h (readable buf) r"
proof (induction "readableBytes buf" arbitrary: s m buf rule: less_induct)
  case less
  note inv = less.prems
  have base: "session_base h s m" "protocol s = kAscii" using inv(1) by (simp_all add: session_inv_def session_base_def)
  have step: "\<exists>r. message_loop h s' m' buf' = Some r \<and> loop_post h (readable buf) r"
    if "session_inv h s' m'" "Buffer_inv buf'" "readableBytes buf' < readableBytes buf" "readable buf' = drop n (readable buf)"
      "room (table h m') (pending s' + length (readable buf'))" for s' m' buf' n
    using less.hyps [OF that(3,1,2,5)] loop_post_drop that(4) by metis
  show ?case
  proof (cases "readable buf = []")
    case True
    then have "readableBytes buf = 0" using readableBytes_pos [OF inv(2)] by simp
    then show ?thesis using True inv by (subst message_loop.simps) (simp add: loop_post_def)
  next
    case False
    then have pos: "0 < readableBytes buf" using readableBytes_pos [OF inv(2)] by simp
    consider (idle) "idle s" | (recv) "receiving h s" | (disc) "discarding s" using inv(1) by (auto simp: session_inv_def)
    then show ?thesis
    proof cases
      case idle
      show ?thesis
      proof (cases "search_crlf (readable buf) = length (readable buf)")
        case True
        have "sstate s = kNewCommand" using idle by (simp add: idle_def)
        moreover have "choose_protocol buf s = Some s" using base(2) by (simp add: choose_protocol_def)
        moreover have "idle (call_conn SShutdown s)" "session_inv h (call_conn SShutdown s) m"
          using idle base by (simp_all add: session_inv_def session_base_def idle_def)
        ultimately show ?thesis
          using True idle inv base(2) pos buffer_no_line [OF inv(2) True]
          by (subst message_loop.simps) (auto simp: loop_post_def intro: exI [of _ 0])
      next
        case line: False
        obtain buf' where b: "Buffer_inv buf'" "readable buf' = drop (search_crlf (readable buf) + 2) (readable buf)"
            "readableBytes buf' < readableBytes buf"
            "message_loop h s m buf = (case processRequest h (take (search_crlf (readable buf)) (readable buf)) s m of
               None \<Rightarrow> Some None | Some (fin, s, m) \<Rightarrow> message_loop h (if fin then resetRequest s else s) m buf')"
          using message_loop_line [OF idle base(2) inv(2) line] by blast
        let ?l = "take (search_crlf (readable buf)) (readable buf)"
        have parts: "readable buf = ?l @ CRLF @ readable buf'"
          using line search_crlf_split [of "readable buf"] search_crlf_le [of "readable buf"] b(2) by simp
        then have shorter: "length (readable buf') + length ?l \<le> length (readable buf)" by (rule line_length)
        show ?thesis
        proof (cases "processRequest h (take (search_crlf (readable buf)) (readable buf)) s m")
          case None
          then have "line_aborts ?l" using processRequest_outcome(1) [OF base(1) idle] by blast
          then have "loop_post h (readable buf) None"
            unfolding loop_post_def option.case using parts by (intro exI [of _ 0] exI [of _ ?l] exI [of _ "readable buf'"]) simp
          then show ?thesis using b(4) None by simp
        next
          case (Some x)
          obtain fin s' m' where x: "x = (fin, s', m')" by (cases x)
          have "session_inv h (if fin then resetRequest s' else s') m'"
            using processRequest_inv [OF base(1) idle] Some x by simp
          moreover have o: "table_sub h m' m" "pending (if fin then resetRequest s' else s') \<le> length ?l"
            using processRequest_outcome(2) [OF base(1) idle] Some x by blast+
          have "room (table h m') (pending (if fin then resetRequest s' else s') + length (readable buf'))"
            by (rule room_mono [OF room_sub [OF less.prems(3) o(1)]]) (use shorter o(2) in linarith)
          ultimately show ?thesis using step [OF _ b(1,3,2)] b(4) Some x by simp
        qed
      qed
    next
      case recv
      then obtain it d where it: "sstate s = kReceiveValue" "currItem s = Some it" "partial_item h it d" by (auto simp: receiving_def)
      show ?thesis
      proof -
        obtain s' m' buf' where x: "receiveValue h buf s m = Some (s', m', buf')" "room (table h m') (pending s' + length (readable buf'))"
          using receiveValue_room [OF base(1) it inv(2) False less.prems(3)] by blast
        from receiveValue_step [OF base(1) it inv(2) False x(1)]
        obtain n where "session_inv h s' m'" "Buffer_inv buf'" "readableBytes buf' < readableBytes buf" "readable buf' = drop n (readable buf)"
          by auto
        from step [OF this x(2)] show ?thesis using pos it(1) x(1) by (subst message_loop.simps) simp
      qed
    next
      case disc
      obtain s' buf' n where d: "discardValue buf s = Some (s', buf')" "session_inv h s' m" "Buffer_inv buf'"
          "readableBytes buf' < readableBytes buf" "readable buf' = drop n (readable buf)"
        using discardValue_step [OF base(1) disc inv(2) False] by auto
      have "sstate s = kDiscardValue" "currItem s = None" using disc by (simp_all add: discarding_def)
      moreover have "pending s' = 0"
        using d(1) calculation(2) by (auto simp: discardValue_def pending_def resetRequest_def elim!: bind_SomeE split: if_splits)
      then have "room (table h m) (pending s' + length (readable buf'))" using room_mono [OF less.prems(3)] d(5) by simp
      note step [OF d(2-5) this]
      ultimately show ?thesis using pos d(1) by (subst message_loop.simps) simp
    qed
  qed
qed

section \<open>Command lines\<close>

lemma tokens_space [simp]: "tokens (CHR '' '' # s) = tokens s"
  by (subst (1 2) tokens.simps) (simp add: SpaceSeparator_def)

lemma tokens_Nil [simp]: "tokens [] = []"
  by (subst tokens.simps) (simp add: SpaceSeparator_def)

lemma SpaceSeparator_word:
  assumes "w \<noteq> []" and "CHR '' '' \<notin> set w"
  shows "SpaceSeparator (w @ CHR '' '' # r) = Some (w, CHR '' '' # r)" and "SpaceSeparator w = Some (w, [])"
proof -
  have d: "dropWhile (\<lambda>c. c = CHR '' '') (w @ x) = w @ x" for x using assms by (cases w) auto
  have t: "takeWhile (\<lambda>c. c \<noteq> CHR '' '') (w @ CHR '' '' # r) = w" "dropWhile (\<lambda>c. c \<noteq> CHR '' '') (w @ CHR '' '' # r) = CHR '' '' # r"
    using assms(2) by (induction w) auto
  have t': "takeWhile (\<lambda>c. c \<noteq> CHR '' '') w = w" "dropWhile (\<lambda>c. c \<noteq> CHR '' '') w = []"
    using assms(2) by (induction w) auto
  show "SpaceSeparator (w @ CHR '' '' # r) = Some (w, CHR '' '' # r)" using assms(1) by (simp add: SpaceSeparator_def d t)
  show "SpaceSeparator w = Some (w, [])" using assms(1) d [of "[]"] by (simp add: SpaceSeparator_def t')
qed

lemma tokens_word:
  assumes "w \<noteq> []" and "CHR '' '' \<notin> set w"
  shows "tokens (w @ CHR '' '' # r) = w # tokens r" and "tokens w = [w]"
  by (subst tokens.simps, simp add: SpaceSeparator_word [OF assms])+

lemma digit_not: "is_digit c \<Longrightarrow> c \<noteq> CHR '' '' \<and> c \<noteq> CR \<and> c \<noteq> CHR ''-'' \<and> c \<noteq> CHR ''+'' \<and> c \<noteq> CHR ''y'' \<and> \<not> isspace c"
  by (auto simp: is_digit_def isspace_def CR_def)

lemma dec_nat_chars:
  "CHR '' '' \<notin> set (dec_nat n)" "CR \<notin> set (dec_nat n)" "last (dec_nat n) \<noteq> CHR ''y''"
  using dec_nat_digits [of n] digit_not last_in_set [OF dec_nat_nonempty, of n] by blast+

lemma strtoull_dec_nat: "n < 2 ^ 64 \<Longrightarrow> strtoull_token (dec_nat n) = Some (of_nat n)"
proof -
  assume n: "n < 2 ^ 64"
  have "\<not> isspace (hd (dec_nat n))" "hd (dec_nat n) \<noteq> CHR ''-''" "hd (dec_nat n) \<noteq> CHR ''+''"
    using dec_nat_digits [of n] digit_not hd_in_set [OF dec_nat_nonempty, of n] by blast+
  moreover have "list_all is_digit (dec_nat n)" using dec_nat_digits [of n] by (simp add: list_all_iff)
  moreover have "dropWhile isspace (dec_nat n) = dec_nat n" using calculation(1) by (cases "dec_nat n") auto
  ultimately show ?thesis using n by (simp add: strtoull_token_def Let_def)
qed

lemma word_reads:
  "n < 2 ^ 63 \<Longrightarrow> sint (of_nat n :: 64 word) = int n"
  "n < 2 ^ 31 \<Longrightarrow> sint (ucast (of_nat n :: 64 word) :: 32 word) = int n"
  "ucast (of_nat (unat (f :: 32 word)) :: 64 word) = f"
  by (transfer, simp add: signed_take_bit_int_eq_self take_bit_int_eq_self take_bit_nat_eq_self)+

lemma unat_less: "unat (f :: 32 word) < 2 ^ 64"
proof -
  have "unat f < 2 ^ LENGTH(32)" by (rule unsigned_less)
  then show ?thesis by simp
qed

lemma update_fields_set:
  assumes "length k < 250" and "e < 2 ^ 63" and "n < 2 ^ 31"
  shows "update_fields kSet k [dec_nat (unat f), dec_nat e, dec_nat n] = Some (f, int e, int n, 0)"
proof -
  have "e < 2 ^ 64" "n < 2 ^ 64" using assms(2,3) by simp_all
  then show ?thesis
    using assms unat_less [of f]
    by (simp add: update_fields_def kLongestKeySize_def strtoull_dec_nat word_reads [simplified])
qed

definition good_key :: "string \<Rightarrow> bool" where
  "good_key k \<longleftrightarrow> k \<noteq> [] \<and> length k < 250 \<and> CHR '' '' \<notin> set k \<and> CR \<notin> set k \<and> k \<noteq> ''noreply''"

definition set_line :: "string \<Rightarrow> 32 word \<Rightarrow> nat \<Rightarrow> nat \<Rightarrow> string" where
  "set_line k f e n = ''set '' @ k @ '' '' @ dec_nat (unat f) @ '' '' @ dec_nat e @ '' '' @ dec_nat n"

lemma set_line_tokens: "good_key k \<Longrightarrow> tokens (set_line k f e n) = [''set'', k, dec_nat (unat f), dec_nat e, dec_nat n]"
  using tokens_word(1) [of "''set''"] by (simp add: set_line_def good_key_def tokens_word dec_nat_chars)

lemma set_line_noreply: "split_noreply (set_line k f e n) = (False, set_line k f e n)"
proof -
  have "last (set_line k f e n) \<noteq> CHR ''y''" using dec_nat_chars(3) [of n] by (simp add: set_line_def last_append)
  then have "drop (length (set_line k f e n) - 8) (set_line k f e n) \<noteq> '' noreply''"
    by (metis append_take_drop_id last.simps last_append list.discI)
  then show ?thesis by (simp add: split_noreply_def)
qed

lemma get_line_noreply:
  assumes "good_key k"
  shows "split_noreply (''get '' @ k) = (False, ''get '' @ k)"
proof -
  have "drop (length k - 4) (''get '' @ k) \<noteq> '' noreply''"
  proof (cases "8 \<le> length k")
    case True
    define j where "j = length k - 8"
    have "length k - 4 = 4 + j" using True by (simp add: j_def)
    then have "drop (length k - 4) (''get '' @ k) = drop j k" by (simp add: numeral_eq_Suc)
    moreover have "CHR '' '' \<notin> set (drop j k)" using assms by (auto simp: good_key_def dest: in_set_dropD)
    ultimately show ?thesis by (metis list.set_intros(1))
  next
    case False
    then have "length k - 4 \<in> {0, 1, 2, 3}" by auto
    then show ?thesis using assms by (auto simp: good_key_def numeral_eq_Suc)
  qed
  then show ?thesis by (simp add: split_noreply_def)
qed

lemma get_line_tokens: "good_key k \<Longrightarrow> tokens (''get '' @ k) = [''get'', k]"
  using tokens_word(1) [of "''get''" k] by (simp add: good_key_def tokens_word)

section \<open>Storing and fetching\<close>

lemma processRequest_set:
  assumes "idle s" and "good_key k" and "e \<le> 60 * 60 * 24 * 30" and "n \<le> 1024 * 1024"
  shows "\<exists>it s1. processRequest h (set_line k f e n) s m = Some (False, s1, m) \<and> makeItem h k f (int e) (int n + 2) 0 = Some it
    \<and> s1 = (started (set_line k f e n) s)\<lparr>command := ''set'', policy := kSet, currItem := Some it, sstate := kReceiveValue\<rparr>"
proof -
  have n: "2 \<le> int n + 2" "int (length k) + (int n + 2) < 2 ^ 31" using assms(2,4) by (simp_all add: good_key_def)
  obtain it where it: "makeItem h k f (int e) (int n + 2) 0 = Some it" using makeItem_filled [OF n, of h f "int e" 0] by auto
  have u: "update_fields kSet k [dec_nat (unat f), dec_nat e, dec_nat n] = Some (f, int e, int n, 0)"
    using assms by (intro update_fields_set) (simp_all add: good_key_def)
  have "relative_exptime (startTime m) (int e) = int e"
    using assms(3) by (simp add: relative_exptime_def signed_take_bit_int_eq_self)
  then show ?thesis
    using it u assms(4) processRequest_idle [OF assms(1), of h "set_line k f e n" m]
    by (simp add: set_line_noreply set_line_tokens [OF assms(2)] doUpdate_def policy_of_def)
qed

lemma receiveValue_complete:
  assumes "store_inv h m" and "sstate s = kReceiveValue" and "currItem s = Some it" and "policy s = kSet"
    and "makeItem h k f ex (int (length v) + 2) c = Some it"
    and "Buffer_inv buf" and "readable buf = v @ CRLF @ rest"
  shows "\<exists>m' buf' it'. receiveValue h buf s m
      = Some ((resetRequest (reply (''STORED'' @ CRLF) (s\<lparr>currItem := Some it'\<rparr>)))\<lparr>sstate := kNewCommand\<rparr>, m', buf')
    \<and> Buffer_inv buf' \<and> readable buf' = rest \<and> store_inv h m'
    \<and> table h m' = (table h m)(k \<mapsto> \<lparr>e_flags = f, e_exptime = ex, e_value = v @ CRLF, e_cas = g_cas m + 1\<rparr>)"
proof -
  let ?v = "v @ CRLF"
  have lim: "int (length k) + (int (length v) + 2) < 2 ^ 31"
    using assms(5) by (auto simp: makeItem_def totalLen_def split: if_splits)
  have it: "partial_item h it k" "keylen it = length k" using makeItem_partial [OF assms(5)] by simp_all
  from makeItem_filled [of "int (length v) + 2" k h f ex c] lim assms(5)
  have f: "valuelen it = int (length v) + 2" "iflags it = f" "rel_exptime it = ex" "item_filled it k" by auto
  have t: "totalLen it = int (length k + length ?v)" using it(2) f(1) by (simp add: totalLen_def)
  then have need: "neededBytes it = length ?v" using neededBytes_filled [OF f(4)] by simp
  have len: "readableBytes buf = length ?v + length rest" using assms(7) length_readable [OF assms(6)] by simp
  obtain it' where it': "Item_append ?v it = Some it'" "item_filled it' (k @ ?v)" "keylen it' = keylen it"
      "iflags it' = iflags it" "rel_exptime it' = rel_exptime it" "ihash it' = h (take (keylen it) k)" "totalLen it' = totalLen it"
    by (rule partial_item_append [OF it(1), of ?v]) (simp add: t)
  have full: "int (length (k @ ?v)) = totalLen it'" using t it'(7) by simp
  have crlf: "drop (length (k @ ?v) - 2) (k @ ?v) = CRLF" by simp
  note parts = item_filled_parts [OF it'(2) full]
  have ok: "item_ok h it'" by (rule item_of_filled [OF it'(2) full crlf]) (simp add: it' it)
  have key: "ikey it' = k" "ivalue it' = ?v" using parts(1,2) it' it by simp_all
  obtain m' ex' where m': "storeItem h it' kSet m = Some (True, ex', m')" "store_inv h m'"
      "table h m' = (table h m)(k \<mapsto> (entry_of it')\<lparr>e_cas := g_cas m + 1\<rparr>)"
    using mc.store_law [OF assms(1) ok, of kSet] key(1) by auto
  obtain b where b: "retrieve buf (length ?v) = Some b" "Buffer_inv b" "readable b = rest"
    using retrieve_prefix [OF assms(6), of ?v rest "length ?v"] assms(7) by auto
  have sl: "slice (Buffer_peek buf) (Buffer_peek buf + length ?v) (buffer_vec buf) = ?v"
    using peek_prefix [OF assms(6), of ?v rest] assms(7) by simp
  have "receiveValue h buf s m
      = Some ((resetRequest (reply (''STORED'' @ CRLF) (s\<lparr>currItem := Some it'\<rparr>)))\<lparr>sstate := kNewCommand\<rparr>, m', b)"
    using assms(2-4) need len sl it'(1) b(1) parts(3,5) crlf m'(1)
    by (simp add: receiveValue_def Let_def store_reply_def)
  then show ?thesis using b m' key f(2,3) it'(4,5) by (auto simp: entry_of_def)
qed

text \<open>The block that \<^verbatim>\<open>Item::output\<close> writes for an entry.\<close>

definition value_block :: "string \<Rightarrow> entry \<Rightarrow> string" where
  "value_block k e = ''VALUE '' @ k @ '' '' @ dec_nat (unat (e_flags e)) @ '' '' @ dec_nat (length (e_value e) - 2) @ CRLF @ e_value e"

lemma get_step:
  assumes "session_base h s m" and "length k \<le> 250"
  obtains s' where "get_loop h False (k # ks) s m = get_loop h False ks s' m" and "session_base h s' m"
    and "acts s' = acts s" and "noreply s' = noreply s" and "sstate s' = sstate s"
    and "readable (outputBuf s') = readable (outputBuf s) @ (case table h m k of None \<Rightarrow> [] | Some e \<Rightarrow> value_block k e)"
proof -
  have i: "needle_ok (needle s)" "Buffer_inv (outputBuf s)" "store_inv h m" using assms(1) by (simp_all add: session_base_def)
  obtain n where n: "resetKey h k (needle s) = Some n" "needle_ok n" "ikey n = k" "ihash n = h k"
    using resetKey_ok [OF i(1) assms(2), of h] by blast
  have t: "map_option entry_of (getItem n m) = table h m k" using getItem_refines [of n h m] n by simp
  have g: "\<not> kLongestKeySize < length k" using assms(2) by (simp add: kLongestKeySize_def)
  show ?thesis
  proof (cases "getItem n m")
    case None
    then show ?thesis using that [of "s\<lparr>needle := n\<rparr>"] t n g assms(1) by (simp add: session_base_def)
  next
    case (Some it)
    have ok: "item_ok h it" "ikey it = k" using getItem_ok [OF i(3) Some] n(3) by simp_all
    have v: "valuelen it - 2 = int (length (ivalue it) - 2)" using item_ok_filled(4,5) [OF ok(1)] by auto
    have d: "dec_int (valuelen it - 2) = dec_nat (length (ivalue it) - 2)" unfolding v by (simp add: dec_int_def)
    obtain b where b: "Item_output False it (outputBuf s) = Some b" "Buffer_inv b"
        "readable b = readable (outputBuf s) @ value_block k (entry_of it)"
      using Item_output_ok [OF i(2), of False it] ok(2) d by (auto simp: value_block_def entry_of_def)
    then show ?thesis
      using that [of "s\<lparr>needle := n, outputBuf := b\<rparr>"] t [symmetric] Some n g assms(1) by (simp add: session_base_def)
  qed
qed

lemma doGet_answer:
  assumes "session_base h s m" and "length k \<le> 250" and "command s = ''get''"
  shows "\<exists>s' n. doGet h [k] s m = Some s' \<and> session_base h s' m \<and> sstate s' = sstate s \<and> readable (outputBuf s') = []
    \<and> acts s' = acts s @ [SShrinkOver n, SSendBuffer (readable (outputBuf s)
        @ (case table h m k of None \<Rightarrow> [] | Some e \<Rightarrow> value_block k e) @ ''END'' @ CRLF)]"
proof -
  obtain t where t: "get_loop h False [k] s m = get_loop h False [] t m" "session_base h t m" "acts t = acts s" "sstate t = sstate s"
    "readable (outputBuf t) = readable (outputBuf s) @ (case table h m k of None \<Rightarrow> [] | Some e \<Rightarrow> value_block k e)"
    using get_step [OF assms(1,2)] .
  obtain out where out: "Buffer_append (outputBuf t) (''END'' @ CRLF) = Some out" "Buffer_inv out"
      "readable out = readable (outputBuf t) @ ''END'' @ CRLF"
    using buf.app_obtain [of "outputBuf t" "''END'' @ CRLF"] t(2) by (auto simp: session_base_def)
  show ?thesis using assms(3) t out by (simp add: doGet_def session_base_def)
qed

lemma search_line: "CR \<notin> set l \<Longrightarrow> readable b = l @ CRLF @ rest \<Longrightarrow>
    search_crlf (readable b) \<noteq> length (readable b) \<and> take (search_crlf (readable b)) (readable b) = l
    \<and> drop (search_crlf (readable b) + 2) (readable b) = rest"
  by simp

lemma session_base_unchanged:
  "session_base h s m \<Longrightarrow> store_inv h m' \<Longrightarrow> needle s' = needle s \<Longrightarrow> outputBuf s' = outputBuf s \<Longrightarrow> protocol s' = protocol s
   \<Longrightarrow> session_base h s' m'"
  by (simp add: session_base_def)

lemma loop_line:
  assumes "session_base h s m" and "idle s" and "CR \<notin> set l" and "Buffer_inv buf" and "readable buf = l @ CRLF @ rest"
  obtains buf' where "Buffer_inv buf'" and "readable buf' = rest"
    and "message_loop h s m buf = (case processRequest h l s m of
         None \<Rightarrow> Some None | Some (fin, s, m) \<Rightarrow> message_loop h (if fin then resetRequest s else s) m buf')"
proof -
  have base: "protocol s = kAscii" using assms(1) by (simp add: session_base_def)
  have l: "search_crlf (readable buf) \<noteq> length (readable buf)" "take (search_crlf (readable buf)) (readable buf) = l"
      "drop (search_crlf (readable buf) + 2) (readable buf) = rest" using search_line [OF assms(3,5)] by blast+
  then show ?thesis
    using that message_loop_line [OF assms(2) base assms(4) l(1), of h m] unfolding l(2,3) by blast
qed

lemma loop_set:
  assumes "session_base h s m" and "idle s" and "good_key k" and "e \<le> 60 * 60 * 24 * 30" and "length v \<le> 1024 * 1024"
    and "Buffer_inv buf" and "readable buf = set_line k f e (length v) @ CRLF @ v @ CRLF @ rest"
  shows "\<exists>s' m' buf'. message_loop h s m buf = message_loop h s' m' buf' \<and> Buffer_inv buf' \<and> readable buf' = rest
    \<and> session_base h s' m' \<and> idle s' \<and> outputBuf s' = outputBuf s \<and> acts s' = acts s @ [SSend (''STORED'' @ CRLF)]
    \<and> table h m' = (table h m)(k \<mapsto> \<lparr>e_flags = f, e_exptime = int e, e_value = v @ CRLF, e_cas = g_cas m + 1\<rparr>)"
proof -
  let ?l = "set_line k f e (length v)"
  have base: "protocol s = kAscii" "store_inv h m" using assms(1) by (simp_all add: session_base_def)
  have "CR \<notin> set ?l" using assms(3) dec_nat_chars(2) by (auto simp: set_line_def good_key_def CR_def)
  then obtain b where b: "Buffer_inv b" "readable b = v @ CRLF @ rest"
      "message_loop h s m buf = (case processRequest h ?l s m of
         None \<Rightarrow> Some None | Some (fin, s, m) \<Rightarrow> message_loop h (if fin then resetRequest s else s) m b)"
    by (rule loop_line [OF assms(1,2) _ assms(6,7)])
  obtain it s1 where s1: "processRequest h ?l s m = Some (False, s1, m)" "makeItem h k f (int e) (int (length v) + 2) 0 = Some it"
      "s1 = (started ?l s)\<lparr>command := ''set'', policy := kSet, currItem := Some it, sstate := kReceiveValue\<rparr>"
    using processRequest_set [OF assms(2-5), of h f m] by blast
  have st: "sstate s1 = kReceiveValue" "currItem s1 = Some it" "policy s1 = kSet" "noreply s1 = False" "acts s1 = acts s"
    "needle s1 = needle s" "outputBuf s1 = outputBuf s" "protocol s1 = protocol s"
    using s1(3) by (simp_all add: set_line_noreply)
  obtain m' b' it' where r: "receiveValue h b s1 m
      = Some ((resetRequest (reply (''STORED'' @ CRLF) (s1\<lparr>currItem := Some it'\<rparr>)))\<lparr>sstate := kNewCommand\<rparr>, m', b')"
      "Buffer_inv b'" "readable b' = rest" "store_inv h m'"
      "table h m' = (table h m)(k \<mapsto> \<lparr>e_flags = f, e_exptime = int e, e_value = v @ CRLF, e_cas = g_cas m + 1\<rparr>)"
    using receiveValue_complete [OF base(2) st(1-3) s1(2) b(1,2)] by blast
  let ?s = "(resetRequest (reply (''STORED'' @ CRLF) (s1\<lparr>currItem := Some it'\<rparr>)))\<lparr>sstate := kNewCommand\<rparr>"
  have "0 < readableBytes b" using b(1,2) by (simp add: readableBytes_pos CRLF_def)
  then have "message_loop h s1 m b = message_loop h ?s m' b'"
    using st(1) r(1) by (subst message_loop.simps) simp
  moreover have "session_base h ?s m'" by (rule session_base_unchanged [OF assms(1) r(4)]) (simp_all add: st)
  moreover have "idle ?s" by (simp add: idle_def resetRequest_def)
  moreover have "acts ?s = acts s @ [SSend (''STORED'' @ CRLF)]" using st(4,5) by (simp add: reply_def)
  moreover have "outputBuf ?s = outputBuf s" by (simp add: st)
  ultimately show ?thesis using b(3) s1(1) r by (intro exI [of _ ?s] exI [of _ m'] exI [of _ b']) simp
qed

lemma get_line_loop:
  assumes "session_base h s m" and "idle s" and "CR \<notin> set l" and "split_noreply l = (False, l)" and "tokens l = ''get'' # ks"
    and "Buffer_inv buf" and "readable buf = l @ CRLF @ rest"
    and "doGet h ks ((started l s)\<lparr>command := ''get''\<rparr>) m = Some s'" and "session_base h s' m" and "sstate s' = kNewCommand"
  obtains buf' where "message_loop h s m buf = message_loop h (resetRequest s') m buf'" and "Buffer_inv buf'" and "readable buf' = rest"
    and "session_base h (resetRequest s') m" and "idle (resetRequest s')"
proof -
  obtain b where b: "Buffer_inv b" "readable b = rest"
      "message_loop h s m buf = (case processRequest h l s m of
         None \<Rightarrow> Some None | Some (fin, s, m) \<Rightarrow> message_loop h (if fin then resetRequest s else s) m b)"
    by (rule loop_line [OF assms(1,2,3,6,7)])
  have "processRequest h l s m = Some (True, s', m)"
    using assms(8) processRequest_idle [OF assms(2), of h l m]
    by (simp only: assms(4,5) snd_conv list.case Let_def) simp
  moreover have "session_base h (resetRequest s') m" using assms(9) by (simp add: session_base_def)
  ultimately show ?thesis using that b assms(10) by simp
qed

lemma loop_get:
  assumes "session_base h s m" and "idle s" and "good_key k" and "Buffer_inv buf" and "readable buf = ''get '' @ k @ CRLF @ rest"
  shows "\<exists>s' buf' n. message_loop h s m buf = message_loop h s' m buf' \<and> Buffer_inv buf' \<and> readable buf' = rest
    \<and> session_base h s' m \<and> idle s' \<and> readable (outputBuf s') = []
    \<and> acts s' = acts s @ [SShrinkOver n, SSendBuffer (readable (outputBuf s)
        @ (case table h m k of None \<Rightarrow> [] | Some e \<Rightarrow> value_block k e) @ ''END'' @ CRLF)]"
proof -
  let ?l = "''get '' @ k" and ?s = "(started (''get '' @ k) s)\<lparr>command := ''get''\<rparr>"
  have l: "CR \<notin> set ?l" "readable buf = ?l @ CRLF @ rest" "length k \<le> 250" using assms(3,5) by (auto simp: good_key_def CR_def)
  have st: "session_base h ?s m" "command ?s = ''get''" "sstate ?s = kNewCommand"
    using assms(1,2) by (simp_all add: session_base_def idle_def)
  obtain s' n where s': "doGet h [k] ?s m = Some s'" "session_base h s' m" "sstate s' = kNewCommand" "readable (outputBuf s') = []"
      "acts s' = acts s @ [SShrinkOver n, SSendBuffer (readable (outputBuf s)
        @ (case table h m k of None \<Rightarrow> [] | Some e \<Rightarrow> value_block k e) @ ''END'' @ CRLF)]"
    using doGet_answer [OF st(1) l(3) st(2)] st(3) by auto
  from get_line_loop [OF assms(1,2) l(1) get_line_noreply [OF assms(3)] get_line_tokens [OF assms(3)] assms(4) l(2) s'(1-3)]
  show ?thesis using s'(4,5) by (metis resetRequest_simps(4,5))
qed

section \<open>Properties\<close>


definition ex_buf :: "string \<Rightarrow> Buffer" where
  "ex_buf bs = \<lparr>buffer_vec = replicate 8 (CHR 0x00) @ bs, readerIndex = 8, writerIndex = 8 + length bs\<rparr>"

lemma ex_buf_ok [simp]: "Buffer_inv (ex_buf bs)" "readable (ex_buf bs) = bs"
  by (simp_all add: ex_buf_def Buffer_inv_def readable_def slice_def kCheapPrepend_def)

lemma new_session_inv:
  assumes "Session_new ex_hash = Some s"
  shows "session_inv ex_hash s ex_store" and "idle s" and "readable (outputBuf s) = []" and "acts s = []"
  using Session_new_ok [of ex_hash] assms ex_store_inv by (auto simp: session_inv_def session_base_def)

lemma ex_room: "n < 2 ^ 30 \<Longrightarrow> room (table ex_hash ex_store) n"
  by (auto simp: room_def table_def ex_store_def ex_hash_def kShards_def entry_of_def ex_item_def ikey_def ivalue_def CRLF_def
      split: if_splits)


text \<open>C10: A client that sends a \<^verbatim>\<open>set\<close> with a legal key, any flags, an expiry of at most thirty days and any value of
  at most a megabyte (which may hold any bytes, line ends included), followed by a \<^verbatim>\<open>get\<close> of the key, is answered
  \<^verbatim>\<open>STORED\<close> and then with exactly the flags, the length and the value it stored; the table holds the entry, every
  other key is unchanged, all bytes are consumed and the session waits for the next command.\<close>

theorem memcache_set_get:
  assumes "session_inv h s m" and "idle s" and "readable (outputBuf s) = []" and "Buffer_inv buf"
    and "good_key k" and "e \<le> 60 * 60 * 24 * 30" and "length v \<le> 1024 * 1024"
    and "readable buf = set_line k f e (length v) @ CRLF @ v @ CRLF @ ''get '' @ k @ CRLF"
  shows "\<exists>s' m' buf' n. Session_onMessage h s m buf = Some (Some (s', m', buf')) \<and> readable buf' = [] \<and> idle s'
    \<and> acts s' = acts s @ [SSend (''STORED'' @ CRLF), SShrinkOver n,
        SSendBuffer (''VALUE '' @ k @ '' '' @ dec_nat (unat f) @ '' '' @ dec_nat (length v) @ CRLF @ v @ CRLF @ ''END'' @ CRLF)]
    \<and> table h m' = (table h m)(k \<mapsto> \<lparr>e_flags = f, e_exptime = int e, e_value = v @ CRLF, e_cas = g_cas m + 1\<rparr>)"
proof -
  have base: "session_base h s m" using assms(1) by (simp add: session_inv_def)
  have r: "readable buf = set_line k f e (length v) @ CRLF @ v @ CRLF @ (''get '' @ k @ CRLF @ [])" using assms(8) by simp
  obtain s1 m1 b1 where 1: "message_loop h s m buf = message_loop h s1 m1 b1" "Buffer_inv b1" "readable b1 = ''get '' @ k @ CRLF @ []"
      "session_base h s1 m1" "idle s1" "outputBuf s1 = outputBuf s" "acts s1 = acts s @ [SSend (''STORED'' @ CRLF)]"
      "table h m1 = (table h m)(k \<mapsto> \<lparr>e_flags = f, e_exptime = int e, e_value = v @ CRLF, e_cas = g_cas m + 1\<rparr>)"
    using loop_set [OF base assms(2,5,6,7,4) r] by blast
  have t: "table h m1 k = Some \<lparr>e_flags = f, e_exptime = int e, e_value = v @ CRLF, e_cas = g_cas m + 1\<rparr>" using 1(8) by simp
  have o1: "readable (outputBuf s1) = []" using 1(6) assms(3) by simp
  obtain s2 b2 n where 2: "message_loop h s1 m1 b1 = message_loop h s2 m1 b2" "Buffer_inv b2" "readable b2 = []" "idle s2"
      "acts s2 = acts s1 @ [SShrinkOver n, SSendBuffer (''VALUE '' @ k @ '' '' @ dec_nat (unat f) @ '' ''
         @ dec_nat (length v) @ CRLF @ v @ CRLF @ ''END'' @ CRLF)]"
    using loop_get [OF 1(4,5) assms(5) 1(2,3)] t o1 by (auto simp: value_block_def)
  have "readableBytes b2 = 0" using 2(2,3) readableBytes_pos by blast
  then have "message_loop h s2 m1 b2 = Some (Some (s2, m1, b2))" by (subst message_loop.simps) simp
  then show ?thesis
    using 1 2 by (auto simp: Session_onMessage_def Let_def idle_def)
qed

theorem memcache_set_get_witness:
  "\<exists>s s' m' buf' n. Session_new ex_hash = Some s
    \<and> Session_onMessage ex_hash s ex_store (ex_buf (set_line ''x'' 5 0 2 @ CRLF @ CRLF @ CRLF @ ''get x'' @ CRLF)) = Some (Some (s', m', buf'))
    \<and> acts s' = [SSend (''STORED'' @ CRLF), SShrinkOver n, SSendBuffer (''VALUE x 5 2'' @ CRLF @ CRLF @ CRLF @ ''END'' @ CRLF)]"
proof -
  obtain s where s: "Session_new ex_hash = Some s" using Session_new_ok by blast
  have d: "dec_nat 5 = ''5''" "dec_nat 2 = ''2''" by (simp_all add: dec_nat.simps)
  have k: "good_key ''x''" by (simp add: good_key_def CR_def)
  have r: "readable (ex_buf (set_line ''x'' 5 0 2 @ CRLF @ CRLF @ CRLF @ ''get x'' @ CRLF))
      = set_line ''x'' 5 0 (length CRLF) @ CRLF @ CRLF @ CRLF @ ''get '' @ ''x'' @ CRLF" by simp
  show ?thesis
    using memcache_set_get [OF new_session_inv(1-3) [OF s] ex_buf_ok(1) k _ _ r] s d new_session_inv(4) [OF s]
    by auto
qed

section \<open>Bad command lines\<close>

text \<open>A negative length in an update line.\<close>

lemma strtoull_negative: "n < 2 ^ 64 \<Longrightarrow> strtoull_token (CHR ''-'' # dec_nat n) = Some (- of_nat n)"
  using dec_nat_digits [of n] by (simp add: strtoull_token_def Let_def isspace_def list_all_iff)

lemma word_negative: "0 < n \<Longrightarrow> n \<le> 2 ^ 31 \<Longrightarrow> sint (ucast (- of_nat n :: 64 word) :: 32 word) = - int n"
proof -
  assume n: "0 < n" "n \<le> 2 ^ 31"
  have "ucast (- of_nat n :: 64 word) = (- of_nat n :: 32 word)" by transfer (simp add: take_bit_take_bit)
  moreover have "sint (- of_nat n :: 32 word) = - int n" using n by transfer (simp add: signed_take_bit_int_eq_self)
  ultimately show ?thesis by simp
qed

definition negative_line :: "nat \<Rightarrow> string" where
  "negative_line n = ''set k 0 0 -'' @ dec_nat n"

lemma negative_line_aborts:
  assumes "idle s" and "0 < n" and "n \<le> 2 ^ 31"
  shows "processRequest h (negative_line n) s m = None"
proof -
  have "last (negative_line n) \<noteq> CHR ''y''" using dec_nat_chars(3) [of n] by (simp add: negative_line_def last_append)
  then have "drop (length (negative_line n) - 8) (negative_line n) \<noteq> '' noreply''"
    by (metis append_take_drop_id last.simps last_append list.discI)
  then have sp: "split_noreply (negative_line n) = (False, negative_line n)" by (simp add: split_noreply_def)
  have "CHR '' '' \<notin> set (CHR ''-'' # dec_nat n)" using dec_nat_chars(1) [of n] by simp
  then have tok: "tokens (negative_line n) = [''set'', ''k'', ''0'', ''0'', CHR ''-'' # dec_nat n]"
    using tokens_word(1) [of "''set''"] tokens_word(1) [of "''k''"] tokens_word(1) [of "''0''"] tokens_word(2)
    by (simp add: negative_line_def)
  have z: "strtoull_token ''0'' = Some 0" using strtoull_dec_nat [of 0] by (simp add: dec_nat.simps)
  have "update_fields kSet ''k'' [''0'', ''0'', CHR ''-'' # dec_nat n] = Some (0, 0, - int n, 0)"
    using strtoull_negative [of n] word_negative [OF assms(2,3)] assms(3) z by (simp add: update_fields_def kLongestKeySize_def)
  moreover have "makeItem h ''k'' 0 ex (2 - int n) c = None" for ex c using assms(2) by (simp add: makeItem_def totalLen_def)
  ultimately show ?thesis
    using processRequest_idle [OF assms(1), of h "negative_line n" m] assms(2)
    by (simp add: sp tok doUpdate_def policy_of_def)
qed

lemma bare_command_aborts:
  assumes "idle s" and "l \<in> {''set'', ''add'', ''replace'', ''append'', ''prepend'', ''cas'', ''delete''}"
  shows "processRequest h l s m = None"
proof -
  have l: "tokens l = [l]" "split_noreply l = (False, l)"
    using assms(2) by (auto simp: tokens_word(2) split_noreply_def)
  show ?thesis
    unfolding processRequest_idle [OF assms(1)] l snd_conv list.case Let_def
    using assms(2) by (elim insertE) (simp_all add: doUpdate_def doDelete_def policy_of_def)
qed

text \<open>One line from the network stops the server in a debug build: an update command or \<^verbatim>\<open>delete\<close> without a key
  dereferences the end iterator, and a \<^verbatim>\<open>set\<close> with a negative length fails the assertion on the item's length.\<close>

theorem memcache_line_aborts:
  assumes "session_inv h s m" and "idle s" and "Buffer_inv buf" and "0 < n" and "n \<le> 2 ^ 31"
    and "l = negative_line n \<or> l \<in> {''set'', ''add'', ''replace'', ''append'', ''prepend'', ''cas'', ''delete''}"
    and "readable buf = l @ CRLF @ rest"
  shows "Session_onMessage h s m buf = Some None"
proof -
  have base: "session_base h s m" using assms(1) by (simp add: session_inv_def)
  have p: "processRequest h l s m = None"
    using assms(6)
  proof (elim disjE)
    assume "l = negative_line n"
    then show ?thesis using negative_line_aborts [OF assms(2,4,5)] by simp
  qed (rule bare_command_aborts [OF assms(2)])
  have "CR \<notin> set l" using assms(6)
  proof (elim disjE)
    assume "l = negative_line n"
    then show ?thesis using dec_nat_chars(2) [of n] by (simp add: negative_line_def CR_def)
  qed (elim insertE; simp add: CR_def)
  then obtain b where "message_loop h s m buf = (case processRequest h l s m of
         None \<Rightarrow> Some None | Some (fin, s, m) \<Rightarrow> message_loop h (if fin then resetRequest s else s) m b)"
    using loop_line [OF base assms(2) _ assms(3,7)] by metis
  then show ?thesis using p by (simp add: Session_onMessage_def)
qed

theorem memcache_line_aborts_witness:
  "\<exists>s. Session_new ex_hash = Some s \<and> Session_onMessage ex_hash s ex_store (ex_buf (''delete'' @ CRLF)) = Some None"
proof -
  obtain s where s: "Session_new ex_hash = Some s" using Session_new_ok by blast
  show ?thesis
    using memcache_line_aborts [OF new_session_inv(1,2) [OF s] ex_buf_ok(1), of 1 "''delete''" "''delete'' @ CRLF" "[]"] s by simp
qed

section \<open>Output left by a failed get\<close>

definition long_key :: "string \<Rightarrow> bool" where
  "long_key w \<longleftrightarrow> 250 < length w \<and> CHR '' '' \<notin> set w \<and> CR \<notin> set w"

lemma long_line:
  assumes "good_key k" and "long_key w"
  shows "split_noreply (''get '' @ k @ '' '' @ w) = (False, ''get '' @ k @ '' '' @ w)"
    and "tokens (''get '' @ k @ '' '' @ w) = [''get'', k, w]" and "CR \<notin> set (''get '' @ k @ '' '' @ w)"
proof -
  let ?l = "''get '' @ k @ '' '' @ w"
  have w: "250 < length w" "CHR '' '' \<notin> set w" "w \<noteq> []" using assms(2) by (auto simp: long_key_def)
  have "drop (length ?l - 8) ?l = drop (length w - 8) w" using w(1) by (simp add: drop_Cons' )
  then have "drop (length ?l - 8) ?l \<noteq> '' noreply''" using w(2) by (metis in_set_dropD list.set_intros(1))
  then show "split_noreply ?l = (False, ?l)" by (simp add: split_noreply_def)
  show "tokens ?l = [''get'', k, w]"
    using tokens_word(1) [of "''get''"] tokens_word [of k] tokens_word(2) [OF w(3,2)] assms(1) by (simp add: good_key_def)
  show "CR \<notin> set ?l" using assms by (auto simp: good_key_def long_key_def CR_def)
qed

lemma loop_get_long:
  assumes "session_base h s m" and "idle s" and "good_key k" and "long_key w" and "table h m k = Some e" and "Buffer_inv buf"
    and "readable buf = (''get '' @ k @ '' '' @ w) @ CRLF @ rest"
  shows "\<exists>s' buf'. message_loop h s m buf = message_loop h s' m buf' \<and> Buffer_inv buf' \<and> readable buf' = rest
    \<and> session_base h s' m \<and> idle s' \<and> readable (outputBuf s') = readable (outputBuf s) @ value_block k e
    \<and> acts s' = acts s @ [SSend (''CLIENT_ERROR bad command line format'' @ CRLF)]"
proof -
  let ?l = "''get '' @ k @ '' '' @ w" let ?s = "(started ?l s)\<lparr>command := ''get''\<rparr>"
  note l = long_line [OF assms(3,4)]
  have st: "session_base h ?s m" "command ?s = ''get''" "sstate ?s = kNewCommand" "\<not> noreply ?s" "outputBuf ?s = outputBuf s" "acts ?s = acts s"
    using assms(1,2) l(1) by (simp_all add: session_base_def idle_def)
  have k: "length k \<le> 250" using assms(3) by (simp add: good_key_def)
  obtain t where t: "get_loop h False [k, w] ?s m = get_loop h False [w] t m" "session_base h t m" "acts t = acts s" "\<not> noreply t"
    "sstate t = kNewCommand" "readable (outputBuf t) = readable (outputBuf s) @ value_block k e"
    using get_step [OF st(1) k, of "[w]"] st(3-6) assms(5) by (metis option.simps(5))
  let ?t = "reply (''CLIENT_ERROR bad command line format'' @ CRLF) t"
  have "get_loop h False [w] t m = Some (False, ?t)" using assms(4) by (simp add: long_key_def kLongestKeySize_def)
  then have g: "doGet h [k, w] ?s m = Some ?t" using t(1) st(2) by (simp add: doGet_def)
  have b: "session_base h ?t m" "sstate ?t = kNewCommand" using t(2,5) by (simp_all add: session_base_def)
  from get_line_loop [OF assms(1,2) l(3,1,2) assms(6,7) g b]
  obtain b' where "message_loop h s m buf = message_loop h (resetRequest ?t) m b'" "Buffer_inv b'" "readable b' = rest"
    "session_base h (resetRequest ?t) m" "idle (resetRequest ?t)" .
  then show ?thesis using t(3,4,6) by (intro exI [of _ "resetRequest ?t"] exI [of _ b']) (simp add: reply_def)
qed

text \<open>C29: A \<^verbatim>\<open>get\<close> that is refused because a later key is too long leaves what it had already written for the earlier
  keys in the session's output buffer: the next \<^verbatim>\<open>get\<close>, of a key that is not stored, answers with the value of
  another key.\<close>

theorem memcache_stale_value:
  assumes "session_inv h s m" and "idle s" and "readable (outputBuf s) = []" and "Buffer_inv buf" and "good_key k" and "long_key w"
    and "table h m k = Some e" and "good_key k2" and "table h m k2 = None"
    and "readable buf = (''get '' @ k @ '' '' @ w) @ CRLF @ ''get '' @ k2 @ CRLF"
  shows "\<exists>s' buf' n. Session_onMessage h s m buf = Some (Some (s', m, buf'))
    \<and> acts s' = acts s @ [SSend (''CLIENT_ERROR bad command line format'' @ CRLF), SShrinkOver n,
        SSendBuffer (value_block k e @ ''END'' @ CRLF)]"
proof -
  have base: "session_base h s m" using assms(1) by (simp add: session_inv_def)
  have r: "readable buf = (''get '' @ k @ '' '' @ w) @ CRLF @ (''get '' @ k2 @ CRLF @ [])" using assms(10) by simp
  obtain s1 b1 where 1: "message_loop h s m buf = message_loop h s1 m b1" "Buffer_inv b1" "readable b1 = ''get '' @ k2 @ CRLF @ []"
      "session_base h s1 m" "idle s1" "readable (outputBuf s1) = value_block k e"
      "acts s1 = acts s @ [SSend (''CLIENT_ERROR bad command line format'' @ CRLF)]"
    using loop_get_long [OF base assms(2,5,6,7,4) r] assms(3) by auto
  obtain s2 b2 n where 2: "message_loop h s1 m b1 = message_loop h s2 m b2" "Buffer_inv b2" "readable b2 = []"
      "acts s2 = acts s1 @ [SShrinkOver n, SSendBuffer (value_block k e @ ''END'' @ CRLF)]"
    using loop_get [OF 1(4,5) assms(8) 1(2,3)] assms(9) 1(6) by auto
  have "readableBytes b2 = 0" using 2(2,3) readableBytes_pos by blast
  then have "message_loop h s2 m b2 = Some (Some (s2, m, b2))" by (subst message_loop.simps) simp
  then show ?thesis using 1 2 by (auto simp: Session_onMessage_def Let_def)
qed

theorem memcache_stale_value_witness:
  "\<exists>s s' buf' n. Session_new ex_hash = Some s
    \<and> Session_onMessage ex_hash s ex_store (ex_buf ((''get '' @ ''k'' @ '' '' @ replicate 251 (CHR ''x'')) @ CRLF @ ''get '' @ ''z'' @ CRLF))
      = Some (Some (s', ex_store, buf'))
    \<and> acts s' = [SSend (''CLIENT_ERROR bad command line format'' @ CRLF), SShrinkOver n,
        SSendBuffer (''VALUE k 7 2'' @ CRLF @ ''ab'' @ CRLF @ ''END'' @ CRLF)]"
proof -
  obtain s where s: "Session_new ex_hash = Some s" using Session_new_ok by blast
  let ?e = "entry_of (ex_item ''k'' (''ab'' @ CRLF) 4)"
  have d: "value_block ''k'' ?e = ''VALUE k 7 2'' @ CRLF @ ''ab'' @ CRLF"
    by (simp add: value_block_def entry_of_def ex_item_def ivalue_def dec_nat.simps CRLF_def digit_char_numerals(4) [unfolded numeral_2_eq_2])
  have k: "good_key ''k''" "good_key ''z''" "long_key (replicate 251 (CHR ''x''))" by (simp_all add: good_key_def long_key_def CR_def)
  have z: "table ex_hash ex_store ''z'' = None" by (simp add: table_def ex_store_def ex_hash_def kShards_def)
  show ?thesis
    using memcache_stale_value [OF new_session_inv(1-3) [OF s] ex_buf_ok(1) k(1,3) ex_table k(2) z ex_buf_ok(2)] s d
      new_session_inv(4) [OF s]
    by (simp only: append_Nil append_assoc) blast
qed

end
