(* ===== verification/LogStream.thy ===== *)
theory LogStream
  imports Cnet_Prelude "HOL-Library.Signed_Division"
begin

text \<open>
  Formatting of log lines: \<^verbatim>\<open>cnet/base/LogStream.h\<close>, \<^verbatim>\<open>LogStream.cc\<close>. A \<^verbatim>\<open>FixedBuffer\<close> is its size and the bytes
  before \<^verbatim>\<open>cur_\<close>; writing into it past the end is the value \<open>None\<close>. The text of a floating point number and of a
  \<^verbatim>\<open>Fmt\<close> is what \<^verbatim>\<open>snprintf\<close> gives and is an argument.

  The results: the digit loop that works on negative numbers without negating them prints every integer in
  decimal; a stream never runs over its buffer, and every piece that is inserted is there as a whole or not
  at all.
\<close>

section \<open>FixedBuffer\<close>

definition kSmallBuffer :: nat where "kSmallBuffer = 4000"
definition kLargeBuffer :: nat where "kLargeBuffer = 4000 * 1000"

record FixedBuffer =
  fb_size :: nat
  fb_data :: string

definition FixedBuffer_new :: "nat \<Rightarrow> FixedBuffer" where
  "FixedBuffer_new n = \<lparr>fb_size = n, fb_data = []\<rparr>"

definition fb_length :: "FixedBuffer \<Rightarrow> nat" where
  "fb_length b = length (fb_data b)"

definition fb_avail :: "FixedBuffer \<Rightarrow> nat" where
  "fb_avail b = fb_size b - length (fb_data b)"

definition fb_append :: "string \<Rightarrow> FixedBuffer \<Rightarrow> FixedBuffer" where
  "fb_append buf b = (if fb_avail b > length buf then b\<lparr>fb_data := fb_data b @ buf\<rparr> else b)"

text \<open>Writing at \<^verbatim>\<open>current()\<close> (a text and its final zero byte) followed by \<^verbatim>\<open>add\<close>.\<close>

definition fb_write :: "string \<Rightarrow> FixedBuffer \<Rightarrow> FixedBuffer option" where
  "fb_write txt b = (if length txt < fb_avail b then Some (b\<lparr>fb_data := fb_data b @ txt\<rparr>) else None)"

definition fb_reset :: "FixedBuffer \<Rightarrow> FixedBuffer" where
  "fb_reset b = b\<lparr>fb_data := []\<rparr>"

definition fb_bzero :: "FixedBuffer \<Rightarrow> FixedBuffer" where
  "fb_bzero b = b\<lparr>fb_data := replicate (length (fb_data b)) (CHR 0x00)\<rparr>"

section \<open>Integers\<close>

definition digits :: string where "digits = ''9876543210123456789''"

text \<open>\<^verbatim>\<open>zero\<close> points at the middle of \<^verbatim>\<open>digits\<close>, so that the remainder of a negative number can be its index.\<close>

definition zero_at :: "int \<Rightarrow> char" where
  "zero_at lsd = digits ! nat (9 + lsd)"

definition digitsHex :: string where "digitsHex = ''0123456789ABCDEF''"

lemma sdiv10_abs: "(i :: int) sdiv 10 = sgn i * (\<bar>i\<bar> div 10)" and smod10_abs: "(i :: int) smod 10 = sgn i * (\<bar>i\<bar> mod 10)"
proof -
  show d: "i sdiv 10 = sgn i * (\<bar>i\<bar> div 10)" by (simp add: signed_divide_int_def)
  show "i smod 10 = sgn i * (\<bar>i\<bar> mod 10)"
    by (simp add: signed_modulo_int_def d minus_mult_div_eq_mod [symmetric] right_diff_distrib abs_sgn)
qed

text \<open>The loop of \<^verbatim>\<open>convert\<close>: the digits from the last one on.\<close>

function convert_loop :: "int \<Rightarrow> string" where
  "convert_loop i =
     (let lsd = i smod 10;
          i' = i sdiv 10
      in zero_at lsd # (if i' \<noteq> 0 then convert_loop i' else []))"
  by pat_completeness auto

termination
proof (relation "measure (\<lambda>i. nat \<bar>i\<bar>)")
  fix i i' :: int
  assume "i' = i sdiv 10" "i' \<noteq> 0"
  then have "\<bar>i'\<bar> = \<bar>i\<bar> div 10" "i \<noteq> 0" by (auto simp: sdiv10_abs abs_mult)
  then show "(i', i) \<in> measure (\<lambda>i. nat \<bar>i\<bar>)" by simp
qed simp

declare convert_loop.simps [simp del]

definition convert :: "int \<Rightarrow> string" where
  "convert v = rev (convert_loop v @ (if v < 0 then ''-'' else []))"

fun convertHex_loop :: "nat \<Rightarrow> string" where
  "convertHex_loop i = digitsHex ! (i mod 16) # (if i div 16 \<noteq> 0 then convertHex_loop (i div 16) else [])"

declare convertHex_loop.simps [simp del]

definition converHex :: "nat \<Rightarrow> string" where
  "converHex v = rev (convertHex_loop v)"

section \<open>LogStream\<close>

definition kMaxNumericSize :: nat where "kMaxNumericSize = 32"

definition LogStream_new :: FixedBuffer where
  "LogStream_new = FixedBuffer_new kSmallBuffer"

definition formatInteger :: "int \<Rightarrow> FixedBuffer \<Rightarrow> FixedBuffer option" where
  "formatInteger v b = (if fb_avail b \<ge> kMaxNumericSize then fb_write (convert v) b else Some b)"

definition insert_pointer :: "nat \<Rightarrow> FixedBuffer \<Rightarrow> FixedBuffer option" where
  "insert_pointer v b = (if fb_avail b \<ge> kMaxNumericSize then fb_write (''0x'' @ converHex v) b else Some b)"

definition insert_double :: "string \<Rightarrow> FixedBuffer \<Rightarrow> FixedBuffer option" where
  "insert_double txt b = (if fb_avail b > kMaxNumericSize then fb_write txt b else Some b)"

definition insert_bool :: "bool \<Rightarrow> FixedBuffer \<Rightarrow> FixedBuffer" where
  "insert_bool v b = fb_append (if v then ''1'' else ''0'') b"

definition insert_cstr :: "string option \<Rightarrow> FixedBuffer \<Rightarrow> FixedBuffer" where
  "insert_cstr str b = (case str of
       Some s \<Rightarrow> fb_append (takeWhile (\<lambda>c. c \<noteq> CHR 0x00) s) b
     | None \<Rightarrow> fb_append ''(null)'' b)"

definition insert_string :: "string \<Rightarrow> FixedBuffer \<Rightarrow> FixedBuffer" where
  "insert_string v b = fb_append v b"

definition Fmt_new :: "string \<Rightarrow> string option" where
  "Fmt_new txt = do { assertm (length txt < 32); Some txt }"

text \<open>The inserters by the type of their argument. Integers carry their width and sign: \<open>AInt\<close> is any value of
  at most 64 bits.\<close>

datatype arg = ABool bool | AInt int | APointer nat | ADouble string | AChar char | ACStr "string option" | AStr string | AFmt string

fun LogStream_insert :: "arg \<Rightarrow> FixedBuffer \<Rightarrow> FixedBuffer option" where
  "LogStream_insert (ABool v) b = Some (insert_bool v b)"
| "LogStream_insert (AInt v) b = formatInteger v b"
| "LogStream_insert (APointer v) b = insert_pointer v b"
| "LogStream_insert (ADouble txt) b = insert_double txt b"
| "LogStream_insert (AChar v) b = Some (fb_append [v] b)"
| "LogStream_insert (ACStr str) b = Some (insert_cstr str b)"
| "LogStream_insert (AStr v) b = Some (insert_string v b)"
| "LogStream_insert (AFmt txt) b = do { f \<leftarrow> Fmt_new txt; Some (fb_append f b) }"

fun LogStream_inserts :: "arg list \<Rightarrow> FixedBuffer \<Rightarrow> FixedBuffer option" where
  "LogStream_inserts [] b = Some b"
| "LogStream_inserts (a # as) b = LogStream_insert a b \<bind> LogStream_inserts as"

section \<open>The digit loops\<close>

lemma zero_at_digit: "d < 10 \<Longrightarrow> zero_at (int d) = digit_char d" "d < 10 \<Longrightarrow> zero_at (- int d) = digit_char d"
proof -
  assume "d < 10"
  then have d: "d \<in> {0, 1, 2, 3, 4, 5, 6, 7, 8, 9}" by auto
  then show "zero_at (int d) = digit_char d" by (elim insertE) (simp_all add: zero_at_def digits_def)
  from d show "zero_at (- int d) = digit_char d" by (elim insertE) (simp_all add: zero_at_def digits_def)
qed

lemma sdiv10_int:
  "int n sdiv 10 = int (n div 10)" "int n smod 10 = int (n mod 10)"
  "(- int n) sdiv 10 = - int (n div 10)" "(- int n) smod 10 = - int (n mod 10)"
  by (cases "n = 0"; simp add: sdiv10_abs smod10_abs zdiv_int zmod_int)+

lemma convert_loop_pos: "rev (convert_loop (int n)) = dec_nat n"
proof (induction n rule: dec_nat.induct)
  case (1 n)
  have z: "zero_at (int (n mod 10)) = digit_char (n mod 10)" by (rule zero_at_digit) simp
  show ?case
  proof (cases "n < 10")
    case True
    then show ?thesis using z by (subst convert_loop.simps, subst dec_nat.simps) (simp only: sdiv10_int Let_def, simp)
  next
    case False
    then have "int (n div 10) \<noteq> 0" by simp
    then show ?thesis using z False 1 [OF False]
      by (subst convert_loop.simps, subst dec_nat.simps) (simp only: sdiv10_int Let_def rev.simps if_False if_True simp_thms)
  qed
qed

lemma convert_loop_neg: "rev (convert_loop (- int n)) = dec_nat n"
proof (induction n rule: dec_nat.induct)
  case (1 n)
  have z: "zero_at (- int (n mod 10)) = digit_char (n mod 10)" by (rule zero_at_digit) simp
  show ?case
  proof (cases "n < 10")
    case True
    then show ?thesis using z by (subst convert_loop.simps, subst dec_nat.simps) (simp only: sdiv10_int Let_def, simp)
  next
    case False
    then have "- int (n div 10) \<noteq> 0" by simp
    then show ?thesis using z False 1 [OF False]
      by (subst convert_loop.simps, subst dec_nat.simps) (simp only: sdiv10_int Let_def rev.simps if_False if_True simp_thms)
  qed
qed

lemma convert_loop_dec: "rev (convert_loop i) = dec_nat (nat \<bar>i\<bar>)"
proof (cases "0 \<le> i")
  case True
  then show ?thesis using convert_loop_pos [of "nat i"] by simp
next
  case False
  then show ?thesis using convert_loop_neg [of "nat (- i)"] by simp
qed

lemma convert_dec_int: "convert v = dec_int v"
  by (simp add: convert_def dec_int_def convert_loop_dec)

lemma length_dec_int_le:
  assumes "\<bar>v\<bar> < 2 ^ 64"
  shows "length (dec_int v) \<le> 21"
proof -
  have "length (dec_nat (nat \<bar>v\<bar>)) \<le> 20" using assms by (intro length_dec_nat_le) (simp_all add: nat_less_iff)
  then show ?thesis by (cases "v < 0") (simp_all add: dec_int_def)
qed

text \<open>Reading hexadecimal digits back.\<close>

definition hex_val :: "char \<Rightarrow> nat" where
  "hex_val c = std_find c digitsHex"

lemma hex_val_digit: "d < 16 \<Longrightarrow> hex_val (digitsHex ! d) = d"
proof -
  assume "d < 16"
  moreover have "list_all (\<lambda>d. hex_val (digitsHex ! d) = d) [0..<16]" by code_simp
  ultimately show ?thesis by (simp add: list_all_iff)
qed

lemma converHex_val: "foldl (\<lambda>n c. 16 * n + hex_val c) 0 (converHex v) = v"
proof -
  have "foldr (\<lambda>c n. 16 * n + hex_val c) (convertHex_loop v) 0 = v"
    by (induction v rule: convertHex_loop.induct) (subst convertHex_loop.simps, auto simp: hex_val_digit)
  then show ?thesis by (simp add: converHex_def foldl_conv_foldr)
qed

lemma length_converHex: "0 < k \<Longrightarrow> v < 16 ^ k \<Longrightarrow> length (converHex v) \<le> k"
proof (induction v arbitrary: k rule: convertHex_loop.induct)
  case (1 v)
  show ?case
  proof (cases "v div 16 = 0")
    case True
    then show ?thesis using 1(2) by (subst converHex_def, subst convertHex_loop.simps) simp
  next
    case False
    obtain j where j: "k = Suc j" using 1(2) by (cases k) auto
    have "v div 16 < 16 ^ j" using 1(3) j by (simp add: less_mult_imp_div_less mult.commute)
    moreover have "0 < j" using calculation False by (cases j) auto
    ultimately have "length (converHex (v div 16)) \<le> j" using 1(1) False by simp
    then show ?thesis using False j by (subst converHex_def, subst convertHex_loop.simps) (simp add: converHex_def)
  qed
qed

section \<open>A stream keeps whole pieces\<close>

fun piece :: "arg \<Rightarrow> string" where
  "piece (ABool v) = (if v then ''1'' else ''0'')"
| "piece (AInt v) = dec_int v"
| "piece (APointer v) = ''0x'' @ converHex v"
| "piece (ADouble txt) = txt"
| "piece (AChar v) = [v]"
| "piece (ACStr str) = (case str of Some s \<Rightarrow> takeWhile (\<lambda>c. c \<noteq> CHR 0x00) s | None \<Rightarrow> ''(null)'')"
| "piece (AStr v) = v"
| "piece (AFmt txt) = txt"

text \<open>How much room must be left for a piece to be taken.\<close>

fun room :: "arg \<Rightarrow> nat" where
  "room (AInt v) = kMaxNumericSize"
| "room (APointer v) = kMaxNumericSize"
| "room (ADouble txt) = kMaxNumericSize + 1"
| "room a = length (piece a) + 1"

fun arg_ok :: "arg \<Rightarrow> bool" where
  "arg_ok (AInt v) = (\<bar>v\<bar> < 2 ^ 64)"
| "arg_ok (APointer v) = (v < 2 ^ 64)"
| "arg_ok (ADouble txt) = (length txt < 32)"
| "arg_ok (AFmt txt) = (length txt < 32)"
| "arg_ok a = True"

fun kept :: "arg list \<Rightarrow> string \<Rightarrow> string" where
  "kept [] s = s"
| "kept (a # as) s = kept as (if length s + room a \<le> kSmallBuffer then s @ piece a else s)"

lemma room_piece: "arg_ok a \<Longrightarrow> length (piece a) < room a"
proof (cases a)
  case (AInt v)
  assume "arg_ok a"
  then show ?thesis using length_dec_int_le [of v] AInt by (simp add: kMaxNumericSize_def)
next
  case (APointer v)
  assume "arg_ok a"
  then show ?thesis using length_converHex [of 16 v] APointer by (simp add: kMaxNumericSize_def)
qed (simp_all add: kMaxNumericSize_def)

lemma insert_piece:
  assumes "arg_ok a" and "fb_size b = kSmallBuffer" and "length (fb_data b) < kSmallBuffer"
  shows "LogStream_insert a b = Some (if length (fb_data b) + room a \<le> kSmallBuffer then b\<lparr>fb_data := fb_data b @ piece a\<rparr> else b)"
  using room_piece [OF assms(1)] assms
  by (cases a) (auto simp: insert_bool_def formatInteger_def insert_pointer_def insert_double_def insert_cstr_def insert_string_def
      Fmt_new_def fb_append_def fb_write_def fb_avail_def convert_dec_int kMaxNumericSize_def split: option.splits)

lemma inserts_kept:
  "list_all arg_ok as \<Longrightarrow> fb_size b = kSmallBuffer \<Longrightarrow> length (fb_data b) < kSmallBuffer \<Longrightarrow>
   LogStream_inserts as b = Some (b\<lparr>fb_data := kept as (fb_data b)\<rparr>) \<and> length (kept as (fb_data b)) < kSmallBuffer"
proof (induction as arbitrary: b)
  case (Cons a as)
  let ?b = "if length (fb_data b) + room a \<le> kSmallBuffer then b\<lparr>fb_data := fb_data b @ piece a\<rparr> else b"
  have a: "arg_ok a" "list_all arg_ok as" using Cons.prems(1) by simp_all
  have "fb_size ?b = kSmallBuffer" "length (fb_data ?b) < kSmallBuffer" using Cons.prems(2,3) room_piece [OF a(1)] by auto
  from Cons.IH [OF a(2) this] show ?case using insert_piece [OF a(1) Cons.prems(2,3)] by auto
qed simp

section \<open>Properties\<close>

text \<open>The integer formatter, which takes the digits of a negative number from the remainders without negating it
  (so that the smallest value of a type needs no special case), prints every integer in decimal; its text for a
  value of up to 64 bits, and that of a pointer, fits the 32 bytes that the stream reserves; the hexadecimal text
  reads back as the value.\<close>

theorem log_convert_decimal:
  assumes "\<bar>v\<bar> < 2 ^ 64" and "p < 2 ^ 64"
  shows "(\<forall>w. convert w = dec_int w) \<and> length (convert v) < kMaxNumericSize
    \<and> (\<forall>q. foldl (\<lambda>n c. 16 * n + hex_val c) 0 (converHex q) = q) \<and> length (''0x'' @ converHex p) < kMaxNumericSize"
  using length_dec_int_le [OF assms(1)] length_converHex [of 16 p] assms(2)
  by (simp add: convert_dec_int converHex_val kMaxNumericSize_def)

theorem log_convert_decimal_witness:
  "length (convert (- (2 ^ 63))) < kMaxNumericSize \<and> length (''0x'' @ converHex 255) < kMaxNumericSize \<and> convert (- 12) = ''-12''"
  using log_convert_decimal [of "- (2 ^ 63)" 255]
  by (simp add: dec_int_def dec_nat.simps kMaxNumericSize_def digit_char_numerals(4) [unfolded numeral_2_eq_2])

text \<open>Whatever is inserted into a log stream, no write runs over the 4000 bytes of its buffer, the content stays
  below that size, and it is the concatenation of exactly those pieces that fitted when their turn came, each as
  a whole.\<close>

theorem log_stream_pieces:
  assumes "list_all arg_ok as"
  shows "LogStream_inserts as LogStream_new = Some \<lparr>fb_size = kSmallBuffer, fb_data = kept as []\<rparr> \<and> length (kept as []) < kSmallBuffer"
  using inserts_kept [OF assms, of LogStream_new] by (simp add: LogStream_new_def FixedBuffer_new_def kSmallBuffer_def)

theorem log_stream_pieces_witness:
  "LogStream_inserts [AStr ''pid '', AInt (- 5), ACStr None] LogStream_new
    = Some \<lparr>fb_size = kSmallBuffer, fb_data = ''pid -5(null)''\<rparr>"
  using log_stream_pieces [of "[AStr ''pid '', AInt (- 5), ACStr None]"]
  by (simp add: kSmallBuffer_def kMaxNumericSize_def dec_int_def dec_nat.simps)

end
