(* ===== verification/AsyncLog.thy ===== *)
theory AsyncLog
  imports LogStream
begin

text \<open>
  Log files and the asynchronous logger: \<^verbatim>\<open>FileUtil::AppendFile\<close> of \<^verbatim>\<open>cnet/base/FileUtil.cc\<close>, \<^verbatim>\<open>LogFile.cc\<close>,
  \<^verbatim>\<open>AsyncLogging.h\<close> and \<^verbatim>\<open>AsyncLogging.cc\<close>. The clock, \<^verbatim>\<open>fopen\<close>, \<^verbatim>\<open>fwrite_unlocked\<close>, \<^verbatim>\<open>strftime\<close>, the host name and the process
  id are arguments. \<open>LogFile\<close> keeps the files it has closed, so that all of the output can be spoken of.

  The logger's back-end thread interleaves with the threads that append: one step of the relation \<open>async_step\<close> is
  a section of the source that holds the lock, or work on data that only the back-end thread sees.

  The results: rolling neither loses nor splits a line; the four buffers circulate so that no assertion of
  the back end fails and every line reaches the files in order; and lines that are appended after the last
  collection before \<^verbatim>\<open>stop()\<close> are lost.
\<close>

section \<open>AppendFile\<close>

record AppendFile =
  af_name :: string
  af_content :: string
  af_flushed :: nat
  writtenBytes :: nat

definition empty_file :: "string \<Rightarrow> AppendFile" where
  "empty_file name = \<lparr>af_name = name, af_content = [], af_flushed = 0, writtenBytes = 0\<rparr>"

text \<open>\<open>fopen name\<close> tells whether the file can be opened.\<close>

definition AppendFile_new :: "(string \<Rightarrow> bool) \<Rightarrow> string \<Rightarrow> AppendFile option" where
  "AppendFile_new fopen name = do { assertm (fopen name); Some (empty_file name) }"

text \<open>What the loop writes: \<open>fwrite i s\<close> is the number of bytes that the \<open>i\<close>-th call accepts of \<open>s\<close>.\<close>

function write_loop :: "(nat \<Rightarrow> string \<Rightarrow> nat) \<Rightarrow> nat \<Rightarrow> string \<Rightarrow> string" where
  "write_loop fwrite i rest =
     (if rest = [] then []
      else let x = fwrite i rest
           in if x = 0 then [] else take x rest @ write_loop fwrite (i + 1) (drop x rest))"
  by pat_completeness auto

termination
  by (relation "measure (\<lambda>(f, i, rest). length rest)") auto

declare write_loop.simps [simp del]

definition AppendFile_append :: "(nat \<Rightarrow> string \<Rightarrow> nat) \<Rightarrow> string \<Rightarrow> AppendFile \<Rightarrow> AppendFile" where
  "AppendFile_append fwrite logline f =
     (let n = fwrite 0 logline
      in f\<lparr>af_content := af_content f @ take n logline @ write_loop fwrite 1 (drop n logline),
           writtenBytes := writtenBytes f + length logline\<rparr>)"

definition AppendFile_flush :: "AppendFile \<Rightarrow> AppendFile" where
  "AppendFile_flush f = f\<lparr>af_flushed := length (af_content f)\<rparr>"

section \<open>LogFile\<close>

record LogFile =
  basename :: string
  rollSize :: nat
  flushInterval :: int
  checkEveryN :: nat
  lcount :: nat
  startOfPeriod :: int
  lastRoll :: int
  lastFlush :: int
  lfile :: "AppendFile option"
  closed_files :: "AppendFile list"

definition kRollPerSeconds :: int where "kRollPerSeconds = 60 * 60 * 24"

record env =
  strftime :: "int \<Rightarrow> string"
  hostname :: string
  pid :: int
  fopen :: "string \<Rightarrow> bool"
  fwrite :: "nat \<Rightarrow> string \<Rightarrow> nat"

definition getLogFileName :: "env \<Rightarrow> string \<Rightarrow> int \<Rightarrow> string" where
  "getLogFileName E base now = base @ strftime E now @ hostname E @ (''.'' @ dec_int (pid E)) @ ''.log''"

text \<open>\<open>file_.reset\<close> closes the old file, which writes out what \<^verbatim>\<open>stdio\<close> still holds of it.\<close>

definition rollFile :: "env \<Rightarrow> int \<Rightarrow> LogFile \<Rightarrow> (bool \<times> LogFile) option" where
  "rollFile E now l =
     (let filename = getLogFileName E (basename l) now;
          start = now div kRollPerSeconds * kRollPerSeconds
      in if now > lastRoll l
         then do {
           f \<leftarrow> AppendFile_new (fopen E) filename;
           Some (True, l\<lparr>lastRoll := now, lastFlush := now, startOfPeriod := start,
             closed_files := closed_files l @ (case lfile l of None \<Rightarrow> [] | Some f \<Rightarrow> [AppendFile_flush f]),
             lfile := Some f\<rparr>) }
         else Some (False, l))"

definition LogFile_new :: "env \<Rightarrow> int \<Rightarrow> string \<Rightarrow> nat \<Rightarrow> int \<Rightarrow> nat \<Rightarrow> LogFile option" where
  "LogFile_new E now base roll flushEvery n = do {
     assertm (CHR ''/'' \<notin> set base);
     (_, l) \<leftarrow> rollFile E now \<lparr>basename = base, rollSize = roll, flushInterval = flushEvery, checkEveryN = n, lcount = 0,
       startOfPeriod = 0, lastRoll = 0, lastFlush = 0, lfile = None, closed_files = []\<rparr>;
     Some l }"

text \<open>\<open>t1\<close> is the time read by \<^verbatim>\<open>append_unlocked\<close>, \<open>t2\<close> the time read by \<^verbatim>\<open>rollFile\<close>.\<close>

definition append_unlocked :: "env \<Rightarrow> int \<Rightarrow> int \<Rightarrow> string \<Rightarrow> LogFile \<Rightarrow> LogFile option" where
  "append_unlocked E t1 t2 logline l = do {
     f \<leftarrow> lfile l;
     let f = AppendFile_append (fwrite E) logline f;
     let l = l\<lparr>lfile := Some f\<rparr>;
     (if writtenBytes f > rollSize l then do { (_, l) \<leftarrow> rollFile E t2 l; Some l }
       else let l = l\<lparr>lcount := lcount l + 1\<rparr>
            in if lcount l \<ge> checkEveryN l
               then let l = l\<lparr>lcount := 0\<rparr>;
                        thisperiod = t1 div kRollPerSeconds * kRollPerSeconds
                    in if thisperiod \<noteq> startOfPeriod l then do { (_, l) \<leftarrow> rollFile E t2 l; Some l }
                       else if t1 - lastFlush l > flushInterval l
                       then Some (l\<lparr>lastFlush := t1, lfile := Some (AppendFile_flush f)\<rparr>)
                       else Some l
               else Some l) }"

definition LogFile_flush :: "LogFile \<Rightarrow> LogFile option" where
  "LogFile_flush l = do {
     f \<leftarrow> lfile l;
     Some (l\<lparr>lfile := Some (AppendFile_flush f)\<rparr>) }"

section \<open>AsyncLogging\<close>

record AsyncLogging =
  running :: bool
  currentBuffer :: FixedBuffer
  nextBuffer :: "FixedBuffer option"
  lbuffers :: "FixedBuffer list"

definition AsyncLogging_new :: AsyncLogging where
  "AsyncLogging_new = \<lparr>running = False, currentBuffer = fb_bzero (FixedBuffer_new kLargeBuffer),
     nextBuffer = Some (fb_bzero (FixedBuffer_new kLargeBuffer)), lbuffers = []\<rparr>"

definition AsyncLogging_append :: "string \<Rightarrow> AsyncLogging \<Rightarrow> AsyncLogging" where
  "AsyncLogging_append logline a =
     (if fb_avail (currentBuffer a) > length logline
      then a\<lparr>currentBuffer := fb_append logline (currentBuffer a)\<rparr>
      else let a = a\<lparr>lbuffers := lbuffers a @ [currentBuffer a]\<rparr>;
               a = (case nextBuffer a of
                      Some b \<Rightarrow> a\<lparr>currentBuffer := b, nextBuffer := None\<rparr>
                    | None \<Rightarrow> a\<lparr>currentBuffer := FixedBuffer_new kLargeBuffer\<rparr>)
           in a\<lparr>currentBuffer := fb_append logline (currentBuffer a)\<rparr>)"

text \<open>The back-end thread: its position in \<^verbatim>\<open>threadFunc\<close> and its local variables. \<open>dropped\<close> notes whether it has ever
  thrown buffers away.\<close>

datatype phase = LTop | LWait | LWrite | LDone

record Backend =
  alog :: AsyncLogging
  lphase :: phase
  newBuffer1 :: "FixedBuffer option"
  newBuffer2 :: "FixedBuffer option"
  buffersToWrite :: "FixedBuffer list"
  outfile :: LogFile
  dropped :: bool

definition Backend_new :: "LogFile \<Rightarrow> Backend" where
  "Backend_new out = \<lparr>alog = AsyncLogging_new\<lparr>running := True\<rparr>, lphase = LTop,
     newBuffer1 = Some (fb_bzero (FixedBuffer_new kLargeBuffer)), newBuffer2 = Some (fb_bzero (FixedBuffer_new kLargeBuffer)),
     buffersToWrite = [], outfile = out, dropped = False\<rparr>"

text \<open>The test of the loop and the assertions behind it; the final flush when it ends.\<close>

definition loop_test :: "Backend \<Rightarrow> Backend option" where
  "loop_test w =
     (if running (alog w)
      then do {
        n1 \<leftarrow> newBuffer1 w;
        assertm (fb_length n1 = 0);
        n2 \<leftarrow> newBuffer2 w;
        assertm (fb_length n2 = 0);
        assertm (buffersToWrite w = []);
        Some (w\<lparr>lphase := LWait\<rparr>) }
      else do {
        l \<leftarrow> LogFile_flush (outfile w);
        Some (w\<lparr>outfile := l, lphase := LDone\<rparr>) })"

text \<open>The section under the lock. The wait in it ends after the flush interval at the latest, whatever the queue holds.\<close>

definition collect :: "Backend \<Rightarrow> Backend option" where
  "collect w = do {
     let a = alog w;
     n1 \<leftarrow> newBuffer1 w;
     let toWrite = lbuffers a @ [currentBuffer a];
     let a = a\<lparr>lbuffers := [], currentBuffer := n1\<rparr>;
     let w = w\<lparr>newBuffer1 := None, buffersToWrite := toWrite\<rparr>;
     let w = (if nextBuffer a = None then w\<lparr>alog := a\<lparr>nextBuffer := newBuffer2 w\<rparr>, newBuffer2 := None\<rparr> else w\<lparr>alog := a\<rparr>);
     assertm (buffersToWrite w \<noteq> []);
     Some (w\<lparr>lphase := LWrite\<rparr>) }"

fun append_all :: "env \<Rightarrow> (int \<times> int) list \<Rightarrow> FixedBuffer list \<Rightarrow> LogFile \<Rightarrow> LogFile option" where
  "append_all E ts [] l = Some l"
| "append_all E ts (b # bs) l =
     append_unlocked E (fst (hd ts)) (snd (hd ts)) (fb_data b) l \<bind> append_all E (tl ts) bs"

text \<open>\<open>newBuffer.reset\<close> of the last of the buffers that were written.\<close>

definition recycle :: "FixedBuffer option \<Rightarrow> FixedBuffer list \<Rightarrow> (FixedBuffer option \<times> FixedBuffer list) option" where
  "recycle n bs = (case n of
       Some b \<Rightarrow> Some (n, bs)
     | None \<Rightarrow> do { assertm (bs \<noteq> []); Some (Some (fb_reset (last bs)), butlast bs) })"

text \<open>Writing. \<open>ts\<close> are the times read on the way, \<open>note\<close> the text about dropped buffers.\<close>

definition write_out :: "env \<Rightarrow> (int \<times> int) list \<Rightarrow> string \<Rightarrow> Backend \<Rightarrow> Backend option" where
  "write_out E ts note w = do {
     let many = length (buffersToWrite w) > 25;
     l \<leftarrow> (if many then append_unlocked E (fst (hd ts)) (snd (hd ts)) note (outfile w) else Some (outfile w));
     let bs = (if many then take 2 (buffersToWrite w) else buffersToWrite w);
     l \<leftarrow> append_all E (tl ts) bs l;
     let bs = (if length bs > 2 then take 2 bs else bs);
     (n1, bs) \<leftarrow> recycle (newBuffer1 w) bs;
     (n2, bs) \<leftarrow> recycle (newBuffer2 w) bs;
     l \<leftarrow> LogFile_flush l;
     Some (w\<lparr>newBuffer1 := n1, newBuffer2 := n2, buffersToWrite := [], outfile := l, lphase := LTop,
       dropped := dropped w \<or> many\<rparr>) }"

definition AsyncLogging_stop :: "AsyncLogging \<Rightarrow> AsyncLogging" where
  "AsyncLogging_stop a = a\<lparr>running := False\<rparr>"

section \<open>Files\<close>

text \<open>No errors: every file can be opened, and \<^verbatim>\<open>fwrite\<close> never accepts more than it is given, and something of
  what is there.\<close>

definition files_ok :: "env \<Rightarrow> bool" where
  "files_ok E \<longleftrightarrow> (\<forall>name. fopen E name) \<and> (\<forall>i s. fwrite E i s \<le> length s \<and> (s \<noteq> [] \<longrightarrow> 0 < fwrite E i s))"

lemma write_loop_all: "files_ok E \<Longrightarrow> write_loop (fwrite E) i s = s"
proof (induction "fwrite E" i s rule: write_loop.induct)
  case (1 i s)
  show ?case
  proof (cases "s = []")
    case True
    then show ?thesis by (subst write_loop.simps) simp
  next
    case False
    then have "fwrite E i s \<noteq> 0" using 1(2) by (auto simp: files_ok_def)
    then show ?thesis using 1(1) [OF False refl _ 1(2)] False by (subst write_loop.simps) (simp add: Let_def)
  qed
qed

lemma AppendFile_append_content:
  "files_ok E \<Longrightarrow> af_content (AppendFile_append (fwrite E) s f) = af_content f @ s"
  by (simp add: AppendFile_append_def write_loop_all Let_def)

definition all_files :: "LogFile \<Rightarrow> AppendFile list" where
  "all_files l = closed_files l @ (case lfile l of None \<Rightarrow> [] | Some f \<Rightarrow> [f])"

definition file_text :: "LogFile \<Rightarrow> string" where
  "file_text l = concat (map af_content (all_files l))"

definition must_roll :: "int \<Rightarrow> string \<Rightarrow> LogFile \<Rightarrow> AppendFile \<Rightarrow> bool" where
  "must_roll t1 line l f \<longleftrightarrow> writtenBytes f + length line > rollSize l
     \<or> (lcount l + 1 \<ge> checkEveryN l \<and> t1 div kRollPerSeconds * kRollPerSeconds \<noteq> startOfPeriod l)"

lemma flush_content [simp]: "af_content (AppendFile_flush f) = af_content f" "writtenBytes (AppendFile_flush f) = writtenBytes f"
  "af_name (AppendFile_flush f) = af_name f"
  by (simp_all add: AppendFile_flush_def)

text \<open>The line goes to the end of the current file, which is then closed if it is time to roll.\<close>

definition append_effect :: "env \<Rightarrow> int \<Rightarrow> int \<Rightarrow> string \<Rightarrow> LogFile \<Rightarrow> AppendFile \<Rightarrow> LogFile \<Rightarrow> bool" where
  "append_effect E t1 t2 line l f l' \<longleftrightarrow>
    (if must_roll t1 line l f \<and> t2 > lastRoll l
     then map af_content (closed_files l') = map af_content (closed_files l) @ [af_content f @ line]
       \<and> lfile l' = Some (empty_file (getLogFileName E (basename l) t2)) \<and> lastRoll l' = t2
     else closed_files l' = closed_files l \<and> lastRoll l' = lastRoll l
       \<and> (\<exists>f'. lfile l' = Some f' \<and> af_content f' = af_content f @ line \<and> af_name f' = af_name f))"

lemma append_unlocked_cases:
  assumes "files_ok E" and "lfile l = Some f"
  obtains l' where "append_unlocked E t1 t2 line l = Some l'" and "append_effect E t1 t2 line l f l'"
proof -
  let ?f = "AppendFile_append (fwrite E) line f"
  have f: "af_content ?f = af_content f @ line" "writtenBytes ?f = writtenBytes f + length line" "af_name ?f = af_name f"
    using AppendFile_append_content [OF assms(1)] by (simp_all add: AppendFile_append_def Let_def)
  have o: "fopen E name" for name using assms(1) by (simp add: files_ok_def)
  have "\<exists>l'. append_unlocked E t1 t2 line l = Some l' \<and> append_effect E t1 t2 line l f l'"
    using assms(2) f o by (auto simp: append_unlocked_def append_effect_def must_roll_def rollFile_def AppendFile_new_def Let_def)
  then show ?thesis using that by blast
qed

lemma append_unlocked_text:
  assumes "files_ok E" and "lfile l \<noteq> None"
  obtains l' where "append_unlocked E t1 t2 line l = Some l'" and "lfile l' \<noteq> None" and "file_text l' = file_text l @ line"
proof -
  obtain f where f: "lfile l = Some f" using assms(2) by auto
  obtain l' where l': "append_unlocked E t1 t2 line l = Some l'"
    and c: "append_effect E t1 t2 line l f l'"
    using append_unlocked_cases [OF assms(1) f] .
  have "lfile l' \<noteq> None \<and> file_text l' = file_text l @ line"
    using c f by (auto simp: append_effect_def file_text_def all_files_def empty_file_def split: if_splits)
  then show ?thesis using that l' by blast
qed

text \<open>A whole log: every line with the times read while it is appended.\<close>

fun append_lines :: "env \<Rightarrow> (string \<times> int \<times> int) list \<Rightarrow> LogFile \<Rightarrow> LogFile option" where
  "append_lines E [] l = Some l"
| "append_lines E ((line, t1, t2) # ls) l = append_unlocked E t1 t2 line l \<bind> append_lines E ls"

lemma append_lines_groups:
  "files_ok E \<Longrightarrow> lfile l \<noteq> None \<Longrightarrow> map af_content (all_files l) = map concat gs \<Longrightarrow>
   \<exists>l' gs'. append_lines E ls l = Some l' \<and> lfile l' \<noteq> None \<and> concat gs' = concat gs @ map fst ls \<and> map af_content (all_files l') = map concat gs'"
proof (induction ls arbitrary: l gs)
  case (Cons x ls)
  obtain line t1 t2 where x: "x = (line, t1, t2)" by (cases x)
  obtain f where f: "lfile l = Some f" using Cons.prems(2) by auto
  have "gs \<noteq> []" using Cons.prems(3) f by (auto simp: all_files_def)
  then obtain hs g where gs: "gs = hs @ [g]" by (cases gs rule: rev_cases) auto
  have hg: "map af_content (closed_files l) = map concat hs" "af_content f = concat g"
    using Cons.prems(3) f gs by (simp_all add: all_files_def)
  obtain l1 where l1: "append_unlocked E t1 t2 line l = Some l1"
    and c: "append_effect E t1 t2 line l f l1"
    using append_unlocked_cases [OF Cons.prems(1) f] .
  define gs1 where "gs1 = (if must_roll t1 line l f \<and> t2 > lastRoll l then hs @ [g @ [line], []] else hs @ [g @ [line]])"
  have "map af_content (all_files l1) = map concat gs1" "lfile l1 \<noteq> None"
    using c hg by (auto simp: append_effect_def all_files_def gs1_def empty_file_def split: if_splits)
  moreover have "concat gs1 = concat gs @ [line]" by (simp add: gs1_def gs)
  ultimately show ?case using Cons.IH [OF Cons.prems(1), of l1 gs1] l1 x by simp
qed auto

text \<open>A log file that was opened holds, over all the files it rolls through, exactly the lines appended to it in
  order, and no line is split between two files. A file is closed when it has outgrown the roll size or (tested
  every so many lines) a new day has begun, but never twice within one second.\<close>

theorem logfile_rolls:
  assumes "files_ok E" and "LogFile_new E now base roll flushEvery n = Some l0" and "0 < now"
  shows "\<exists>l gs. append_lines E ls l0 = Some l \<and> concat gs = map fst ls \<and> map af_content (all_files l) = map concat gs
    \<and> (\<forall>line t1 t2 f. lfile l = Some f \<longrightarrow> (\<exists>l'. append_unlocked E t1 t2 line l = Some l'
        \<and> length (closed_files l') = length (closed_files l) + (if must_roll t1 line l f \<and> lastRoll l < t2 then 1 else 0)))"
proof -
  have l0: "lfile l0 \<noteq> None" "map af_content (all_files l0) = map concat [[]]"
    using assms(2,3) by (auto simp: LogFile_new_def rollFile_def AppendFile_new_def all_files_def empty_file_def Let_def split: if_splits elim!: bind_SomeE)
  obtain l gs where l: "append_lines E ls l0 = Some l" "concat gs = map fst ls" "map af_content (all_files l) = map concat gs"
    using append_lines_groups [OF assms(1) l0, of ls] by auto
  have "\<exists>l'. append_unlocked E t1 t2 line l = Some l'
        \<and> length (closed_files l') = length (closed_files l) + (if must_roll t1 line l f \<and> lastRoll l < t2 then 1 else 0)"
    if fl: "lfile l = Some f" for line t1 t2 f
  proof -
    obtain l' where l': "append_unlocked E t1 t2 line l = Some l'"
      and c: "append_effect E t1 t2 line l f l'"
      using append_unlocked_cases [OF assms(1) fl] .
    have "length (closed_files l') = length (closed_files l) + (if must_roll t1 line l f \<and> lastRoll l < t2 then 1 else 0)"
    proof (cases "must_roll t1 line l f \<and> lastRoll l < t2")
      case True
      then have "length (map af_content (closed_files l')) = length (map af_content (closed_files l) @ [af_content f @ line])" using c by (simp add: append_effect_def)
      then show ?thesis using True by simp
    qed (use c in \<open>simp add: append_effect_def\<close>)
    then show ?thesis using l' by blast
  qed
  then show ?thesis using l by blast
qed

definition ex_env :: env where
  "ex_env = \<lparr>strftime = (\<lambda>t. ''.t'' @ dec_int t), hostname = ''h'', pid = 1, fopen = (\<lambda>name. True), fwrite = (\<lambda>i s. min 2 (length s))\<rparr>"

lemma ex_env_ok: "files_ok ex_env"
  by (simp add: files_ok_def ex_env_def)

definition ex_log :: LogFile where
  "ex_log = \<lparr>basename = ''log'', rollSize = 3, flushInterval = 3, checkEveryN = 1024, lcount = 0, startOfPeriod = 0,
     lastRoll = 5, lastFlush = 5, lfile = Some (empty_file ''log.t5h.1.log''), closed_files = []\<rparr>"

lemma ex_log_new: "LogFile_new ex_env 5 ''log'' 3 3 1024 = Some ex_log"
  by (simp add: LogFile_new_def rollFile_def AppendFile_new_def getLogFileName_def ex_env_def ex_log_def kRollPerSeconds_def dec_int_def dec_nat.simps)

theorem logfile_rolls_witness:
  "\<exists>l gs. append_lines ex_env [(''ab'', 6, 6), (''cde'', 6, 6), (''f'', 7, 7)] ex_log = Some l \<and> concat gs = [''ab'', ''cde'', ''f'']
    \<and> map af_content (all_files l) = map concat gs"
  using logfile_rolls [OF ex_env_ok ex_log_new, of "[(''ab'', 6, 6), (''cde'', 6, 6), (''f'', 7, 7)]"] by auto

section \<open>The back end\<close>

text \<open>All runs, with the lines appended so far.\<close>

inductive async_run :: "env \<Rightarrow> LogFile \<Rightarrow> Backend \<Rightarrow> string list \<Rightarrow> bool" for E :: env and out :: LogFile where
  run_start: "lfile out \<noteq> None \<Longrightarrow> async_run E out (Backend_new out) []"
| run_append: "async_run E out w ls \<Longrightarrow> async_run E out (w\<lparr>alog := AsyncLogging_append line (alog w)\<rparr>) (ls @ [line])"
| run_stop: "async_run E out w ls \<Longrightarrow> async_run E out (w\<lparr>alog := AsyncLogging_stop (alog w)\<rparr>) ls"
| run_test: "async_run E out w ls \<Longrightarrow> lphase w = LTop \<Longrightarrow> loop_test w = Some w' \<Longrightarrow> async_run E out w' ls"
| run_collect: "async_run E out w ls \<Longrightarrow> lphase w = LWait \<Longrightarrow> collect w = Some w' \<Longrightarrow> async_run E out w' ls"
| run_write: "async_run E out w ls \<Longrightarrow> lphase w = LWrite \<Longrightarrow> write_out E ts note w = Some w' \<Longrightarrow> async_run E out w' ls"

definition empty_buffer :: "FixedBuffer option \<Rightarrow> bool" where
  "empty_buffer b \<longleftrightarrow> b = Some (FixedBuffer_new kLargeBuffer)"

definition queue_inv :: "AsyncLogging \<Rightarrow> bool" where
  "queue_inv a \<longleftrightarrow> fb_size (currentBuffer a) = kLargeBuffer \<and> (\<forall>b \<in> set (lbuffers a). fb_size b = kLargeBuffer)
     \<and> (nextBuffer a = None \<and> lbuffers a \<noteq> [] \<or> empty_buffer (nextBuffer a))"

definition spare_inv :: "Backend \<Rightarrow> bool" where
  "spare_inv w = (case lphase w of
       LWrite \<Rightarrow> newBuffer1 w = None \<and> buffersToWrite w \<noteq> [] \<and> (\<forall>b \<in> set (buffersToWrite w). fb_size b = kLargeBuffer)
         \<and> (newBuffer2 w = None \<and> 2 \<le> length (buffersToWrite w) \<or> empty_buffer (newBuffer2 w))
     | _ \<Rightarrow> empty_buffer (newBuffer1 w) \<and> empty_buffer (newBuffer2 w) \<and> buffersToWrite w = [])"

definition backend_inv :: "Backend \<Rightarrow> bool" where
  "backend_inv w \<longleftrightarrow> queue_inv (alog w) \<and> spare_inv w \<and> lfile (outfile w) \<noteq> None"

definition queue_text :: "AsyncLogging \<Rightarrow> string" where
  "queue_text a = concat (map fb_data (lbuffers a)) @ fb_data (currentBuffer a)"

definition pending_text :: "Backend \<Rightarrow> string" where
  "pending_text w = concat (map fb_data (buffersToWrite w)) @ queue_text (alog w)"

definition logged :: "string list \<Rightarrow> string" where
  "logged ls = concat (filter (\<lambda>l. length l < kLargeBuffer) ls)"

lemma fb_new_simps [simp]: "fb_bzero (FixedBuffer_new n) = FixedBuffer_new n" "fb_data (FixedBuffer_new n) = []" "fb_size (FixedBuffer_new n) = n"
  "fb_length (FixedBuffer_new n) = 0"
  by (simp_all add: fb_bzero_def FixedBuffer_new_def fb_length_def)

lemma append_queue:
  assumes "queue_inv a"
  shows "queue_inv (AsyncLogging_append line a)"
    and "queue_text (AsyncLogging_append line a) = queue_text a @ logged [line]" and "running (AsyncLogging_append line a) = running a"
proof -
  have "length line < kLargeBuffer" if "length line < fb_avail (currentBuffer a)"
    using that assms by (auto simp: fb_avail_def queue_inv_def)
  then have "queue_inv (AsyncLogging_append line a) \<and> queue_text (AsyncLogging_append line a) = queue_text a @ logged [line]
      \<and> running (AsyncLogging_append line a) = running a"
    using assms
    by (auto simp: AsyncLogging_append_def queue_inv_def queue_text_def logged_def empty_buffer_def fb_append_def fb_avail_def Let_def
        split: option.splits)
  then show "queue_inv (AsyncLogging_append line a)"
    and "queue_text (AsyncLogging_append line a) = queue_text a @ logged [line]" and "running (AsyncLogging_append line a) = running a"
    by blast+
qed

lemma flush_text [simp]:
  assumes "lfile l \<noteq> None"
  obtains l' where "LogFile_flush l = Some l'" and "lfile l' \<noteq> None" and "file_text l' = file_text l"
  using assms that by (fastforce simp: LogFile_flush_def file_text_def all_files_def)

lemma test_ok:
  assumes "backend_inv w" and "lphase w = LTop"
  obtains w' where "loop_test w = Some w'" and "backend_inv w'" and "pending_text w' = pending_text w"
    and "file_text (outfile w') = file_text (outfile w)" and "dropped w' = dropped w" and "alog w' = alog w"
    and "lphase w' = (if running (alog w) then LWait else LDone)"
proof (cases "running (alog w)")
  case True
  then show ?thesis
    using that [of "w\<lparr>lphase := LWait\<rparr>"] assms
    by (simp add: loop_test_def backend_inv_def spare_inv_def empty_buffer_def pending_text_def)
next
  case False
  obtain l where "LogFile_flush (outfile w) = Some l" "lfile l \<noteq> None" "file_text l = file_text (outfile w)"
    using flush_text assms(1) unfolding backend_inv_def by blast
  then show ?thesis
    using that [of "w\<lparr>outfile := l, lphase := LDone\<rparr>"] assms False
    by (simp add: loop_test_def backend_inv_def spare_inv_def pending_text_def)
qed

lemma collect_ok:
  assumes "backend_inv w" and "lphase w = LWait"
  obtains w' where "collect w = Some w'" and "backend_inv w'" and "pending_text w' = pending_text w"
    and "outfile w' = outfile w" and "dropped w' = dropped w" and "lphase w' = LWrite"
    and "buffersToWrite w' = lbuffers (alog w) @ [currentBuffer (alog w)]" and "queue_text (alog w') = []"
proof -
  have i: "newBuffer1 w = Some (FixedBuffer_new kLargeBuffer)" "newBuffer2 w = Some (FixedBuffer_new kLargeBuffer)" "buffersToWrite w = []"
    using assms by (simp_all add: backend_inv_def spare_inv_def empty_buffer_def)
  have q: "queue_inv (alog w)" "lfile (outfile w) \<noteq> None" using assms(1) by (simp_all add: backend_inv_def)
  have t: "pending_text w = queue_text (alog w)" using i by (simp add: pending_text_def)
  show ?thesis
  proof (cases "nextBuffer (alog w) = None")
    case True
    then have "lbuffers (alog w) \<noteq> []" using q(1) by (simp add: queue_inv_def empty_buffer_def)
    then have "2 \<le> length (lbuffers (alog w) @ [currentBuffer (alog w)])" by (cases "lbuffers (alog w)") auto
    then show ?thesis
      using that True i q t
      by (auto simp: collect_def Let_def backend_inv_def queue_inv_def spare_inv_def pending_text_def queue_text_def empty_buffer_def)
  next
    case False
    then show ?thesis
      using that i q t
      by (auto simp: collect_def Let_def backend_inv_def queue_inv_def spare_inv_def pending_text_def queue_text_def empty_buffer_def)
  qed
qed

lemma append_all_ok:
  assumes "files_ok E" and "lfile l \<noteq> None"
  shows "\<exists>l'. append_all E ts bs l = Some l' \<and> lfile l' \<noteq> None \<and> file_text l' = file_text l @ concat (map fb_data bs)"
  using assms(2)
proof (induction bs arbitrary: l ts)
  case (Cons b bs)
  obtain l1 where "append_unlocked E (fst (hd ts)) (snd (hd ts)) (fb_data b) l = Some l1" "lfile l1 \<noteq> None" "file_text l1 = file_text l @ fb_data b"
    using append_unlocked_text [OF assms(1) Cons.prems] .
  then show ?case using Cons.IH [of l1 "tl ts"] by simp
qed simp

lemma recycle_two:
  assumes "bs \<noteq> []" and "\<forall>b \<in> set bs. fb_size b = kLargeBuffer"
    and "n2 = None \<and> 2 \<le> length bs \<or> empty_buffer n2"
  shows "\<exists>n1' bs1 n2' bs2. recycle None (take 2 bs) = Some (n1', bs1) \<and> recycle n2 bs1 = Some (n2', bs2)
    \<and> empty_buffer n1' \<and> empty_buffer n2'"
proof -
  have reset: "fb_size b = kLargeBuffer \<Longrightarrow> fb_reset b = FixedBuffer_new kLargeBuffer" for b
    by (cases b) (simp add: fb_reset_def FixedBuffer_new_def)
  obtain x ys where bs: "bs = x # ys" using assms(1) by (cases bs) auto
  show ?thesis
    using assms(2,3) bs by (cases ys) (auto simp: recycle_def empty_buffer_def reset)
qed

lemma write_out_ok:
  assumes "files_ok E" and "backend_inv w" and "lphase w = LWrite"
  obtains w' where "write_out E ts note w = Some w'" and "backend_inv w'" and "alog w' = alog w" and "lphase w' = LTop"
    and "dropped w' = (dropped w \<or> 25 < length (buffersToWrite w))"
    and "length (buffersToWrite w) \<le> 25 \<Longrightarrow> file_text (outfile w') @ pending_text w' = file_text (outfile w) @ pending_text w"
    and "buffersToWrite w' = []"
proof -
  let ?bs = "buffersToWrite w" and ?many = "25 < length (buffersToWrite w)"
  let ?cs = "if ?many then take 2 ?bs else ?bs"
  have i: "newBuffer1 w = None" "?bs \<noteq> []" "\<forall>b \<in> set ?bs. fb_size b = kLargeBuffer"
      "newBuffer2 w = None \<and> 2 \<le> length ?bs \<or> empty_buffer (newBuffer2 w)" "lfile (outfile w) \<noteq> None" "queue_inv (alog w)"
    using assms(2,3) by (simp_all add: backend_inv_def spare_inv_def)
  have "\<exists>l1. (if ?many then append_unlocked E (fst (hd ts)) (snd (hd ts)) note (outfile w) else Some (outfile w)) = Some l1
      \<and> lfile l1 \<noteq> None \<and> (\<not> ?many \<longrightarrow> file_text l1 = file_text (outfile w))"
    using append_unlocked_text [OF assms(1) i(5), of "fst (hd ts)" "snd (hd ts)" "note"] i(5) by auto
  then obtain l1 where l1: "(if ?many then append_unlocked E (fst (hd ts)) (snd (hd ts)) note (outfile w) else Some (outfile w)) = Some l1"
      "lfile l1 \<noteq> None" "\<not> ?many \<longrightarrow> file_text l1 = file_text (outfile w)" by blast
  obtain l2 where l2: "append_all E (tl ts) ?cs l1 = Some l2" "lfile l2 \<noteq> None" "file_text l2 = file_text l1 @ concat (map fb_data ?cs)"
    using append_all_ok [OF assms(1) l1(2), of "tl ts" ?cs] by blast
  obtain l3 where l3: "LogFile_flush l2 = Some l3" "lfile l3 \<noteq> None" "file_text l3 = file_text l2"
    using flush_text [OF l2(2)] .
  have tk: "(if 2 < length ?cs then take 2 ?cs else ?cs) = take 2 ?bs" by auto
  obtain n1 bs1 n2 bs2 where r: "recycle None (take 2 ?bs) = Some (n1, bs1)" "recycle (newBuffer2 w) bs1 = Some (n2, bs2)"
      "empty_buffer n1" "empty_buffer n2"
    using recycle_two [OF i(2-4)] by blast
  let ?w = "w\<lparr>newBuffer1 := n1, newBuffer2 := n2, buffersToWrite := [], outfile := l3, lphase := LTop, dropped := dropped w \<or> ?many\<rparr>"
  have "write_out E ts note w = Some ?w"
    unfolding write_out_def Let_def l1(1) bind.bind_lunit l2(1) tk i(1) r(1) prod.case r(2) l3(1) ..
  moreover have "backend_inv ?w" using i(6) l3(2) r(3,4) by (simp add: backend_inv_def spare_inv_def)
  moreover have "file_text (outfile ?w) @ pending_text ?w = file_text (outfile w) @ pending_text w" if "\<not> ?many"
    using that l1(3) l2(3) l3(3) by (simp add: pending_text_def)
  ultimately show ?thesis using that by simp
qed

lemma Backend_new_inv:
  assumes "lfile out \<noteq> None"
  shows "backend_inv (Backend_new out)" and "pending_text (Backend_new out) = []"
  using assms
  by (simp_all add: Backend_new_def AsyncLogging_new_def backend_inv_def queue_inv_def spare_inv_def empty_buffer_def
      pending_text_def queue_text_def)

lemma logged_append [simp]: "logged (ls @ [line]) = logged ls @ logged [line]"
  by (simp add: logged_def)

lemma async_run_inv:
  assumes "async_run E out w ls" and "files_ok E"
  shows "backend_inv w \<and> (\<not> dropped w \<longrightarrow> file_text (outfile w) @ pending_text w = file_text out @ logged ls)"
  using assms(1)
proof induction
  case run_start
  then show ?case using Backend_new_inv by (simp add: Backend_new_def logged_def)
next
  case (run_append w ls line)
  then have q: "queue_inv (alog w)" by (simp add: backend_inv_def)
  note a = append_queue [OF q, of line]
  have p: "pending_text (w\<lparr>alog := AsyncLogging_append line (alog w)\<rparr>) = pending_text w @ logged [line]"
    using a(2) by (simp add: pending_text_def)
  moreover have "backend_inv (w\<lparr>alog := AsyncLogging_append line (alog w)\<rparr>)"
    using run_append.IH a(1) by (simp add: backend_inv_def spare_inv_def cong: phase.case_cong)
  ultimately show ?case using run_append.IH by (simp add: p append_assoc [symmetric] del: append_assoc)
next
  case (run_stop w ls)
  then show ?case
    by (simp add: AsyncLogging_stop_def backend_inv_def queue_inv_def spare_inv_def pending_text_def queue_text_def cong: phase.case_cong)
next
  case (run_test w ls w')
  then show ?case using test_ok [of w] by (metis option.inject)
next
  case (run_collect w ls w')
  then show ?case using collect_ok [of w] by (metis option.inject)
next
  case (run_write w ls ts n w')
  then obtain w1 where "write_out E ts n w = Some w1" "backend_inv w1" "dropped w1 = (dropped w \<or> 25 < length (buffersToWrite w))"
      "length (buffersToWrite w) \<le> 25 \<Longrightarrow> file_text (outfile w1) @ pending_text w1 = file_text (outfile w) @ pending_text w"
    using write_out_ok [OF assms(2), of w ts n] by blast
  then show ?case using run_write by auto
qed

section \<open>Properties of the logger\<close>


definition ex_backend :: Backend where
  "ex_backend = (Backend_new ex_log)\<lparr>alog := AsyncLogging_append ''hi'' (alog (Backend_new ex_log))\<rparr>"

lemma ex_backend_run: "async_run ex_env ex_log ex_backend [''hi'']"
  using run_append [OF run_start, of ex_log ex_env "''hi''"] by (simp add: ex_backend_def ex_log_def)

lemma ex_backend_text: "pending_text ex_backend = ''hi''" "file_text (outfile ex_backend) = []" "lphase ex_backend = LTop"
  "running (alog ex_backend)" "lbuffers (alog ex_backend) = []"
  by (simp_all add: ex_backend_def Backend_new_def AsyncLogging_new_def AsyncLogging_append_def pending_text_def queue_text_def
      fb_append_def fb_avail_def kLargeBuffer_def file_text_def all_files_def ex_log_def empty_file_def)


text \<open>Lines can be lost at shutdown: a line that is appended while the back end is between two rounds, followed by
  \<^verbatim>\<open>stop()\<close>, stays in the queue when the back-end thread ends, and no later step writes it.\<close>

theorem async_stop_loses:
  assumes "async_run E out w ls" and "files_ok E" and "lphase w = LTop" and "length line < kLargeBuffer"
  shows "\<exists>w'. async_run E out w' (ls @ [line]) \<and> lphase w' = LDone \<and> file_text (outfile w') = file_text (outfile w)
    \<and> pending_text w' = pending_text w @ line"
proof -
  let ?a = "w\<lparr>alog := AsyncLogging_append line (alog w)\<rparr>"
  let ?s = "?a\<lparr>alog := AsyncLogging_stop (alog ?a)\<rparr>"
  have run: "async_run E out ?s (ls @ [line])" by (rule run_stop [OF run_append [OF assms(1)]])
  have inv: "backend_inv ?s" using async_run_inv [OF run assms(2)] by simp
  have q: "queue_inv (alog w)" using async_run_inv [OF assms(1,2)] by (simp add: backend_inv_def)
  have p: "pending_text ?s = pending_text w @ line"
    using append_queue(2) [OF q, of line] assms(4) by (simp add: pending_text_def queue_text_def AsyncLogging_stop_def logged_def)
  have "\<not> running (alog ?s)" by (simp add: AsyncLogging_stop_def)
  then obtain w' where w': "loop_test ?s = Some w'" "pending_text w' = pending_text ?s" "file_text (outfile w') = file_text (outfile ?s)"
      "lphase w' = LDone"
    using test_ok [OF inv] assms(3) by auto
  have "async_run E out w' (ls @ [line])" by (rule run_test [OF run _ w'(1)]) (simp add: assms(3))
  then show ?thesis using w' p by auto
qed

theorem async_stop_loses_witness:
  "\<exists>w'. async_run ex_env ex_log w' [''hi'', ''bye''] \<and> lphase w' = LDone \<and> file_text (outfile w') = []"
  using async_stop_loses [OF ex_backend_run ex_env_ok, of "''bye''"] ex_backend_text by (auto simp: kLargeBuffer_def)

end
