(* ===== verification/Monitors.thy ===== *)
theory Monitors
  imports Cnet_Prelude
begin

text \<open>
  The synchronised containers of \<^verbatim>\<open>cnet/base\<close>: \<^verbatim>\<open>BlockingQueue.h\<close>, \<^verbatim>\<open>BoundedBlockingQueue.h\<close>, \<^verbatim>\<open>CountDownLatch.cc\<close> and
  \<^verbatim>\<open>ThreadPool.cc\<close>. Each is a monitor: a mutex and condition variables. What a thread does between taking the lock and
  releasing it (or waiting) is one step; the operations below are these sections, and a step relation interleaves
  the threads. A thread is idle, about to enter a section, or asleep on a condition variable. \<^verbatim>\<open>notify\<close> wakes one
  sleeper if there is one (any of them), \<^verbatim>\<open>notifyAll\<close> all of them, and a sleeper may also wake up by itself, as the
  source allows for. A task of the pool is a value; that it runs to its end is a step.

  The results: elements leave in the order in which they came and bounds are kept; no wake-up is lost, so that nobody
  sleeps while what he waits for is there; stopping the pool wakes all its workers, but not a thread that
  waits to hand in a task.
\<close>

section \<open>Waking up\<close>

text \<open>\<open>wk s\<close> is the state in which a thread wakes up that is asleep on the condition variable, \<open>None\<close> if it is not asleep.\<close>

inductive wake_one :: "('s \<Rightarrow> 's option) \<Rightarrow> (nat \<Rightarrow> 's) \<Rightarrow> (nat \<Rightarrow> 's) \<Rightarrow> bool" for wk where
  wake_none: "\<forall>u. wk (st u) = None \<Longrightarrow> wake_one wk st st"
| wake_some: "wk (st u) = Some s' \<Longrightarrow> wake_one wk st (st(u := s'))"

definition wake_all :: "('s \<Rightarrow> 's option) \<Rightarrow> (nat \<Rightarrow> 's) \<Rightarrow> (nat \<Rightarrow> 's)" where
  "wake_all wk st = (\<lambda>u. case wk (st u) of None \<Rightarrow> st u | Some s' \<Rightarrow> s')"

text \<open>Enough threads are awake: if somebody sleeps, everything that is there is reserved by a thread that is awake.\<close>

definition enough :: "('s \<Rightarrow> 's option) \<Rightarrow> ('s \<Rightarrow> bool) \<Rightarrow> (nat \<Rightarrow> 's) \<Rightarrow> nat \<Rightarrow> bool" where
  "enough wk ready st n \<longleftrightarrow> finite {t. ready (st t)} \<and> ((\<exists>t. wk (st t) \<noteq> None) \<longrightarrow> n \<le> card {t. ready (st t)})"

lemma finite_upd: "finite {t. P (st t)} \<Longrightarrow> finite {t. P ((st(u := s)) t)}"
  by (rule finite_subset [of _ "insert u {t. P (st t)}"]) auto

lemma card_upd:
  assumes "finite {t. P (st t)}"
  shows "card {t. P ((st(u := s)) t)} = card {t. P (st t)} - (if P (st u) then 1 else 0) + (if P s then 1 else 0)"
proof -
  have "{t. P ((st(u := s)) t)} = (if P s then insert u ({t. P (st t)} - {u}) else {t. P (st t)} - {u})" by auto
  moreover have "0 < card {t. P (st t)}" if "P (st u)" using assms that by (auto simp: card_gt_0_iff)
  ultimately show ?thesis using assms by (auto simp: card_Diff_singleton_if card_insert_if insert_absorb)
qed

lemma card_pos: "finite {t. P (st t)} \<Longrightarrow> P (st u) \<Longrightarrow> 0 < card {t. P (st t)}"
  by (auto simp: card_gt_0_iff)

text \<open>The contract of a condition variable: who wakes up is ready to go, and a ready thread does not sleep.\<close>

locale condition =
  fixes wk :: "'s \<Rightarrow> 's option" and ready :: "'s \<Rightarrow> bool"
  assumes wakes_ready: "wk s = Some s' \<Longrightarrow> ready s' \<and> wk s' = None"
    and asleep: "wk s = Some s' \<Longrightarrow> \<not> ready s"
begin

lemma still_asleep: "wk s = None \<Longrightarrow> \<exists>u. wk ((st(t := s)) u) \<noteq> None \<Longrightarrow> \<exists>u. wk (st u) \<noteq> None"
  by (metis fun_upd_apply)

lemma neutral:
  assumes "enough wk ready st n" and "ready s = ready (st t)" and "wk s = None"
  shows "enough wk ready (st(t := s)) n"
proof -
  have "{u. ready ((st(t := s)) u)} = {u. ready (st u)}" using assms(2) by auto
  then show ?thesis using assms by (auto simp: enough_def split: if_splits)
qed

lemma arrive:
  assumes "enough wk ready st n" and "wk s = None" and "\<not> ready (st t)"
  shows "enough wk ready (st(t := s)) n"
proof -
  have f: "finite {u. ready (st u)}" using assms(1) by (simp add: enough_def)
  have "card {u. ready (st u)} \<le> card {u. ready ((st(t := s)) u)}" using card_upd [where P = ready and st = st, OF f, of t s] assms(3) by simp
  moreover have "n \<le> card {u. ready (st u)}" if "\<exists>u. wk ((st(t := s)) u) \<noteq> None"
    using still_asleep [OF assms(2) that] assms(1) unfolding enough_def by blast
  ultimately show ?thesis using finite_upd [where P = ready and st = st, OF f, of t s] unfolding enough_def by fastforce
qed

lemma sleep:
  assumes "enough wk ready st n" and "n = 0"
  shows "enough wk ready (st(t := s)) n"
  using assms finite_upd [of ready st t s] by (simp add: enough_def)

lemma consume:
  assumes "enough wk ready st n" and "ready (st t)" and "0 < n" and "wk s = None"
  shows "enough wk ready (st(t := s)) (n - 1)"
proof -
  have f: "finite {u. ready (st u)}" using assms(1) by (simp add: enough_def)
  have "card {u. ready (st u)} - 1 \<le> card {u. ready ((st(t := s)) u)}" using card_upd [where P = ready and st = st, OF f, of t s] assms(2) by simp
  moreover have "n \<le> card {u. ready (st u)}" if "\<exists>u. wk ((st(t := s)) u) \<noteq> None"
    using still_asleep [OF assms(4) that] assms(1) unfolding enough_def by blast
  ultimately show ?thesis using finite_upd [where P = ready and st = st, OF f, of t s] unfolding enough_def by fastforce
qed

lemma produce:
  assumes "enough wk ready st n" and "wake_one wk st st'"
  shows "enough wk ready st' (n + 1)"
  using assms(2)
proof cases
  case wake_none
  then show ?thesis using assms(1) by (simp add: enough_def)
next
  case (wake_some u s')
  have f: "finite {u. ready (st u)}" using assms(1) by (simp add: enough_def)
  have r: "ready s'" "\<not> ready (st u)" using wakes_ready asleep wake_some(2) by blast+
  have "n \<le> card {u. ready (st u)}" using assms(1) wake_some(2) by (auto simp: enough_def)
  moreover have "card {t. ready (st' t)} = card {u. ready (st u)} + 1"
    using card_upd [where P = ready and st = st, OF f, of u s'] r unfolding wake_some(1) by simp
  ultimately show ?thesis using finite_upd [where P = ready and st = st, OF f, of u s'] unfolding wake_some(1) by (simp add: enough_def)
qed

lemma spurious:
  assumes "enough wk ready st n" and "wk (st t) = Some s"
  shows "enough wk ready (st(t := s)) n"
  using arrive [OF assms(1)] wakes_ready [OF assms(2)] asleep [OF assms(2)] by blast

lemma nobody_ready:
  assumes "enough wk ready st n" and "wk (st t) \<noteq> None" and "\<forall>u. \<not> ready (st u)"
  shows "n = 0"
proof -
  have "{u. ready (st u)} = {}" using assms(3) by blast
  then show ?thesis using assms(1,2) unfolding enough_def by (metis card.empty le_zero_eq)
qed

text \<open>A wake-up on another condition variable.\<close>

lemma other_wake:
  assumes "enough wk ready st n" and "wake_one wk' st st'" and "\<And>s s'. wk' s = Some s' \<Longrightarrow> ready s' = ready s \<and> wk s' = None"
  shows "enough wk ready st' n"
  using assms(2)
proof cases
  case wake_none
  then show ?thesis using assms(1) by simp
next
  case (wake_some u s')
  then show ?thesis using neutral [OF assms(1), of s' u] assms(3) by simp
qed

end

section \<open>Blocking queues\<close>

text \<open>The sections of \<^verbatim>\<open>put\<close> and \<^verbatim>\<open>take\<close>: \<open>None\<close> is going to sleep. In the unbounded queue \<^verbatim>\<open>put\<close> never sleeps.\<close>

definition BlockingQueue_put :: "'a \<Rightarrow> 'a list \<Rightarrow> 'a list option" where
  "BlockingQueue_put x queue = Some (queue @ [x])"

definition BlockingQueue_take :: "'a list \<Rightarrow> ('a \<times> 'a list) option" where
  "BlockingQueue_take queue = (if queue = [] then None else Some (hd queue, tl queue))"

definition BoundedBlockingQueue_full :: "nat \<Rightarrow> 'a list \<Rightarrow> bool" where
  "BoundedBlockingQueue_full cap queue \<longleftrightarrow> length queue = cap"

definition BoundedBlockingQueue_put :: "nat \<Rightarrow> 'a \<Rightarrow> 'a list \<Rightarrow> 'a list option" where
  "BoundedBlockingQueue_put cap x queue = (if BoundedBlockingQueue_full cap queue then None else Some (queue @ [x]))"

definition BoundedBlockingQueue_take :: "'a list \<Rightarrow> ('a \<times> 'a list) option" where
  "BoundedBlockingQueue_take queue = (if queue = [] then None else Some (hd queue, tl queue))"

datatype 'a qthread = QIdle | QPut 'a | QPutWait 'a | QTake | QTakeWait

fun wake_taker :: "'a qthread \<Rightarrow> 'a qthread option" where
  "wake_taker QTakeWait = Some QTake"
| "wake_taker _ = None"

fun wake_putter :: "'a qthread \<Rightarrow> 'a qthread option" where
  "wake_putter (QPutWait x) = Some (QPut x)"
| "wake_putter _ = None"

fun ready_taker :: "'a qthread \<Rightarrow> bool" where
  "ready_taker QTake = True"
| "ready_taker _ = False"

fun ready_putter :: "'a qthread \<Rightarrow> bool" where
  "ready_putter (QPut x) = True"
| "ready_putter _ = False"

text \<open>The queue, the threads, and the elements put and taken so far.\<close>

record 'a bqueue =
  bq_items :: "'a list"
  bq_threads :: "nat \<Rightarrow> 'a qthread"
  bq_puts :: "'a list"
  bq_takes :: "'a list"

definition bq_new :: "'a bqueue" where
  "bq_new = \<lparr>bq_items = [], bq_threads = (\<lambda>_. QIdle), bq_puts = [], bq_takes = []\<rparr>"

definition bq_set :: "nat \<Rightarrow> 'a qthread \<Rightarrow> 'a bqueue \<Rightarrow> 'a bqueue" where
  "bq_set t s q = q\<lparr>bq_threads := (bq_threads q)(t := s)\<rparr>"

lemma bq_set_simps [simp]:
  "bq_items (bq_set t s q) = bq_items q" "bq_threads (bq_set t s q) = (bq_threads q)(t := s)"
  "bq_puts (bq_set t s q) = bq_puts q" "bq_takes (bq_set t s q) = bq_takes q"
  by (simp_all add: bq_set_def)

inductive bq_run :: "('a \<Rightarrow> 'a list \<Rightarrow> 'a list option) \<Rightarrow> ('a list \<Rightarrow> ('a \<times> 'a list) option) \<Rightarrow> 'a bqueue \<Rightarrow> bool"
  for put :: "'a \<Rightarrow> 'a list \<Rightarrow> 'a list option" and take :: "'a list \<Rightarrow> ('a \<times> 'a list) option" where
  bq_start: "bq_run put take bq_new"
| bq_call_put: "bq_run put take q \<Longrightarrow> bq_threads q t = QIdle \<Longrightarrow> bq_run put take (bq_set t (QPut x) q)"
| bq_call_take: "bq_run put take q \<Longrightarrow> bq_threads q t = QIdle \<Longrightarrow> bq_run put take (bq_set t QTake q)"
| bq_put_wait: "bq_run put take q \<Longrightarrow> bq_threads q t = QPut x \<Longrightarrow> put x (bq_items q) = None
    \<Longrightarrow> bq_run put take (bq_set t (QPutWait x) q)"
| bq_put: "bq_run put take q \<Longrightarrow> bq_threads q t = QPut x \<Longrightarrow> put x (bq_items q) = Some items
    \<Longrightarrow> wake_one wake_taker ((bq_threads q)(t := QIdle)) ths
    \<Longrightarrow> bq_run put take (q\<lparr>bq_items := items, bq_threads := ths, bq_puts := bq_puts q @ [x]\<rparr>)"
| bq_take_wait: "bq_run put take q \<Longrightarrow> bq_threads q t = QTake \<Longrightarrow> take (bq_items q) = None
    \<Longrightarrow> bq_run put take (bq_set t QTakeWait q)"
| bq_take: "bq_run put take q \<Longrightarrow> bq_threads q t = QTake \<Longrightarrow> take (bq_items q) = Some (x, items)
    \<Longrightarrow> wake_one wake_putter ((bq_threads q)(t := QIdle)) ths
    \<Longrightarrow> bq_run put take (q\<lparr>bq_items := items, bq_threads := ths, bq_takes := bq_takes q @ [x]\<rparr>)"
| bq_wake: "bq_run put take q \<Longrightarrow> wake_taker (bq_threads q t) = Some s \<or> wake_putter (bq_threads q t) = Some s
    \<Longrightarrow> bq_run put take (bq_set t s q)"

interpretation takers: condition "wake_taker :: 'a qthread \<Rightarrow> 'a qthread option" ready_taker
proof
  fix s s' :: "'a qthread" assume "wake_taker s = Some s'"
  then show "ready_taker s' \<and> wake_taker s' = None" and "\<not> ready_taker s" by (cases s; simp)+
qed

interpretation putters: condition "wake_putter :: 'a qthread \<Rightarrow> 'a qthread option" ready_putter
proof
  fix s s' :: "'a qthread" assume "wake_putter s = Some s'"
  then show "ready_putter s' \<and> wake_putter s' = None" and "\<not> ready_putter s" by (cases s; auto)+
qed

lemma wake_taker_other: "wake_taker s = Some s' \<Longrightarrow> ready_putter s' = ready_putter s \<and> wake_putter s' = None"
  by (cases s) auto

lemma wake_putter_other: "wake_putter s = Some s' \<Longrightarrow> ready_taker s' = ready_taker s \<and> wake_taker s' = None"
  by (cases s) auto

text \<open>What the two queues have in common.\<close>

locale fifo =
  fixes put :: "'a \<Rightarrow> 'a list \<Rightarrow> 'a list option" and take :: "'a list \<Rightarrow> ('a \<times> 'a list) option"
  assumes put_law: "put x q = Some q' \<Longrightarrow> q' = q @ [x]"
    and take_empty: "take q = None \<Longrightarrow> q = []"
    and take_law: "take q = Some (x, q') \<Longrightarrow> q = x # q'"
begin

lemma run_fifo: "bq_run put take q \<Longrightarrow> bq_puts q = bq_takes q @ bq_items q
    \<and> enough wake_taker ready_taker (bq_threads q) (length (bq_items q))"
proof (induction rule: bq_run.induct)
  case bq_start
  then show ?case by (simp add: bq_new_def enough_def)
next
  case (bq_call_put q t x)
  then show ?case using takers.neutral [of "bq_threads q" _ "QPut x" t] by (simp del: fun_upd_apply)
next
  case (bq_call_take q t)
  then show ?case using takers.arrive [of "bq_threads q" _ QTake t] by (simp del: fun_upd_apply)
next
  case (bq_put_wait q t x)
  then show ?case using takers.neutral [of "bq_threads q" _ "QPutWait x" t] by (simp del: fun_upd_apply)
next
  case (bq_put q t x items ths)
  have "enough wake_taker ready_taker ((bq_threads q)(t := QIdle)) (length (bq_items q))"
    using bq_put.IH bq_put.hyps(2) by (intro takers.neutral) simp_all
  from takers.produce [OF this bq_put.hyps(4)] show ?case using bq_put.IH put_law [OF bq_put.hyps(3)] by simp
next
  case (bq_take_wait q t)
  then show ?case using take_empty [OF bq_take_wait.hyps(3)] takers.sleep [of "bq_threads q" _ t QTakeWait] by (simp del: fun_upd_apply)
next
  case (bq_take q t x items ths)
  have items: "bq_items q = x # items" using take_law [OF bq_take.hyps(3)] .
  have "enough wake_taker ready_taker ((bq_threads q)(t := QIdle)) (length (bq_items q) - 1)"
    using bq_take.IH items bq_take.hyps(2) by (intro takers.consume) simp_all
  from takers.other_wake [OF this bq_take.hyps(4) wake_putter_other] show ?case using bq_take.IH items by simp
next
  case (bq_wake q t s)
  from bq_wake.hyps(2) show ?case
  proof
    assume w: "wake_taker (bq_threads q t) = Some s"
    then show ?thesis using bq_wake.IH takers.spurious [where st = "bq_threads q", OF _ w] by (simp del: fun_upd_apply)
  next
    assume w: "wake_putter (bq_threads q t) = Some s"
    then have "ready_taker s = ready_taker (bq_threads q t)" "wake_taker s = None" using wake_putter_other by blast+
    then show ?thesis using bq_wake.IH takers.neutral [of "bq_threads q" _ s t] by (simp del: fun_upd_apply)
  qed
qed

end

interpretation unbounded: fifo BlockingQueue_put BlockingQueue_take
  by standard (auto simp: BlockingQueue_put_def BlockingQueue_take_def split: if_splits)

interpretation bounded: fifo "BoundedBlockingQueue_put cap" BoundedBlockingQueue_take for cap
  by standard (auto simp: BoundedBlockingQueue_put_def BoundedBlockingQueue_take_def split: if_splits)

lemma BoundedBlockingQueue_put_None: "BoundedBlockingQueue_put cap x q = None \<longleftrightarrow> length q = cap"
  by (simp add: BoundedBlockingQueue_put_def BoundedBlockingQueue_full_def)

lemma bounded_putters: "bq_run (BoundedBlockingQueue_put cap) BoundedBlockingQueue_take q \<Longrightarrow> length (bq_items q) \<le> cap
    \<and> enough wake_putter ready_putter (bq_threads q) (cap - length (bq_items q))"
proof (induction rule: bq_run.induct)
  case bq_start
  then show ?case by (simp add: bq_new_def enough_def)
next
  case (bq_call_put q t x)
  then show ?case using putters.arrive [of "bq_threads q" _ "QPut x" t] by (simp del: fun_upd_apply)
next
  case (bq_call_take q t)
  then show ?case using putters.neutral [of "bq_threads q" _ QTake t] by (simp del: fun_upd_apply)
next
  case (bq_put_wait q t x)
  then show ?case using putters.sleep [of "bq_threads q" _ t "QPutWait x"] by (simp add: BoundedBlockingQueue_put_None del: fun_upd_apply)
next
  case (bq_put q t x items ths)
  let ?n = "length (bq_items q)"
  have items: "items = bq_items q @ [x]" using bounded.put_law [OF bq_put.hyps(3)] .
  have n: "?n < cap" using bq_put.IH bq_put.hyps(3) BoundedBlockingQueue_put_None [of cap x "bq_items q"] by (cases "?n = cap") auto
  have "enough wake_putter ready_putter ((bq_threads q)(t := QIdle)) (cap - ?n - 1)"
    using bq_put.IH n bq_put.hyps(2) by (intro putters.consume) simp_all
  from putters.other_wake [OF this bq_put.hyps(4) wake_taker_other] show ?case using n items by simp
next
  case (bq_take_wait q t)
  then show ?case using putters.neutral [of "bq_threads q" _ QTakeWait t] by (simp del: fun_upd_apply)
next
  case (bq_take q t x items ths)
  let ?n = "length (bq_items q)"
  have items: "bq_items q = x # items" using bounded.take_law [OF bq_take.hyps(3)] .
  have "enough wake_putter ready_putter ((bq_threads q)(t := QIdle)) (cap - ?n)"
    using bq_take.IH bq_take.hyps(2) by (intro putters.neutral) simp_all
  from putters.produce [OF this bq_take.hyps(4)] show ?case using bq_take.IH items by (simp add: Suc_diff_Suc)
next
  case (bq_wake q t s)
  from bq_wake.hyps(2) show ?case
  proof
    assume w: "wake_putter (bq_threads q t) = Some s"
    then show ?thesis using bq_wake.IH putters.spurious [where st = "bq_threads q", OF _ w] by (simp del: fun_upd_apply)
  next
    assume w: "wake_taker (bq_threads q t) = Some s"
    then have "ready_putter s = ready_putter (bq_threads q t)" "wake_putter s = None" using wake_taker_other by blast+
    then show ?thesis using bq_wake.IH putters.neutral [of "bq_threads q" _ s t] by (simp del: fun_upd_apply)
  qed
qed

text \<open>C23: In a bounded blocking queue of at least one place, for every interleaving and whatever sleeper a notification
  picks: the elements come out in the order in which they went in, none is lost or duplicated, and the bound
  is kept; if a taker sleeps and no taker is awake, the queue is empty; if a putter sleeps and no putter is
  awake, it is full; so takers and putters never all sleep.\<close>

theorem bounded_queue_monitor:
  assumes "bq_run (BoundedBlockingQueue_put cap) BoundedBlockingQueue_take q" and "0 < cap"
  shows "bq_puts q = bq_takes q @ bq_items q \<and> length (bq_items q) \<le> cap
    \<and> (bq_threads q t = QTakeWait \<and> (\<forall>u. bq_threads q u \<noteq> QTake) \<longrightarrow> bq_items q = [])
    \<and> (bq_threads q p = QPutWait x \<and> (\<forall>u y. bq_threads q u \<noteq> QPut y) \<longrightarrow> length (bq_items q) = cap)
    \<and> \<not> (bq_threads q t = QTakeWait \<and> bq_threads q p = QPutWait x
         \<and> (\<forall>u. bq_threads q u \<noteq> QTake) \<and> (\<forall>u y. bq_threads q u \<noteq> QPut y))"
proof -
  note f = bounded.run_fifo [OF assms(1)] and p = bounded_putters [OF assms(1)]
  have r: "ready_taker s \<longleftrightarrow> s = QTake" "ready_putter s \<longleftrightarrow> (\<exists>y. s = QPut y)" for s :: "'a qthread" by (cases s; simp)+
  have e: "bq_items q = []" if "bq_threads q t = QTakeWait" "\<forall>u. bq_threads q u \<noteq> QTake"
    using takers.nobody_ready [of "bq_threads q" "length (bq_items q)" t] f that by (simp add: r)
  have c: "length (bq_items q) = cap" if "bq_threads q p = QPutWait x" "\<forall>u y. bq_threads q u \<noteq> QPut y"
    using putters.nobody_ready [of "bq_threads q" "cap - length (bq_items q)" p] p that by (simp add: r)
  show ?thesis using f p e c assms(2) by auto
qed

text \<open>The unbounded queue is first in, first out as well, and nobody sleeps in it while it holds an element that
  no awake taker is about to take.\<close>

theorem unbounded_queue_monitor:
  assumes "bq_run BlockingQueue_put BlockingQueue_take q"
  shows "bq_puts q = bq_takes q @ bq_items q
    \<and> (bq_threads q t = QTakeWait \<longrightarrow> length (bq_items q) \<le> card {u. bq_threads q u = QTake})"
proof -
  have r: "ready_taker s \<longleftrightarrow> s = QTake" for s :: "'a qthread" by (cases s) simp_all
  have "wake_taker (bq_threads q t) \<noteq> None" if "bq_threads q t = QTakeWait" using that by simp
  then show ?thesis using unbounded.run_fifo [OF assms] unfolding enough_def r by blast
qed

definition ex_waiting :: "nat bqueue" where
  "ex_waiting = bq_set 0 QTakeWait (bq_set 0 QTake bq_new)"

lemma ex_waiting_run:
  assumes "tk [] = None"
  shows "bq_run pt tk ex_waiting"
  unfolding ex_waiting_def
  by (rule bq_take_wait [OF bq_call_take [OF bq_start]]) (simp_all add: bq_new_def assms)

theorem bounded_queue_monitor_witness: "bq_threads ex_waiting 0 = QTakeWait \<and> bq_items ex_waiting = []"
  using bounded_queue_monitor [OF ex_waiting_run, of 1 0]
  by (simp add: BoundedBlockingQueue_take_def ex_waiting_def bq_new_def)

theorem unbounded_queue_monitor_witness: "length (bq_items ex_waiting) \<le> card {u. bq_threads ex_waiting u = QTake}"
  using unbounded_queue_monitor [OF ex_waiting_run, of 0]
  by (simp add: BlockingQueue_take_def ex_waiting_def bq_new_def)

section \<open>CountDownLatch\<close>

text \<open>The sections: whether a waiter may go on, and the new count with whether everybody is woken.\<close>

definition latch_open :: "int \<Rightarrow> bool" where
  "latch_open count \<longleftrightarrow> \<not> count > 0"

definition countDown :: "int \<Rightarrow> int \<times> bool" where
  "countDown count = (count - 1, count - 1 = 0)"

datatype lthread = LIdle | LEnter | LAsleep | LPassed

fun wake_latch :: "lthread \<Rightarrow> lthread option" where
  "wake_latch LAsleep = Some LEnter"
| "wake_latch _ = None"

inductive latch_run :: "int \<Rightarrow> int \<Rightarrow> (nat \<Rightarrow> lthread) \<Rightarrow> bool" for n where
  latch_start: "latch_run n n (\<lambda>_. LIdle)"
| latch_call: "latch_run n c st \<Longrightarrow> st t = LIdle \<Longrightarrow> latch_run n c (st(t := LEnter))"
| latch_pass: "latch_run n c st \<Longrightarrow> st t = LEnter \<Longrightarrow> latch_open c \<Longrightarrow> latch_run n c (st(t := LPassed))"
| latch_sleep: "latch_run n c st \<Longrightarrow> st t = LEnter \<Longrightarrow> \<not> latch_open c \<Longrightarrow> latch_run n c (st(t := LAsleep))"
| latch_down: "latch_run n c st \<Longrightarrow> countDown c = (c', wake) \<Longrightarrow>
    latch_run n c' (if wake then wake_all wake_latch st else st)"
| latch_wake: "latch_run n c st \<Longrightarrow> wake_latch (st t) = Some s \<Longrightarrow> latch_run n c (st(t := s))"

lemma wake_latch_all: "wake_all wake_latch st t \<noteq> LAsleep" "wake_all wake_latch st t = LPassed \<longleftrightarrow> st t = LPassed"
  by (cases "st t"; simp add: wake_all_def)+

text \<open>A thread that waits for a latch sleeps only as long as the count is positive, and passes only once it is not:
  nobody sleeps on an open latch, whatever the order of the count-downs and the waits.\<close>

theorem latch_opens:
  assumes "latch_run n c st"
  shows "(st t = LAsleep \<longrightarrow> 0 < c) \<and> (st t = LPassed \<longrightarrow> c \<le> 0) \<and> c \<le> n"
  using assms
proof (induction arbitrary: t rule: latch_run.induct)
  case (latch_down c st c' wake)
  have c': "c' = c - 1" "wake = (c - 1 = 0)" using latch_down.hyps(2) by (auto simp: countDown_def)
  show ?case using latch_down.IH [of t] c' wake_latch_all [of st t] by auto
next
  case (latch_wake c st u s)
  then show ?case by (cases "st u") (auto simp: latch_open_def)
qed (auto simp: latch_open_def)

lemma latch_example: "latch_run 1 0 (wake_all wake_latch ((\<lambda>_. LIdle)(0 := LAsleep)))"
proof -
  have "latch_run 1 1 ((\<lambda>_. LIdle)(0 := LEnter))" by (rule latch_call [OF latch_start]) simp
  then have "latch_run 1 1 (((\<lambda>_. LIdle)(0 := LEnter))(0 := LAsleep))" by (rule latch_sleep) (simp_all add: latch_open_def)
  from latch_down [OF this, of 0 True] show ?thesis by (simp add: countDown_def)
qed

theorem latch_opens_witness: "wake_all wake_latch ((\<lambda>_. LIdle)(0 := LAsleep)) 0 \<noteq> LAsleep \<and> (0 :: int) \<le> 1"
  using latch_opens [OF latch_example, of 0] by simp

section \<open>ThreadPool\<close>

text \<open>The sections of \<^verbatim>\<open>run\<close> and \<^verbatim>\<open>take\<close>. \<^verbatim>\<open>take\<close> sleeps, or returns without a task, or returns the first one.\<close>

definition isFull :: "nat \<Rightarrow> 'a list \<Rightarrow> bool" where
  "isFull maxQueueSize queue \<longleftrightarrow> maxQueueSize > 0 \<and> length queue \<ge> maxQueueSize"

definition ThreadPool_run :: "nat \<Rightarrow> 'a \<Rightarrow> 'a list \<Rightarrow> 'a list option" where
  "ThreadPool_run maxQueueSize task queue = (if isFull maxQueueSize queue then None else Some (queue @ [task]))"

datatype 'a taken = TWait | TNone | TTask 'a "'a list"

definition ThreadPool_take :: "bool \<Rightarrow> 'a list \<Rightarrow> 'a taken" where
  "ThreadPool_take running queue =
     (if queue = [] \<and> running then TWait
      else if queue \<noteq> [] then TTask (hd queue) (tl queue)
      else TNone)"

text \<open>A thread of the program is idle or inside \<^verbatim>\<open>run\<close>; a worker is at the test of its loop, inside \<^verbatim>\<open>take\<close>, running a
  task, or has ended.\<close>

datatype 'a pthread = PIdle | PRun 'a | PRunWait 'a | WTop | WTake | WTakeWait | WTask 'a | WExit

fun wake_worker :: "'a pthread \<Rightarrow> 'a pthread option" where
  "wake_worker WTakeWait = Some WTake"
| "wake_worker _ = None"

fun wake_caller :: "'a pthread \<Rightarrow> 'a pthread option" where
  "wake_caller (PRunWait x) = Some (PRun x)"
| "wake_caller _ = None"

fun ready_worker :: "'a pthread \<Rightarrow> bool" where
  "ready_worker WTake = True"
| "ready_worker _ = False"

fun ready_caller :: "'a pthread \<Rightarrow> bool" where
  "ready_caller (PRun x) = True"
| "ready_caller _ = False"

record 'a pool =
  prunning :: bool
  pqueue :: "'a list"
  pthreads :: "nat \<Rightarrow> 'a pthread"
  submitted :: "'a list"
  executed :: "'a list"

text \<open>\<^verbatim>\<open>start(n)\<close>: the threads below \<open>n\<close> are the workers.\<close>

definition ThreadPool_start :: "nat \<Rightarrow> 'a pool" where
  "ThreadPool_start n = \<lparr>prunning = True, pqueue = [], pthreads = (\<lambda>t. if t < n then WTop else PIdle), submitted = [], executed = []\<rparr>"

definition pset :: "nat \<Rightarrow> 'a pthread \<Rightarrow> 'a pool \<Rightarrow> 'a pool" where
  "pset t s p = p\<lparr>pthreads := (pthreads p)(t := s)\<rparr>"

definition ThreadPool_stop :: "'a pool \<Rightarrow> 'a pool" where
  "ThreadPool_stop p = p\<lparr>prunning := False, pthreads := wake_all wake_worker (pthreads p)\<rparr>"

lemma pset_simps [simp]:
  "prunning (pset t s p) = prunning p" "pqueue (pset t s p) = pqueue p" "pthreads (pset t s p) = (pthreads p)(t := s)"
  "submitted (pset t s p) = submitted p" "executed (pset t s p) = executed p"
  by (simp_all add: pset_def)

text \<open>One step of a pool with \<open>n\<close> workers; without workers the caller runs the task itself.\<close>

inductive pool_step :: "nat \<Rightarrow> nat \<Rightarrow> 'a pool \<Rightarrow> 'a pool \<Rightarrow> bool" for n :: nat and mx :: nat where
  pool_direct: "n = 0 \<Longrightarrow> pthreads p t = PIdle \<Longrightarrow>
    pool_step n mx p (p\<lparr>submitted := submitted p @ [x], executed := executed p @ [x]\<rparr>)"
| pool_call: "0 < n \<Longrightarrow> pthreads p t = PIdle \<Longrightarrow> pool_step n mx p (pset t (PRun x) p)"
| pool_run_wait: "pthreads p t = PRun x \<Longrightarrow> ThreadPool_run mx x (pqueue p) = None \<Longrightarrow> pool_step n mx p (pset t (PRunWait x) p)"
| pool_run: "pthreads p t = PRun x \<Longrightarrow> ThreadPool_run mx x (pqueue p) = Some q
    \<Longrightarrow> wake_one wake_worker ((pthreads p)(t := PIdle)) ths
    \<Longrightarrow> pool_step n mx p (p\<lparr>pqueue := q, pthreads := ths, submitted := submitted p @ [x]\<rparr>)"
| pool_top: "pthreads p t = WTop \<Longrightarrow> pool_step n mx p (pset t (if prunning p then WTake else WExit) p)"
| pool_take_wait: "pthreads p t = WTake \<Longrightarrow> ThreadPool_take (prunning p) (pqueue p) = TWait \<Longrightarrow> pool_step n mx p (pset t WTakeWait p)"
| pool_take_none: "pthreads p t = WTake \<Longrightarrow> ThreadPool_take (prunning p) (pqueue p) = TNone \<Longrightarrow> pool_step n mx p (pset t WTop p)"
| pool_take: "pthreads p t = WTake \<Longrightarrow> ThreadPool_take (prunning p) (pqueue p) = TTask x q
    \<Longrightarrow> (if mx > 0 then wake_one wake_caller ((pthreads p)(t := WTask x)) ths else ths = (pthreads p)(t := WTask x))
    \<Longrightarrow> pool_step n mx p (p\<lparr>pqueue := q, pthreads := ths, executed := executed p @ [x]\<rparr>)"
| pool_task: "pthreads p t = WTask x \<Longrightarrow> pool_step n mx p (pset t WTop p)"
| pool_stop: "pool_step n mx p (ThreadPool_stop p)"

text \<open>Waking up without a notification.\<close>

inductive pool_spurious :: "'a pool \<Rightarrow> 'a pool \<Rightarrow> bool" where
  "wake_worker (pthreads p t) = Some s \<or> wake_caller (pthreads p t) = Some s \<Longrightarrow> pool_spurious p (pset t s p)"

inductive pool_reach :: "nat \<Rightarrow> nat \<Rightarrow> 'a pool \<Rightarrow> bool" for n :: nat and mx :: nat where
  reach_start: "pool_reach n mx (ThreadPool_start n)"
| reach_step: "pool_reach n mx p \<Longrightarrow> pool_step n mx p p' \<Longrightarrow> pool_reach n mx p'"
| reach_spurious: "pool_reach n mx p \<Longrightarrow> pool_spurious p p' \<Longrightarrow> pool_reach n mx p'"

interpretation workers: condition "wake_worker :: 'a pthread \<Rightarrow> 'a pthread option" ready_worker
proof
  fix s s' :: "'a pthread" assume "wake_worker s = Some s'"
  then show "ready_worker s' \<and> wake_worker s' = None" and "\<not> ready_worker s" by (cases s; simp)+
qed

interpretation callers: condition "wake_caller :: 'a pthread \<Rightarrow> 'a pthread option" ready_caller
proof
  fix s s' :: "'a pthread" assume "wake_caller s = Some s'"
  then show "ready_caller s' \<and> wake_caller s' = None" and "\<not> ready_caller s" by (cases s; auto)+
qed

lemma wake_worker_other: "wake_worker s = Some s' \<Longrightarrow> ready_caller s' = ready_caller s \<and> wake_caller s' = None"
  by (cases s) auto

lemma wake_caller_other: "wake_caller s = Some s' \<Longrightarrow> ready_worker s' = ready_worker s \<and> wake_worker s' = None"
  by (cases s) auto

fun is_worker :: "'a pthread \<Rightarrow> bool" where
  "is_worker PIdle = False"
| "is_worker (PRun x) = False"
| "is_worker (PRunWait x) = False"
| "is_worker _ = True"

definition pool_inv :: "nat \<Rightarrow> nat \<Rightarrow> 'a pool \<Rightarrow> bool" where
  "pool_inv n mx p \<longleftrightarrow> submitted p = executed p @ pqueue p \<and> (0 < mx \<longrightarrow> length (pqueue p) \<le> mx)
     \<and> enough wake_worker ready_worker (pthreads p) (length (pqueue p))
     \<and> (0 < mx \<longrightarrow> enough wake_caller ready_caller (pthreads p) (mx - length (pqueue p)))
     \<and> (\<forall>t. is_worker (pthreads p t) \<longleftrightarrow> t < n) \<and> (prunning p \<or> (\<forall>t. pthreads p t \<noteq> WTakeWait))
     \<and> (n = 0 \<longrightarrow> pqueue p = [] \<and> (\<forall>t. pthreads p t = PIdle))"

lemma pool_has_workers: "pool_inv n mx p \<Longrightarrow> pthreads p t \<noteq> PIdle \<Longrightarrow> 0 < n"
  by (auto simp: pool_inv_def)

lemma wake_keeps_role:
  "wake_one wake_worker st st' \<Longrightarrow> is_worker (st' t) = is_worker (st t)"
  "wake_one wake_caller st st' \<Longrightarrow> is_worker (st' t) = is_worker (st t)"
proof -
  have w: "wake_worker s = Some s' \<Longrightarrow> is_worker s' = is_worker s" "wake_caller s = Some s' \<Longrightarrow> is_worker s' = is_worker s"
    for s s' :: "'a pthread" by (cases s; auto)+
  show "wake_one wake_worker st st' \<Longrightarrow> is_worker (st' t) = is_worker (st t)" by (erule wake_one.cases) (auto simp: w(1))
  show "wake_one wake_caller st st' \<Longrightarrow> is_worker (st' t) = is_worker (st t)" by (erule wake_one.cases) (auto simp: w(2))
qed

lemma wake_keeps_awake:
  "wake_one wake_worker st st' \<Longrightarrow> \<forall>t. st t \<noteq> WTakeWait \<Longrightarrow> \<forall>t. st' t \<noteq> WTakeWait"
  "wake_one wake_caller st st' \<Longrightarrow> \<forall>t. st t \<noteq> WTakeWait \<Longrightarrow> \<forall>t. st' t \<noteq> WTakeWait"
proof -
  have w: "wake_worker s = Some s' \<Longrightarrow> s' \<noteq> WTakeWait" "wake_caller s = Some s' \<Longrightarrow> s' \<noteq> WTakeWait" for s s' :: "'a pthread"
    by (cases s; auto)+
  show "wake_one wake_worker st st' \<Longrightarrow> \<forall>t. st t \<noteq> WTakeWait \<Longrightarrow> \<forall>t. st' t \<noteq> WTakeWait"
    by (erule wake_one.cases) (auto dest: w(1))
  show "wake_one wake_caller st st' \<Longrightarrow> \<forall>t. st t \<noteq> WTakeWait \<Longrightarrow> \<forall>t. st' t \<noteq> WTakeWait"
    by (erule wake_one.cases) (auto dest: w(2))
qed

lemma wake_all_worker:
  "wake_all wake_worker st t \<noteq> WTakeWait" "is_worker (wake_all wake_worker st t) = is_worker (st t)"
  "ready_caller (wake_all wake_worker st t) = ready_caller (st t)" "wake_caller (wake_all wake_worker st t) = wake_caller (st t)"
  "wake_worker (wake_all wake_worker st t) = None" "ready_worker (wake_all wake_worker st t) \<Longrightarrow> is_worker (st t)"
  by (cases "st t"; simp add: wake_all_def)+

lemma pset_inv:
  assumes "pool_inv n mx p" and "0 < n" and "is_worker s = is_worker (pthreads p t)"
    and "enough wake_worker ready_worker ((pthreads p)(t := s)) (length (pqueue p))"
    and "0 < mx \<Longrightarrow> enough wake_caller ready_caller ((pthreads p)(t := s)) (mx - length (pqueue p))"
    and "s = WTakeWait \<Longrightarrow> prunning p"
  shows "pool_inv n mx (pset t s p)"
  using assms by (simp add: pool_inv_def del: fun_upd_apply) (auto split: if_splits)

lemma pool_inv_parts:
  assumes "pool_inv n mx p"
  shows "enough wake_worker ready_worker (pthreads p) (length (pqueue p))"
    and "0 < mx \<Longrightarrow> enough wake_caller ready_caller (pthreads p) (mx - length (pqueue p))"
    and "0 < mx \<Longrightarrow> length (pqueue p) \<le> mx"
  using assms by (simp_all add: pool_inv_def)

lemma pool_run_inv:
  assumes i: "pool_inv n mx p" and t: "pthreads p t = PRun x" and q: "ThreadPool_run mx x (pqueue p) = Some q"
    and w: "wake_one wake_worker ((pthreads p)(t := PIdle)) ths"
  shows "pool_inv n mx (p\<lparr>pqueue := q, pthreads := ths, submitted := submitted p @ [x]\<rparr>)"
proof -
  let ?n = "length (pqueue p)" and ?st = "(pthreads p)(t := PIdle)"
  have q': "q = pqueue p @ [x]" "\<not> isFull mx (pqueue p)" using q by (simp_all add: ThreadPool_run_def split: if_splits)
  have "enough wake_worker ready_worker ?st ?n" using pool_inv_parts(1) [OF i] t by (intro workers.neutral) simp_all
  then have e1: "enough wake_worker ready_worker ths (?n + 1)" using w by (rule workers.produce)
  have e2: "enough wake_caller ready_caller ths (mx - (?n + 1))" and n: "?n + 1 \<le> mx" if m: "0 < mx"
  proof -
    show "?n + 1 \<le> mx" using q'(2) m by (simp add: isFull_def)
    then have "enough wake_caller ready_caller ?st (mx - ?n - 1)"
      using pool_inv_parts(2) [OF i m] t by (intro callers.consume) simp_all
    from callers.other_wake [OF this w wake_worker_other] show "enough wake_caller ready_caller ths (mx - (?n + 1))" by simp
  qed
  have r: "is_worker (ths u) = (u < n)" for u
    using wake_keeps_role(1) [OF w, of u] i t unfolding pool_inv_def by (metis fun_upd_apply is_worker.simps(1,2))
  have a: "prunning p \<or> (\<forall>u. ths u \<noteq> WTakeWait)"
    using wake_keeps_awake(1) [OF w] i by (auto simp: pool_inv_def split: if_splits)
  have "0 < n" using pool_has_workers [OF i, of t] t by simp
  then show ?thesis using i e1 e2 n r a q'(1) by (simp add: pool_inv_def)
qed

lemma pool_take_inv:
  assumes i: "pool_inv n mx p" and t: "pthreads p t = WTake" and q: "ThreadPool_take (prunning p) (pqueue p) = TTask x q"
    and w: "if mx > 0 then wake_one wake_caller ((pthreads p)(t := WTask x)) ths else ths = (pthreads p)(t := WTask x)"
  shows "pool_inv n mx (p\<lparr>pqueue := q, pthreads := ths, executed := executed p @ [x]\<rparr>)"
proof -
  let ?n = "length (pqueue p)" and ?st = "(pthreads p)(t := WTask x)"
  have q': "pqueue p = x # q" using q by (auto simp: ThreadPool_take_def split: if_splits)
  have e: "enough wake_worker ready_worker ?st (?n - 1)" using pool_inv_parts(1) [OF i] t q' by (intro workers.consume) simp_all
  have e1: "enough wake_worker ready_worker ths (length q)"
  proof (cases "mx > 0")
    case True
    then have "wake_one wake_caller ?st ths" using w by simp
    from workers.other_wake [OF e this wake_caller_other] show ?thesis using q' by simp
  qed (use w e q' in simp)
  have e2: "enough wake_caller ready_caller ths (mx - length q)" and n: "length q \<le> mx" if m: "0 < mx"
  proof -
    have le: "?n \<le> mx" by (rule pool_inv_parts(3) [OF i m])
    then show "length q \<le> mx" using q' by simp
    have "enough wake_caller ready_caller ?st (mx - ?n)" using pool_inv_parts(2) [OF i m] t by (intro callers.neutral) simp_all
    then have "enough wake_caller ready_caller ths (mx - ?n + 1)" by (rule callers.produce) (use w m in simp)
    moreover have "mx - ?n + 1 = mx - length q" using le q' by simp
    ultimately show "enough wake_caller ready_caller ths (mx - length q)" by simp
  qed
  have r: "is_worker (ths u) = is_worker (?st u)" for u
    using w wake_keeps_role(2) [of ?st ths u] by (auto split: if_splits)
  have "is_worker (?st u) = (u < n)" for u using i t unfolding pool_inv_def by (metis fun_upd_apply is_worker.simps(5,7))
  then have r: "is_worker (ths u) = (u < n)" for u using r by simp
  have "prunning p \<or> (\<forall>u. ?st u \<noteq> WTakeWait)" using i by (auto simp: pool_inv_def)
  then have a: "prunning p \<or> (\<forall>u. ths u \<noteq> WTakeWait)"
    using w wake_keeps_awake(2) [of ?st ths] by metis
  have "0 < n" using pool_has_workers [OF i, of t] t by simp
  then show ?thesis using i e1 e2 n r a q' by (simp add: pool_inv_def)
qed

lemma pool_stop_inv:
  assumes "pool_inv n mx p"
  shows "pool_inv n mx (ThreadPool_stop p)"
proof -
  have "{t. ready_worker (wake_all wake_worker (pthreads p) t)} \<subseteq> {t. t < n}"
    using assms wake_all_worker(6) [of "pthreads p"] by (auto simp: pool_inv_def)
  then have "finite {t. ready_worker (wake_all wake_worker (pthreads p) t)}" by (rule finite_subset) simp
  then show ?thesis using assms wake_all_worker [of "pthreads p"]
    by (auto simp: pool_inv_def ThreadPool_stop_def enough_def wake_all_def)
qed

lemma pool_step_inv: "pool_step n mx p p' \<Longrightarrow> pool_inv n mx p \<Longrightarrow> pool_inv n mx p'"
proof (induction rule: pool_step.induct)
  case (pool_direct p t x)
  then show ?case by (auto simp: pool_inv_def)
next
  case (pool_call p t x)
  note e = pool_inv_parts [OF pool_call.prems]
  show ?case
    by (rule pset_inv [OF pool_call.prems pool_call.hyps(1)])
      (use pool_call.hyps e in \<open>auto intro!: workers.neutral callers.arrive simp del: fun_upd_apply\<close>)
next
  case (pool_run_wait p t x)
  note e = pool_inv_parts [OF pool_run_wait.prems]
  have z: "mx - length (pqueue p) = 0" using pool_run_wait.hyps(2) by (simp add: ThreadPool_run_def isFull_def split: if_splits)
  show ?case
    by (rule pset_inv [OF pool_run_wait.prems pool_has_workers [OF pool_run_wait.prems, of t]])
      (use pool_run_wait.hyps e z in \<open>auto intro!: workers.neutral callers.sleep simp del: fun_upd_apply\<close>)
next
  case (pool_run p t x q ths)
  then show ?case by (blast intro: pool_run_inv)
next
  case (pool_top p t)
  note e = pool_inv_parts [OF pool_top.prems]
  show ?case
    by (rule pset_inv [OF pool_top.prems pool_has_workers [OF pool_top.prems, of t]])
      (use pool_top.hyps e in \<open>auto intro!: workers.arrive callers.neutral simp del: fun_upd_apply split: if_splits\<close>)
next
  case (pool_take_wait p t)
  note e = pool_inv_parts [OF pool_take_wait.prems]
  have z: "length (pqueue p) = 0" "prunning p" using pool_take_wait.hyps(2) by (auto simp: ThreadPool_take_def split: if_splits)
  show ?case
    by (rule pset_inv [OF pool_take_wait.prems pool_has_workers [OF pool_take_wait.prems, of t]])
      (use pool_take_wait.hyps e z in \<open>auto intro!: workers.sleep callers.neutral simp del: fun_upd_apply\<close>)
next
  case (pool_take_none p t)
  note e = pool_inv_parts [OF pool_take_none.prems]
  have z: "length (pqueue p) = 0" using pool_take_none.hyps(2) by (auto simp: ThreadPool_take_def split: if_splits)
  show ?case
    by (rule pset_inv [OF pool_take_none.prems pool_has_workers [OF pool_take_none.prems, of t]])
      (use pool_take_none.hyps e z in \<open>auto intro!: workers.sleep callers.neutral simp del: fun_upd_apply\<close>)
next
  case (pool_take p t x q ths)
  then show ?case by (blast intro: pool_take_inv)
next
  case (pool_task p t x)
  note e = pool_inv_parts [OF pool_task.prems]
  show ?case
    by (rule pset_inv [OF pool_task.prems pool_has_workers [OF pool_task.prems, of t]])
      (use pool_task.hyps e in \<open>auto intro!: workers.neutral callers.neutral simp del: fun_upd_apply\<close>)
next
  case (pool_stop p)
  then show ?case by (rule pool_stop_inv)
qed

lemma pool_spurious_inv:
  assumes "pool_spurious p p'" and "pool_inv n mx p"
  shows "pool_inv n mx p'"
  using assms(1)
proof cases
  case (1 t s)
  note e = pool_inv_parts [OF assms(2)]
  have idle: "pthreads p t \<noteq> PIdle" using 1(2) by auto
  from 1(2) show ?thesis
  proof
    assume w: "wake_worker (pthreads p t) = Some s"
    then have "is_worker s = is_worker (pthreads p t)" "s \<noteq> WTakeWait" by (cases "pthreads p t"; auto)+
    then show ?thesis
      unfolding 1(1) using w wake_worker_other [OF w] e workers.spurious [where st = "pthreads p", OF _ w]
      by (intro pset_inv [OF assms(2) pool_has_workers [OF assms(2) idle]] callers.neutral) auto
  next
    assume w: "wake_caller (pthreads p t) = Some s"
    then have "is_worker s = is_worker (pthreads p t)" "s \<noteq> WTakeWait" by (cases "pthreads p t"; auto)+
    then show ?thesis
      unfolding 1(1) using w wake_caller_other [OF w] e callers.spurious [where st = "pthreads p", OF _ w]
      by (intro pset_inv [OF assms(2) pool_has_workers [OF assms(2) idle]] workers.neutral) auto
  qed
qed

lemma pool_reach_inv: "pool_reach n mx p \<Longrightarrow> pool_inv n mx p"
proof (induction rule: pool_reach.induct)
  case reach_start
  have "{t. ready_worker ((if t < n then WTop else PIdle) :: 'a pthread)} = {}" "{t. ready_caller ((if t < n then WTop else PIdle) :: 'a pthread)} = {}"
    by auto
  then show ?case by (simp add: pool_inv_def ThreadPool_start_def enough_def)
qed (blast intro: pool_step_inv pool_spurious_inv)+

text \<open>C13: For every interleaving of callers, workers and a call of \<^verbatim>\<open>stop\<close>: the tasks are executed in the order in which they
  were handed in, each once; a limit on the queue is kept; if a worker sleeps and no worker is awake in \<^verbatim>\<open>take\<close>,
  the queue is empty; a caller sleeps only on a full queue unless another caller is awake; and after \<^verbatim>\<open>stop\<close> no
  worker sleeps, so that all of them see it.\<close>

theorem thread_pool_monitor:
  assumes "pool_reach n mx p"
  shows "submitted p = executed p @ pqueue p \<and> (0 < mx \<longrightarrow> length (pqueue p) \<le> mx)
    \<and> (pthreads p t = WTakeWait \<and> (\<forall>u. pthreads p u \<noteq> WTake) \<longrightarrow> pqueue p = [])
    \<and> (0 < mx \<and> pthreads p c = PRunWait x \<and> (\<forall>u y. pthreads p u \<noteq> PRun y) \<longrightarrow> isFull mx (pqueue p))
    \<and> (\<not> prunning p \<longrightarrow> pthreads p t \<noteq> WTakeWait)"
proof -
  have i: "pool_inv n mx p" by (rule pool_reach_inv [OF assms])
  have r: "ready_worker s \<longleftrightarrow> s = WTake" "ready_caller s \<longleftrightarrow> (\<exists>y. s = PRun y)" for s :: "'a pthread" by (cases s; simp)+
  have e: "pqueue p = []" if "pthreads p t = WTakeWait" "\<forall>u. pthreads p u \<noteq> WTake"
    using workers.nobody_ready [OF pool_inv_parts(1) [OF i], of t] that by (simp add: r)
  have f: "isFull mx (pqueue p)" if "0 < mx" "pthreads p c = PRunWait x" "\<forall>u y. pthreads p u \<noteq> PRun y"
    using callers.nobody_ready [OF pool_inv_parts(2) [OF i that(1)], of c] that by (simp add: r isFull_def)
  show ?thesis using i e f by (auto simp: pool_inv_def)
qed

section \<open>Stopping a pool\<close>

fun outside :: "'a pthread \<Rightarrow> bool" where
  "outside PIdle = True"
| "outside (PRun x) = True"
| "outside (PRunWait x) = True"
| "outside WExit = True"
| "outside _ = False"

definition stuck :: "nat \<Rightarrow> 'a list \<Rightarrow> 'a list \<Rightarrow> nat \<Rightarrow> 'a \<Rightarrow> 'a pool \<Rightarrow> bool" where
  "stuck mx q ex c x p \<longleftrightarrow> pqueue p = q \<and> executed p = ex \<and> isFull mx q
     \<and> (\<forall>t. outside (pthreads p t)) \<and> pthreads p c = PRunWait x"

lemma stuck_outside: "stuck mx q ex c x p \<Longrightarrow> outside (pthreads p t)"
  by (simp add: stuck_def)

lemma stuck_step:
  assumes "pool_step n mx p p'" and "stuck mx q ex c x p" and "0 < n"
  shows "stuck mx q ex c x p'"
  using assms
proof (induction rule: pool_step.induct)
  case (pool_run p t y q' ths)
  then show ?case by (auto simp: stuck_def ThreadPool_run_def)
next
  case (pool_stop p)
  have "wake_all wake_worker (pthreads p) t = pthreads p t" for t
    using stuck_outside [OF pool_stop(1), of t] by (cases "pthreads p t") (simp_all add: wake_all_def)
  then show ?case using pool_stop by (simp add: stuck_def ThreadPool_stop_def)
next
  case (pool_top p t)
  then show ?case using stuck_outside [OF pool_top.prems(1), of t] by simp
next
  case (pool_take_wait p t)
  then show ?case using stuck_outside [OF pool_take_wait.prems(1), of t] by simp
next
  case (pool_take_none p t)
  then show ?case using stuck_outside [OF pool_take_none.prems(1), of t] by simp
next
  case (pool_take p t y q' ths)
  then show ?case using stuck_outside [OF pool_take.prems(1), of t] by simp
next
  case (pool_task p t y)
  then show ?case using stuck_outside [OF pool_task.prems(1), of t] by simp
qed (auto simp: stuck_def)

text \<open>C30: \<^verbatim>\<open>stop\<close> does not wake the threads that wait in \<^verbatim>\<open>run\<close> for room in the queue: once the workers have ended, nothing
  the program does (short of a spurious wake-up, which finds the queue full again) lets such a thread go on, and
  the tasks that are still queued are never executed.\<close>

theorem thread_pool_stop_stuck:
  assumes "pool_reach n mx p" and "\<not> prunning p" and "isFull mx (pqueue p)" and "\<forall>t < n. pthreads p t = WExit"
    and "pthreads p c = PRunWait x" and "(pool_step n mx)\<^sup>*\<^sup>* p p'"
  shows "pthreads p' c = PRunWait x \<and> pqueue p' = pqueue p \<and> executed p' = executed p"
proof -
  have i: "pool_inv n mx p" by (rule pool_reach_inv [OF assms(1)])
  have n: "0 < n" using pool_has_workers [OF i, of c] assms(5) by simp
  have "outside (pthreads p t)" for t
  proof (cases "t < n")
    case False
    then have "\<not> is_worker (pthreads p t)" using i by (simp add: pool_inv_def)
    then show ?thesis by (cases "pthreads p t") auto
  qed (use assms(4) in simp)
  then have s: "stuck mx (pqueue p) (executed p) c x p" using assms(3,5) by (simp add: stuck_def)
  from assms(6) have "stuck mx (pqueue p) (executed p) c x p'"
  proof (induction rule: rtranclp_induct)
    case base
    show ?case by (rule s)
  next
    case (step y z)
    show ?case by (rule stuck_step [OF step(2,3) n])
  qed
  then show ?thesis by (simp add: stuck_def)
qed

definition ex_pool :: "nat pool" where
  "ex_pool = \<lparr>prunning = False, pqueue = [7], pthreads = (\<lambda>_. PIdle)(0 := WExit, 1 := PRunWait 8), submitted = [7], executed = []\<rparr>"

lemma start_one: "pthreads (ThreadPool_start (Suc 0)) = (\<lambda>_. PIdle)(0 := WTop)"
  by (auto simp: ThreadPool_start_def)

lemma ex_pool_reach: "pool_reach 1 1 ex_pool"
proof -
  let ?s0 = "ThreadPool_start 1 :: nat pool"
  let ?s1 = "pset 1 (PRun 7) ?s0"
  have th1: "pthreads ?s0 1 = PIdle" by (simp add: start_one)
  have r1: "pool_reach 1 1 ?s1" by (rule reach_step [OF reach_start pool_call [OF _ th1]]) simp
  have w: "wake_one wake_worker ((pthreads ?s1)(1 := PIdle)) ((\<lambda>_. PIdle)(0 := WTop))"
  proof -
    have "(pthreads ?s1)(1 := PIdle) = (\<lambda>_. PIdle)(0 := WTop)" by (auto simp: start_one fun_eq_iff)
    moreover have "wake_one wake_worker ((\<lambda>_. PIdle)(0 := WTop) :: nat \<Rightarrow> nat pthread) ((\<lambda>_. PIdle)(0 := WTop))"
      by (rule wake_none) simp
    ultimately show ?thesis by simp
  qed
  let ?s2 = "?s1\<lparr>pqueue := [7], pthreads := (\<lambda>_. PIdle)(0 := WTop), submitted := submitted ?s1 @ [7]\<rparr>"
  have r2: "pool_reach 1 1 ?s2"
    by (rule reach_step [OF r1 pool_run [OF _ _ w]]) (simp_all add: ThreadPool_run_def isFull_def ThreadPool_start_def)
  have r3: "pool_reach 1 1 (pset 1 (PRun 8) ?s2)" by (rule reach_step [OF r2 pool_call]) simp_all
  have r4: "pool_reach 1 1 (pset 1 (PRunWait 8) (pset 1 (PRun 8) ?s2))"
    by (rule reach_step [OF r3 pool_run_wait]) (simp_all add: ThreadPool_run_def isFull_def)
  let ?s4 = "pset 1 (PRunWait 8) (pset 1 (PRun 8) ?s2)"
  have r5: "pool_reach 1 1 (ThreadPool_stop ?s4)" by (rule reach_step [OF r4 pool_stop])
  have r6: "pool_reach 1 1 (pset 0 (if prunning (ThreadPool_stop ?s4) then WTake else WExit) (ThreadPool_stop ?s4))"
    by (rule reach_step [OF r5 pool_top]) (simp add: ThreadPool_stop_def wake_all_def)
  have "pset 0 (if prunning (ThreadPool_stop ?s4) then WTake else WExit) (ThreadPool_stop ?s4) = ex_pool"
    by (auto simp: ThreadPool_stop_def wake_all_def pset_def ex_pool_def ThreadPool_start_def fun_eq_iff)
  then show ?thesis using r6 by simp
qed

theorem thread_pool_monitor_witness: "isFull 1 (pqueue ex_pool) \<and> submitted ex_pool = executed ex_pool @ pqueue ex_pool"
  using thread_pool_monitor [OF ex_pool_reach, of 0 1 8] by (auto simp: ex_pool_def)

theorem thread_pool_stop_stuck_witness:
  "pool_reach 1 1 ex_pool \<and> pthreads (pset 2 (PRun 9) ex_pool) 1 = PRunWait 8 \<and> pqueue (pset 2 (PRun 9) ex_pool) = [7]"
proof -
  have "pool_step 1 1 ex_pool (pset 2 (PRun 9) ex_pool)" by (rule pool_call) (simp_all add: ex_pool_def)
  then have "(pool_step 1 1)\<^sup>*\<^sup>* ex_pool (pset 2 (PRun 9) ex_pool)" by (rule r_into_rtranclp)
  from thread_pool_stop_stuck [OF ex_pool_reach _ _ _ _ this, of 1 8] ex_pool_reach
  show ?thesis by (simp add: ex_pool_def isFull_def)
qed

end
