(* ===== verification/Dancing_Links.thy ===== *)
theory Dancing_Links
  imports Cnet_Prelude
begin

text \<open>
  The node pool of the sudoku solver (\<^verbatim>\<open>examples/sudoku/sudoku.cc\<close>) and the operations that
  relink it.

  A \<^verbatim>\<open>Node*\<close> is the index of the node in \<^verbatim>\<open>nodes_\<close>, and the array of structures is one function
  per field. Every assignment of the source is one update, in the order of the source, so that
  aliasing (a column with one row, whose \<^verbatim>\<open>up\<close> and \<^verbatim>\<open>down\<close> are the same node) is kept. A
  \<^verbatim>\<open>for\<close> loop that follows a field until it meets its start is \<open>for_nodes\<close>; it is a partial
  function, so that a chain that never returns has the value \<open>None\<close>.

  The lemmas show that unlinking and relinking a node are inverse wherever the node is linked,
  that the loops of \<open>cover\<close> and \<open>uncover\<close> visit the same nodes in opposite orders, and so that
  \<open>uncover\<close> restores the heap that \<open>cover\<close> was given. \<open>represents\<close> ties the heap to an exact
  cover problem: the active columns are a list, and the rows of each active column are exactly the
  options all of whose columns are active. \<open>cover\<close> refines the removal of a column.
\<close>

section \<open>Nodes\<close>

record Nodes =
  left :: "nat \<Rightarrow> nat"
  right :: "nat \<Rightarrow> nat"
  up :: "nat \<Rightarrow> nat"
  down :: "nat \<Rightarrow> nat"
  col :: "nat \<Rightarrow> nat"
  name :: "nat \<Rightarrow> int"
  nsize :: "nat \<Rightarrow> int"

definition node_init :: "nat \<Rightarrow> nat \<Rightarrow> int \<Rightarrow> Nodes \<Rightarrow> Nodes" where
  "node_init n c nm ns =
     ns\<lparr>left := (left ns)(n := n), right := (right ns)(n := n), up := (up ns)(n := n),
        down := (down ns)(n := n), col := (col ns)(n := c), name := (name ns)(n := nm),
        nsize := (nsize ns)(n := 0)\<rparr>"

definition put_left :: "nat \<Rightarrow> nat \<Rightarrow> Nodes \<Rightarrow> Nodes" where
  "put_left old nnew ns =
    (let ns = ns\<lparr>left := (left ns)(nnew := left ns old)\<rparr>;
         ns = ns\<lparr>right := (right ns)(nnew := old)\<rparr>;
         ns = ns\<lparr>right := (right ns)(left ns old := nnew)\<rparr>
     in ns\<lparr>left := (left ns)(old := nnew)\<rparr>)"

definition put_up :: "nat \<Rightarrow> nat \<Rightarrow> Nodes \<Rightarrow> Nodes" where
  "put_up old nnew ns =
    (let ns = ns\<lparr>up := (up ns)(nnew := up ns old)\<rparr>;
         ns = ns\<lparr>down := (down ns)(nnew := old)\<rparr>;
         ns = ns\<lparr>down := (down ns)(up ns old := nnew)\<rparr>;
         ns = ns\<lparr>up := (up ns)(old := nnew)\<rparr>;
         ns = ns\<lparr>nsize := (nsize ns)(old := nsize ns old + 1)\<rparr>
     in ns\<lparr>col := (col ns)(nnew := old)\<rparr>)"

text \<open>\<^verbatim>\<open>for (n = first; n != stop; n = n->nxt) body\<close>, with the field read after the body.\<close>

partial_function (option) for_nodes ::
  "(Nodes \<Rightarrow> nat \<Rightarrow> nat) \<Rightarrow> nat \<Rightarrow> (nat \<Rightarrow> Nodes \<Rightarrow> Nodes option) \<Rightarrow> nat \<Rightarrow> Nodes \<Rightarrow> Nodes option" where
  "for_nodes nxt stop body n ns =
    (if n = stop then Some ns
     else do { ns' \<leftarrow> body n ns; for_nodes nxt stop body (nxt ns' n) ns' })"

definition unlink_row :: "nat \<Rightarrow> Nodes \<Rightarrow> Nodes" where
  "unlink_row j ns =
    (let ns = ns\<lparr>up := (up ns)(down ns j := up ns j)\<rparr>;
         ns = ns\<lparr>down := (down ns)(up ns j := down ns j)\<rparr>
     in ns\<lparr>nsize := (nsize ns)(col ns j := nsize ns (col ns j) - 1)\<rparr>)"

definition relink_row :: "nat \<Rightarrow> Nodes \<Rightarrow> Nodes" where
  "relink_row j ns =
    (let ns = ns\<lparr>nsize := (nsize ns)(col ns j := nsize ns (col ns j) + 1)\<rparr>;
         ns = ns\<lparr>up := (up ns)(down ns j := j)\<rparr>
     in ns\<lparr>down := (down ns)(up ns j := j)\<rparr>)"

definition unlink_column :: "nat \<Rightarrow> Nodes \<Rightarrow> Nodes" where
  "unlink_column c ns =
    (let ns = ns\<lparr>left := (left ns)(right ns c := left ns c)\<rparr>
     in ns\<lparr>right := (right ns)(left ns c := right ns c)\<rparr>)"

definition relink_column :: "nat \<Rightarrow> Nodes \<Rightarrow> Nodes" where
  "relink_column c ns =
    (let ns = ns\<lparr>left := (left ns)(right ns c := c)\<rparr>
     in ns\<lparr>right := (right ns)(left ns c := c)\<rparr>)"

definition cover :: "nat \<Rightarrow> Nodes \<Rightarrow> Nodes option" where
  "cover c ns =
    (let ns = unlink_column c ns
     in for_nodes down c
          (\<lambda>row ns. for_nodes right row (\<lambda>j ns. Some (unlink_row j ns)) (right ns row) ns)
          (down ns c) ns)"

definition uncover :: "nat \<Rightarrow> Nodes \<Rightarrow> Nodes option" where
  "uncover c ns =
    do { ns \<leftarrow> for_nodes up c
          (\<lambda>row ns. for_nodes left row (\<lambda>j ns. Some (relink_row j ns)) (left ns row) ns)
          (up ns c) ns;
         Some (relink_column c ns) }"

section \<open>Rings\<close>

text \<open>
  \<open>ring f g c xs\<close>: from \<open>c\<close> the field \<open>f\<close> leads through \<open>xs\<close> back to \<open>c\<close>, and \<open>g\<close> leads back.
\<close>

fun dpath :: "(nat \<Rightarrow> nat) \<Rightarrow> (nat \<Rightarrow> nat) \<Rightarrow> nat \<Rightarrow> nat list \<Rightarrow> nat \<Rightarrow> bool" where
  "dpath f g x [] z \<longleftrightarrow> f x = z \<and> g z = x"
| "dpath f g x (y # ys) z \<longleftrightarrow> f x = y \<and> g y = x \<and> dpath f g y ys z"

definition ring :: "(nat \<Rightarrow> nat) \<Rightarrow> (nat \<Rightarrow> nat) \<Rightarrow> nat \<Rightarrow> nat list \<Rightarrow> bool" where
  "ring f g c xs \<longleftrightarrow> distinct (c # xs) \<and> dpath f g c xs c"

lemma dpath_append [simp]:
  "dpath f g x (as @ y # bs) z \<longleftrightarrow> dpath f g x as y \<and> dpath f g y bs z"
  by (induction as arbitrary: x) auto

lemma dpath_rev: "dpath f g x ys z \<Longrightarrow> dpath g f z (rev ys) x"
  by (induction ys arbitrary: x) auto

lemma dpath_cong:
  assumes "\<And>y. y \<in> insert x (set ys) \<Longrightarrow> f y = f' y"
    and "\<And>y. y \<in> insert z (set ys) \<Longrightarrow> g y = g' y"
  shows "dpath f g x ys z \<longleftrightarrow> dpath f' g' x ys z"
  using assms by (induction ys arbitrary: x) auto

lemma ring_cong:
  assumes "\<And>y. y \<in> insert c (set ys) \<Longrightarrow> f y = f' y"
    and "\<And>y. y \<in> insert c (set ys) \<Longrightarrow> g y = g' y"
  shows "ring f g c ys \<longleftrightarrow> ring f' g' c ys"
  using assms dpath_cong[of c ys f f' c g g'] by (simp add: ring_def)

lemma ring_rev: "ring f g c xs \<Longrightarrow> ring g f c (rev xs)"
  by (auto simp: ring_def dpath_rev)

lemma dpath_closed:
  assumes "dpath f g x ys z" and "y \<in> insert x (set ys)"
  shows "f y \<in> insert z (set ys) \<and> g (f y) = y"
  using assms by (induction ys arbitrary: x) auto

lemma ring_step: "ring f g c ys \<Longrightarrow> y \<in> insert c (set ys) \<Longrightarrow> f y \<in> insert c (set ys) \<and> g (f y) = y"
  unfolding ring_def by (blast dest: dpath_closed)

lemma ring_closed:
  assumes "ring f g c ys" and "y \<in> insert c (set ys)"
  shows "f y \<in> insert c (set ys)" and "g y \<in> insert c (set ys)" and "g (f y) = y" and "f (g y) = y"
  using ring_step[OF assms] ring_step[OF ring_rev[OF assms(1)], of y] assms(2) by simp_all

lemma ring_fst: "ring f g c xs \<Longrightarrow> f c = hd (xs @ [c])"
  by (cases xs) (auto simp: ring_def)

lemma dpath_upd:
  "a \<notin> insert x (set ys) \<Longrightarrow> dpath (f(a := v)) g x ys z = dpath f g x ys z"
  "b \<notin> insert z (set ys) \<Longrightarrow> dpath f (g(b := v)) x ys z = dpath f g x ys z"
  by (auto intro!: dpath_cong)

lemma dpath_shorten:
  assumes p: "dpath f g c as y" and d: "distinct (c # as)" and z: "z = f y" "z \<notin> set as"
  shows "dpath (f(g y := z)) (g(z := g y)) c as z"
proof (cases as rule: rev_cases)
  case Nil
  then show ?thesis using p by simp
next
  case (snoc as' a)
  then have "dpath f g c as' a" "f a = y" "g y = a" using p by simp_all
  moreover have "a \<notin> insert c (set as')" "z \<notin> insert a (set as')" using d z snoc by auto
  ultimately have "dpath (f(a := z)) (g(z := a)) c as' a" by (simp add: dpath_upd)
  then show ?thesis using \<open>g y = a\<close> snoc by simp
qed

lemma ring_remove:
  assumes r: "ring f g c xs" and y: "y \<in> set xs"
  shows "ring (f(g y := f y)) (g(f y := g y)) c (remove1 y xs)"
proof -
  obtain as bs where xs: "xs = as @ y # bs" and ny: "y \<notin> set as"
    using y by (meson split_list_first)
  have d: "distinct (c # as @ y # bs)" and p: "dpath f g c as y" "dpath f g y bs c"
    using r by (auto simp: ring_def xs)
  have g: "g y \<in> insert c (set as)" using p(1) by (cases as rule: rev_cases) auto
  have "dpath (f(g y := f y)) (g(f y := g y)) c (as @ bs) c"
  proof (cases bs)
    case Nil
    then have "f y = c" using p by simp
    then show ?thesis using dpath_shorten[OF p(1), of "f y"] d by (simp add: Nil)
  next
    case (Cons b bs')
    then have b: "f y = b" "dpath f g b bs' c" using p by simp_all
    have nb: "b \<notin> insert c (set bs')" "g y \<notin> insert b (set bs')" using d g Cons by auto
    have 1: "dpath (f(g y := f y)) (g(f y := g y)) c as b"
      using dpath_shorten[OF p(1), of "f y"] d b(1) Cons by simp
    have "dpath (f(g y := f y)) (g(f y := g y)) b bs' c"
      using b nb by (simp add: dpath_upd)
    with 1 show ?thesis by (simp add: Cons)
  qed
  then show ?thesis using d ny by (simp add: ring_def xs remove1_append)
qed

lemma ring_next: "ring f g c (as @ y # bs) \<Longrightarrow> f y = hd (bs @ [c])"
  by (cases bs) (auto simp: ring_def)

lemma ring_rotate: "ring f g c (as @ y # bs) \<Longrightarrow> ring f g y (bs @ c # as)"
  by (auto simp: ring_def)

section \<open>Loops over a ring\<close>

text \<open>
  A loop whose body keeps an invariant that fixes the ring it follows visits exactly the nodes of
  the ring, in order, and ends.
\<close>

lemma for_nodes_ring:
  assumes P: "P ns"
    and ring: "\<And>ns. P ns \<Longrightarrow> ring (nxt ns) (prv ns) c ys"
    and body: "\<And>y ns. y \<in> set ys \<Longrightarrow> P ns \<Longrightarrow> body y ns = Some (b y ns) \<and> P (b y ns)"
  shows "for_nodes nxt c body (nxt ns c) ns = Some (fold b ys ns) \<and> P (fold b ys ns)"
proof -
  have "ys = as @ zs \<Longrightarrow> P ns \<Longrightarrow>
      for_nodes nxt c body (hd (zs @ [c])) ns = Some (fold b zs ns) \<and> P (fold b zs ns)" for as zs ns
  proof (induction zs arbitrary: as ns)
    case Nil
    then show ?case by (simp add: for_nodes.simps)
  next
    case (Cons y zs)
    have b: "body y ns = Some (b y ns)" "P (b y ns)" using body[of y ns] Cons.prems by simp_all
    have "nxt (b y ns) y = hd (zs @ [c])"
      using ring[OF b(2)] Cons.prems(1) by (auto dest: ring_next)
    moreover have "y \<noteq> c" using ring[OF Cons.prems(2)] Cons.prems(1) by (auto simp: ring_def)
    ultimately show ?case using Cons.IH[of "as @ [y]" "b y ns"] b Cons.prems(1)
      by (simp add: for_nodes.simps[of _ _ _ y])
  qed
  from this[of "[]" ys ns] show ?thesis using P ring_fst[OF ring[OF P]] by simp
qed

lemma fold_concat_map: "fold f (concat (map g xs)) s = fold (\<lambda>x. fold f (g x)) xs s"
  by (induction xs arbitrary: s) auto

section \<open>Unlinking and relinking\<close>

definition linked :: "Nodes \<Rightarrow> nat \<Rightarrow> bool" where
  "linked ns j \<longleftrightarrow> down ns (up ns j) = j \<and> up ns (down ns j) = j"

lemma unlink_row_simps [simp]:
  "left (unlink_row j ns) = left ns" "right (unlink_row j ns) = right ns"
  "col (unlink_row j ns) = col ns" "name (unlink_row j ns) = name ns"
  "up (unlink_row j ns) = (up ns)(down ns j := up ns j)"
  "down (unlink_row j ns) = (down ns)(up ns j := down ns j)"
  "nsize (unlink_row j ns) = (nsize ns)(col ns j := nsize ns (col ns j) - 1)"
  by (auto simp: unlink_row_def)

lemma relink_row_simps [simp]:
  "left (relink_row j ns) = left ns" "right (relink_row j ns) = right ns"
  "col (relink_row j ns) = col ns" "name (relink_row j ns) = name ns"
  "up (relink_row j ns) = (up ns)(down ns j := j)"
  "nsize (relink_row j ns) = (nsize ns)(col ns j := nsize ns (col ns j) + 1)"
  by (auto simp: relink_row_def)

lemma down_relink_row [simp]:
  "down ns j \<noteq> j \<Longrightarrow> down (relink_row j ns) = (down ns)(up ns j := j)"
  by (auto simp: relink_row_def)

lemma unlink_column_simps [simp]:
  "up (unlink_column c ns) = up ns" "down (unlink_column c ns) = down ns"
  "col (unlink_column c ns) = col ns" "name (unlink_column c ns) = name ns"
  "nsize (unlink_column c ns) = nsize ns"
  "left (unlink_column c ns) = (left ns)(right ns c := left ns c)"
  "right (unlink_column c ns) = (right ns)(left ns c := right ns c)"
  by (auto simp: unlink_column_def)

lemma relink_unlink_row: "linked ns j \<Longrightarrow> relink_row j (unlink_row j ns) = ns"
  by (auto simp: linked_def unlink_row_def relink_row_def fun_upd_idem)

lemma relink_unlink_column:
  "right ns (left ns c) = c \<Longrightarrow> left ns (right ns c) = c \<Longrightarrow> relink_column c (unlink_column c ns) = ns"
  by (auto simp: unlink_column_def relink_column_def fun_upd_idem)

lemma linked_unlink_row: "linked ns j \<Longrightarrow> linked ns i \<Longrightarrow> i \<noteq> j \<Longrightarrow> linked (unlink_row j ns) i"
  by (auto simp: linked_def)

lemma linked_unlink_column [simp]: "linked (unlink_column c ns) j = linked ns j"
  by (simp add: linked_def)

lemma relink_unlink_rows:
  assumes "distinct js" and "\<And>j. j \<in> set js \<Longrightarrow> linked ns j"
  shows "fold relink_row (rev js) (fold unlink_row js ns) = ns"
  using assms
proof (induction js arbitrary: ns)
  case (Cons j js)
  have "\<And>i. i \<in> set js \<Longrightarrow> linked (unlink_row j ns) i"
    using Cons.prems by (auto intro!: linked_unlink_row)
  then have "fold relink_row (rev js) (fold unlink_row js (unlink_row j ns)) = unlink_row j ns"
    using Cons by simp
  then show ?case using Cons.prems by (simp add: fold_append relink_unlink_row)
qed simp

lemma unlink_rows_simps [simp]:
  "left (fold unlink_row js ns) = left ns" "right (fold unlink_row js ns) = right ns"
  "col (fold unlink_row js ns) = col ns" "name (fold unlink_row js ns) = name ns"
  by (induction js arbitrary: ns) auto

section \<open>Covering a column and undoing it\<close>

text \<open>
  \<open>col_closed N ns\<close>: the vertical neighbours of the nodes of \<open>N\<close> are in the same column.
  \<open>column_at N c rows sib ns\<close>: column \<open>c\<close> holds the nodes \<open>rows\<close>, and each of them leads through
  its siblings \<open>sib\<close>, which lie in other columns.
\<close>

definition col_closed :: "nat set \<Rightarrow> Nodes \<Rightarrow> bool" where
  "col_closed N ns \<longleftrightarrow> (\<forall>n\<in>N. col ns (up ns n) = col ns n \<and> col ns (down ns n) = col ns n)"

definition column_at :: "nat set \<Rightarrow> nat \<Rightarrow> nat list \<Rightarrow> (nat \<Rightarrow> nat list) \<Rightarrow> Nodes \<Rightarrow> bool" where
  "column_at N c rows sib ns \<longleftrightarrow> col_closed N ns \<and> ring (down ns) (up ns) c rows \<and>
     (\<forall>r\<in>insert c (set rows). col ns r = c) \<and>
     (\<forall>r\<in>set rows. ring (right ns) (left ns) r (sib r) \<and>
        (\<forall>j\<in>set (sib r). j \<in> N \<and> col ns j \<noteq> c))"

definition cover_seq :: "nat list \<Rightarrow> (nat \<Rightarrow> nat list) \<Rightarrow> nat list" where
  "cover_seq rows sib = concat (map sib rows)"

lemma closed_unlink_row: "col_closed N ns \<Longrightarrow> j \<in> N \<Longrightarrow> col_closed N (unlink_row j ns)"
  by (auto simp: col_closed_def)

lemma closed_relink_row: "col_closed N ns \<Longrightarrow> j \<in> N \<Longrightarrow> col_closed N (relink_row j ns)"
  by (auto simp: col_closed_def relink_row_def)

lemma column_at_unlink_row:
  assumes "column_at N c rows sib ns" and "j \<in> N" and "col ns j \<noteq> c"
  shows "column_at N c rows sib (unlink_row j ns)"
proof -
  have "col ns (up ns j) \<noteq> c" "col ns (down ns j) \<noteq> c"
    using assms by (auto simp: column_at_def col_closed_def)
  then have "ring (down (unlink_row j ns)) (up (unlink_row j ns)) c rows
      \<longleftrightarrow> ring (down ns) (up ns) c rows"
    using assms(1) by (intro ring_cong) (auto simp: column_at_def)
  then show ?thesis using assms closed_unlink_row[of N ns j] by (simp add: column_at_def)
qed

lemma column_at_relink_row:
  assumes "column_at N c rows sib ns" and "j \<in> N" and "col ns j \<noteq> c"
  shows "column_at N c rows sib (relink_row j ns)"
proof -
  have "col ns (up ns j) \<noteq> c" "col ns (down ns j) \<noteq> c"
    using assms by (auto simp: column_at_def col_closed_def)
  then have "ring (down (relink_row j ns)) (up (relink_row j ns)) c rows
      \<longleftrightarrow> ring (down ns) (up ns) c rows"
    using assms by (intro ring_cong) (auto simp: column_at_def relink_row_def)
  then show ?thesis using assms closed_relink_row[of N ns j] by (simp add: column_at_def)
qed

lemmas column_at_sib = column_at_def[THEN iffD1, THEN conjunct2, THEN conjunct2, THEN conjunct2]

lemma unlink_siblings:
  assumes c: "column_at N c rows sib ns" and r: "r \<in> set rows"
  shows "for_nodes right r (\<lambda>j ns. Some (unlink_row j ns)) (right ns r) ns
      = Some (fold unlink_row (sib r) ns) \<and> column_at N c rows sib (fold unlink_row (sib r) ns)"
proof (rule for_nodes_ring[where prv=left and P=\<open>column_at N c rows sib\<close>, OF c])
  show "ring (right ns) (left ns) r (sib r)" if "column_at N c rows sib ns" for ns
    using that r by (simp add: column_at_def)
  show "Some (unlink_row y ns) = Some (unlink_row y ns) \<and> column_at N c rows sib (unlink_row y ns)"
    if "y \<in> set (sib r)" "column_at N c rows sib ns" for y ns
    using that r column_at_sib[OF that(2)] by (auto intro: column_at_unlink_row)
qed

lemma relink_siblings:
  assumes c: "column_at N c rows sib ns" and r: "r \<in> set rows"
  shows "for_nodes left r (\<lambda>j ns. Some (relink_row j ns)) (left ns r) ns
      = Some (fold relink_row (rev (sib r)) ns)
    \<and> column_at N c rows sib (fold relink_row (rev (sib r)) ns)"
proof (rule for_nodes_ring[where prv=right and P=\<open>column_at N c rows sib\<close>, OF c])
  show "ring (left ns) (right ns) r (rev (sib r))" if "column_at N c rows sib ns" for ns
    using that r by (simp add: column_at_def ring_rev)
  show "Some (relink_row y ns) = Some (relink_row y ns) \<and> column_at N c rows sib (relink_row y ns)"
    if "y \<in> set (rev (sib r))" "column_at N c rows sib ns" for y ns
    using that r column_at_sib[OF that(2)] by (auto intro: column_at_relink_row)
qed

lemma cover_fold:
  assumes "column_at N c rows sib (unlink_column c ns)"
  shows "cover c ns = Some (fold unlink_row (cover_seq rows sib) (unlink_column c ns))
    \<and> column_at N c rows sib (fold unlink_row (cover_seq rows sib) (unlink_column c ns))"
  unfolding cover_def Let_def cover_seq_def fold_concat_map
proof (rule for_nodes_ring[where prv=up and P=\<open>column_at N c rows sib\<close>, OF assms])
  show "ring (down ns) (up ns) c rows" if "column_at N c rows sib ns" for ns
    using that by (simp add: column_at_def)
qed (rule unlink_siblings)

lemma uncover_fold:
  assumes "column_at N c rows sib ns"
  shows "uncover c ns = Some (relink_column c (fold relink_row (rev (cover_seq rows sib)) ns))"
proof -
  have "for_nodes up c (\<lambda>row ns. for_nodes left row (\<lambda>j ns. Some (relink_row j ns)) (left ns row) ns)
      (up ns c) ns = Some (fold (\<lambda>r. fold relink_row (rev (sib r))) (rev rows) ns)
    \<and> column_at N c rows sib (fold (\<lambda>r. fold relink_row (rev (sib r))) (rev rows) ns)"
  proof (rule for_nodes_ring[where prv=down and P=\<open>column_at N c rows sib\<close>, OF assms])
    show "ring (up ns) (down ns) c (rev rows)" if "column_at N c rows sib ns" for ns
      using that by (simp add: column_at_def ring_rev)
  qed (simp add: relink_siblings)
  then show ?thesis
    by (simp add: uncover_def cover_seq_def rev_concat rev_map[symmetric] fold_concat_map[symmetric] comp_def)
qed

theorem uncover_cover:
  assumes "column_at N c rows sib (unlink_column c ns)"
    and "right ns (left ns c) = c" and "left ns (right ns c) = c"
    and "distinct (cover_seq rows sib)"
    and "\<And>j. j \<in> set (cover_seq rows sib) \<Longrightarrow> linked ns j"
    and "cover c ns = Some ns'"
  shows "uncover c ns' = Some ns"
proof -
  have "uncover c ns' = Some (relink_column c (fold relink_row (rev (cover_seq rows sib)) ns'))"
    using cover_fold[OF assms(1)] assms(6) by (auto intro: uncover_fold)
  then show ?thesis
    using cover_fold[OF assms(1)] assms by (simp add: relink_unlink_rows relink_unlink_column)
qed

section \<open>The exact cover problem in the heap\<close>

text \<open>
  An option is the list of the nodes of one row, in the order of the \<open>right\<close> field. Given the
  active columns \<open>cs\<close>, the active options are those all of whose columns are active, and these are
  the rows every active column holds.
\<close>

definition sibs :: "nat list \<Rightarrow> nat \<Rightarrow> nat list" where
  "sibs w r = tl (dropWhile (\<lambda>x. x \<noteq> r) w) @ takeWhile (\<lambda>x. x \<noteq> r) w"

definition opt_of :: "nat list list \<Rightarrow> nat \<Rightarrow> nat list" where
  "opt_of opts n = hd (filter (\<lambda>w. n \<in> set w) opts)"

definition active :: "Nodes \<Rightarrow> nat list list \<Rightarrow> nat list \<Rightarrow> nat list list" where
  "active ns opts cs = filter (\<lambda>w. col ns ` set w \<subseteq> set cs) opts"

definition rows_of :: "Nodes \<Rightarrow> nat list list \<Rightarrow> nat list \<Rightarrow> nat \<Rightarrow> nat list" where
  "rows_of ns opts cs c = filter (\<lambda>n. col ns n = c) (concat (active ns opts cs))"

definition option_ok :: "nat list \<Rightarrow> Nodes \<Rightarrow> nat list \<Rightarrow> bool" where
  "option_ok H ns w \<longleftrightarrow> w \<noteq> [] \<and> ring (right ns) (left ns) (hd w) (tl w) \<and>
     distinct (map (col ns) w) \<and> col ns ` set w \<subseteq> set H"

definition represents :: "nat \<Rightarrow> nat list \<Rightarrow> nat list list \<Rightarrow> nat list \<Rightarrow> Nodes \<Rightarrow> bool" where
  "represents rt H opts cs ns \<longleftrightarrow>
     distinct (rt # H @ concat opts) \<and> set cs \<subseteq> set H \<and> ring (right ns) (left ns) rt cs \<and>
     (\<forall>w\<in>set opts. option_ok H ns w) \<and> (\<forall>h\<in>set H. col ns h = h) \<and>
     col_closed (set H \<union> set (concat opts)) ns \<and>
     (\<forall>c\<in>set cs. ring (down ns) (up ns) c (rows_of ns opts cs c) \<and>
        nsize ns c = int (length (rows_of ns opts cs c)))"

lemma distinct_concat_map:
  assumes "distinct xs" and "\<And>x. x \<in> set xs \<Longrightarrow> distinct (f x)"
    and "\<And>x y. x \<in> set xs \<Longrightarrow> y \<in> set xs \<Longrightarrow> x \<noteq> y \<Longrightarrow> set (f x) \<inter> set (f y) = {}"
  shows "distinct (concat (map f xs))"
  using assms by (induction xs) fastforce+

lemma distinct_concat_same:
  assumes "distinct (concat xss)" and "xs \<in> set xss" and "ys \<in> set xss" and "x \<in> set xs" and "x \<in> set ys"
  shows "xs = ys"
  using assms by (induction xss) auto

lemma opt_of_eq:
  assumes "distinct (concat opts)" and "w \<in> set opts" and "n \<in> set w"
  shows "opt_of opts n = w"
proof -
  have "filter (\<lambda>w. n \<in> set w) opts \<noteq> []" using assms by (auto simp: filter_empty_conv)
  then have "opt_of opts n \<in> set (filter (\<lambda>w. n \<in> set w) opts)" unfolding opt_of_def by (rule hd_in_set)
  then show ?thesis using distinct_concat_same[OF assms(1)] assms(2,3) by auto
qed

lemma sibs_split: "r \<notin> set as \<Longrightarrow> sibs (as @ r # bs) r = bs @ as"
proof -
  assume "r \<notin> set as"
  then have "\<And>x. x \<in> set as \<Longrightarrow> x \<noteq> r" by auto
  then show ?thesis by (simp add: sibs_def)
qed

lemma sibs_ring:
  assumes "r \<in> set w" and "ring f g (hd w) (tl w)"
  shows "ring f g r (sibs w r)"
proof -
  obtain as bs where w: "w = as @ r # bs" and r: "r \<notin> set as"
    using assms(1) by (meson split_list_first)
  show ?thesis
  proof (cases as)
    case Nil
    then show ?thesis using assms(2) w sibs_split[OF r, of bs] by simp
  next
    case (Cons a as')
    then show ?thesis using assms(2) w ring_rotate[of f g a as' r bs] sibs_split[OF r, of bs] by simp
  qed
qed

lemma sibs_set: "distinct w \<Longrightarrow> r \<in> set w \<Longrightarrow> set (sibs w r) = set w - {r} \<and> distinct (sibs w r)"
proof -
  assume "distinct w" "r \<in> set w"
  moreover then obtain as bs where "w = as @ r # bs" by (meson split_list)
  ultimately show ?thesis by (auto simp: sibs_split)
qed

lemma unlink_rows_ring:
  assumes "ring (down ns) (up ns) c ys" and "col_closed N ns" and "set js \<subseteq> N" and "distinct js"
    and "\<And>y. y \<in> insert c (set ys) \<Longrightarrow> col ns y = c"
    and "\<And>j. j \<in> set js \<Longrightarrow> col ns j = c \<Longrightarrow> j \<in> set ys"
    and "nsize ns c = int (length ys)"
  shows "ring (down (fold unlink_row js ns)) (up (fold unlink_row js ns)) c (filter (\<lambda>y. y \<notin> set js) ys)
     \<and> nsize (fold unlink_row js ns) c = int (length (filter (\<lambda>y. y \<notin> set js) ys))"
  using assms
proof (induction js arbitrary: ns ys)
  case (Cons j js)
  let ?n = "unlink_row j ns"
  have cl: "col_closed N ?n" using Cons.prems by (auto intro: closed_unlink_row)
  show ?case
  proof (cases "col ns j = c")
    case True
    then have j: "j \<in> set ys" using Cons.prems(6) by simp
    have d: "distinct ys" using Cons.prems(1) by (simp add: ring_def)
    have r1: "remove1 j ys = filter (\<lambda>y. y \<noteq> j) ys"
      using d by (simp add: distinct_remove1_removeAll removeAll_filter_not_eq eq_commute)
    have "ring (down ?n) (up ?n) c (remove1 j ys)"
      using ring_remove[OF Cons.prems(1) j] by simp
    moreover have "nsize ?n c = int (length (remove1 j ys))"
      using True j Cons.prems(7) length_pos_if_in_set[OF j]
      by (cases "length ys") (simp_all add: length_remove1)
    ultimately have "ring (down (fold unlink_row js ?n)) (up (fold unlink_row js ?n)) c
        (filter (\<lambda>y. y \<notin> set js) (remove1 j ys))
      \<and> nsize (fold unlink_row js ?n) c = int (length (filter (\<lambda>y. y \<notin> set js) (remove1 j ys)))"
      using Cons.prems d cl by (intro Cons.IH) (auto simp del: fun_upd_apply)
    then show ?thesis by (simp add: r1 conj_commute)
  next
    case False
    then have "col ns (up ns j) \<noteq> c" "col ns (down ns j) \<noteq> c"
      using Cons.prems(2,3) by (auto simp: col_closed_def)
    then have "ring (down ?n) (up ?n) c ys"
      using Cons.prems(1,5) by (subst ring_cong[of c ys _ "down ns" _ "up ns"]) auto
    moreover have "nsize ?n c = int (length ys)" using False Cons.prems(7) by auto
    ultimately have "ring (down (fold unlink_row js ?n)) (up (fold unlink_row js ?n)) c
        (filter (\<lambda>y. y \<notin> set js) ys)
      \<and> nsize (fold unlink_row js ?n) c = int (length (filter (\<lambda>y. y \<notin> set js) ys))"
      using Cons.prems False cl by (intro Cons.IH) (auto simp del: fun_upd_apply)
    moreover have "filter (\<lambda>y. y \<notin> set (j # js)) ys = filter (\<lambda>y. y \<notin> set js) ys"
      using False Cons.prems(5) by (intro filter_cong) auto
    ultimately show ?thesis by simp
  qed
qed simp

lemma representsD:
  assumes "represents rt H opts cs ns"
  shows "distinct (rt # H @ concat opts)" and "set cs \<subseteq> set H" and "ring (right ns) (left ns) rt cs"
    and "\<And>w. w \<in> set opts \<Longrightarrow> option_ok H ns w" and "\<And>h. h \<in> set H \<Longrightarrow> col ns h = h"
    and "col_closed (set H \<union> set (concat opts)) ns"
    and "\<And>c. c \<in> set cs \<Longrightarrow> ring (down ns) (up ns) c (rows_of ns opts cs c)"
    and "\<And>c. c \<in> set cs \<Longrightarrow> nsize ns c = int (length (rows_of ns opts cs c))"
  using assms by (auto simp: represents_def)

lemma rows_of_iff:
  "r \<in> set (rows_of ns opts cs c) \<longleftrightarrow>
     (\<exists>w\<in>set opts. r \<in> set w \<and> col ns r = c \<and> col ns ` set w \<subseteq> set cs)"
  by (auto simp: rows_of_def active_def)

lemma rows_of_opt:
  assumes R: "represents rt H opts cs ns" and r: "r \<in> set (rows_of ns opts cs c)"
  shows "opt_of opts r \<in> set opts" and "r \<in> set (opt_of opts r)" and "col ns r = c"
    and "col ns ` set (opt_of opts r) \<subseteq> set cs"
    and "set (sibs (opt_of opts r) r) = set (opt_of opts r) - {r}"
    and "distinct (sibs (opt_of opts r) r)"
    and "\<And>j. j \<in> set (sibs (opt_of opts r) r) \<Longrightarrow> col ns j \<noteq> c"
proof -
  obtain w where w: "w \<in> set opts" "r \<in> set w" "col ns r = c" "col ns ` set w \<subseteq> set cs"
    using r by (auto simp: rows_of_iff)
  then have o: "opt_of opts r = w" using representsD(1)[OF R] by (auto intro: opt_of_eq)
  have "distinct (map (col ns) w)" using representsD(4)[OF R w(1)] by (simp add: option_ok_def)
  then have d: "distinct w" "inj_on (col ns) (set w)" by (simp_all add: distinct_map)
  show "opt_of opts r \<in> set opts" and "r \<in> set (opt_of opts r)" and "col ns r = c"
    and "col ns ` set (opt_of opts r) \<subseteq> set cs" using w o by simp_all
  show s: "set (sibs (opt_of opts r) r) = set (opt_of opts r) - {r}"
    and "distinct (sibs (opt_of opts r) r)" using sibs_set[OF d(1) w(2)] o by simp_all
  show "col ns j \<noteq> c" if "j \<in> set (sibs (opt_of opts r) r)" for j
    using that s d(2) w o by (auto dest: inj_onD)
qed

lemma rows_of_sibs_linked:
  assumes R: "represents rt H opts cs ns" and r: "r \<in> set (rows_of ns opts cs c)"
    and j: "j \<in> set (sibs (opt_of opts r) r)"
  shows "linked ns j"
proof -
  have "j \<in> set (opt_of opts r)" using j rows_of_opt(5)[OF R r] by simp
  then have c: "col ns j \<in> set cs" and "j \<in> set (rows_of ns opts cs (col ns j))"
    using rows_of_opt(1,4)[OF R r] by (auto simp: rows_of_iff)
  then show ?thesis
    using ring_closed(3,4)[OF representsD(7)[OF R c], of j] by (simp add: linked_def)
qed

definition row_sibs :: "nat list list \<Rightarrow> nat \<Rightarrow> nat list" where
  "row_sibs opts r = sibs (opt_of opts r) r"

lemma cover_seq_distinct:
  assumes R: "represents rt H opts cs ns"
  shows "distinct (cover_seq (rows_of ns opts cs c) (row_sibs opts))"
  unfolding cover_seq_def
proof (rule distinct_concat_map)
  have "distinct (concat opts)" using representsD(1)[OF R] by simp
  then show "distinct (rows_of ns opts cs c)"
    by (auto simp: rows_of_def active_def intro!: distinct_filter) (induction opts; auto)
  show "distinct (row_sibs opts r)" if "r \<in> set (rows_of ns opts cs c)" for r
    using rows_of_opt(6)[OF R that] by (simp add: row_sibs_def)
  show "set (row_sibs opts r) \<inter> set (row_sibs opts r') = {}"
    if r: "r \<in> set (rows_of ns opts cs c)" "r' \<in> set (rows_of ns opts cs c)" and "r \<noteq> r'" for r r'
  proof (cases "opt_of opts r = opt_of opts r'")
    case True
    then have "r' \<in> set (sibs (opt_of opts r) r)"
      using rows_of_opt(2)[OF R r(2)] rows_of_opt(5)[OF R r(1)] that(3) by auto
    then show ?thesis using rows_of_opt(7)[OF R r(1)] rows_of_opt(3)[OF R r(2)] by auto
  next
    case False
    then show ?thesis
      using distinct_concat_same[OF \<open>distinct (concat opts)\<close> rows_of_opt(1)[OF R r(1)] rows_of_opt(1)[OF R r(2)]]
        rows_of_opt(5)[OF R r(1)] rows_of_opt(5)[OF R r(2)] by (auto simp: row_sibs_def)
  qed
qed

lemma header_neighbours:
  assumes R: "represents rt H opts cs ns" and c: "c \<in> set cs"
  shows "left ns c \<in> insert rt (set cs)" and "right ns c \<in> insert rt (set cs)"
    and "right ns (left ns c) = c" and "left ns (right ns c) = c"
  using ring_closed[OF representsD(3)[OF R], of c] c by auto

lemma option_ok_unlink_column:
  assumes R: "represents rt H opts cs ns" and c: "c \<in> set cs" and w: "w \<in> set opts"
  shows "option_ok H (unlink_column c ns) w"
proof -
  have ok: "option_ok H ns w" by (rule representsD(4)[OF R w])
  have "n \<noteq> left ns c \<and> n \<noteq> right ns c" if "n \<in> set w" for n
    using header_neighbours(1,2)[OF R c] representsD(1,2)[OF R] that w by auto
  then have "left ns c \<notin> set w" "right ns c \<notin> set w" by auto
  then have "ring (right (unlink_column c ns)) (left (unlink_column c ns)) (hd w) (tl w)
      \<longleftrightarrow> ring (right ns) (left ns) (hd w) (tl w)"
    using ok by (intro ring_cong) (auto simp: option_ok_def dest: list.set_sel)
  then show ?thesis using ok by (simp add: option_ok_def)
qed

lemma represents_column_at:
  assumes R: "represents rt H opts cs ns" and c: "c \<in> set cs"
  shows "column_at (set H \<union> set (concat opts)) c (rows_of ns opts cs c) (row_sibs opts) (unlink_column c ns)"
proof -
  have "ring (right (unlink_column c ns)) (left (unlink_column c ns)) r (row_sibs opts r)"
    if "r \<in> set (rows_of ns opts cs c)" for r
    using option_ok_unlink_column[OF R c rows_of_opt(1)[OF R that]] rows_of_opt(2)[OF R that]
    unfolding row_sibs_def option_ok_def by (blast intro: sibs_ring)
  moreover have "j \<in> set H \<union> set (concat opts) \<and> col ns j \<noteq> c"
    if "r \<in> set (rows_of ns opts cs c)" "j \<in> set (row_sibs opts r)" for r j
    using that rows_of_opt(1,5,7)[OF R that(1)] by (auto simp: row_sibs_def)
  ultimately show ?thesis
    using representsD(6)[OF R] representsD(7)[OF R c] representsD(2,5)[OF R] c
    by (auto simp: column_at_def col_closed_def rows_of_iff)
qed

lemma remove1_filter: "distinct xs \<Longrightarrow> remove1 x xs = filter (\<lambda>y. y \<noteq> x) xs"
  by (simp add: distinct_remove1_removeAll removeAll_filter_not_eq eq_commute)

lemma filter_concat_filter:
  "filter P (concat (filter Q xss)) = concat (map (\<lambda>xs. if Q xs then filter P xs else []) xss)"
  by (induction xss) auto

lemma rows_of_cover:
  assumes R: "represents rt H opts cs ns" and c': "c' \<noteq> c"
  shows "filter (\<lambda>y. y \<notin> set (cover_seq (rows_of ns opts cs c) (row_sibs opts))) (rows_of ns opts cs c')
    = rows_of ns opts (filter (\<lambda>x. x \<noteq> c) cs) c'"
proof -
  let ?js = "set (cover_seq (rows_of ns opts cs c) (row_sibs opts))"
  have d: "distinct (concat opts)" using representsD(1)[OF R] by simp
  have js: "n \<in> ?js \<longleftrightarrow> c \<in> col ns ` set w"
    if w: "w \<in> set opts" "col ns ` set w \<subseteq> set cs" and n: "n \<in> set w" "col ns n = c'" for w n
  proof
    assume "n \<in> ?js"
    then obtain r where r: "r \<in> set (rows_of ns opts cs c)" "n \<in> set (row_sibs opts r)"
      by (auto simp: cover_seq_def)
    then have "n \<in> set (opt_of opts r)" using rows_of_opt(5)[OF R r(1)] by (simp add: row_sibs_def)
    then have "opt_of opts r = w"
      using distinct_concat_same[OF d rows_of_opt(1)[OF R r(1)] w(1)] n(1) by simp
    then show "c \<in> col ns ` set w" using rows_of_opt(2,3)[OF R r(1)] by auto
  next
    assume "c \<in> col ns ` set w"
    then obtain r where r: "r \<in> set w" "col ns r = c" by auto
    then have m: "r \<in> set (rows_of ns opts cs c)" using w by (auto simp: rows_of_iff)
    have "n \<in> set (row_sibs opts r)"
      using rows_of_opt(5)[OF R m] opt_of_eq[OF d w(1) r(1)] n c' r by (auto simp: row_sibs_def)
    then show "n \<in> ?js" using m by (auto simp: cover_seq_def)
  qed
  have "(if col ns ` set w \<subseteq> set cs then filter (\<lambda>x. col ns x = c' \<and> x \<notin> ?js) w else [])
      = (if col ns ` set w \<subseteq> set (filter (\<lambda>x. x \<noteq> c) cs) then filter (\<lambda>x. col ns x = c') w else [])"
    if w: "w \<in> set opts" for w
  proof (cases "col ns ` set w \<subseteq> set cs")
    case True
    then have "filter (\<lambda>x. col ns x = c' \<and> x \<notin> ?js) w
        = (if c \<in> col ns ` set w then [] else filter (\<lambda>x. col ns x = c') w)"
      using js[OF w True] by (auto simp: filter_empty_conv intro!: filter_cong)
    then show ?thesis using True by auto
  qed auto
  then show ?thesis
    unfolding rows_of_def[of ns opts _ c'] active_def filter_filter unfolding filter_concat_filter
    by (intro arg_cong[where f=concat] map_cong refl)
qed

theorem cover_represents:
  assumes R: "represents rt H opts cs ns" and c: "c \<in> set cs"
  shows "\<exists>ns'. cover c ns = Some ns' \<and> uncover c ns' = Some ns \<and>
     represents rt H opts (filter (\<lambda>x. x \<noteq> c) cs) ns' \<and> col ns' = col ns \<and> name ns' = name ns \<and>
     ring (down ns') (up ns') c (rows_of ns opts cs c)"
proof -
  let ?js = "cover_seq (rows_of ns opts cs c) (row_sibs opts)" and ?N = "set H \<union> set (concat opts)"
  let ?ns = "fold unlink_row ?js (unlink_column c ns)"
  note at = represents_column_at[OF R c]
  have cov: "cover c ns = Some ?ns" and at': "column_at ?N c (rows_of ns opts cs c) (row_sibs opts) ?ns"
    using cover_fold[OF at] by simp_all
  have lk: "linked ns j" if "j \<in> set ?js" for j
    using that rows_of_sibs_linked[OF R] by (auto simp: cover_seq_def row_sibs_def)
  have jN: "set ?js \<subseteq> ?N" using column_at_sib[OF at] unfolding cover_seq_def set_concat set_map by blast
  have un: "uncover c ?ns = Some ns"
    using uncover_cover[OF at header_neighbours(3,4)[OF R c] cover_seq_distinct[OF R] lk cov] .
  have dc: "distinct cs" using representsD(3)[OF R] by (simp add: ring_def)
  have r: "ring (right ?ns) (left ?ns) rt (filter (\<lambda>x. x \<noteq> c) cs)"
    using ring_remove[OF representsD(3)[OF R] c] remove1_filter[OF dc] by (simp del: fun_upd_apply)
  have "ring (down ?ns) (up ?ns) c' (rows_of ?ns opts (filter (\<lambda>x. x \<noteq> c) cs) c') \<and>
      nsize ?ns c' = int (length (rows_of ?ns opts (filter (\<lambda>x. x \<noteq> c) cs) c'))"
    if c': "c' \<in> set cs" "c' \<noteq> c" for c'
  proof -
    have "j \<in> set (rows_of ns opts cs c')" if "j \<in> set ?js" "col ns j = c'" for j
    proof -
      obtain q where q: "q \<in> set (rows_of ns opts cs c)" "j \<in> set (row_sibs opts q)"
        using \<open>j \<in> set ?js\<close> by (auto simp: cover_seq_def)
      then show ?thesis using rows_of_opt(1,4,5)[OF R q(1)] that(2)
        by (auto simp: rows_of_iff row_sibs_def)
    qed
    then have "ring (down ?ns) (up ?ns) c' (filter (\<lambda>y. y \<notin> set ?js) (rows_of ns opts cs c')) \<and>
        nsize ?ns c' = int (length (filter (\<lambda>y. y \<notin> set ?js) (rows_of ns opts cs c')))"
      using representsD(7,8)[OF R c'(1)] representsD(2,5,6)[OF R] jN cover_seq_distinct[OF R] c'(1)
      by (intro unlink_rows_ring[where N="?N"]) (auto simp: col_closed_def rows_of_iff)
    moreover have "rows_of ?ns opts = rows_of ns opts"
      by (intro ext) (simp add: rows_of_def active_def)
    ultimately show ?thesis by (simp only: rows_of_cover[OF R c'(2)])
  qed
  moreover have "option_ok H ?ns w" if "w \<in> set opts" for w
    using option_ok_unlink_column[OF R c that] by (simp add: option_ok_def)
  ultimately have "represents rt H opts (filter (\<lambda>x. x \<noteq> c) cs) ?ns"
    using representsD(1,2,5)[OF R] r at' unfolding represents_def column_at_def by auto
  then show ?thesis using cov un at' by (auto simp: column_at_def)
qed

section \<open>Covering the columns of a chosen row\<close>

text \<open>
  The loops of \<open>solve\<close> that cover and uncover the siblings of a row change the heap between two
  steps of the traversal. Both run through the same sequence of heaps, in opposite directions.
\<close>

lemma for_nodes_states:
  assumes ring: "\<And>i. i \<le> length ys \<Longrightarrow> ring (nxt (st i)) (prv (st i)) c ys"
    and body: "\<And>i. i < length ys \<Longrightarrow> body (ys ! i) (st i) = Some (st (Suc i))"
  shows "for_nodes nxt c body (nxt (st 0) c) (st 0) = Some (st (length ys))"
proof -
  have "k \<le> length ys \<Longrightarrow>
      for_nodes nxt c body (hd (drop k ys @ [c])) (st k) = Some (st (length ys))" for k
  proof (induction "length ys - k" arbitrary: k)
    case 0
    then show ?case by (simp add: for_nodes.simps)
  next
    case (Suc n)
    then have k: "k < length ys" by simp
    have ys: "ys = take k ys @ ys ! k # drop (Suc k) ys" using k by (simp add: id_take_nth_drop)
    have r: "ring (nxt (st (Suc k))) (prv (st (Suc k))) c (take k ys @ ys ! k # drop (Suc k) ys)"
      using ring[of "Suc k"] k ys by simp
    have "ys ! k \<noteq> c" using ring[of k] k by (auto simp: ring_def)
    then show ?case using Suc.hyps(1)[of "Suc k"] Suc.hyps(2) k body[OF k] ring_next[OF r]
      by (simp add: for_nodes.simps[of _ _ _ "ys ! k"] Cons_nth_drop_Suc[symmetric])
  qed
  from this[of 0] show ?thesis using ring_fst[OF ring[of 0]] by simp
qed

fun cover_state :: "(nat \<Rightarrow> nat) \<Rightarrow> nat list \<Rightarrow> Nodes \<Rightarrow> nat \<Rightarrow> Nodes" where
  "cover_state k js ns 0 = ns"
| "cover_state k js ns (Suc i) = the (cover (k (js ! i)) (cover_state k js ns i))"

lemma cover_states:
  assumes R: "represents rt H opts cs ns" and d: "distinct (map (col ns) js)"
    and js: "col ns ` set js \<subseteq> set cs" and i: "i \<le> length js"
  shows "represents rt H opts (filter (\<lambda>c. c \<notin> col ns ` set (take i js)) cs) (cover_state (col ns) js ns i)
    \<and> col (cover_state (col ns) js ns i) = col ns \<and> name (cover_state (col ns) js ns i) = name ns
    \<and> (\<forall>k<i. cover (col ns (js ! k)) (cover_state (col ns) js ns k) = Some (cover_state (col ns) js ns (Suc k))
        \<and> uncover (col ns (js ! k)) (cover_state (col ns) js ns (Suc k)) = Some (cover_state (col ns) js ns k))"
  using i
proof (induction i)
  case 0
  then show ?case using R by simp
next
  case (Suc i)
  let ?cs = "filter (\<lambda>c. c \<notin> col ns ` set (take i js)) cs" and ?st = "cover_state (col ns) js ns"
  have IH: "represents rt H opts ?cs (?st i)" "col (?st i) = col ns" "name (?st i) = name ns"
    using Suc by auto
  have "col ns (js ! i) \<in> set cs" using js Suc.prems by auto
  moreover have "col ns (js ! i) \<notin> col ns ` set (take i js)"
    using d Suc.prems nth_eq_iff_index_eq[OF d] by (auto simp: in_set_conv_nth)
  ultimately have "col ns (js ! i) \<in> set ?cs" by simp
  from cover_represents[OF IH(1) this]
  obtain ns' where c: "cover (col ns (js ! i)) (?st i) = Some ns'"
    "uncover (col ns (js ! i)) ns' = Some (?st i)"
    "represents rt H opts (filter (\<lambda>x. x \<noteq> col ns (js ! i)) ?cs) ns'"
    "col ns' = col ns" "name ns' = name ns" using IH by auto
  moreover have "filter (\<lambda>x. x \<noteq> col ns (js ! i)) ?cs = filter (\<lambda>c. c \<notin> col ns ` set (take (Suc i) js)) cs"
    using Suc.prems by (auto simp: take_Suc_conv_app_nth intro!: filter_cong)
  ultimately show ?case using Suc by (auto simp: less_Suc_eq)
qed

lemma cover_siblings:
  assumes R: "represents rt H opts cs ns" and w: "w \<in> set opts" and r: "r \<in> set w"
    and cs: "col ns ` (set w - {r}) \<subseteq> set cs"
  shows "\<exists>ns'. for_nodes right r (\<lambda>j ns. cover (col ns j) ns) (right ns r) ns = Some ns' \<and>
     for_nodes left r (\<lambda>j ns. uncover (col ns j) ns) (left ns' r) ns' = Some ns \<and>
     represents rt H opts (filter (\<lambda>c. c \<notin> col ns ` (set w - {r})) cs) ns' \<and>
     col ns' = col ns \<and> name ns' = name ns"
proof -
  let ?js = "sibs w r" let ?n = "length ?js" let ?st = "cover_state (col ns) ?js ns"
  have dw: "distinct (map (col ns) w)" using representsD(4)[OF R w] by (simp add: option_ok_def)
  then have s: "set ?js = set w - {r}" "distinct ?js" using sibs_set[of w r] r by (auto simp: distinct_map)
  have d: "distinct (map (col ns) ?js)" using dw s by (auto simp: distinct_map intro: inj_on_subset)
  have sub: "col ns ` set ?js \<subseteq> set cs" using cs s by simp
  note st = cover_states[OF R d sub]
  have ring: "ring (right (?st i)) (left (?st i)) r ?js" if "i \<le> ?n" for i
    using st[OF that] representsD(4)[OF _ w] r by (auto simp: option_ok_def intro: sibs_ring)
  have "for_nodes right r (\<lambda>j ns. cover (col ns j) ns) (right (?st 0) r) (?st 0) = Some (?st ?n)"
    by (rule for_nodes_states[where prv=left and st="?st"]) (use ring st in auto)
  moreover have "for_nodes left r (\<lambda>j ns. uncover (col ns j) ns) (left (?st (?n - 0)) r) (?st (?n - 0))
      = Some (?st (?n - length (rev ?js)))"
  proof (rule for_nodes_states[where prv=right and st="\<lambda>i. ?st (?n - i)"])
    show "ring (left (?st (?n - i))) (right (?st (?n - i))) r (rev ?js)" for i
      using ring[of "?n - i"] by (simp add: ring_rev)
    fix i assume i: "i < length (rev ?js)"
    have "uncover (col ns (?js ! (?n - Suc i))) (?st (Suc (?n - Suc i))) = Some (?st (?n - Suc i))"
      using st[of ?n] i by auto
    moreover have "col (?st (?n - i)) = col ns" using st[of "?n - i"] by simp
    ultimately show "uncover (col (?st (?n - i)) (rev ?js ! i)) (?st (?n - i)) = Some (?st (?n - Suc i))"
      using i by (simp add: rev_nth Suc_diff_Suc del: cover_state.simps)
  qed
  ultimately show ?thesis using st[of ?n] s by (intro exI[of _ "?st ?n"]) simp
qed

section \<open>Exact covers\<close>

text \<open>
  \<open>exact_cover K A S ws\<close>: the options \<open>ws\<close> are chosen from \<open>A\<close>, and their sets of columns \<open>K\<close>
  partition \<open>S\<close>.
\<close>

fun exact_cover :: "('w \<Rightarrow> 'c set) \<Rightarrow> 'w set \<Rightarrow> 'c set \<Rightarrow> 'w list \<Rightarrow> bool" where
  "exact_cover K A S [] \<longleftrightarrow> S = {}"
| "exact_cover K A S (w # ws) \<longleftrightarrow> w \<in> A \<and> K w \<subseteq> S \<and> exact_cover K A (S - K w) ws"

lemma exact_cover_choose:
  assumes "exact_cover K A S ws" and "c \<in> S"
  shows "\<exists>w ws'. w \<in> A \<and> c \<in> K w \<and> K w \<subseteq> S \<and> exact_cover K A (S - K w) ws'"
  using assms
proof (induction ws arbitrary: S)
  case (Cons v ws)
  show ?case
  proof (cases "c \<in> K v")
    case True
    then show ?thesis using Cons.prems by auto
  next
    case False
    then obtain w ws' where w: "w \<in> A" "c \<in> K w" "K w \<subseteq> S - K v" "exact_cover K A (S - K v - K w) ws'"
      using Cons.IH[of "S - K v"] Cons.prems by auto
    have "S - K v - K w = S - K w - K v" by auto
    then have "exact_cover K A (S - K w) (v # ws')" using w Cons.prems by auto
    then show ?thesis using w by blast
  qed
qed simp

lemma exact_cover_sub: "exact_cover K A S ws \<Longrightarrow> set ws \<subseteq> A \<and> S = (\<Union>w\<in>set ws. K w)"
  by (induction ws arbitrary: S) auto

lemma exact_cover_disjoint: "exact_cover K A S (w # ws) \<Longrightarrow> v \<in> set ws \<Longrightarrow> K v \<inter> K w = {}"
  using exact_cover_sub[of K A "S - K w" ws] by auto

section \<open>Building the heap\<close>

lemma ring_insert:
  assumes r: "ring f g c xs" and y: "y \<notin> insert c (set xs)"
  shows "ring (f(y := c, g c := y)) (g(y := g c, c := y)) c (xs @ [y])"
proof (cases xs rule: rev_cases)
  case Nil
  then show ?thesis using r y by (auto simp: ring_def)
next
  case (snoc as z)
  then have p: "dpath f g c as z" "g c = z" "f z = c" and d: "distinct (c # as @ [z])"
    using r by (auto simp: ring_def)
  have "dpath (f(y := c, z := y)) (g(y := z, c := y)) c as z"
    using p(1) d y snoc by (subst dpath_cong[of c as _ f z _ g]) auto
  then show ?thesis using p d y snoc by (auto simp: ring_def)
qed

lemma put_left_simps [simp]:
  assumes "nnew \<noteq> old"
  shows "up (put_left old nnew ns) = up ns" "down (put_left old nnew ns) = down ns"
    "col (put_left old nnew ns) = col ns" "name (put_left old nnew ns) = name ns"
    "nsize (put_left old nnew ns) = nsize ns"
    "left (put_left old nnew ns) = (left ns)(nnew := left ns old, old := nnew)"
    "right (put_left old nnew ns) = (right ns)(nnew := old, left ns old := nnew)"
  using assms by (auto simp: put_left_def)

lemma put_up_simps [simp]:
  assumes "nnew \<noteq> old"
  shows "left (put_up old nnew ns) = left ns" "right (put_up old nnew ns) = right ns"
    "col (put_up old nnew ns) = (col ns)(nnew := old)" "name (put_up old nnew ns) = name ns"
    "nsize (put_up old nnew ns) = (nsize ns)(old := nsize ns old + 1)"
    "up (put_up old nnew ns) = (up ns)(nnew := up ns old, old := nnew)"
    "down (put_up old nnew ns) = (down ns)(nnew := old, up ns old := nnew)"
  using assms by (auto simp: put_up_def)

lemma node_init_simps [simp]:
  "left (node_init n c nm ns) = (left ns)(n := n)" "right (node_init n c nm ns) = (right ns)(n := n)"
  "up (node_init n c nm ns) = (up ns)(n := n)" "down (node_init n c nm ns) = (down ns)(n := n)"
  "col (node_init n c nm ns) = (col ns)(n := c)" "name (node_init n c nm ns) = (name ns)(n := nm)"
  "nsize (node_init n c nm ns) = (nsize ns)(n := 0)"
  by (simp_all add: node_init_def)

text \<open>
  \<open>grown H N R ns\<close>: the nodes in use are \<open>N\<close>, and the column with header \<open>c\<close> holds \<open>R c\<close>. It is the
  vertical half of \<open>represents\<close>, which holds while an option is only partly linked.
\<close>

definition grown :: "nat list \<Rightarrow> nat set \<Rightarrow> (nat \<Rightarrow> nat list) \<Rightarrow> Nodes \<Rightarrow> bool" where
  "grown H N R ns \<longleftrightarrow> set H \<subseteq> N \<and> col_closed N ns \<and> (\<forall>n\<in>N. up ns n \<in> N \<and> down ns n \<in> N) \<and>
     (\<forall>c\<in>set H. ring (down ns) (up ns) c (R c) \<and> nsize ns c = int (length (R c)) \<and>
        col ns c = c \<and> set (R c) \<subseteq> N \<and> (\<forall>n\<in>set (R c). col ns n = c))"

lemma grownD:
  assumes "grown H N R ns"
  shows "set H \<subseteq> N" and "\<And>n. n \<in> N \<Longrightarrow> col ns (up ns n) = col ns n \<and> col ns (down ns n) = col ns n"
    and "\<And>c. c \<in> set H \<Longrightarrow> ring (down ns) (up ns) c (R c)" and "\<And>c. c \<in> set H \<Longrightarrow> nsize ns c = int (length (R c))"
    and "\<And>c. c \<in> set H \<Longrightarrow> col ns c = c" and "\<And>c. c \<in> set H \<Longrightarrow> set (R c) \<subseteq> N"
    and "\<And>c n. c \<in> set H \<Longrightarrow> n \<in> set (R c) \<Longrightarrow> col ns n = c"
    and "\<And>n. n \<in> N \<Longrightarrow> up ns n \<in> N \<and> down ns n \<in> N"
  using assms by (auto simp: grown_def col_closed_def)

definition add_row :: "nat \<Rightarrow> nat \<Rightarrow> int \<Rightarrow> Nodes \<Rightarrow> Nodes" where
  "add_row n c nm ns = put_up c n (node_init n c nm ns)"

lemma add_row_simps:
  assumes "n \<noteq> c"
  shows "left (add_row n c nm ns) = (left ns)(n := n)" "right (add_row n c nm ns) = (right ns)(n := n)"
    "col (add_row n c nm ns) = (col ns)(n := c)" "name (add_row n c nm ns) = (name ns)(n := nm)"
    "nsize (add_row n c nm ns) = (nsize ns)(n := 0, c := nsize ns c + 1)"
    "up (add_row n c nm ns) = (up ns)(n := up ns c, c := n)"
    "down (add_row n c nm ns) = (down ns)(n := c, up ns c := n)"
  using assms by (auto simp: add_row_def)

lemma grown_add_row:
  assumes g: "grown H N R ns" and c: "c \<in> set H" and n: "n \<notin> N"
  shows "grown H (insert n N) (R(c := R c @ [n])) (add_row n c nm ns)"
proof -
  have nc: "n \<noteq> c" using grownD(1)[OF g] c n by auto
  have uc: "up ns c \<in> insert c (set (R c))" using ring_closed(2)[OF grownD(3)[OF g c]] by simp
  then have ucN: "up ns c \<in> N" "col ns (up ns c) = c" "up ns c \<noteq> n"
    using grownD(1,5,6,7)[OF g] c n by auto
  note s = add_row_simps[OF nc, of nm ns]
  have "col_closed (insert n N) (add_row n c nm ns)"
    unfolding col_closed_def
  proof
    fix m assume m: "m \<in> insert n N"
    show "col (add_row n c nm ns) (up (add_row n c nm ns) m) = col (add_row n c nm ns) m \<and>
        col (add_row n c nm ns) (down (add_row n c nm ns) m) = col (add_row n c nm ns) m"
    proof (cases "m = n")
      case True
      then show ?thesis using ucN nc grownD(5)[OF g c] by (auto simp: s)
    next
      case False
      then have "m \<in> N" using m by simp
      moreover then have "up ns m \<noteq> n" "down ns m \<noteq> n" using grownD(8)[OF g, of m] n by auto
      ultimately show ?thesis using False ucN nc grownD(2)[OF g, of m] grownD(5)[OF g c] by (auto simp: s)
    qed
  qed
  moreover have "ring (down (add_row n c nm ns)) (up (add_row n c nm ns)) c (R c @ [n])"
    unfolding s using grownD(3,6)[OF g c] n nc by (intro ring_insert) auto
  moreover have "ring (down (add_row n c nm ns)) (up (add_row n c nm ns)) d (R d)"
    if d: "d \<in> set H" "d \<noteq> c" for d
  proof -
    have x: "x \<noteq> n \<and> x \<noteq> c \<and> x \<noteq> up ns c" if "x \<in> insert d (set (R d))" for x
    proof -
      have "x \<noteq> n \<and> col ns x = d" using grownD(1,5,6,7)[OF g] d n that by blast
      then show ?thesis using ucN(2) d(2) grownD(5)[OF g c] by metis
    qed
    have "ring (down (add_row n c nm ns)) (up (add_row n c nm ns)) d (R d) \<longleftrightarrow> ring (down ns) (up ns) d (R d)"
      by (rule ring_cong) (simp_all only: s fun_upd_apply x if_False)
    then show ?thesis using grownD(3)[OF g d(1)] by simp
  qed
  moreover have "up (add_row n c nm ns) m \<in> insert n N \<and> down (add_row n c nm ns) m \<in> insert n N"
    if "m \<in> insert n N" for m using that grownD(1,8)[OF g] c ucN by (auto simp: s)
  moreover have "nsize (add_row n c nm ns) d = int (length ((R(c := R c @ [n])) d)) \<and>
      col (add_row n c nm ns) d = d \<and> set ((R(c := R c @ [n])) d) \<subseteq> insert n N \<and>
      (\<forall>x\<in>set ((R(c := R c @ [n])) d). col (add_row n c nm ns) x = d)" if d: "d \<in> set H" for d
  proof -
    have dn: "d \<noteq> n" using grownD(1)[OF g] d n by auto
    have xn: "x \<noteq> n" if "x \<in> set (R d)" for x using grownD(6)[OF g d] n that by auto
    have sz: "nsize ns d = int (length (R d))" "col ns d = d" "set (R d) \<subseteq> N" "\<forall>x\<in>set (R d). col ns x = d"
      using grownD(4-7)[OF g d] by blast+
    show ?thesis
    proof (cases "d = c")
      case True
      then show ?thesis using sz dn xn nc by (auto simp: s)
    next
      case False
      then show ?thesis using sz dn xn nc by (auto simp: s)
    qed
  qed
  ultimately show ?thesis using grownD(1)[OF g] unfolding grown_def
    by (intro conjI ballI) (metis fun_upd_apply insertCI subset_insertI2)+
qed

lemma rows_of_all:
  assumes "\<And>w. w \<in> set opts \<Longrightarrow> option_ok H ns w"
  shows "rows_of ns opts H c = filter (\<lambda>n. col ns n = c) (concat opts)"
  using assms by (simp add: rows_of_def active_def option_ok_def)

lemma represents_grown:
  assumes R: "represents rt H opts H ns"
  shows "grown H (set H \<union> set (concat opts)) (rows_of ns opts H) ns"
proof -
  let ?N = "set H \<union> set (concat opts)"
  have sub: "set (rows_of ns opts H c) \<subseteq> ?N" for c by (auto simp: rows_of_iff)
  have "up ns n \<in> ?N \<and> down ns n \<in> ?N" if n: "n \<in> ?N" for n
  proof -
    obtain c where c: "c \<in> set H" "n \<in> insert c (set (rows_of ns opts H c))"
    proof (cases "n \<in> set H")
      case False
      then obtain w where w: "w \<in> set opts" "n \<in> set w" using n by auto
      then have "col ns ` set w \<subseteq> set H" using representsD(4)[OF R w(1)] by (simp add: option_ok_def)
      then show ?thesis using w that[of "col ns n"] by (auto simp: rows_of_iff)
    qed (use that in blast)
    then show ?thesis using ring_closed(1,2)[OF representsD(7)[OF R c(1)] c(2)] sub[of c] by auto
  qed
  then show ?thesis using representsD(5-8)[OF R] sub by (auto simp: grown_def rows_of_iff)
qed

definition link_option :: "nat \<Rightarrow> nat \<Rightarrow> nat \<Rightarrow> nat \<Rightarrow> Nodes \<Rightarrow> Nodes" where
  "link_option n0 n1 n2 n3 ns = put_left n0 n3 (put_left n0 n2 (put_left n0 n1 ns))"

lemma link_option_simps:
  assumes d: "distinct [n0, n1, n2, n3]" and l: "left ns n0 = n0"
  shows "right (link_option n0 n1 n2 n3 ns) = (right ns)(n0 := n1, n1 := n2, n2 := n3, n3 := n0)"
    and "left (link_option n0 n1 n2 n3 ns) = (left ns)(n1 := n0, n2 := n1, n3 := n2, n0 := n3)"
    and "up (link_option n0 n1 n2 n3 ns) = up ns" and "down (link_option n0 n1 n2 n3 ns) = down ns"
    and "col (link_option n0 n1 n2 n3 ns) = col ns" and "name (link_option n0 n1 n2 n3 ns) = name ns"
    and "nsize (link_option n0 n1 n2 n3 ns) = nsize ns"
proof -
  have n: "n1 \<noteq> n0" "n2 \<noteq> n0" "n3 \<noteq> n0" "n1 \<noteq> n2" "n1 \<noteq> n3" "n2 \<noteq> n3" using d by auto
  show "right (link_option n0 n1 n2 n3 ns) = (right ns)(n0 := n1, n1 := n2, n2 := n3, n3 := n0)"
    and "left (link_option n0 n1 n2 n3 ns) = (left ns)(n1 := n0, n2 := n1, n3 := n2, n0 := n3)"
    using n l by (simp_all add: link_option_def fun_eq_iff)
qed (use d in \<open>simp_all add: link_option_def\<close>)

lemma option_ring:
  assumes "distinct [n0, n1, n2, n3]"
  shows "ring (f(n0 := n1, n1 := n2, n2 := n3, n3 := n0)) (g(n1 := n0, n2 := n1, n3 := n2, n0 := n3)) n0 [n1, n2, n3]"
  using assms by (simp add: ring_def)

lemma represents_add_option:
  assumes R: "represents rt H opts H ns" and d: "distinct [n0, n1, n2, n3]"
    and fresh: "set [n0, n1, n2, n3] \<inter> insert rt (set H \<union> set (concat opts)) = {}"
    and c: "distinct [c0, c1, c2, c3]" "set [c0, c1, c2, c3] \<subseteq> set H"
    and ns': "ns' = link_option n0 n1 n2 n3
      (add_row n3 c3 m3 (add_row n2 c2 m2 (add_row n1 c1 m1 (add_row n0 c0 m0 ns))))"
  shows "represents rt H (opts @ [[n0, n1, n2, n3]]) H ns'"
    and "col ns' = (col ns)(n0 := c0, n1 := c1, n2 := c2, n3 := c3)"
    and "name ns' = (name ns)(n0 := m0, n1 := m1, n2 := m2, n3 := m3)"
proof -
  let ?N = "set H \<union> set (concat opts)" and ?w = "[n0, n1, n2, n3]"
  let ?a = "add_row n3 c3 m3 (add_row n2 c2 m2 (add_row n1 c1 m1 (add_row n0 c0 m0 ns)))"
  have nc: "n0 \<noteq> c0" "n1 \<noteq> c1" "n2 \<noteq> c2" "n3 \<noteq> c3" using fresh c(2) by auto
  have n: "n1 \<noteq> n0" "n2 \<noteq> n0" "n3 \<noteq> n0" "n1 \<noteq> n2" "n1 \<noteq> n3" "n2 \<noteq> n3" using d by auto
  have cc: "c1 \<noteq> c0" "c2 \<noteq> c0" "c3 \<noteq> c0" "c2 \<noteq> c1" "c3 \<noteq> c1" "c3 \<noteq> c2" using c(1) by auto
  have la: "left ?a n0 = n0" using nc n by (simp add: add_row_simps)
  note l = link_option_simps[OF d la]
  have col: "col ns' = (col ns)(n0 := c0, n1 := c1, n2 := c2, n3 := c3)"
    unfolding ns' using nc n by (simp add: l add_row_simps fun_upd_twist)
  have name: "name ns' = (name ns)(n0 := m0, n1 := m1, n2 := m2, n3 := m3)"
    unfolding ns' using nc n by (simp add: l add_row_simps fun_upd_twist)
  have r: "right ns' = (right ns)(n0 := n1, n1 := n2, n2 := n3, n3 := n0)"
    and lf: "left ns' = (left ns)(n1 := n0, n2 := n1, n3 := n2, n0 := n3)"
    unfolding ns' using nc n by (simp_all add: l add_row_simps fun_eq_iff)
  let ?R = "((((rows_of ns opts H)(c0 := rows_of ns opts H c0 @ [n0]))(c1 := rows_of ns opts H c1 @ [n1]))
    (c2 := rows_of ns opts H c2 @ [n2]))(c3 := rows_of ns opts H c3 @ [n3])"
  show "col ns' = (col ns)(n0 := c0, n1 := c1, n2 := c2, n3 := c3)" by (rule col)
  show "name ns' = (name ns)(n0 := m0, n1 := m1, n2 := m2, n3 := m3)" by (rule name)
  have g1: "grown H (insert n1 (insert n0 ?N)) ((rows_of ns opts H)
      (c0 := rows_of ns opts H c0 @ [n0], c1 := rows_of ns opts H c1 @ [n1])) (add_row n1 c1 m1 (add_row n0 c0 m0 ns))"
    using grown_add_row[OF grown_add_row[OF represents_grown[OF R], of c0 n0 m0], of c1 n1 m1] c(2) cc fresh n
    by simp
  have "grown H (insert n3 (insert n2 (insert n1 (insert n0 ?N)))) ?R ?a"
    using grown_add_row[OF grown_add_row[OF g1, of c2 n2 m2], of c3 n3 m3] c(2) cc fresh n by simp
  then have g: "grown H (?N \<union> set ?w) ?R ns'"
    unfolding ns' by (simp add: grown_def col_closed_def l insert_commute)
  have out: "right ns' x = right ns x" "left ns' x = left ns x" "col ns' x = col ns x" if "x \<notin> set ?w" for x
    using that by (simp_all add: r lf col)
  have out_opts: "x \<notin> set ?w" if "x \<in> set (concat opts)" for x using that fresh by blast
  have out_H: "x \<notin> set ?w" if "x \<in> insert rt (set H)" for x using that fresh by blast
  have old: "option_ok H ns' v" if v: "v \<in> set opts" for v
  proof -
    have o: "x \<notin> set ?w" if "x \<in> set v" for x using that v by (intro out_opts) auto
    then have "ring (right ns') (left ns') (hd v) (tl v) \<longleftrightarrow> ring (right ns) (left ns) (hd v) (tl v)"
      using representsD(4)[OF R v] by (intro ring_cong out o) (auto simp: option_ok_def dest: list.set_sel)
    moreover have "map (col ns') v = map (col ns) v" using o out(3) by (intro map_cong) auto
    ultimately show ?thesis using representsD(4)[OF R v]
      unfolding option_ok_def set_map[symmetric] by metis
  qed
  have new: "option_ok H ns' ?w"
    unfolding option_ok_def r lf using option_ring[OF d] c n by (simp add: col)
  have rows: "rows_of ns' (opts @ [?w]) H x = ?R x" for x
  proof -
    have "filter (\<lambda>n. col ns' n = x) (concat opts) = filter (\<lambda>n. col ns n = x) (concat opts)"
      by (intro filter_cong refl) (simp only: out(3)[OF out_opts])
    moreover have "rows_of ns' (opts @ [?w]) H x = filter (\<lambda>n. col ns' n = x) (concat (opts @ [?w]))"
      using old new by (intro rows_of_all) auto
    ultimately have "rows_of ns' (opts @ [?w]) H x = rows_of ns opts H x @ filter (\<lambda>n. col ns' n = x) ?w"
      using rows_of_all[OF representsD(4)[OF R]] by simp
    then show ?thesis using c(1) n by (auto simp: col)
  qed
  have H: "ring (right ns') (left ns') rt H"
    using representsD(3)[OF R] ring_cong[of rt H "right ns'" "right ns" "left ns'" "left ns"] out(1,2)[OF out_H]
    by simp
  have dist: "distinct (rt # H @ concat (opts @ [?w]))" using representsD(1)[OF R] d fresh by auto
  show "represents rt H (opts @ [?w]) H ns'"
    unfolding represents_def rows using dist H old new g by (auto simp: grown_def)
qed

lemma represents_root:
  assumes "ns' = ns\<lparr>left := (left ns)(rt := rt), right := (right ns)(rt := rt)\<rparr>"
  shows "represents rt [] [] [] ns'"
  using assms by (simp add: represents_def ring_def col_closed_def)

lemma represents_add_header:
  assumes R: "represents rt H [] H ns" and c: "c \<notin> insert rt (set H)"
    and ns': "ns' = put_left rt c (node_init c c nm ns)"
  shows "represents rt (H @ [c]) [] (H @ [c]) ns'" and "name ns' = (name ns)(c := nm)"
proof -
  have cr: "c \<noteq> rt" using c by simp
  have f: "left ns' = (left ns)(c := left ns rt, rt := c)" "right ns' = (right ns)(c := rt, left ns rt := c)"
    "up ns' = (up ns)(c := c)" "down ns' = (down ns)(c := c)" "col ns' = (col ns)(c := c)"
    "nsize ns' = (nsize ns)(c := 0)"
    using cr c by (auto simp: ns')
  show "name ns' = (name ns)(c := nm)" using cr by (simp add: ns')
  have "ring (right ns') (left ns') rt (H @ [c])"
    unfolding f using ring_insert[OF representsD(3)[OF R] c] by simp
  moreover have e: "up ns h = h" "down ns h = h" "nsize ns h = 0" if "h \<in> set H" for h
    using representsD(7,8)[OF R that] by (simp_all add: rows_of_def active_def ring_def)
  ultimately show "represents rt (H @ [c]) [] (H @ [c]) ns'"
    using c representsD(1,5)[OF R]
    by (auto simp: represents_def col_closed_def rows_of_def active_def ring_def f)
qed

section \<open>Covering is undone exactly\<close>

text \<open>C31: Dancing links: on a heap that represents an exact cover problem, covering an active column ends
  and refines the removal of the column - the heap then represents the problem without it - and
  uncovering it restores every field of every node, although uncover finds the rows only through
  the links that cover left behind.\<close>

theorem dancing_links_undo:
  assumes "represents rt H opts cs ns" and "c \<in> set cs"
  shows "\<exists>ns'. cover c ns = Some ns' \<and> represents rt H opts (filter (\<lambda>x. x \<noteq> c) cs) ns' \<and> uncover c ns' = Some ns"
  using cover_represents[OF assms] by blast

definition two_columns :: Nodes where
  "two_columns = \<lparr>left = (\<lambda>_. 0)(0 := 2, 1 := 0, 2 := 1, 3 := 4, 4 := 3),
     right = (\<lambda>_. 0)(0 := 1, 1 := 2, 2 := 0, 3 := 4, 4 := 3),
     up = (\<lambda>_. 0)(1 := 3, 3 := 1, 2 := 4, 4 := 2), down = (\<lambda>_. 0)(1 := 3, 3 := 1, 2 := 4, 4 := 2),
     col = (\<lambda>_. 0)(1 := 1, 2 := 2, 3 := 1, 4 := 2), name = (\<lambda>_. 0), nsize = (\<lambda>_. 0)(1 := 1, 2 := 1)\<rparr>"

theorem dancing_links_undo_witness:
  "\<exists>ns'. cover 1 two_columns = Some ns' \<and> represents 0 [1, 2] [[3, 4]] [2] ns' \<and> uncover 1 ns' = Some two_columns"
proof -
  have "represents 0 [1, 2] [[3, 4]] [1, 2] two_columns"
    by (simp add: represents_def two_columns_def ring_def option_ok_def col_closed_def rows_of_def active_def)
  then show ?thesis using dancing_links_undo[of 0 "[1, 2]" "[[3, 4]]" "[1, 2]" two_columns 1] by simp
qed

end
