(* ===== verification/Sudoku.thy ===== *)
theory Sudoku
  imports Dancing_Links
begin

text \<open>
  The sudoku solver (\<^verbatim>\<open>examples/sudoku/sudoku.cc\<close>): class \<open>SudokuSolver\<close> and \<open>solveSudoku\<close>.

  The constructor turns a board into an exact cover problem in the node pool, \<open>solve\<close> searches by
  covering and uncovering columns, and \<open>solveSudoku\<close> checks the characters, runs the solver and
  prints the board. The contents of the node pool before the constructor (uninitialised memory)
  are the parameter \<open>mem\<close>. Accesses out of the bounds of an array and failed assertions are
  \<open>None\<close>, and so is a loop or a search that does not end.

  The recursion of \<open>solve\<close> through its loop over the rows of a column is one partial function with
  two entry points: \<open>Enter\<close> is the call, \<open>Rows c row\<close> the head of the loop.

  The main theorem is total correctness of the whole program: for every 81 characters it returns,
  and the result is a completed grid that extends the puzzle if there is one, and the text
  \<^verbatim>\<open>NoSolution\<close> otherwise.
\<close>

section \<open>The solver\<close>

definition kCells :: nat where "kCells = 81"
definition kMaxNodes :: nat where "kMaxNodes = 1 + 81 * 4 + 9 * 9 * 9 * 4"
definition kRow :: nat where "kRow = 100"
definition kCol :: nat where "kCol = 200"
definition kBox :: nat where "kBox = 300"
definition kNoSolution :: string where "kNoSolution = ''NoSolution''"

record SudokuSolver =
  rootp :: nat
  inout :: "int list"
  columns :: "nat option list"
  stack :: "nat list"
  nodes :: Nodes
  cur_node :: nat

fun foldo :: "('a \<Rightarrow> 's \<Rightarrow> 's option) \<Rightarrow> 'a list \<Rightarrow> 's \<Rightarrow> 's option" where
  "foldo f [] s = Some s"
| "foldo f (x # xs) s = do { s' \<leftarrow> f x s; foldo f xs s' }"

definition get_row_col :: "nat \<Rightarrow> nat \<Rightarrow> nat" where
  "get_row_col row val = kRow + row * 10 + val"

definition get_col_col :: "nat \<Rightarrow> nat \<Rightarrow> nat" where
  "get_col_col cl val = kCol + cl * 10 + val"

definition get_box_col :: "nat \<Rightarrow> nat \<Rightarrow> nat" where
  "get_box_col box val = kBox + box * 10 + val"

definition new_column :: "nat \<Rightarrow> SudokuSolver \<Rightarrow> (nat \<times> SudokuSolver) option" where
  "new_column n s =
    do { assertm (cur_node s < kMaxNodes);
         let c = cur_node s;
         Some (c, s\<lparr>cur_node := Suc c, nodes := node_init c c (int n) (nodes s)\<rparr>) }"

definition append_column :: "nat \<Rightarrow> SudokuSolver \<Rightarrow> SudokuSolver option" where
  "append_column n s =
    do { assertm (n < length (columns s) \<and> columns s ! n = None);
         (c, s) \<leftarrow> new_column n s;
         let s = s\<lparr>nodes := put_left (rootp s) c (nodes s)\<rparr>;
         Some (s\<lparr>columns := (columns s)[n := Some c]\<rparr>) }"

definition new_row :: "nat \<Rightarrow> SudokuSolver \<Rightarrow> (nat \<times> SudokuSolver) option" where
  "new_row cl s =
    do { assertm (cl < length (columns s));
         c \<leftarrow> columns s ! cl;
         assertm (cur_node s < kMaxNodes);
         let r = cur_node s;
         let s = s\<lparr>cur_node := Suc r, nodes := node_init r c (int cl) (nodes s)\<rparr>;
         Some (r, s\<lparr>nodes := put_up (col (nodes s) r) r (nodes s)\<rparr>) }"

record used =
  rows :: "nat \<Rightarrow> nat \<Rightarrow> bool"
  cols :: "nat \<Rightarrow> nat \<Rightarrow> bool"
  boxes :: "nat \<Rightarrow> nat \<Rightarrow> bool"

definition row_of :: "nat \<Rightarrow> nat" where "row_of i = i div 9"
definition col_of :: "nat \<Rightarrow> nat" where "col_of i = i mod 9"
definition box_of :: "nat \<Rightarrow> nat" where "box_of i = row_of i div 3 * 3 + col_of i div 3"

definition set_flag :: "(nat \<Rightarrow> nat \<Rightarrow> bool) \<Rightarrow> nat \<Rightarrow> nat \<Rightarrow> (nat \<Rightarrow> nat \<Rightarrow> bool)" where
  "set_flag a i v = a(i := (a i)(v := True))"

definition mark :: "int list \<Rightarrow> nat \<Rightarrow> used \<Rightarrow> used option" where
  "mark board i u =
    do { let val = board ! i;
         assertm (0 \<le> val \<and> val < 10);
         Some (u\<lparr>rows := set_flag (rows u) (row_of i) (nat val),
                 cols := set_flag (cols u) (col_of i) (nat val),
                 boxes := set_flag (boxes u) (box_of i) (nat val)\<rparr>) }"

definition append_cell :: "int list \<Rightarrow> nat \<Rightarrow> SudokuSolver \<Rightarrow> SudokuSolver option" where
  "append_cell board i s = (if board ! i = 0 then append_column i s else Some s)"

definition append_units :: "used \<Rightarrow> nat \<Rightarrow> nat \<Rightarrow> SudokuSolver \<Rightarrow> SudokuSolver option" where
  "append_units u i v s =
    do { s \<leftarrow> (if \<not> rows u i v then append_column (get_row_col i v) s else Some s);
         s \<leftarrow> (if \<not> cols u i v then append_column (get_col_col i v) s else Some s);
         (if \<not> boxes u i v then append_column (get_box_col i v) s else Some s) }"

definition append_option :: "nat \<Rightarrow> nat \<Rightarrow> SudokuSolver \<Rightarrow> SudokuSolver option" where
  "append_option i v s =
    do { (n0, s) \<leftarrow> new_row i s;
         (nr, s) \<leftarrow> new_row (get_row_col (row_of i) v) s;
         (nc, s) \<leftarrow> new_row (get_col_col (col_of i) v) s;
         (nb, s) \<leftarrow> new_row (get_box_col (box_of i) v) s;
         let s = s\<lparr>nodes := put_left n0 nr (nodes s)\<rparr>;
         let s = s\<lparr>nodes := put_left n0 nc (nodes s)\<rparr>;
         Some (s\<lparr>nodes := put_left n0 nb (nodes s)\<rparr>) }"

definition append_options :: "int list \<Rightarrow> used \<Rightarrow> nat \<Rightarrow> SudokuSolver \<Rightarrow> SudokuSolver option" where
  "append_options board u i s =
    (if board ! i = 0
     then foldo (\<lambda>v s. if \<not> (rows u (row_of i) v \<or> cols u (col_of i) v \<or> boxes u (box_of i) v)
                      then append_option i v s else Some s) [1..<10] s
     else Some s)"

definition SudokuSolver_new :: "Nodes \<Rightarrow> int list \<Rightarrow> SudokuSolver option" where
  "SudokuSolver_new mem board =
    do { (r, s) \<leftarrow> new_column 0 \<lparr>rootp = 0, inout = board, columns = [], stack = [], nodes = mem, cur_node = 0\<rparr>;
         let s = s\<lparr>rootp := r,
                   nodes := (nodes s)\<lparr>left := (left (nodes s))(r := r), right := (right (nodes s))(r := r)\<rparr>,
                   columns := replicate 400 None\<rparr>;
         u \<leftarrow> foldo (mark board) [0..<kCells]
               \<lparr>rows = (\<lambda>_ _. False), cols = (\<lambda>_ _. False), boxes = (\<lambda>_ _. False)\<rparr>;
         s \<leftarrow> foldo (append_cell board) [0..<kCells] s;
         s \<leftarrow> foldo (\<lambda>i. foldo (append_units u i) [1..<10]) [0..<9] s;
         foldo (append_options board u) [0..<kCells] s }"

partial_function (option) min_scan :: "Nodes \<Rightarrow> nat \<Rightarrow> nat \<Rightarrow> nat \<Rightarrow> int \<Rightarrow> nat option" where
  "min_scan ns rt cc c min_size =
    (if cc = rt then Some c
     else if min_size > nsize ns cc
     then if nsize ns cc \<le> 1 then Some cc else min_scan ns rt (right ns cc) cc (nsize ns cc)
     else min_scan ns rt (right ns cc) c min_size)"

definition get_min_column :: "nat \<Rightarrow> Nodes \<Rightarrow> nat option" where
  "get_min_column rt ns =
    (let c = right ns rt; min_size = nsize ns c
     in if min_size > 1 then min_scan ns rt (right ns c) c min_size else Some c)"

partial_function (option) read_option :: "Nodes \<Rightarrow> nat \<Rightarrow> int \<Rightarrow> int \<Rightarrow> (int \<times> int) option" where
  "read_option ns n cell val =
    (if cell = -1 \<or> val = -1
     then if name ns n < 100 then read_option ns (right ns n) (name ns n) val
          else read_option ns (right ns n) cell (name ns n mod 10)
     else Some (cell, val))"

definition store_cell :: "Nodes \<Rightarrow> nat \<Rightarrow> int list \<Rightarrow> int list option" where
  "store_cell ns n board =
    do { (cell, val) \<leftarrow> read_option ns n (-1) (-1);
         assertm (0 \<le> cell \<and> nat cell < length board);
         Some (board[nat cell := val]) }"

datatype entry = Enter | Rows nat nat

partial_function (option) solve_at :: "entry \<Rightarrow> SudokuSolver \<Rightarrow> (bool \<times> SudokuSolver) option" where
  "solve_at e s =
    (case e of
       Enter \<Rightarrow>
         (if left (nodes s) (rootp s) = rootp s
          then do { b \<leftarrow> foldo (store_cell (nodes s)) (stack s) (inout s);
                    Some (True, s\<lparr>inout := b\<rparr>) }
          else do { c \<leftarrow> get_min_column (rootp s) (nodes s);
                    ns \<leftarrow> cover c (nodes s);
                    solve_at (Rows c (down ns c)) (s\<lparr>nodes := ns\<rparr>) })
     | Rows c row \<Rightarrow>
         (if row = c
          then do { ns \<leftarrow> uncover c (nodes s); Some (False, s\<lparr>nodes := ns\<rparr>) }
          else do { let s = s\<lparr>stack := stack s @ [row]\<rparr>;
                    ns \<leftarrow> for_nodes right row (\<lambda>j ns. cover (col ns j) ns) (right (nodes s) row) (nodes s);
                    x \<leftarrow> solve_at Enter (s\<lparr>nodes := ns\<rparr>);
                    (if fst x then Some (True, snd x)
                     else do { let s = snd x;
                               assertm (stack s \<noteq> []);
                               let s = s\<lparr>stack := butlast (stack s)\<rparr>;
                               ns \<leftarrow> for_nodes left row (\<lambda>j ns. uncover (col ns j) ns) (left (nodes s) row) (nodes s);
                               solve_at (Rows c (down ns row)) (s\<lparr>nodes := ns\<rparr>) }) }))"

definition solve :: "SudokuSolver \<Rightarrow> (bool \<times> SudokuSolver) option" where
  "solve s = solve_at Enter s"

definition char_int :: "char \<Rightarrow> int" where
  "char_int c = (let v = of_char c in if v \<ge> 128 then v - 256 else v)"

definition solveSudoku :: "Nodes \<Rightarrow> string \<Rightarrow> string option" where
  "solveSudoku mem puzzle =
    do { assertm (length puzzle = kCells);
         let board = map (\<lambda>c. char_int c - 48) puzzle;
         if list_all (\<lambda>x. 0 \<le> x \<and> x \<le> 9) board
         then do { s \<leftarrow> SudokuSolver_new mem board;
                   (ok, s) \<leftarrow> solve s;
                   Some (if ok then map (\<lambda>x. char_of (x + 48)) (inout s) else kNoSolution) }
         else Some kNoSolution }"

section \<open>Reading the chosen rows\<close>

text \<open>An option is the node of a cell and the nodes of its row, column and box for one value.\<close>

definition named :: "(nat \<Rightarrow> int) \<Rightarrow> nat list \<Rightarrow> bool" where
  "named nm w \<longleftrightarrow> length w = 4 \<and> 0 \<le> nm (w ! 0) \<and> nm (w ! 0) < 81 \<and>
     (\<forall>i\<in>{1, 2, 3}. nm (w ! i) \<ge> 100 \<and> nm (w ! i) mod 10 = nm (w ! 1) mod 10)"

definition cell_of :: "(nat \<Rightarrow> int) \<Rightarrow> nat list \<Rightarrow> nat" where
  "cell_of nm w = nat (nm (w ! 0))"

definition val_of :: "(nat \<Rightarrow> int) \<Rightarrow> nat list \<Rightarrow> int" where
  "val_of nm w = nm (w ! 1) mod 10"

definition fill :: "(nat \<Rightarrow> int) \<Rightarrow> nat list list \<Rightarrow> int list \<Rightarrow> int list" where
  "fill nm ws board = fold (\<lambda>w b. b[cell_of nm w := val_of nm w]) ws board"

lemma length_fill [simp]: "length (fill nm ws b) = length b"
  unfolding fill_def by (induction ws arbitrary: b) auto

lemma length4E:
  assumes "length w = 4"
  obtains a b c d where "w = [a, b, c, d]"
  using assms by (auto simp: numeral_eq_Suc length_Suc_conv)

lemma read_option_correct:
  assumes w: "named (name ns) w" and ring: "ring (right ns) (left ns) (hd w) (tl w)" and r: "r \<in> set w"
  shows "read_option ns r (-1) (-1) = Some (int (cell_of (name ns) w), val_of (name ns) w)"
proof -
  obtain a b c d where wd: "w = [a, b, c, d]" using w by (auto simp: named_def elim: length4E)
  have n: "0 \<le> name ns a" "name ns a < 100" "100 \<le> name ns b" "100 \<le> name ns c" "100 \<le> name ns d"
    "name ns c mod 10 = name ns b mod 10" "name ns d mod 10 = name ns b mod 10"
    using w by (simp_all add: named_def wd)
  have "0 \<le> name ns b mod 10" by simp
  then have m: "name ns b mod 10 \<noteq> -1" by linarith
  have rg: "right ns a = b" "right ns b = c" "right ns c = d" "right ns d = a"
    using ring by (auto simp: wd ring_def)
  have st: "read_option ns a x y = (if x = -1 \<or> y = -1 then read_option ns b (name ns a) y else Some (x, y))"
    "read_option ns b x y = (if x = -1 \<or> y = -1 then read_option ns c x (name ns b mod 10) else Some (x, y))"
    "read_option ns c x y = (if x = -1 \<or> y = -1 then read_option ns d x (name ns b mod 10) else Some (x, y))"
    "read_option ns d x y = (if x = -1 \<or> y = -1 then read_option ns a x (name ns b mod 10) else Some (x, y))"
    for x y using n rg by (subst read_option.simps, simp)+
  have "name ns a \<noteq> -1" using n by simp
  then have "read_option ns q (-1) (-1) = Some (name ns a, name ns b mod 10)" if "q \<in> {a, b, c, d}" for q
    using that m by (elim insertE; simp only:; simp add: st)
  then show ?thesis using r n by (simp add: wd cell_of_def val_of_def)
qed

lemma store_cells:
  assumes R: "represents rt H opts cs ns" and nm: "\<And>w. w \<in> set opts \<Longrightarrow> named (name ns) w"
    and rs: "set rs \<subseteq> set (concat opts)" and len: "length board = 81"
  shows "foldo (store_cell ns) rs board = Some (fill (name ns) (map (opt_of opts) rs) board)"
  using rs len
proof (induction rs arbitrary: board)
  case (Cons r rs)
  then obtain w where w: "w \<in> set opts" "r \<in> set w" by auto
  have o: "opt_of opts r = w" using representsD(1)[OF R] w by (auto intro: opt_of_eq)
  have "read_option ns r (-1) (-1) = Some (int (cell_of (name ns) w), val_of (name ns) w)"
    using read_option_correct[OF nm[OF w(1)] _ w(2)] representsD(4)[OF R w(1)] by (simp add: option_ok_def)
  moreover have "cell_of (name ns) w < 81" using nm[OF w(1)] by (auto simp: named_def cell_of_def)
  ultimately show ?case using Cons o by (simp add: store_cell_def fill_def)
qed (simp add: fill_def)

section \<open>Choosing a column\<close>

lemma min_scan_correct:
  assumes ring: "ring (right ns) (left ns) rt (as @ zs)" and c: "c \<in> set (as @ zs)"
    and m: "\<And>x. x \<in> set as \<Longrightarrow> nsize ns c \<le> nsize ns x"
  shows "\<exists>c'\<in>set (as @ zs). min_scan ns rt (hd (zs @ [rt])) c (nsize ns c) = Some c' \<and>
     (nsize ns c' \<le> 1 \<or> (\<forall>x\<in>set (as @ zs). nsize ns c' \<le> nsize ns x))"
  using assms
proof (induction zs arbitrary: as c)
  case Nil
  then show ?case by (auto simp: min_scan.simps[of _ _ rt])
next
  case (Cons z zs)
  have r: "z \<noteq> rt" "right ns z = hd (zs @ [rt])"
    using Cons.prems(1) ring_next[OF Cons.prems(1)] by (auto simp: ring_def)
  have IH: "\<exists>c'\<in>set (as @ z # zs). min_scan ns rt (hd (zs @ [rt])) d (nsize ns d) = Some c' \<and>
      (nsize ns c' \<le> 1 \<or> (\<forall>x\<in>set (as @ z # zs). nsize ns c' \<le> nsize ns x))"
    if "d \<in> set (as @ z # zs)" "nsize ns d \<le> nsize ns z" "\<And>x. x \<in> set as \<Longrightarrow> nsize ns d \<le> nsize ns x" for d
    using Cons.IH[of "as @ [z]" d] Cons.prems(1) that by auto
  consider "nsize ns z < nsize ns c" "nsize ns z \<le> 1" | "nsize ns z < nsize ns c" "nsize ns z > 1"
    | "nsize ns c \<le> nsize ns z" by linarith
  then show ?case
  proof cases
    case 1
    then show ?thesis using r by (intro bexI[of _ z]) (auto simp: min_scan.simps[of _ _ z])
  next
    case 2
    then have "\<And>x. x \<in> set as \<Longrightarrow> nsize ns z \<le> nsize ns x" using Cons.prems(3) by fastforce
    then show ?thesis using 2 r IH[of z] by (simp add: min_scan.simps[of _ _ z])
  next
    case 3
    then show ?thesis using r IH[OF Cons.prems(2) 3 Cons.prems(3)] by (simp add: min_scan.simps[of _ _ z])
  qed
qed

lemma get_min_column_correct:
  assumes R: "represents rt H opts cs ns" and ne: "cs \<noteq> []"
  shows "\<exists>c\<in>set cs. get_min_column rt ns = Some c \<and>
     (nsize ns c \<le> 1 \<or> (\<forall>x\<in>set cs. nsize ns c \<le> nsize ns x))"
proof -
  obtain c cs' where cs: "cs = c # cs'" using ne by (cases cs) auto
  have ring: "ring (right ns) (left ns) rt ([] @ c # cs')" using representsD(3)[OF R] cs by simp
  have "right ns rt = c" "right ns c = hd (cs' @ [rt])" using ring_fst[OF ring] ring_next[OF ring] by simp_all
  then show ?thesis using min_scan_correct[of ns rt "[c]" cs' c] ring cs
    by (auto simp: get_min_column_def)
qed

section \<open>The search\<close>

text \<open>
  \<open>search_ok\<close> is the contract of a call of \<open>solve\<close> on the active columns \<open>cs\<close>: \<open>true\<close> with the
  rows of an exact cover on top of the stack and their values in the board, or \<open>false\<close>, when there
  is none, with the state unchanged.
\<close>

definition search_ok ::
  "nat list list \<Rightarrow> (nat \<Rightarrow> nat) \<Rightarrow> (nat \<Rightarrow> int) \<Rightarrow> nat set \<Rightarrow> SudokuSolver \<Rightarrow> bool \<Rightarrow> SudokuSolver \<Rightarrow> bool" where
  "search_ok opts k nm S s b s' \<longleftrightarrow>
    (if b then \<exists>rs. exact_cover (\<lambda>w. k ` set w) (set opts) S (map (opt_of opts) rs) \<and>
                 inout s' = fill nm (map (opt_of opts) (stack s @ rs)) (inout s)
     else s' = s \<and> \<not> (\<exists>ws. exact_cover (\<lambda>w. k ` set w) (set opts) S ws))"

definition solver_ok :: "nat list \<Rightarrow> nat list list \<Rightarrow> nat list \<Rightarrow> SudokuSolver \<Rightarrow> bool" where
  "solver_ok H opts cs s \<longleftrightarrow> represents (rootp s) H opts cs (nodes s) \<and>
     (\<forall>w\<in>set opts. named (name (nodes s)) w) \<and> set (stack s) \<subseteq> set (concat opts) \<and> length (inout s) = 81"

lemma solve_Enter_done:
  assumes "solver_ok H opts [] s"
  shows "\<exists>s'. solve_at Enter s = Some (True, s') \<and> search_ok opts (col (nodes s)) (name (nodes s)) {} s True s'"
proof -
  have "left (nodes s) (rootp s) = rootp s" using assms by (auto simp: solver_ok_def represents_def ring_def)
  moreover have "foldo (store_cell (nodes s)) (stack s) (inout s)
      = Some (fill (name (nodes s)) (map (opt_of opts) (stack s)) (inout s))"
    using assms by (intro store_cells) (auto simp: solver_ok_def)
  ultimately show ?thesis
    by (auto simp: solve_at.simps[of Enter] search_ok_def intro: exI[of _ "[]"])
qed

text \<open>The loop over the rows of the column that was covered, given the contract of the calls it makes.\<close>

lemma solve_Rows:
  assumes s: "solver_ok H opts cs s" and c: "c \<in> set cs"
    and ns1: "uncover c ns1 = Some (nodes s)" "represents (rootp s) H opts (filter (\<lambda>x. x \<noteq> c) cs) ns1"
      "col ns1 = col (nodes s)" "name ns1 = name (nodes s)"
      "ring (down ns1) (up ns1) c (rows_of (nodes s) opts cs c)"
    and call: "\<And>cs' s'. solver_ok H opts cs' s' \<Longrightarrow> length cs' < length cs \<Longrightarrow>
       \<exists>b t. solve_at Enter s' = Some (b, t) \<and> search_ok opts (col (nodes s')) (name (nodes s')) (set cs') s' b t"
    and rows: "rows_of (nodes s) opts cs c = as @ zs"
  shows "\<exists>b t. solve_at (Rows c (hd (zs @ [c]))) (s\<lparr>nodes := ns1\<rparr>) = Some (b, t) \<and>
     (if b then search_ok opts (col (nodes s)) (name (nodes s)) (set cs) s True t
      else t = s \<and> (\<forall>r\<in>set zs. \<not> (\<exists>ws. exact_cover (\<lambda>w. col (nodes s) ` set w) (set opts)
                                      (set cs - col (nodes s) ` set (opt_of opts r)) ws)))"
  using rows
proof (induction zs arbitrary: as)
  case Nil
  then show ?case using ns1(1) by (intro exI[of _ False]) (simp add: solve_at.simps[of "Rows c c"])
next
  case (Cons r zs)
  let ?K = "\<lambda>w. col (nodes s) ` set w" and ?w = "opt_of opts r"
  have R: "represents (rootp s) H opts cs (nodes s)" using s by (simp add: solver_ok_def)
  have r: "r \<in> set (rows_of (nodes s) opts cs c)" using Cons.prems by simp
  note ro = rows_of_opt[OF R r]
  have rc: "r \<noteq> c" and dr: "down ns1 r = hd (zs @ [c])"
    using ns1(5) ring_next[of "down ns1" "up ns1" c as r zs] Cons.prems by (auto simp: ring_def)
  have sub: "col ns1 ` (set ?w - {r}) \<subseteq> set (filter (\<lambda>x. x \<noteq> c) cs)"
    using ro ns1(3) by auto
  obtain ns2 where ns2: "for_nodes right r (\<lambda>j ns. cover (col ns j) ns) (right ns1 r) ns1 = Some ns2"
    "for_nodes left r (\<lambda>j ns. uncover (col ns j) ns) (left ns2 r) ns2 = Some ns1"
    "represents (rootp s) H opts (filter (\<lambda>c. c \<notin> col ns1 ` (set ?w - {r})) (filter (\<lambda>x. x \<noteq> c) cs)) ns2"
    "col ns2 = col ns1" "name ns2 = name ns1"
    using cover_siblings[OF ns1(2) ro(1,2) sub] by blast
  let ?cs = "filter (\<lambda>c. c \<notin> col ns1 ` (set ?w - {r})) (filter (\<lambda>x. x \<noteq> c) cs)"
  let ?s2 = "s\<lparr>stack := stack s @ [r], nodes := ns2\<rparr>"
  have set_cs: "set ?cs = set cs - ?K ?w" using ro(2,3) ns1(3) by auto
  have "length ?cs < length cs"
    using length_filter_less[OF c, of "\<lambda>x. x \<noteq> c"] le_less_trans[OF length_filter_le] by blast
  moreover have "solver_ok H opts ?cs ?s2" using s ns1 ns2 ro(1,2) by (auto simp: solver_ok_def)
  ultimately obtain b t where t: "solve_at Enter ?s2 = Some (b, t)"
    "search_ok opts (col (nodes s)) (name (nodes s)) (set cs - ?K ?w) ?s2 b t"
    using call[of ?cs ?s2] ns1 ns2 set_cs by auto
  show ?case
  proof (cases b)
    case True
    then obtain rs where rs: "exact_cover ?K (set opts) (set cs - ?K ?w) (map (opt_of opts) rs)"
      "inout t = fill (name (nodes s)) (map (opt_of opts) (stack s @ r # rs)) (inout s)"
      using t(2) by (auto simp: search_ok_def)
    then have "search_ok opts (col (nodes s)) (name (nodes s)) (set cs) s True t"
      using ro by (auto simp: search_ok_def intro!: exI[of _ "r # rs"])
    then show ?thesis using rc ns2(1) t(1) True
      by (intro exI[of _ True]) (simp add: solve_at.simps[of "Rows c r"] Let_def)
  next
    case False
    then have no: "t = ?s2" "\<not> (\<exists>ws. exact_cover ?K (set opts) (set cs - ?K ?w) ws)"
      using t(2) by (auto simp: search_ok_def)
    have "solve_at (Rows c (hd ((r # zs) @ [c]))) (s\<lparr>nodes := ns1\<rparr>)
        = solve_at (Rows c (hd (zs @ [c]))) (s\<lparr>nodes := ns1\<rparr>)"
      using no(1) rc ns2(1,2) t(1) False dr by (simp add: solve_at.simps[of "Rows c r"])
    moreover obtain ba ta where "solve_at (Rows c (hd (zs @ [c]))) (s\<lparr>nodes := ns1\<rparr>) = Some (ba, ta)"
      and "if ba then search_ok opts (col (nodes s)) (name (nodes s)) (set cs) s True ta
        else ta = s \<and> (\<forall>r\<in>set zs. \<not> (\<exists>ws. exact_cover ?K (set opts) (set cs - ?K (opt_of opts r)) ws))"
      using Cons.IH[of "as @ [r]"] Cons.prems by auto
    ultimately show ?thesis using no(2) by (intro exI[of _ ba] exI[of _ ta]) auto
  qed
qed

lemma solve_Enter:
  assumes "solver_ok H opts cs s"
  shows "\<exists>b t. solve_at Enter s = Some (b, t) \<and> search_ok opts (col (nodes s)) (name (nodes s)) (set cs) s b t"
  using assms
proof (induction "length cs" arbitrary: cs s rule: less_induct)
  case less
  let ?K = "\<lambda>w. col (nodes s) ` set w"
  have R: "represents (rootp s) H opts cs (nodes s)" using less.prems by (simp add: solver_ok_def)
  show ?case
  proof (cases "cs = []")
    case True
    then show ?thesis using solve_Enter_done less.prems by fastforce
  next
    case False
    then obtain c where c: "c \<in> set cs" "get_min_column (rootp s) (nodes s) = Some c"
      using get_min_column_correct[OF R] by blast
    obtain ns1 where ns1: "cover c (nodes s) = Some ns1" "uncover c ns1 = Some (nodes s)"
      "represents (rootp s) H opts (filter (\<lambda>x. x \<noteq> c) cs) ns1" "col ns1 = col (nodes s)"
      "name ns1 = name (nodes s)" "ring (down ns1) (up ns1) c (rows_of (nodes s) opts cs c)"
      using cover_represents[OF R c(1)] by blast
    let ?rows = "rows_of (nodes s) opts cs c"
    obtain b t where t: "solve_at (Rows c (hd (?rows @ [c]))) (s\<lparr>nodes := ns1\<rparr>) = Some (b, t)"
      "if b then search_ok opts (col (nodes s)) (name (nodes s)) (set cs) s True t
       else t = s \<and> (\<forall>r\<in>set ?rows. \<not> (\<exists>ws. exact_cover ?K (set opts) (set cs - ?K (opt_of opts r)) ws))"
      using solve_Rows[OF less.prems c(1) ns1(2-6) less.hyps, of "[]"] by auto
    have "\<not> (\<exists>ws. exact_cover ?K (set opts) (set cs) ws)" if "\<not> b"
    proof
      assume "\<exists>ws. exact_cover ?K (set opts) (set cs) ws"
      then obtain w ws where w: "w \<in> set opts" "c \<in> ?K w" "?K w \<subseteq> set cs"
        "exact_cover ?K (set opts) (set cs - ?K w) ws" using exact_cover_choose c(1) by metis
      then obtain r where r: "r \<in> set w" "col (nodes s) r = c" by auto
      then have "r \<in> set ?rows" using w by (auto simp: rows_of_iff)
      moreover have "opt_of opts r = w" using representsD(1)[OF R] w(1) r(1) by (auto intro: opt_of_eq)
      ultimately show False using t(2) that w(4) by auto
    qed
    then have ok: "search_ok opts (col (nodes s)) (name (nodes s)) (set cs) s b t"
      using t(2) by (cases b) (auto simp: search_ok_def)
    have "left (nodes s) (rootp s) \<noteq> rootp s"
    proof
      assume "left (nodes s) (rootp s) = rootp s"
      then show False
        using ring_fst[OF ring_rev[OF representsD(3)[OF R]]] False representsD(3)[OF R]
        by (cases cs rule: rev_cases) (auto simp: ring_def)
    qed
    then show ?thesis using c(2) ns1(1) t(1) ok ring_fst[OF ns1(6)]
      by (simp add: solve_at.simps[of Enter])
  qed
qed

section \<open>The constructor\<close>

text \<open>
  \<open>built board ks ps s\<close>: the columns with the numbers \<open>ks\<close> and then the options for the pairs of a
  cell and a value \<open>ps\<close> were appended. Nodes are numbered in the order of their creation.
\<close>

definition option_cols :: "nat \<times> nat \<Rightarrow> nat list" where
  "option_cols p = (case p of (i, v) \<Rightarrow>
     [i, get_row_col (row_of i) v, get_col_col (col_of i) v, get_box_col (box_of i) v])"

definition option_nodes :: "nat \<Rightarrow> nat \<Rightarrow> nat list" where
  "option_nodes b p = [b + 4 * p, b + 4 * p + 1, b + 4 * p + 2, b + 4 * p + 3]"

definition headers :: "nat list \<Rightarrow> nat list" where
  "headers ks = [1..<Suc (length ks)]"

definition all_options :: "nat list \<Rightarrow> (nat \<times> nat) list \<Rightarrow> nat list list" where
  "all_options ks ps = map (option_nodes (Suc (length ks))) [0..<length ps]"

definition built :: "int list \<Rightarrow> nat list \<Rightarrow> (nat \<times> nat) list \<Rightarrow> SudokuSolver \<Rightarrow> bool" where
  "built board ks ps s \<longleftrightarrow> rootp s = 0 \<and> inout s = board \<and> stack s = [] \<and> length (columns s) = 400 \<and>
     cur_node s = Suc (length ks) + 4 * length ps \<and> distinct ks \<and> set ks \<subseteq> {..<400} \<and>
     represents 0 (headers ks) (all_options ks ps) (headers ks) (nodes s) \<and>
     (\<forall>j<length ks. columns s ! (ks ! j) = Some (Suc j) \<and> name (nodes s) (Suc j) = int (ks ! j)) \<and>
     (\<forall>k<400. k \<notin> set ks \<longrightarrow> columns s ! k = None) \<and>
     (\<forall>p<length ps. map (name (nodes s)) (option_nodes (Suc (length ks)) p) = map int (option_cols (ps ! p))) \<and>
     (\<forall>n\<in>set (concat (all_options ks ps)). name (nodes s) (col (nodes s) n) = name (nodes s) n)"

lemma set_all_options: "n \<in> set (concat (all_options ks ps)) \<longleftrightarrow> Suc (length ks) \<le> n \<and> n < Suc (length ks) + 4 * length ps"
proof
  assume n: "Suc (length ks) \<le> n \<and> n < Suc (length ks) + 4 * length ps"
  obtain q r where qr: "n - Suc (length ks) = 4 * q + r" "r < 4"
    by (metis mult_div_mod_eq mod_less_divisor zero_less_numeral)
  then have q: "q < length ps" and nq: "n = Suc (length ks) + 4 * q + r" using n by linarith+
  have "r = 0 \<or> r = 1 \<or> r = 2 \<or> r = 3" using qr(2) by linarith
  then have "n \<in> set (option_nodes (Suc (length ks)) q)" using nq by (auto simp: option_nodes_def)
  then show "n \<in> set (concat (all_options ks ps))" using q by (auto simp: all_options_def)
qed (auto simp: all_options_def option_nodes_def)

lemma all_options_snoc: "all_options ks (ps @ [p]) = all_options ks ps @ [option_nodes (Suc (length ks)) (length ps)]"
  by (simp add: all_options_def)

lemma headers_snoc: "headers (ks @ [k]) = headers ks @ [Suc (length ks)]"
  by (simp add: headers_def)

lemma append_column_built:
  assumes b: "built board ks [] s" and k: "k < 400" "k \<notin> set ks" and room: "Suc (length ks) < kMaxNodes"
  shows "\<exists>s'. append_column k s = Some s' \<and> built board (ks @ [k]) [] s'"
proof -
  let ?c = "Suc (length ks)"
  let ?ns = "put_left 0 ?c (node_init ?c ?c (int k) (nodes s))"
  have R: "represents 0 (headers ks) [] (headers ks) (nodes s)" and cur: "cur_node s = ?c"
    and cl: "length (columns s) = 400" "columns s ! k = None"
    using b k by (auto simp: built_def all_options_def)
  have c: "?c \<notin> insert 0 (set (headers ks))" by (simp add: headers_def)
  note h = represents_add_header[OF R c refl, of "int k"]
  have "columns s ! (ks ! j) = Some (Suc j) \<and> name (nodes s) (Suc j) = int (ks ! j) \<and> k \<noteq> ks ! j"
    if "j < length ks" for j using b k that by (auto simp: built_def)
  then have "(columns s)[k := Some ?c] ! ((ks @ [k]) ! j) = Some (Suc j) \<and> name ?ns (Suc j) = int ((ks @ [k]) ! j)"
    if "j < Suc (length ks)" for j
    using that h(2) cl k by (cases "j = length ks") (auto simp: nth_append)
  then have "built board (ks @ [k]) [] (s\<lparr>cur_node := Suc ?c, nodes := ?ns, columns := (columns s)[k := Some ?c]\<rparr>)"
    using b h(1) k by (auto simp: built_def headers_snoc all_options_def)
  moreover have "append_column k s
      = Some (s\<lparr>cur_node := Suc ?c, nodes := ?ns, columns := (columns s)[k := Some ?c]\<rparr>)"
    using cur cl k room b by (simp add: append_column_def new_column_def built_def)
  ultimately show ?thesis by blast
qed

lemma foldo_append: "foldo f (xs @ ys) s = do { s' \<leftarrow> foldo f xs s; foldo f ys s' }"
  by (induction xs arbitrary: s) (auto split: bind_split)

lemma foldo_concat: "foldo (\<lambda>x. foldo f (g x)) xs s = foldo f (concat (map g xs)) s"
  by (induction xs arbitrary: s) (auto simp: foldo_append split: bind_split)

lemma foldo_filter: "foldo (\<lambda>x s. if P x then f (g x) s else Some s) xs s = foldo f (map g (filter P xs)) s"
  by (induction xs arbitrary: s) (auto split: bind_split)

lemma foldo_append_column:
  assumes "built board ks [] s" and "distinct (ks @ ks')" and "set ks' \<subseteq> {..<400}"
    and "Suc (length (ks @ ks')) \<le> kMaxNodes"
  shows "\<exists>s'. foldo append_column ks' s = Some s' \<and> built board (ks @ ks') [] s'"
  using assms
proof (induction ks' arbitrary: ks s)
  case (Cons k ks')
  then obtain s' where s': "append_column k s = Some s'" "built board (ks @ [k]) [] s'"
    using append_column_built[OF Cons.prems(1), of k] by auto
  then show ?case using Cons.IH[OF s'(2)] Cons.prems by auto
qed simp

lemma new_row_add:
  assumes "k < length (columns s)" and "columns s ! k = Some c" and "cur_node s < kMaxNodes"
  shows "new_row k s = Some (cur_node s,
    s\<lparr>cur_node := Suc (cur_node s), nodes := add_row (cur_node s) c (int k) (nodes s)\<rparr>)"
  using assms by (simp add: new_row_def add_row_def)

lemma built_header:
  assumes b: "built board ks ps s" and k: "k \<in> set ks"
  obtains c where "columns s ! k = Some c" and "c \<in> set (headers ks)" and "name (nodes s) c = int k" and "k < length (columns s)"
proof -
  obtain j where j: "j < length ks" "ks ! j = k" using k by (auto simp: in_set_conv_nth)
  have "Suc j \<in> set (headers ks)" using j(1) by (auto simp: headers_def)
  moreover have "k < length (columns s)" using b k by (auto simp: built_def)
  moreover have "columns s ! k = Some (Suc j) \<and> name (nodes s) (Suc j) = int k" using b j by (auto simp: built_def)
  ultimately show ?thesis using that by blast
qed

lemma option_cols_distinct:
  assumes "i < 81" and "v < 10" shows "distinct (option_cols (i, v))" and "\<forall>k\<in>set (option_cols (i, v)). k < 400"
proof -
  have "i div 9 div 3 \<le> 2" "i mod 9 div 3 \<le> 2" "row_of i < 9" "col_of i < 9"
    using assms(1) by (auto simp: row_of_def col_of_def)
  moreover then have "box_of i < 9" unfolding box_of_def row_of_def col_of_def by linarith
  ultimately show "distinct (option_cols (i, v))" and "\<forall>k\<in>set (option_cols (i, v)). k < 400"
    using assms by (auto simp: option_cols_def get_row_col_def get_col_col_def get_box_col_def kRow_def kCol_def kBox_def)
qed

lemma append_option_built:
  assumes b: "built board ks ps s" and iv: "i < 81" "v < 10" and ks: "set (option_cols (i, v)) \<subseteq> set ks"
    and room: "Suc (length ks) + 4 * length ps + 4 \<le> kMaxNodes"
  shows "\<exists>s'. append_option i v s = Some s' \<and> built board ks (ps @ [(i, v)]) s'"
proof -
  let ?n = "cur_node s" and ?H = "headers ks"
  let ?k1 = "get_row_col (row_of i) v" and ?k2 = "get_col_col (col_of i) v" and ?k3 = "get_box_col (box_of i) v"
  have R: "represents 0 ?H (all_options ks ps) ?H (nodes s)" and n: "?n = Suc (length ks) + 4 * length ps"
    using b by (simp_all add: built_def)
  obtain c0 where c0: "columns s ! i = Some c0" "c0 \<in> set ?H" "name (nodes s) c0 = int i" "i < length (columns s)"
    using built_header[OF b, of i] ks by (auto simp: option_cols_def)
  obtain c1 where c1: "columns s ! ?k1 = Some c1" "c1 \<in> set ?H" "name (nodes s) c1 = int ?k1" "?k1 < length (columns s)"
    using built_header[OF b, of ?k1] ks by (auto simp: option_cols_def)
  obtain c2 where c2: "columns s ! ?k2 = Some c2" "c2 \<in> set ?H" "name (nodes s) c2 = int ?k2" "?k2 < length (columns s)"
    using built_header[OF b, of ?k2] ks by (auto simp: option_cols_def)
  obtain c3 where c3: "columns s ! ?k3 = Some c3" "c3 \<in> set ?H" "name (nodes s) c3 = int ?k3" "?k3 < length (columns s)"
    using built_header[OF b, of ?k3] ks by (auto simp: option_cols_def)
  have cd: "distinct [c0, c1, c2, c3]"
    using option_cols_distinct(1)[OF iv] c0(3) c1(3) c2(3) c3(3) by (auto simp: option_cols_def)
  define ns' where "ns' = link_option ?n (?n + 1) (?n + 2) (?n + 3)
    (add_row (?n + 3) c3 (int ?k3) (add_row (?n + 2) c2 (int ?k2) (add_row (?n + 1) c1 (int ?k1) (add_row ?n c0 (int i) (nodes s)))))"
  have fresh: "set [?n, ?n + 1, ?n + 2, ?n + 3] \<inter> insert 0 (set ?H \<union> set (concat (all_options ks ps))) = {}"
  proof -
    have "m \<ge> ?n \<longrightarrow> m \<notin> insert 0 (set ?H \<union> set (concat (all_options ks ps)))" for m
      unfolding Un_iff insert_iff set_all_options n by (auto simp: headers_def)
    then show ?thesis by (auto simp del: set_concat)
  qed
  have nd: "distinct [?n, ?n + 1, ?n + 2, ?n + 3]" by simp
  have cH: "set [c0, c1, c2, c3] \<subseteq> set ?H" using c0 c1 c2 c3 by simp
  note add = represents_add_option[OF R nd fresh cd cH ns'_def]
  have eq: "append_option i v s = Some (s\<lparr>cur_node := ?n + 4, nodes := ns'\<rparr>)"
    using c0(1,4) c1(1,4) c2(1,4) c3(1,4) room n
    by (simp add: append_option_def new_row_add ns'_def link_option_def numeral_eq_Suc)
  have wn: "option_nodes (Suc (length ks)) (length ps) = [?n, ?n + 1, ?n + 2, ?n + 3]"
    by (simp add: option_nodes_def n)
  have out: "name ns' m = name (nodes s) m" "col ns' m = col (nodes s) m" if "m < ?n" for m
    using that by (simp_all add: add(2,3))
  have Hn: "h < ?n" if "h \<in> set ?H" for h using that by (auto simp: headers_def n)
  have old: "m < ?n \<and> col (nodes s) m < ?n" if m: "m \<in> set (concat (all_options ks ps))" for m
  proof -
    obtain w where "w \<in> set (all_options ks ps)" "m \<in> set w" using m by auto
    then have "col (nodes s) m \<in> set ?H" using representsD(4)[OF R] by (auto simp: option_ok_def)
    then show ?thesis using Hn m unfolding set_all_options n by auto
  qed
  have "map (name ns') (option_nodes (Suc (length ks)) p) = map int (option_cols ((ps @ [(i, v)]) ! p))"
    if "p < Suc (length ps)" for p
  proof (cases "p = length ps")
    case True
    then show ?thesis by (simp add: wn add(3) option_cols_def)
  next
    case False
    then have p: "p < length ps" using that by simp
    then have "map (name ns') (option_nodes (Suc (length ks)) p) = map (name (nodes s)) (option_nodes (Suc (length ks)) p)"
      by (intro map_cong refl out) (auto simp: option_nodes_def n)
    also have "\<dots> = map int (option_cols (ps ! p))" using b p unfolding built_def by blast
    finally show ?thesis using p by (simp add: nth_append)
  qed
  moreover have "name ns' (col ns' m) = name ns' m" if "m \<in> set (concat (all_options ks (ps @ [(i, v)])))" for m
  proof (cases "m \<in> set (concat (all_options ks ps))")
    case True
    then have "name (nodes s) (col (nodes s) m) = name (nodes s) m" using b unfolding built_def by blast
    then show ?thesis using old[OF True] out by simp
  next
    case False
    then have "m \<in> {?n, ?n + 1, ?n + 2, ?n + 3}" using that by (auto simp: all_options_snoc wn)
    moreover have "c0 < ?n" "c1 < ?n" "c2 < ?n" "c3 < ?n" using Hn c0 c1 c2 c3 by simp_all
    ultimately show ?thesis using c0(3) c1(3) c2(3) c3(3) by (auto simp: add(2,3))
  qed
  ultimately have "built board ks (ps @ [(i, v)]) (s\<lparr>cur_node := ?n + 4, nodes := ns'\<rparr>)"
    using b add(1) out(1) n by (auto simp: built_def all_options_snoc wn)
  then show ?thesis using eq by blast
qed

text \<open>The digits the givens use, and the numbers of the columns and options the constructor appends.\<close>

definition board_ok :: "int list \<Rightarrow> bool" where
  "board_ok board \<longleftrightarrow> length board = 81 \<and> (\<forall>x\<in>set board. 0 \<le> x \<and> x \<le> 9)"

definition given :: "int list \<Rightarrow> (nat \<Rightarrow> nat) \<Rightarrow> nat \<Rightarrow> nat \<Rightarrow> nat \<Rightarrow> bool" where
  "given board unit n a v \<longleftrightarrow> (\<exists>i<n. unit i = a \<and> board ! i = int v)"

lemma mark_all:
  assumes b: "board_ok board" and n: "n \<le> 81"
  shows "foldo (mark board) [0..<n] \<lparr>rows = (\<lambda>_ _. False), cols = (\<lambda>_ _. False), boxes = (\<lambda>_ _. False)\<rparr>
    = Some \<lparr>rows = given board row_of n, cols = given board col_of n, boxes = given board box_of n\<rparr>"
  using n
proof (induction n)
  case 0
  then show ?case by (simp add: given_def fun_eq_iff)
next
  case (Suc n)
  have d: "0 \<le> board ! n \<and> board ! n \<le> 9" using b Suc.prems by (simp add: board_ok_def)
  have g: "set_flag (given board unit n) (unit n) (nat (board ! n)) = given board unit (Suc n)" for unit
    using d by (auto simp: set_flag_def given_def fun_eq_iff less_Suc_eq)
  show ?case using Suc d by (simp add: foldo_append mark_def g)
qed

definition unit_cols :: "used \<Rightarrow> nat \<Rightarrow> nat \<Rightarrow> nat list" where
  "unit_cols u i v = (if rows u i v then [] else [get_row_col i v]) @
     (if cols u i v then [] else [get_col_col i v]) @ (if boxes u i v then [] else [get_box_col i v])"

definition col_list :: "int list \<Rightarrow> used \<Rightarrow> nat list" where
  "col_list board u = filter (\<lambda>i. board ! i = 0) [0..<81] @
     concat (map (\<lambda>i. concat (map (unit_cols u i) [1..<10])) [0..<9])"

definition opt_list :: "int list \<Rightarrow> used \<Rightarrow> (nat \<times> nat) list" where
  "opt_list board u = concat (map (\<lambda>i. if board ! i = 0 then map (Pair i) (filter (\<lambda>v.
       \<not> (rows u (row_of i) v \<or> cols u (col_of i) v \<or> boxes u (box_of i) v)) [1..<10]) else []) [0..<81])"

lemmas col_numbers = get_row_col_def get_col_col_def get_box_col_def kRow_def kCol_def kBox_def

lemma unit_cols_pos:
  assumes "x \<in> set (unit_cols u i v)" and "i < 9" and "v < 10"
  shows "100 \<le> x \<and> x < 400 \<and> x mod 100 div 10 = i \<and> x mod 10 = v"
proof -
  have "x = 100 * 1 + (10 * i + v) \<or> x = 100 * 2 + (10 * i + v) \<or> x = 100 * 3 + (10 * i + v)"
    using assms(1) by (auto simp: unit_cols_def col_numbers split: if_splits)
  then obtain e where e: "x = 100 * e + (10 * i + v)" "1 \<le> e" "e \<le> 3" by auto
  have m: "10 * i + v < 100" using assms(2,3) by simp
  then have "x mod 100 = 10 * i + v" unfolding e(1) by (subst mod_mult_self4) simp
  then have "x mod 100 div 10 = i" using assms(3) by simp
  moreover have "x = v + 10 * (10 * e + i)" using e(1) by simp
  then have "x mod 10 = v" using assms(3) by (simp only: mod_mult_self2 mod_less)
  ultimately show ?thesis using e m by linarith
qed

lemma col_list_ok: "distinct (col_list board u)" "set (col_list board u) \<subseteq> {..<400}" "length (col_list board u) \<le> 324"
proof -
  have "distinct (unit_cols u i v)" for i v
    by (simp add: unit_cols_def col_numbers)
  then have "distinct (concat (map (unit_cols u i) [1..<10]))" if "i < 9" for i
    using that by (intro distinct_concat_map) (auto dest!: unit_cols_pos)
  then have "distinct (concat (map (\<lambda>i. concat (map (unit_cols u i) [1..<10])) [0..<9]))"
    by (rule distinct_concat_map[OF distinct_upt]) (auto dest!: unit_cols_pos)
  then show "distinct (col_list board u)" by (auto simp: col_list_def dest!: unit_cols_pos)
  show "set (col_list board u) \<subseteq> {..<400}" by (auto simp: col_list_def dest!: unit_cols_pos)
  have "length (unit_cols u i v) \<le> 3" for i v by (simp add: unit_cols_def)
  then have l: "length (concat (map (unit_cols u i) [1..<10])) \<le> 27" for i
    using sum_list_mono[of "[1..<10]" "\<lambda>v. length (unit_cols u i v)" "\<lambda>v. 3"] by (simp add: length_concat comp_def sum_list_triv)
  have "length (concat (map (\<lambda>i. concat (map (unit_cols u i) [1..<10])) [0..<9])) \<le> 243"
    using sum_list_mono[of "[0..<9]" "\<lambda>i. length (concat (map (unit_cols u i) [1..<10]))" "\<lambda>i. 27"] l
    by (simp add: length_concat comp_def sum_list_triv)
  moreover have "length (filter (\<lambda>i. board ! i = 0) [0..<81]) \<le> 81" by (rule order_trans[OF length_filter_le]) simp
  ultimately show "length (col_list board u) \<le> 324" by (simp add: col_list_def)
qed

lemma opt_list_length: "length (opt_list board u) \<le> 729"
proof -
  have "length (if board ! i = 0 then map (Pair i) (filter P [1..<10]) else []) \<le> 9" for i and P :: "nat \<Rightarrow> bool"
    using length_filter_le[of P "[1..<10]"] by simp
  from sum_list_mono[of "[0..<81]", OF this] show ?thesis
    by (simp add: opt_list_def length_concat comp_def sum_list_triv)
qed

definition givens :: "int list \<Rightarrow> used" where
  "givens board = \<lparr>rows = given board row_of 81, cols = given board col_of 81, boxes = given board box_of 81\<rparr>"

lemma foldo_cong: "(\<And>x s. x \<in> set xs \<Longrightarrow> f x s = g x s) \<Longrightarrow> foldo f xs s = foldo g xs s"
  by (induction xs arbitrary: s) (auto split: bind_split)

lemma append_cells: "foldo (append_cell board) xs s = foldo append_column (filter (\<lambda>i. board ! i = 0) xs) s"
  using foldo_filter[of "\<lambda>i. board ! i = 0" append_column "\<lambda>i. i" xs s]
  by (simp add: append_cell_def[abs_def])

lemma append_units_cols: "append_units u i v s = foldo append_column (unit_cols u i v) s"
  by (simp add: append_units_def unit_cols_def split: bind_split)

lemma append_all_units:
  "foldo (\<lambda>i. foldo (append_units u i) xs) ys s
    = foldo append_column (concat (map (\<lambda>i. concat (map (unit_cols u i) xs)) ys)) s"
proof -
  have "append_units u i = (\<lambda>v. foldo append_column (unit_cols u i v))" for i by (intro ext append_units_cols)
  then have "foldo (append_units u i) xs = foldo append_column (concat (map (unit_cols u i) xs))" for i
    by (intro ext) (simp only: foldo_concat)
  then show ?thesis by (simp only: foldo_concat)
qed

lemma append_options_list:
  "foldo (append_options board u) [0..<81] s = foldo (\<lambda>p. append_option (fst p) (snd p)) (opt_list board u) s"
  unfolding opt_list_def foldo_concat[symmetric]
  by (intro foldo_cong) (simp add: append_options_def foldo_filter[where f="\<lambda>p. append_option (fst p) (snd p)", symmetric]
      cong: if_cong)

lemma opt_list_iff:
  "(i, v) \<in> set (opt_list board u) \<longleftrightarrow> i < 81 \<and> board ! i = 0 \<and> 1 \<le> v \<and> v < 10 \<and>
     \<not> rows u (row_of i) v \<and> \<not> cols u (col_of i) v \<and> \<not> boxes u (box_of i) v"
  by (auto simp: opt_list_def)

lemma unit_lt: "i < 81 \<Longrightarrow> row_of i < 9 \<and> col_of i < 9 \<and> box_of i < 9"
proof -
  assume "i < 81"
  then have "i div 9 div 3 \<le> 2" "i mod 9 div 3 \<le> 2" "row_of i < 9" "col_of i < 9"
    by (auto simp: row_of_def col_of_def)
  moreover then have "box_of i < 9" unfolding box_of_def row_of_def col_of_def by linarith
  ultimately show ?thesis by simp
qed

lemma in_concat_mapI: "a \<in> set xs \<Longrightarrow> k \<in> set (f a) \<Longrightarrow> k \<in> set (concat (map f xs))"
  by auto

lemma option_cols_listed:
  assumes "(i, v) \<in> set (opt_list board u)"
  shows "set (option_cols (i, v)) \<subseteq> set (col_list board u)"
proof -
  have iv: "i < 81" "board ! i = 0" "v \<in> set [1..<10]" "\<not> rows u (row_of i) v" "\<not> cols u (col_of i) v" "\<not> boxes u (box_of i) v"
    using assms by (auto simp: opt_list_iff)
  have m: "k \<in> set (col_list board u)" if "k \<in> set (unit_cols u a v)" "a \<in> set [0..<9]" for k a
    unfolding col_list_def set_append
    by (rule UnI2, rule in_concat_mapI[OF that(2)], rule in_concat_mapI[OF iv(3)], rule that(1))
  have "i \<in> set (col_list board u)" using iv by (simp add: col_list_def)
  moreover have "get_row_col (row_of i) v \<in> set (col_list board u)"
    using iv unit_lt[OF iv(1)] by (intro m[of _ "row_of i"]) (auto simp: unit_cols_def)
  moreover have "get_col_col (col_of i) v \<in> set (col_list board u)"
    using iv unit_lt[OF iv(1)] by (intro m[of _ "col_of i"]) (auto simp: unit_cols_def)
  moreover have "get_box_col (box_of i) v \<in> set (col_list board u)"
    using iv unit_lt[OF iv(1)] by (intro m[of _ "box_of i"]) (auto simp: unit_cols_def)
  ultimately show ?thesis by (simp add: option_cols_def)
qed

lemma foldo_append_option:
  assumes "built board ks ps s" and "\<forall>p\<in>set qs. fst p < 81 \<and> snd p < 10 \<and> set (option_cols p) \<subseteq> set ks"
    and "Suc (length ks) + 4 * length (ps @ qs) \<le> kMaxNodes"
  shows "\<exists>s'. foldo (\<lambda>p. append_option (fst p) (snd p)) qs s = Some s' \<and> built board ks (ps @ qs) s'"
  using assms
proof (induction qs arbitrary: ps s)
  case (Cons q qs)
  then obtain s' where s': "append_option (fst q) (snd q) s = Some s'" "built board ks (ps @ [q]) s'"
    using append_option_built[OF Cons.prems(1), of "fst q" "snd q"] by auto
  then show ?case using Cons.IH[OF s'(2)] Cons.prems by auto
qed simp

lemma SudokuSolver_new_built:
  assumes b: "board_ok board"
  shows "\<exists>s. SudokuSolver_new mem board = Some s \<and>
    built board (col_list board (givens board)) (opt_list board (givens board)) s"
proof -
  let ?u = "givens board"
  let ?ns = "node_init 0 0 0 mem"
  let ?s = "\<lparr>rootp = 0, inout = board, columns = replicate 400 None, stack = [],
     nodes = ?ns\<lparr>left := (left ?ns)(0 := 0), right := (right ?ns)(0 := 0)\<rparr>, cur_node = 1\<rparr>"
  have "built board [] [] ?s"
    using represents_root[OF refl, of 0 ?ns] by (simp add: built_def headers_def all_options_def)
  then obtain s1 where s1: "foldo append_column (col_list board ?u) ?s = Some s1" "built board (col_list board ?u) [] s1"
    using foldo_append_column[of board "[]" ?s "col_list board ?u"] col_list_ok[of board ?u]
    by (auto simp: kMaxNodes_def)
  have "fst p < 81 \<and> snd p < 10 \<and> set (option_cols p) \<subseteq> set (col_list board ?u)"
    if "p \<in> set (opt_list board ?u)" for p
    using that option_cols_listed[of "fst p" "snd p"] opt_list_iff[of "fst p" "snd p"] by simp
  then obtain s2 where s2: "foldo (append_options board ?u) [0..<81] s1 = Some s2"
    "built board (col_list board ?u) (opt_list board ?u) s2"
    using foldo_append_option[OF s1(2), of "opt_list board ?u"] col_list_ok(3)[of board ?u] opt_list_length[of board ?u]
    by (auto simp: append_options_list kMaxNodes_def)
  have mark: "foldo (mark board) [0..<81] \<lparr>rows = (\<lambda>_ _. False), cols = (\<lambda>_ _. False), boxes = (\<lambda>_ _. False)\<rparr> = Some ?u"
    using mark_all[OF b, of 81] by (simp add: givens_def)
  have cols: "foldo append_column (col_list board ?u) ?s
      = do { s \<leftarrow> foldo (append_cell board) [0..<81] ?s; foldo (\<lambda>i. foldo (append_units ?u i) [1..<10]) [0..<9] s }"
    by (simp only: col_list_def foldo_append append_cells append_all_units)
  have "SudokuSolver_new mem board = foldo append_column (col_list board ?u) ?s \<bind> foldo (append_options board ?u) [0..<81]"
    unfolding cols by (simp add: SudokuSolver_new_def new_column_def kMaxNodes_def kCells_def mark)
  then show ?thesis using s1(1) s2 by simp
qed

section \<open>Sudoku as an exact cover\<close>

text \<open>
  The three families of units, each with the base of its column numbers. A grid is \<open>solved\<close> if
  every unit holds each of the nine digits.
\<close>

definition families :: "(nat \<times> (nat \<Rightarrow> nat)) list" where
  "families = [(kRow, row_of), (kCol, col_of), (kBox, box_of)]"

definition cells_of :: "(nat \<Rightarrow> nat) \<Rightarrow> nat \<Rightarrow> nat list" where
  "cells_of un a = filter (\<lambda>i. un i = a) [0..<81]"

definition solved :: "int list \<Rightarrow> bool" where
  "solved g \<longleftrightarrow> length g = 81 \<and> (\<forall>(b, un)\<in>set families. \<forall>a\<in>{..<9}. (\<lambda>i. g ! i) ` set (cells_of un a) = {1..9})"

definition extends :: "int list \<Rightarrow> int list \<Rightarrow> bool" where
  "extends board g \<longleftrightarrow> (\<forall>i\<in>{..<81}. board ! i \<noteq> 0 \<longrightarrow> g ! i = board ! i)"

abbreviation unit_number :: "nat \<Rightarrow> nat \<Rightarrow> nat \<Rightarrow> nat" where
  "unit_number b a v \<equiv> b + a * 10 + v"

lemma unit_number_inj:
  assumes "unit_number b a v = unit_number b' a' v'" and "(b, un) \<in> set families" and "(b', un') \<in> set families"
    and "a < 9" and "a' < 9" and "v < 10" and "v' < 10"
  shows "b = b' \<and> un = un' \<and> a = a' \<and> v = v'"
proof -
  have "b = b' \<and> un = un'" using assms by (auto simp: families_def kRow_def kCol_def kBox_def)
  moreover then have "a * 10 + v = a' * 10 + v'" using assms(1) by simp
  then have "(a * 10 + v) div 10 = (a' * 10 + v') div 10" by simp
  then have "a = a'" using assms(6,7) by simp
  ultimately show ?thesis using assms(1) by simp
qed

lemma families_ge: "(b, un) \<in> set families \<Longrightarrow> 100 \<le> b"
  by (auto simp: families_def kRow_def kCol_def kBox_def)

lemma families_lt: "(b, un) \<in> set families \<Longrightarrow> i < 81 \<Longrightarrow> un i < 9"
  using unit_lt by (auto simp: families_def)

lemma option_cols_iff:
  "k \<in> set (option_cols (i, v)) \<longleftrightarrow> k = i \<or> (\<exists>(b, un)\<in>set families. k = unit_number b (un i) v)"
  by (auto simp: option_cols_def families_def get_row_col_def get_col_col_def get_box_col_def)

lemma unit_cols_iff:
  "k \<in> set (unit_cols (givens board) a v) \<longleftrightarrow>
     (\<exists>(b, un)\<in>set families. \<not> given board un 81 a v \<and> k = unit_number b a v)"
  by (auto simp: unit_cols_def givens_def families_def get_row_col_def get_col_col_def get_box_col_def)

lemma col_list_iff:
  "k \<in> set (col_list board (givens board)) \<longleftrightarrow> k < 81 \<and> board ! k = 0 \<or>
     (\<exists>(b, un)\<in>set families. \<exists>a<9. \<exists>v. 1 \<le> v \<and> v < 10 \<and> \<not> given board un 81 a v \<and> k = unit_number b a v)"
proof -
  have "k \<in> set (col_list board (givens board)) \<longleftrightarrow> k < 81 \<and> board ! k = 0 \<or>
      (\<exists>a\<in>set [0..<9]. \<exists>v\<in>set [1..<10]. k \<in> set (unit_cols (givens board) a v))"
    unfolding col_list_def set_append set_concat set_map by auto
  then show ?thesis unfolding unit_cols_iff set_upt by fastforce
qed

lemma opt_list_families:
  "(i, v) \<in> set (opt_list board (givens board)) \<longleftrightarrow> i < 81 \<and> board ! i = 0 \<and> 1 \<le> v \<and> v < 10 \<and>
     (\<forall>(b, un)\<in>set families. \<not> given board un 81 (un i) v)"
  by (simp add: opt_list_iff givens_def families_def)

lemma cells_nine: "(b, un) \<in> set families \<Longrightarrow> a < 9 \<Longrightarrow> length (cells_of un a) = 9"
proof -
  have "\<forall>un\<in>set [row_of, col_of, box_of]. \<forall>a\<in>set [0..<9]. length (cells_of un a) = 9" by code_simp
  then show "(b, un) \<in> set families \<Longrightarrow> a < 9 \<Longrightarrow> length (cells_of un a) = 9" by (auto simp: families_def)
qed

lemma cells_of_iff: "i \<in> set (cells_of un a) \<longleftrightarrow> i < 81 \<and> un i = a"
  by (auto simp: cells_of_def)

lemma solved_inj:
  assumes g: "solved g" and f: "(b, un) \<in> set families" and ij: "i < 81" "j < 81" "un i = un j" "g ! i = g ! j"
  shows "i = j"
proof -
  have a: "un i < 9" using families_lt[OF f ij(1)] .
  have "(\<lambda>i. g ! i) ` set (cells_of un (un i)) = {1..9}" using g f a by (fastforce simp: solved_def)
  moreover have "card (set (cells_of un (un i))) = 9"
    using cells_nine[OF f a] distinct_card[of "cells_of un (un i)"] by (simp add: cells_of_def)
  ultimately have "inj_on (\<lambda>i. g ! i) (set (cells_of un (un i)))" by (intro eq_card_imp_inj_on) simp_all
  then show ?thesis using ij by (auto simp: cells_of_iff dest: inj_onD)
qed

lemma solved_range: "solved g \<Longrightarrow> i < 81 \<Longrightarrow> 1 \<le> g ! i \<and> g ! i \<le> 9"
proof -
  assume g: "solved g" and i: "i < 81"
  then have "(\<lambda>i. g ! i) ` set (cells_of row_of (row_of i)) = {1..9}"
    using unit_lt[OF i] by (auto simp: solved_def families_def)
  moreover have "i \<in> set (cells_of row_of (row_of i))" using i by (simp add: cells_of_iff)
  ultimately show ?thesis by fastforce
qed

abbreviation sudoku_cover :: "int list \<Rightarrow> (nat \<times> nat) list \<Rightarrow> bool" where
  "sudoku_cover board qs \<equiv> exact_cover (\<lambda>p. set (option_cols p)) (set (opt_list board (givens board)))
     (set (col_list board (givens board))) qs"

definition fill_pairs :: "(nat \<times> nat) list \<Rightarrow> int list \<Rightarrow> int list" where
  "fill_pairs qs board = fold (\<lambda>p b. b[fst p := int (snd p)]) qs board"

lemma length_fill_pairs [simp]: "length (fill_pairs qs b) = length b"
  unfolding fill_pairs_def by (induction qs arbitrary: b) auto

lemma fill_pairs_other: "i \<notin> fst ` set qs \<Longrightarrow> fill_pairs qs b ! i = b ! i"
  unfolding fill_pairs_def by (induction qs arbitrary: b) auto

lemma fill_pairs_chosen:
  assumes "exact_cover (\<lambda>p. set (option_cols p)) A S qs" and "(i, v) \<in> set qs" and "i < length b"
  shows "fill_pairs qs b ! i = int v"
  using assms
proof (induction qs arbitrary: S b)
  case (Cons q qs)
  show ?case
  proof (cases "q = (i, v)")
    case True
    have "fst p \<noteq> i" if "p \<in> set qs" for p
      using exact_cover_disjoint[OF Cons.prems(1) that] True by (cases p) (auto simp: option_cols_iff)
    then have "fill_pairs qs (b[i := int v]) ! i = b[i := int v] ! i" by (intro fill_pairs_other) blast
    then show ?thesis using True Cons.prems(3) by (simp add: fill_pairs_def)
  next
    case False
    then show ?thesis using Cons.IH[of "S - set (option_cols q)" "b[fst q := int (snd q)]"] Cons.prems
      by (simp add: fill_pairs_def)
  qed
qed simp

lemma cover_solved:
  assumes b: "board_ok board" and qs: "sudoku_cover board qs"
  shows "solved (fill_pairs qs board)" and "extends board (fill_pairs qs board)"
proof -
  let ?g = "fill_pairs qs board" and ?u = "givens board"
  have sub: "set qs \<subseteq> set (opt_list board ?u)" and un: "set (col_list board ?u) = (\<Union>p\<in>set qs. set (option_cols p))"
    using exact_cover_sub[OF qs] by auto
  have len: "length board = 81" using b by (simp add: board_ok_def)
  have chosen: "?g ! i = int v \<and> i < 81 \<and> 1 \<le> v \<and> v < 10 \<and> board ! i = 0" if "(i, v) \<in> set qs" for i v
  proof -
    have "i < 81 \<and> board ! i = 0 \<and> 1 \<le> v \<and> v < 10" using that sub opt_list_families by blast
    then show ?thesis using fill_pairs_chosen[OF qs that] len by simp
  qed
  have keep: "?g ! i = board ! i" if "board ! i \<noteq> 0" for i
    using that chosen by (intro fill_pairs_other) auto
  then show "extends board ?g" by (simp add: extends_def)
  have range: "1 \<le> ?g ! i \<and> ?g ! i \<le> 9" if i: "i < 81" for i
  proof (cases "board ! i = 0")
    case True
    then have "i \<in> set (col_list board ?u)" using i by (simp add: col_list_iff)
    then obtain j v where q: "(j, v) \<in> set qs" "i \<in> set (option_cols (j, v))" unfolding un by auto
    then have "i = j" using i by (auto simp: option_cols_iff dest!: families_ge)
    then show ?thesis using chosen[OF q(1)] by simp
  next
    case False
    moreover have "0 \<le> board ! i \<and> board ! i \<le> 9" using b i by (simp add: board_ok_def)
    ultimately show ?thesis using keep[of i] by simp
  qed
  have "v \<in> (\<lambda>i. ?g ! i) ` set (cells_of un a)" if f: "(bs, un) \<in> set families" and a: "a < 9" and v: "v \<in> {1..9}" for bs un a v
  proof (cases "given board un 81 a (nat v)")
    case True
    then obtain i where "i < 81" "un i = a" "board ! i = v" using v by (auto simp: given_def)
    then show ?thesis using keep[of i] v by (auto simp: cells_of_iff intro!: image_eqI[of _ _ i])
  next
    case False
    then have "unit_number bs a (nat v) \<in> set (col_list board ?u)" using f a v by (fastforce simp: col_list_iff)
    then obtain i w where q: "(i, w) \<in> set qs" "unit_number bs a (nat v) \<in> set (option_cols (i, w))"
      unfolding un by auto
    then obtain bs' un' where k: "(bs', un') \<in> set families" "unit_number bs a (nat v) = unit_number bs' (un' i) w"
      using chosen[OF q(1)] families_ge[OF f] by (auto simp: option_cols_iff)
    have "un = un' \<and> a = un' i \<and> nat v = w"
      using unit_number_inj[OF k(2) f k(1) a] families_lt[OF k(1)] chosen[OF q(1)] v by auto
    then show ?thesis using chosen[OF q(1)] v by (auto simp: cells_of_iff intro!: image_eqI[of _ _ i])
  qed
  moreover have "(\<lambda>i. ?g ! i) ` set (cells_of un a) \<subseteq> {1..9}" for un a using range by (auto simp: cells_of_iff)
  ultimately have "(\<lambda>i. ?g ! i) ` set (cells_of un a) = {1..9}" if "(bs, un) \<in> set families" "a < 9" for bs un a
    using that by blast
  then show "solved ?g" using len unfolding solved_def by simp blast
qed

lemma exact_coverI:
  assumes "set ws \<subseteq> A" and "distinct ws" and "S = (\<Union>w\<in>set ws. K w)"
    and "\<And>v w. v \<in> set ws \<Longrightarrow> w \<in> set ws \<Longrightarrow> v \<noteq> w \<Longrightarrow> K v \<inter> K w = {}"
  shows "exact_cover K A S ws"
  using assms
proof (induction ws arbitrary: S)
  case (Cons w ws)
  have "K v \<inter> K w = {}" if "v \<in> set ws" for v using Cons.prems(2,4) that by auto
  then have "S - K w = (\<Union>v\<in>set ws. K v)" using Cons.prems(3) by auto
  then show ?case using Cons by auto
qed simp

lemma solved_cover:
  assumes b: "board_ok board" and g: "solved g" "extends board g"
  shows "\<exists>qs. sudoku_cover board qs"
proof
  let ?qs = "map (\<lambda>i. (i, nat (g ! i))) (filter (\<lambda>i. board ! i = 0) [0..<81])" and ?u = "givens board"
  have gi: "\<not> given board un 81 (un i) (nat (g ! i))"
    if i: "i < 81" "board ! i = 0" and f: "(bs, un) \<in> set families" for i bs un
  proof
    assume "given board un 81 (un i) (nat (g ! i))"
    then obtain j where j: "j < 81" "un j = un i" "board ! j = g ! i"
      using solved_range[OF g(1) i(1)] by (auto simp: given_def)
    then have "g ! j = g ! i" using g(2) solved_range[OF g(1) i(1)] by (auto simp: extends_def)
    then show False using solved_inj[OF g(1) f j(1) i(1) j(2)] j(3) i solved_range[OF g(1) i(1)] by auto
  qed
  have opt: "(i, nat (g ! i)) \<in> set (opt_list board ?u)" if "i < 81" "board ! i = 0" for i
    using that gi solved_range[OF g(1)] by (fastforce simp: opt_list_families)
  have cov: "k \<in> (\<Union>p\<in>set ?qs. set (option_cols p))" if k: "k \<in> set (col_list board ?u)" for k
  proof (cases "k < 81 \<and> board ! k = 0")
    case True
    then show ?thesis by (auto simp: option_cols_iff intro!: exI[of _ k])
  next
    case False
    then obtain bs un a v where f: "(bs, un) \<in> set families" "a < 9" "1 \<le> v" "v < 10" "\<not> given board un 81 a v"
      "k = unit_number bs a v" using k unfolding col_list_iff by blast
    have "int v \<in> (\<lambda>i. g ! i) ` set (cells_of un a)" using g(1) f by (fastforce simp: solved_def)
    then obtain i where i: "i < 81" "un i = a" "g ! i = int v" by (auto simp: cells_of_iff)
    then have "board ! i = 0" using f(5) g(2) by (auto simp: given_def extends_def)
    then show ?thesis using f i by (auto simp: option_cols_iff intro!: exI[of _ i])
  qed
  show "sudoku_cover board ?qs"
  proof (rule exact_coverI)
    show "set ?qs \<subseteq> set (opt_list board ?u)" using opt by auto
    show "distinct ?qs" by (simp add: distinct_map inj_on_def)
    show "set (col_list board ?u) = (\<Union>p\<in>set ?qs. set (option_cols p))"
      using cov option_cols_listed opt by fastforce
    fix p q assume pq: "p \<in> set ?qs" "q \<in> set ?qs" "p \<noteq> q"
    then obtain i j where ij: "p = (i, nat (g ! i))" "q = (j, nat (g ! j))" "i < 81" "j < 81" "i \<noteq> j" by auto
    have "False" if "(bs, un) \<in> set families" "(bs', un') \<in> set families"
      "unit_number bs (un i) (nat (g ! i)) = unit_number bs' (un' j) (nat (g ! j))" for bs un bs' un'
    proof -
      note r = solved_range[OF g(1) ij(3)] solved_range[OF g(1) ij(4)]
      have "un = un' \<and> un i = un' j \<and> nat (g ! i) = nat (g ! j)"
        using unit_number_inj[OF that(3,1,2) families_lt[OF that(1) ij(3)] families_lt[OF that(2) ij(4)]] r by linarith
      moreover then have "g ! i = g ! j" using r by (simp add: eq_nat_nat_iff)
      ultimately show False using solved_inj[OF g(1) that(1) ij(3,4)] ij(5) by auto
    qed
    moreover have "unit_number bs x v \<noteq> i" "unit_number bs x v \<noteq> j" if "(bs, un) \<in> set families" for bs un x v
      using families_ge[OF that] ij(3,4) by auto
    ultimately have "False" if "k \<in> set (option_cols p)" "k \<in> set (option_cols q)" for k
      using that ij(5) unfolding ij(1,2) option_cols_iff by (auto; metis)
    then show "set (option_cols p) \<inter> set (option_cols q) = {}" by blast
  qed
qed

section \<open>The whole program\<close>

lemma exact_cover_map:
  assumes "exact_cover K A S ws" and "inj_on F T" and "S \<subseteq> T" and "\<And>w. w \<in> A \<Longrightarrow> K w \<subseteq> T \<and> F ` K w = K' (g w)"
  shows "exact_cover K' (g ` A) (F ` S) (map g ws)"
  using assms
proof (induction ws arbitrary: S)
  case (Cons w ws)
  have w: "w \<in> A" "K w \<subseteq> S" "exact_cover K A (S - K w) ws" using Cons.prems(1) by auto
  have "F ` (S - K w) = F ` S - K' (g w)"
    using inj_on_image_set_diff[OF Cons.prems(2), of S "K w"] Cons.prems(3,4) w by auto
  moreover have "exact_cover K' (g ` A) (F ` (S - K w)) (map g ws)"
    using Cons.prems w by (intro Cons.IH) auto
  moreover have "K' (g w) \<subseteq> F ` S" using w Cons.prems(4) by blast
  ultimately show ?case using w by simp
qed simp

lemma exact_cover_unmap:
  assumes "exact_cover K' (g ` A) (F ` S) qs" and "inj_on F T" and "S \<subseteq> T" and "\<And>w. w \<in> A \<Longrightarrow> K w \<subseteq> T \<and> F ` K w = K' (g w)"
  shows "\<exists>ws. exact_cover K A S ws"
  using assms
proof (induction qs arbitrary: S)
  case Nil
  then show ?case by (intro exI[of _ "[]"]) auto
next
  case (Cons q qs)
  then obtain w where w: "w \<in> A" "q = g w" by auto
  have K: "K w \<subseteq> T" "F ` K w = K' q" using Cons.prems(4)[OF w(1)] w(2) by auto
  have sub: "K w \<subseteq> S"
  proof
    fix x assume x: "x \<in> K w"
    then have "F x \<in> F ` S" using Cons.prems(1) K(2) by auto
    then show "x \<in> S" using x K(1) inj_on_image_mem_iff[OF Cons.prems(2) _ Cons.prems(3), of x] by blast
  qed
  have "F ` (S - K w) = F ` S - K' q"
    using inj_on_image_set_diff[OF Cons.prems(2), of S "K w"] Cons.prems(3) K by auto
  then obtain ws where "exact_cover K A (S - K w) ws"
    using Cons.IH[of "S - K w"] Cons.prems by auto
  then show ?case using w sub by (intro exI[of _ "w # ws"]) simp
qed

definition pair_of :: "(nat \<Rightarrow> int) \<Rightarrow> nat list \<Rightarrow> nat \<times> nat" where
  "pair_of nm w = (cell_of nm w, nat (val_of nm w))"

lemma option_cols_named:
  assumes "i < 81" and "v < 10" and nm: "map nm w = map int (option_cols (i, v))"
  shows "named nm w" and "pair_of nm w = (i, v)" and "val_of nm w = int v"
proof -
  have "length w = 4" using arg_cong[OF nm, of length] by (simp add: option_cols_def)
  then obtain a b c d where w: "w = [a, b, c, d]" by (rule length4E)
  have m: "int (unit_number (10 * k) x v) mod 10 = int v" for k x
  proof -
    have "unit_number (10 * k) x v = v + 10 * (k + x)" by simp
    then have "unit_number (10 * k) x v mod 10 = v" using assms(2) by (simp only: mod_mult_self2 mod_less)
    then show ?thesis by (metis of_nat_mod of_nat_numeral)
  qed
  have n: "nm a = int i" "nm b = int (unit_number (10 * 10) (row_of i) v)"
    "nm c = int (unit_number (10 * 20) (col_of i) v)" "nm d = int (unit_number (10 * 30) (box_of i) v)"
    using nm by (simp_all add: w option_cols_def col_numbers)
  have ge: "nm b \<ge> 100" "nm c \<ge> 100" "nm d \<ge> 100" unfolding n by simp_all
  have md: "nm b mod 10 = int v" "nm c mod 10 = int v" "nm d mod 10 = int v" unfolding n by (rule m)+
  show "named nm w" and "pair_of nm w = (i, v)" and "val_of nm w = int v"
    using ge md n(1) assms(1) by (simp_all add: w named_def pair_of_def cell_of_def val_of_def)
qed

lemma built_options:
  assumes b: "built board ks ps s" and ps: "\<forall>(i, v)\<in>set ps. i < 81 \<and> v < 10" and w: "w \<in> set (all_options ks ps)"
  shows "named (name (nodes s)) w" and "pair_of (name (nodes s)) w \<in> set ps"
    and "int (nat (val_of (name (nodes s)) w)) = val_of (name (nodes s)) w"
    and "(\<lambda>h. nat (name (nodes s) h)) ` col (nodes s) ` set w = set (option_cols (pair_of (name (nodes s)) w))"
proof -
  let ?nm = "name (nodes s)"
  obtain p where p: "p < length ps" "w = option_nodes (Suc (length ks)) p" using w by (auto simp: all_options_def)
  obtain i v where iv: "ps ! p = (i, v)" by force
  have m: "map ?nm w = map int (option_cols (i, v))" using b p iv unfolding built_def by metis
  have lt: "i < 81" "v < 10" using ps p(1) iv nth_mem[OF p(1)] by auto
  note o = option_cols_named[OF lt m]
  show "named ?nm w" by (rule o(1))
  show "pair_of ?nm w \<in> set ps" using o(2) p(1) iv nth_mem by metis
  show "int (nat (val_of ?nm w)) = val_of ?nm w" using o(3) by simp
  have "?nm (col (nodes s) n) = ?nm n" if "n \<in> set w" for n using b w that unfolding built_def by auto
  then have "(\<lambda>h. nat (?nm h)) ` col (nodes s) ` set w = nat ` set (map ?nm w)"
    unfolding image_image set_map by (intro image_cong) auto
  then show "(\<lambda>h. nat (?nm h)) ` col (nodes s) ` set w = set (option_cols (pair_of ?nm w))"
    unfolding m o(2) by (simp add: image_image)
qed

lemma built_pairs:
  assumes b: "built board ks ps s" and ps: "\<forall>(i, v)\<in>set ps. i < 81 \<and> v < 10"
  shows "pair_of (name (nodes s)) ` set (all_options ks ps) = set ps"
proof -
  have "q \<in> pair_of (name (nodes s)) ` set (all_options ks ps)" if q: "q \<in> set ps" for q
  proof -
    obtain p where p: "p < length ps" "ps ! p = q" using q by (auto simp: in_set_conv_nth)
    let ?w = "option_nodes (Suc (length ks)) p"
    have "map (name (nodes s)) ?w = map int (option_cols (fst q, snd q))" using b p unfolding built_def by auto
    then have "pair_of (name (nodes s)) ?w = q" using option_cols_named(2)[of "fst q" "snd q"] ps q by fastforce
    then show ?thesis using p by (force simp: all_options_def)
  qed
  then show ?thesis using built_options(2)[OF assms] by blast
qed

lemma built_headers:
  assumes b: "built board ks ps s"
  shows "inj_on (\<lambda>h. nat (name (nodes s) h)) (set (headers ks))"
    and "(\<lambda>h. nat (name (nodes s) h)) ` set (headers ks) = set ks"
proof -
  let ?F = "\<lambda>h. nat (name (nodes s) h)"
  have F: "?F (Suc j) = ks ! j" if "j < length ks" for j using b that by (simp add: built_def)
  have H: "set (headers ks) = Suc ` {..<length ks}"
    by (simp add: headers_def image_Suc_lessThan atLeastLessThanSuc_atLeastAtMost del: upt_Suc)
  have "ks ! i \<noteq> ks ! j" if "i < length ks" "j < length ks" "i \<noteq> j" for i j
    using b that by (auto simp: built_def nth_eq_iff_index_eq)
  then show "inj_on ?F (set (headers ks))" unfolding H by (force simp: inj_on_def F)
  show "?F ` set (headers ks) = set ks" unfolding H image_image by (auto simp: F in_set_conv_nth)
qed

lemma fill_fill_pairs:
  assumes "\<forall>w\<in>set ws. int (nat (val_of nm w)) = val_of nm w"
  shows "fill nm ws board = fill_pairs (map (pair_of nm) ws) board"
  using assms by (induction ws arbitrary: board) (simp_all add: fill_def fill_pairs_def pair_of_def)

lemma built_cover:
  assumes b: "built board ks ps s" and ps: "\<forall>(i, v)\<in>set ps. i < 81 \<and> v < 10"
  shows "exact_cover (\<lambda>w. col (nodes s) ` set w) (set (all_options ks ps)) (set (headers ks)) ws \<Longrightarrow>
      exact_cover (\<lambda>p. set (option_cols p)) (set ps) (set ks) (map (pair_of (name (nodes s))) ws)"
    and "exact_cover (\<lambda>p. set (option_cols p)) (set ps) (set ks) qs \<Longrightarrow>
      \<exists>ws. exact_cover (\<lambda>w. col (nodes s) ` set w) (set (all_options ks ps)) (set (headers ks)) ws"
proof -
  let ?F = "\<lambda>h. nat (name (nodes s) h)" and ?g = "pair_of (name (nodes s))" and ?K = "\<lambda>w. col (nodes s) ` set w"
  note h = built_headers[OF b] and pr = built_pairs[OF b ps]
  have R: "represents 0 (headers ks) (all_options ks ps) (headers ks) (nodes s)" using b by (simp add: built_def)
  have K: "?K w \<subseteq> set (headers ks) \<and> ?F ` ?K w = set (option_cols (?g w))" if "w \<in> set (all_options ks ps)" for w
    using representsD(4)[OF R that] built_options(4)[OF b ps that] by (simp add: option_ok_def)
  show "exact_cover (\<lambda>p. set (option_cols p)) (set ps) (set ks) (map ?g ws)"
    if "exact_cover ?K (set (all_options ks ps)) (set (headers ks)) ws"
    using exact_cover_map[where K'="\<lambda>p. set (option_cols p)" and g="?g" and F="?F", OF that h(1) subset_refl K]
    unfolding pr h(2) .
  show "\<exists>ws. exact_cover ?K (set (all_options ks ps)) (set (headers ks)) ws"
    if "exact_cover (\<lambda>p. set (option_cols p)) (set ps) (set ks) qs"
    using exact_cover_unmap[where K'="\<lambda>p. set (option_cols p)" and g="?g" and F="?F" and K="?K" and A="set (all_options ks ps)", OF _ h(1) subset_refl K] that
    unfolding pr h(2) by blast
qed

theorem solver_correct:
  assumes b: "board_ok board"
  shows "\<exists>s ok t. SudokuSolver_new mem board = Some s \<and> solve s = Some (ok, t) \<and>
    (if ok then solved (inout t) \<and> extends board (inout t) else \<not> (\<exists>g. solved g \<and> extends board g))"
proof -
  let ?ks = "col_list board (givens board)" and ?ps = "opt_list board (givens board)"
  obtain s where s: "SudokuSolver_new mem board = Some s" "built board ?ks ?ps s"
    using SudokuSolver_new_built[OF b] by blast
  let ?nm = "name (nodes s)" and ?opts = "all_options ?ks ?ps" and ?H = "headers ?ks"
  have ps: "\<forall>(i, v)\<in>set ?ps. i < 81 \<and> v < 10" by (auto simp: opt_list_iff)
  note o = built_options[OF s(2) ps] and cv = built_cover[OF s(2) ps]
  have R: "represents 0 ?H ?opts ?H (nodes s)" and st: "rootp s = 0" "stack s = []" "inout s = board"
    using s(2) by (simp_all add: built_def)
  have "solver_ok ?H ?opts ?H s" using R st o(1) b by (auto simp: solver_ok_def board_ok_def)
  then obtain ok t where t: "solve s = Some (ok, t)" "search_ok ?opts (col (nodes s)) ?nm (set ?H) s ok t"
    using solve_Enter unfolding solve_def by blast
  have "if ok then solved (inout t) \<and> extends board (inout t) else \<not> (\<exists>g. solved g \<and> extends board g)"
  proof (cases ok)
    case True
    then obtain rs where rs: "exact_cover (\<lambda>w. col (nodes s) ` set w) (set ?opts) (set ?H) (map (opt_of ?opts) rs)"
      "inout t = fill ?nm (map (opt_of ?opts) rs) board" using t(2) st by (auto simp: search_ok_def)
    have "inout t = fill_pairs (map (pair_of ?nm) (map (opt_of ?opts) rs)) board"
      unfolding rs(2) using exact_cover_sub[OF rs(1)] o(3) by (intro fill_fill_pairs) blast
    then show ?thesis using cover_solved[OF b cv(1)[OF rs(1)]] True by simp
  next
    case False
    then show ?thesis using solved_cover[OF b] cv(2) t(2) by (auto simp: search_ok_def)
  qed
  then show ?thesis using s(1) t(1) by blast
qed

text \<open>
  The result in terms of the texts: \<open>solves puzzle r\<close> says that \<open>r\<close> is a completed grid that keeps
  every character of the puzzle other than \<^verbatim>\<open>0\<close>.
\<close>

definition solves :: "string \<Rightarrow> string \<Rightarrow> bool" where
  "solves puzzle r \<longleftrightarrow> length r = 81 \<and>
     (\<forall>un\<in>set (map snd families). \<forall>a\<in>set [0..<9]. set (map (\<lambda>i. r ! i) (cells_of un a)) = set ''123456789'') \<and>
     (\<forall>i\<in>set [0..<81]. puzzle ! i \<noteq> CHR ''0'' \<longrightarrow> r ! i = puzzle ! i)"

abbreviation digit :: "char \<Rightarrow> int" where "digit c \<equiv> char_int c - 48"
abbreviation undigit :: "int \<Rightarrow> char" where "undigit x \<equiv> char_of (x + 48)"

lemma digit_undigit: "0 \<le> x \<Longrightarrow> x \<le> 9 \<Longrightarrow> digit (undigit x) = x"
  by (simp add: char_int_def)

lemma undigit_digit:
  assumes "0 \<le> digit c" and "digit c \<le> 9" shows "undigit (digit c) = c"
proof -
  have "of_char c < (256 :: int)" using of_char_mod_256[of c, where 'a=int] by presburger
  then have "digit c + 48 = of_char c" using assms by (auto simp: char_int_def split: if_splits)
  then show ?thesis by simp
qed

lemma digit_zero: "digit (CHR ''0'') = 0"
  by (simp add: char_int_def)

lemma digit_nine: "digit ` set ''123456789'' = {1..9}"
proof -
  have "{1..9 :: int} = {1, 2, 3, 4, 5, 6, 7, 8, 9}" by auto
  then show ?thesis by (simp add: char_int_def)
qed

lemma undigit_nine: "undigit ` {1..9} = set ''123456789''"
proof -
  have "undigit (digit c) = c" if "c \<in> set ''123456789''" for c
  proof -
    have "digit c \<in> {1..9}" using that unfolding digit_nine[symmetric] by blast
    then show ?thesis by (intro undigit_digit) simp_all
  qed
  then have "(\<lambda>c. undigit (digit c)) ` set ''123456789'' = (\<lambda>c. c) ` set ''123456789''" by (intro image_cong refl)
  then show ?thesis unfolding digit_nine[symmetric] image_image by simp
qed

lemma solves_digits:
  assumes l: "length puzzle = 81" and s: "solves puzzle r"
  shows "board_ok (map digit puzzle)" and "solved (map digit r)" and "extends (map digit puzzle) (map digit r)"
proof -
  have len: "length r = 81" using s by (simp add: solves_def)
  have u: "(\<lambda>i. r ! i) ` set (cells_of un a) = set ''123456789''" if "(b, un) \<in> set families" "a < 9" for b un a
  proof -
    have "un \<in> set (map snd families)" "a \<in> set [0..<9]" using that by force+
    then show ?thesis using s unfolding solves_def set_map by blast
  qed
  have keep: "r ! i = puzzle ! i" if "i < 81" "puzzle ! i \<noteq> CHR ''0''" for i using s that by (auto simp: solves_def)
  have "(\<lambda>i. map digit r ! i) ` set (cells_of un a) = {1..9}" if "(b, un) \<in> set families" "a < 9" for b un a
  proof -
    have "(\<lambda>i. map digit r ! i) ` set (cells_of un a) = digit ` (\<lambda>i. r ! i) ` set (cells_of un a)"
      unfolding image_image using len by (intro image_cong refl) (simp add: cells_of_iff)
    then show ?thesis unfolding u[OF that] digit_nine .
  qed
  then show sd: "solved (map digit r)" using len unfolding solved_def by simp blast
  note z = digit_zero
  have ne: "c \<noteq> CHR ''0''" if "digit c \<noteq> 0" for c using z that by auto
  show "extends (map digit puzzle) (map digit r)" using keep[OF _ ne] l len by (simp add: extends_def)
  have "0 \<le> digit (puzzle ! i) \<and> digit (puzzle ! i) \<le> 9" if i: "i < 81" for i
    using keep[OF i] solved_range[OF sd i] z i len by (cases "puzzle ! i = CHR ''0''") auto
  then show "board_ok (map digit puzzle)" using l by (auto simp: board_ok_def in_set_conv_nth)
qed

lemma digits_solve:
  assumes l: "length puzzle = 81" and b: "board_ok (map digit puzzle)"
    and g: "solved g" "extends (map digit puzzle) g"
  shows "solves puzzle (map undigit g)"
proof -
  have len: "length g = 81" using g(1) by (simp add: solved_def)
  have "set (map (\<lambda>i. map undigit g ! i) (cells_of un a)) = set ''123456789''"
    if "un \<in> set (map snd families)" "a \<in> set [0..<9]" for un a
  proof -
    have "\<exists>bs. (bs, un) \<in> set families" using that(1) by (auto simp: families_def)
    then obtain bs where "(bs, un) \<in> set families" by blast
    then have "(\<lambda>i. g ! i) ` set (cells_of un a) = {1..9}" using g(1) that(2) by (fastforce simp: solved_def)
    moreover have "set (map (\<lambda>i. map undigit g ! i) (cells_of un a)) = undigit ` (\<lambda>i. g ! i) ` set (cells_of un a)"
      unfolding image_image set_map using len by (intro image_cong refl) (simp add: cells_of_iff)
    ultimately show ?thesis using undigit_nine by simp
  qed
  moreover have "map undigit g ! i = puzzle ! i" if i: "i < 81" "puzzle ! i \<noteq> CHR ''0''" for i
  proof -
    have d: "0 \<le> digit (puzzle ! i)" "digit (puzzle ! i) \<le> 9" using b l i by (auto simp: board_ok_def)
    have "undigit 0 = CHR ''0''" using undigit_digit[of "CHR ''0''"] by (simp add: digit_zero)
    then have "digit (puzzle ! i) \<noteq> 0" using undigit_digit[OF d] i(2) by metis
    then have "g ! i = digit (puzzle ! i)" using g(2) i l by (auto simp: extends_def)
    then show ?thesis using undigit_digit[OF d] i len by simp
  qed
  ultimately show ?thesis using len unfolding solves_def by simp
qed

lemma solveSudoku_total:
  assumes "length puzzle = 81"
  shows "\<exists>r. solveSudoku mem puzzle = Some r \<and>
    (if \<exists>g. solves puzzle g then solves puzzle r else r = ''NoSolution'')"
proof (cases "board_ok (map digit puzzle)")
  case True
  then obtain s ok t where st: "SudokuSolver_new mem (map digit puzzle) = Some s" "solve s = Some (ok, t)"
    "if ok then solved (inout t) \<and> extends (map digit puzzle) (inout t)
     else \<not> (\<exists>g. solved g \<and> extends (map digit puzzle) g)" using solver_correct by blast
  have "list_all (\<lambda>x. 0 \<le> x \<and> x \<le> 9) (map digit puzzle)" using True by (auto simp: board_ok_def list_all_iff)
  then have "solveSudoku mem puzzle = Some (if ok then map undigit (inout t) else ''NoSolution'')"
    using st(1,2) assms by (simp add: solveSudoku_def kCells_def kNoSolution_def)
  moreover have "solves puzzle (map undigit (inout t))" if ok using that st(3) digits_solve[OF assms True] by simp
  moreover have "\<not> (\<exists>g. solves puzzle g)" if "\<not> ok" using that st(3) solves_digits[OF assms] by auto
  ultimately show ?thesis by (cases ok) auto
next
  case False
  then have "\<not> list_all (\<lambda>x. 0 \<le> x \<and> x \<le> 9) (map digit puzzle)" using assms by (auto simp: board_ok_def list_all_iff)
  then have "solveSudoku mem puzzle = Some ''NoSolution''"
    using assms by (simp add: solveSudoku_def kCells_def kNoSolution_def)
  then show ?thesis using solves_digits(1)[OF assms] False by auto
qed

text \<open>C9: The sudoku solver is totally correct. On every text of 81 characters the debug build runs without
  a failed assertion, every loop over the links and the search end, and the result is a completed
  grid that extends the puzzle if there is one and the text \<^verbatim>\<open>NoSolution\<close> otherwise - also for
  texts with other characters and for givens that contradict each other, which the constructor
  does not check. It does not depend on the uninitialised memory of the node pool.\<close>

theorem solveSudoku_correct:
  assumes "length puzzle = 81"
  shows "\<exists>r. solveSudoku mem puzzle = Some r \<and>
    (if \<exists>g. solves puzzle g then solves puzzle r else r = ''NoSolution'')"
  by (rule solveSudoku_total[OF assms])

definition zeroed :: Nodes where
  "zeroed = \<lparr>left = (\<lambda>_. 0), right = (\<lambda>_. 0), up = (\<lambda>_. 0), down = (\<lambda>_. 0), col = (\<lambda>_. 0),
     name = (\<lambda>_. 0), nsize = (\<lambda>_. 0)\<rparr>"

theorem solveSudoku_correct_witness:
  "\<exists>r. solveSudoku zeroed ''530070000600195000098000060800060003400803001700020006060000280000419005000080079'' = Some r \<and>
     solves ''530070000600195000098000060800060003400803001700020006060000280000419005000080079'' r"
proof -
  let ?p = "''530070000600195000098000060800060003400803001700020006060000280000419005000080079''"
  have "solves ?p ''534678912672195348198342567859761423426853791713924856961537284287419635345286179''"
    by code_simp
  moreover have "length ?p = 81" by simp
  ultimately show ?thesis using solveSudoku_correct[of ?p zeroed] by metis
qed

text \<open>C32: The constructor stays within the node pool for every board of digits, contradictory givens
  included: it uses one node for the root, one per column and four per option, and leaves a heap
  that represents the exact cover problem of the board, with every column active, an empty stack and
  the board untouched. No assertion on the pool or on the column table fails.\<close>

theorem sudoku_constructor_wellformed:
  assumes "board_ok board"
  shows "\<exists>s ks ps. SudokuSolver_new mem board = Some s \<and>
     represents (rootp s) (headers ks) (all_options ks ps) (headers ks) (nodes s) \<and>
     cur_node s = 1 + length ks + 4 * length ps \<and> cur_node s \<le> kMaxNodes \<and> stack s = [] \<and> inout s = board \<and>
     set ps = {(i, v). i < 81 \<and> board ! i = 0 \<and> 1 \<le> v \<and> v \<le> 9 \<and>
       (\<forall>j<81. board ! j = int v \<longrightarrow> row_of j \<noteq> row_of i \<and> col_of j \<noteq> col_of i \<and> box_of j \<noteq> box_of i)}"
proof -
  let ?ks = "col_list board (givens board)" and ?ps = "opt_list board (givens board)"
  obtain s where s: "SudokuSolver_new mem board = Some s" "built board ?ks ?ps s"
    using SudokuSolver_new_built[OF assms] by blast
  have "1 + length ?ks + 4 * length ?ps \<le> kMaxNodes"
    using col_list_ok(3)[of board "givens board"] opt_list_length[of board "givens board"] by (simp add: kMaxNodes_def)
  moreover have "set ?ps = {(i, v). i < 81 \<and> board ! i = 0 \<and> 1 \<le> v \<and> v \<le> 9 \<and>
       (\<forall>j<81. board ! j = int v \<longrightarrow> row_of j \<noteq> row_of i \<and> col_of j \<noteq> col_of i \<and> box_of j \<noteq> box_of i)}"
    by (auto simp: opt_list_iff givens_def given_def)
  ultimately show ?thesis using s by (intro exI[of _ s] exI[of _ ?ks] exI[of _ ?ps]) (simp add: built_def)
qed

theorem sudoku_constructor_wellformed_witness:
  "\<exists>s. SudokuSolver_new zeroed (replicate 81 0) = Some s \<and> cur_node s \<le> kMaxNodes \<and> stack s = []"
  using sudoku_constructor_wellformed[of "replicate 81 0" zeroed] by (auto simp: board_ok_def)

end
