(* ===== verification/Sudoku_Stat.thy ===== *)
theory Sudoku_Stat
  imports Timestamp LogStream
begin

text \<open>
  The statistics of the sudoku servers (\<^verbatim>\<open>examples/sudoku/stat.h\<close>, class \<open>SudokuStat\<close>): counters and
  a window of at most 60 seconds with the number of responses and their latency per second, kept in
  two \<^verbatim>\<open>boost::circular_buffer\<close>s (a list with a capacity; \<open>push_back\<close> on a full one drops the front).
  Operations are the sections under the mutex. An element of an empty buffer and a failed assertion
  are \<open>None\<close>. Counters are mathematical integers.

  The main theorem: whatever is recorded, in whatever order the clocks of the threads deliver it, no
  assertion fails, and every second of the window counts exactly the responses of that second since
  the last reset.
\<close>

section \<open>SudokuStat\<close>

definition kSeconds :: nat where "kSeconds = 60"

record SudokuStat =
  lastSecond :: int
  requests :: "int list"
  latencies :: "int list"
  totalRequests :: int
  totalResponses :: int
  totalSolved :: int
  badRequests :: int
  droppedRequests :: int
  totalLatency :: int
  badLatency :: int

definition SudokuStat_new :: SudokuStat where
  "SudokuStat_new = \<lparr>lastSecond = 0, requests = [], latencies = [], totalRequests = 0, totalResponses = 0,
     totalSolved = 0, badRequests = 0, droppedRequests = 0, totalLatency = 0, badLatency = 0\<rparr>"

definition push_back :: "int \<Rightarrow> int list \<Rightarrow> int list" where
  "push_back x xs = (if length xs < kSeconds then xs @ [x] else tl xs @ [x])"

definition push_zeros :: "SudokuStat \<Rightarrow> SudokuStat" where
  "push_zeros s = s\<lparr>requests := push_back 0 (requests s), latencies := push_back 0 (latencies s)\<rparr>"

text \<open>\<^verbatim>\<open>++requests_.back(); latencies_.back() += elapsed_us;\<close>, and the same at an index.\<close>

definition bump_at :: "nat \<Rightarrow> int \<Rightarrow> SudokuStat \<Rightarrow> SudokuStat option" where
  "bump_at i elapsed_us s =
    do { assertm (i < length (requests s) \<and> i < length (latencies s));
         Some (s\<lparr>requests := (requests s)[i := requests s ! i + 1],
                 latencies := (latencies s)[i := latencies s ! i + elapsed_us]\<rparr>) }"

definition bump_back :: "int \<Rightarrow> SudokuStat \<Rightarrow> SudokuStat option" where
  "bump_back elapsed_us s =
    do { assertm (requests s \<noteq> [] \<and> latencies s \<noteq> []);
         Some (s\<lparr>requests := butlast (requests s) @ [last (requests s) + 1],
                 latencies := butlast (latencies s) @ [last (latencies s) + elapsed_us]\<rparr>) }"

function jump_ahead :: "int \<Rightarrow> SudokuStat \<Rightarrow> SudokuStat" where
  "jump_ahead second s =
    (if lastSecond s < second
     then jump_ahead second ((push_zeros s)\<lparr>lastSecond := lastSecond s + 1\<rparr>) else s)"
  by pat_completeness auto
termination
  by (relation "measure (\<lambda>(second, s). nat (second - lastSecond s))") (auto simp: push_zeros_def)

definition recordResponse :: "Timestamp \<Rightarrow> Timestamp \<Rightarrow> bool \<Rightarrow> SudokuStat \<Rightarrow> SudokuStat option" where
  "recordResponse now receive solved s =
    (let second = secondsSinceEpoch now; elapsed_us = now - receive in
     do { assertm (length (requests s) = length (latencies s));
          let s = s\<lparr>totalResponses := totalResponses s + 1\<rparr>;
          let s = (if solved then s\<lparr>totalSolved := totalSolved s + 1\<rparr> else s);
          if elapsed_us < 0 then Some (s\<lparr>badLatency := badLatency s + 1\<rparr>)
          else do {
            let s = s\<lparr>totalLatency := totalLatency s + elapsed_us\<rparr>;
            let firstSecond = lastSecond s - int (length (requests s)) + 1;
            s \<leftarrow> (if lastSecond s = second then bump_back elapsed_us s
                 else if lastSecond s + 1 = second \<or> lastSecond s = 0
                 then bump_back elapsed_us (push_zeros (s\<lparr>lastSecond := second\<rparr>))
                 else if second > lastSecond s
                 then bump_back elapsed_us
                        (if second < lastSecond s + int kSeconds then jump_ahead second s
                         else push_zeros (s\<lparr>requests := [], latencies := [], lastSecond := second\<rparr>))
                 else if second \<ge> firstSecond then bump_at (nat (second - firstSecond)) elapsed_us s
                 else Some s);
            assertm (length (requests s) = length (latencies s));
            Some s } })"

definition recordRequest :: "SudokuStat \<Rightarrow> SudokuStat" where
  "recordRequest s = s\<lparr>totalRequests := totalRequests s + 1\<rparr>"

definition recordBadRequest :: "SudokuStat \<Rightarrow> SudokuStat" where
  "recordBadRequest s = s\<lparr>badRequests := badRequests s + 1\<rparr>"

definition recordDroppedRequest :: "SudokuStat \<Rightarrow> SudokuStat" where
  "recordDroppedRequest s = s\<lparr>droppedRequests := droppedRequests s + 1\<rparr>"

definition SudokuStat_reset :: "SudokuStat \<Rightarrow> SudokuStat \<times> string" where
  "SudokuStat_reset s =
    (s\<lparr>lastSecond := 0, requests := [], latencies := [], totalRequests := 0, totalResponses := 0,
       totalSolved := 0, badRequests := 0, totalLatency := 0, badLatency := 0\<rparr>, ''reset done.'')"

text \<open>The report, as the sequence of what is inserted into its stream; \<open>queueSize\<close> is the pool's.\<close>

definition NL :: arg where "NL = AChar LF"

definition report_args :: "nat \<Rightarrow> SudokuStat \<Rightarrow> arg list" where
  "report_args queueSize s =
    (let sumr = sum_list (requests s); suml = sum_list (latencies s) in
     [ACStr (Some ''task_queue_size ''), AInt (int queueSize), NL,
      ACStr (Some ''total_requests ''), AInt (totalRequests s), NL,
      ACStr (Some ''total_responses ''), AInt (totalResponses s), NL,
      ACStr (Some ''total_solved ''), AInt (totalSolved s), NL,
      ACStr (Some ''bad_requests ''), AInt (badRequests s), NL,
      ACStr (Some ''dropped_requests ''), AInt (droppedRequests s), NL,
      ACStr (Some ''latency_sum_us ''), AInt (totalLatency s), NL] @
     (if badLatency s > 0 then [ACStr (Some ''bad_latency''), AInt (badLatency s), NL] else []) @
     [ACStr (Some ''last_second ''), AInt (lastSecond s), NL, ACStr (Some ''requests_per_second'')] @
     concat (map (\<lambda>r. [AChar (CHR '' ''), AInt r]) (requests s)) @
     [NL, ACStr (Some ''requests_60s ''), AInt sumr, NL, ACStr (Some ''latency_sum_us_per_second'')] @
     concat (map (\<lambda>l. [AChar (CHR '' ''), AInt l]) (latencies s)) @
     [NL, ACStr (Some ''latency_sum_us_60s ''), AInt suml, NL,
      ACStr (Some ''latency_us_60s ''), AInt (if sumr = 0 then 0 else suml sdiv sumr), NL,
      ACStr (Some ''latency_us_avg ''),
      AInt (if totalResponses s = 0 then 0 else totalLatency s sdiv totalResponses s), NL])"

definition SudokuStat_report :: "nat \<Rightarrow> SudokuStat \<Rightarrow> string option" where
  "SudokuStat_report queueSize s =
    do { b \<leftarrow> LogStream_inserts (report_args queueSize s) LogStream_new; Some (fb_data b) }"

section \<open>The window\<close>

text \<open>\<open>window f xs l\<close>: the list \<open>xs\<close> holds the values of \<open>f\<close> for the seconds that end with \<open>l\<close>.\<close>

definition window :: "(int \<Rightarrow> int) \<Rightarrow> int list \<Rightarrow> int \<Rightarrow> bool" where
  "window f xs l \<longleftrightarrow> (\<forall>i<length xs. xs ! i = f (l - int (length xs) + 1 + int i))"

lemma window_push:
  assumes "window f xs l" and "f (l + 1) = 0"
  shows "window f (push_back 0 xs) (l + 1)"
  using assms by (auto simp: window_def push_back_def kSeconds_def nth_append nth_tl less_Suc_eq algebra_simps)

lemma window_single: "f l = 0 \<Longrightarrow> window f (push_back 0 []) l"
  by (simp add: window_def push_back_def kSeconds_def)

lemma window_bump_at:
  assumes "window f xs l" and "i < length xs" and "t = l - int (length xs) + 1 + int i"
  shows "window (f(t := f t + d)) (xs[i := xs ! i + d]) l"
  using assms by (auto simp: window_def nth_list_update)

lemma bump_last: "xs \<noteq> [] \<Longrightarrow> butlast xs @ [last xs + d] = xs[length xs - 1 := xs ! (length xs - 1) + (d :: int)]"
  by (cases xs rule: rev_cases) auto

lemma window_bump_back:
  assumes "window f xs l" and "xs \<noteq> []"
  shows "window (f(l := f l + d)) (butlast xs @ [last xs + d]) l"
  unfolding bump_last[OF assms(2)] using assms by (intro window_bump_at) (auto simp: of_nat_diff Suc_le_eq)

lemma window_other: "window f xs l \<Longrightarrow> t < l - int (length xs) + 1 \<Longrightarrow> window (f(t := v)) xs l"
  by (auto simp: window_def)

lemma length_push_back [simp]: "push_back x xs \<noteq> []" "length (push_back x xs) \<le> kSeconds \<longleftrightarrow> length xs \<le> kSeconds"
  by (auto simp: push_back_def kSeconds_def)

lemma length_push_back_eq: "length xs = length ys \<Longrightarrow> length (push_back x xs) = length (push_back y ys)"
  by (auto simp: push_back_def)

declare jump_ahead.simps [simp del]

lemma jump_ahead_stop: "\<not> lastSecond s < t \<Longrightarrow> jump_ahead t s = s"
  by (simp add: jump_ahead.simps)

lemma jump_ahead_window:
  assumes "window f (requests s) (lastSecond s)" and "window g (latencies s) (lastSecond s)"
    and "length (requests s) = length (latencies s)" and "length (requests s) \<le> kSeconds"
    and "\<And>u. lastSecond s < u \<Longrightarrow> f u = 0 \<and> g u = 0" and "lastSecond s \<le> t"
  shows "window f (requests (jump_ahead t s)) t \<and> window g (latencies (jump_ahead t s)) t \<and>
    length (requests (jump_ahead t s)) = length (latencies (jump_ahead t s)) \<and>
    length (requests (jump_ahead t s)) \<le> kSeconds \<and> lastSecond (jump_ahead t s) = t \<and>
    (lastSecond s < t \<longrightarrow> requests (jump_ahead t s) \<noteq> []) \<and>
    jump_ahead t s = s\<lparr>lastSecond := t, requests := requests (jump_ahead t s), latencies := latencies (jump_ahead t s)\<rparr>"
  using assms
proof (induction t s rule: jump_ahead.induct)
  case (1 t s)
  show ?case
  proof (cases "lastSecond s < t")
    case True
    let ?s = "(push_zeros s)\<lparr>lastSecond := lastSecond s + 1\<rparr>"
    have p: "window f (requests ?s) (lastSecond ?s)" "window g (latencies ?s) (lastSecond ?s)"
      "length (requests ?s) = length (latencies ?s)" "length (requests ?s) \<le> kSeconds"
      using 1(2-6) by (auto simp: push_zeros_def intro: window_push length_push_back_eq)
    have j: "jump_ahead t s = jump_ahead t ?s" using True by (subst jump_ahead.simps) simp
    have z: "f u = 0 \<and> g u = 0" if "lastSecond ?s < u" for u using 1(6)[of u] that by simp
    have le: "lastSecond ?s \<le> t" using True by simp
    note IH = 1(1)[OF True p z le]
    have "requests (jump_ahead t ?s) \<noteq> []"
    proof (cases "lastSecond ?s < t")
      case False
      then have "jump_ahead t ?s = ?s" by (rule jump_ahead_stop)
      then show ?thesis by (simp add: push_zeros_def)
    qed (use IH in simp)
    then show ?thesis unfolding j using IH by (simp add: push_zeros_def)
  next
    case False
    then show ?thesis using 1(2-7) by (simp add: jump_ahead_stop)
  qed
qed

section \<open>Histories\<close>

text \<open>
  The operations of the threads in the order in which they take the mutex. \<open>responses\<close> are those
  since the last reset: the second, the latency and whether the puzzle was solved.
\<close>

datatype stat_op = Request | Bad | Dropped | Response Timestamp Timestamp bool | Reset

fun stat_step :: "stat_op \<Rightarrow> SudokuStat \<Rightarrow> SudokuStat option" where
  "stat_step Request s = Some (recordRequest s)"
| "stat_step Bad s = Some (recordBadRequest s)"
| "stat_step Dropped s = Some (recordDroppedRequest s)"
| "stat_step (Response now receive ok) s = recordResponse now receive ok s"
| "stat_step Reset s = Some (fst (SudokuStat_reset s))"

fun stat_run :: "stat_op list \<Rightarrow> SudokuStat \<Rightarrow> SudokuStat option" where
  "stat_run [] s = Some s"
| "stat_run (x # xs) s = do { s' \<leftarrow> stat_step x s; stat_run xs s' }"

definition since_reset :: "stat_op list \<Rightarrow> stat_op list" where
  "since_reset xs = rev (takeWhile (\<lambda>x. x \<noteq> Reset) (rev xs))"

fun response_of :: "stat_op \<Rightarrow> (int \<times> int) list" where
  "response_of (Response now receive ok) = (if receive \<le> now then [(secondsSinceEpoch now, now - receive)] else [])"
| "response_of _ = []"

definition responses :: "stat_op list \<Rightarrow> (int \<times> int) list" where
  "responses xs = concat (map response_of (since_reset xs))"

definition count_at :: "(int \<times> int) list \<Rightarrow> int \<Rightarrow> int" where
  "count_at rs t = int (length (filter (\<lambda>r. fst r = t) rs))"

definition latency_at :: "(int \<times> int) list \<Rightarrow> int \<Rightarrow> int" where
  "latency_at rs t = sum_list (map snd (filter (\<lambda>r. fst r = t) rs))"

definition newest :: "(int \<times> int) list \<Rightarrow> int" where
  "newest rs = (if rs = [] then 0 else Max (fst ` set rs))"

definition stat_inv :: "(int \<times> int) list \<Rightarrow> SudokuStat \<Rightarrow> bool" where
  "stat_inv rs s \<longleftrightarrow> length (requests s) = length (latencies s) \<and> length (requests s) \<le> kSeconds \<and>
     (requests s = [] \<longleftrightarrow> rs = []) \<and> (\<forall>r\<in>set rs. 0 < fst r) \<and> lastSecond s = newest rs \<and>
     window (count_at rs) (requests s) (lastSecond s) \<and> window (latency_at rs) (latencies s) (lastSecond s) \<and>
     totalLatency s = sum_list (map snd rs)"

lemma count_at_snoc: "count_at (rs @ [(t, d)]) = (count_at rs)(t := count_at rs t + 1)"
  by (auto simp: count_at_def fun_eq_iff)

lemma latency_at_snoc: "latency_at (rs @ [(t, d)]) = (latency_at rs)(t := latency_at rs t + d)"
  by (auto simp: latency_at_def fun_eq_iff)

lemma newest_snoc: "newest (rs @ [(t, d)]) = (if rs = [] then t else max t (newest rs))"
  by (auto simp: newest_def max.commute)

lemma newest_above: "(\<forall>r\<in>set rs. 0 < fst r) \<Longrightarrow> newest rs < u \<Longrightarrow> count_at rs u = 0 \<and> latency_at rs u = 0"
proof -
  assume "newest rs < u"
  then have "\<forall>r\<in>set rs. fst r \<noteq> u" by (auto simp: newest_def dest!: Max_ge[rotated 1] split: if_splits)
  then have "filter (\<lambda>r. fst r = u) rs = []" by (simp add: filter_empty_conv)
  then show ?thesis by (simp add: count_at_def latency_at_def)
qed

lemma newest_pos: "(\<forall>r\<in>set rs. 0 < fst r) \<Longrightarrow> rs \<noteq> [] \<Longrightarrow> 0 < newest rs"
  by (cases rs) (auto simp: newest_def Max_gr_iff)

text \<open>The part of a response that counts: the second \<open>t\<close> gets one more response and \<open>d\<close> microseconds.\<close>

definition record_in_window :: "int \<Rightarrow> int \<Rightarrow> SudokuStat \<Rightarrow> SudokuStat option" where
  "record_in_window t d s =
    (if lastSecond s = t then bump_back d s
     else if lastSecond s + 1 = t \<or> lastSecond s = 0 then bump_back d (push_zeros (s\<lparr>lastSecond := t\<rparr>))
     else if t > lastSecond s
     then bump_back d (if t < lastSecond s + int kSeconds then jump_ahead t s
                       else push_zeros (s\<lparr>requests := [], latencies := [], lastSecond := t\<rparr>))
     else if t \<ge> lastSecond s - int (length (requests s)) + 1
     then bump_at (nat (t - (lastSecond s - int (length (requests s)) + 1))) d s else Some s)"

definition windows :: "(int \<times> int) list \<Rightarrow> SudokuStat \<Rightarrow> bool" where
  "windows rs s \<longleftrightarrow> length (requests s) = length (latencies s) \<and> length (requests s) \<le> kSeconds \<and>
     window (count_at rs) (requests s) (lastSecond s) \<and> window (latency_at rs) (latencies s) (lastSecond s)"

lemma bump_back_windows:
  assumes "windows rs s" and "requests s \<noteq> []" and "lastSecond s = t"
  shows "\<exists>q l. bump_back d s = Some (s\<lparr>requests := q, latencies := l\<rparr>) \<and> q \<noteq> [] \<and>
    windows (rs @ [(t, d)]) (s\<lparr>requests := q, latencies := l\<rparr>)"
proof -
  have ne: "latencies s \<noteq> []" using assms(1,2) by (auto simp: windows_def)
  have "window ((count_at rs)(t := count_at rs t + 1)) (butlast (requests s) @ [last (requests s) + 1]) t"
    and "window ((latency_at rs)(t := latency_at rs t + d)) (butlast (latencies s) @ [last (latencies s) + d]) t"
    using assms ne by (auto simp: windows_def intro: window_bump_back)
  moreover have "length (butlast (requests s) @ [last (requests s) + 1]) = length (requests s)"
    "length (butlast (latencies s) @ [last (latencies s) + d]) = length (latencies s)"
    using assms(2) ne by (simp_all add: Suc_diff_le Suc_le_eq)
  ultimately show ?thesis using assms ne
    by (intro exI[of _ "butlast (requests s) @ [last (requests s) + 1]"] exI[of _ "butlast (latencies s) @ [last (latencies s) + d]"])
      (simp add: bump_back_def windows_def count_at_snoc latency_at_snoc)
qed

lemma record_in_window_inv:
  assumes w: "windows rs s" and l: "lastSecond s = newest rs" and e: "requests s = [] \<longleftrightarrow> rs = []"
    and pos: "\<forall>r\<in>set rs. 0 < fst r" and t: "0 < t"
  shows "\<exists>q l. record_in_window t d s = Some (s\<lparr>lastSecond := newest (rs @ [(t, d)]), requests := q, latencies := l\<rparr>) \<and>
    q \<noteq> [] \<and> windows (rs @ [(t, d)]) (s\<lparr>lastSecond := newest (rs @ [(t, d)]), requests := q, latencies := l\<rparr>)"
proof -
  have above: "\<And>u. lastSecond s < u \<Longrightarrow> count_at rs u = 0 \<and> latency_at rs u = 0" using newest_above[OF pos] l by simp
  have np: "lastSecond s = 0 \<longleftrightarrow> rs = []" using newest_pos[OF pos] l by (auto simp: newest_def)
  have nt: "newest (rs @ [(t, d)]) = max t (lastSecond s)" using t l np by (auto simp: newest_snoc newest_def)
  have w': "length (requests s) = length (latencies s)" "length (requests s) \<le> kSeconds"
    "window (count_at rs) (requests s) (lastSecond s)" "window (latency_at rs) (latencies s) (lastSecond s)"
    using w by (auto simp: windows_def)
  have pushed: "\<exists>q l. bump_back d s' = Some (s\<lparr>lastSecond := newest (rs @ [(t, d)]), requests := q, latencies := l\<rparr>) \<and>
      q \<noteq> [] \<and> windows (rs @ [(t, d)]) (s\<lparr>lastSecond := newest (rs @ [(t, d)]), requests := q, latencies := l\<rparr>)"
    if "s' = s\<lparr>lastSecond := t, requests := requests s', latencies := latencies s'\<rparr>" "windows rs s'" "requests s' \<noteq> []" "lastSecond s \<le> t" for s'
  proof -
    have ls: "lastSecond s' = t" by (subst that(1)) simp
    from bump_back_windows[OF that(2,3) ls, of d] obtain q m where
      "bump_back d s' = Some (s'\<lparr>requests := q, latencies := m\<rparr>)" "q \<noteq> []" "windows (rs @ [(t, d)]) (s'\<lparr>requests := q, latencies := m\<rparr>)"
      by blast
    moreover have "s'\<lparr>requests := q, latencies := m\<rparr> = s\<lparr>lastSecond := newest (rs @ [(t, d)]), requests := q, latencies := m\<rparr>"
      using nt that(4) by (subst that(1)) simp
    ultimately show ?thesis by auto
  qed
  consider (same) "lastSecond s = t" | (next_second) "lastSecond s \<noteq> t" "lastSecond s + 1 = t \<or> lastSecond s = 0"
    | (jump) "lastSecond s + 1 \<noteq> t" "lastSecond s \<noteq> 0" "lastSecond s < t" "t < lastSecond s + int kSeconds"
    | (far) "lastSecond s + 1 \<noteq> t" "lastSecond s \<noteq> 0" "lastSecond s < t" "\<not> t < lastSecond s + int kSeconds"
    | (behind) "lastSecond s \<noteq> 0" "t < lastSecond s" "t \<ge> lastSecond s - int (length (requests s)) + 1"
    | (old) "lastSecond s \<noteq> 0" "t < lastSecond s" "\<not> t \<ge> lastSecond s - int (length (requests s)) + 1"
    by linarith
  then show ?thesis
  proof cases
    case same
    have "requests s \<noteq> []" using same t np e by auto
    then show ?thesis using pushed[of s] same w by (simp add: record_in_window_def)
  next
    case next_second
    let ?s = "push_zeros (s\<lparr>lastSecond := t\<rparr>)"
    have "window f (push_back 0 xs) t" if "window f xs (lastSecond s)" "f t = 0" "xs = [] \<or> lastSecond s + 1 = t" for f xs
      using that window_push[of f xs "lastSecond s"] window_single[of f t] by auto
    moreover have "count_at rs t = 0" "latency_at rs t = 0" using above[of t] next_second t by auto
    moreover have "requests s = [] \<or> lastSecond s + 1 = t" "latencies s = [] \<or> lastSecond s + 1 = t"
      using next_second np e w'(1) by auto
    ultimately have "windows rs ?s" using w' by (auto simp: windows_def push_zeros_def intro: length_push_back_eq)
    moreover have "lastSecond s \<le> t" using next_second t by auto
    ultimately show ?thesis using pushed[of ?s] next_second t by (simp add: record_in_window_def push_zeros_def)
  next
    case jump
    note j = jump_ahead_window[OF w'(3,4,1,2) above less_imp_le[OF jump(3)]]
    then have "windows rs (jump_ahead t s)" by (simp add: windows_def)
    then show ?thesis using pushed[of "jump_ahead t s"] jump j by (simp add: record_in_window_def)
  next
    case far
    let ?s = "push_zeros (s\<lparr>requests := [], latencies := [], lastSecond := t\<rparr>)"
    have "windows rs ?s" using above[OF far(3)] window_single[of _ t]
      by (auto simp: windows_def push_zeros_def intro: length_push_back_eq)
    then show ?thesis using pushed[of ?s] far by (simp add: record_in_window_def push_zeros_def)
  next
    case behind
    let ?i = "nat (t - (lastSecond s - int (length (requests s)) + 1))"
    have i: "?i < length (requests s)" "t = lastSecond s - int (length (requests s)) + 1 + int ?i" using behind by auto
    let ?q = "(requests s)[?i := requests s ! ?i + 1]" and ?l = "(latencies s)[?i := latencies s ! ?i + d]"
    have n: "newest (rs @ [(t, d)]) = lastSecond s" using behind nt by simp
    have "windows (rs @ [(t, d)]) (s\<lparr>lastSecond := newest (rs @ [(t, d)]), requests := ?q, latencies := ?l\<rparr>)"
      using w' window_bump_at[OF w'(3) i, of 1] window_bump_at[OF w'(4), of ?i t d] i n
      by (simp add: windows_def count_at_snoc latency_at_snoc)
    moreover have "record_in_window t d s = Some (s\<lparr>lastSecond := newest (rs @ [(t, d)]), requests := ?q, latencies := ?l\<rparr>)"
      using i(1) behind w'(1) n by (simp add: record_in_window_def bump_at_def)
    moreover have "?q \<noteq> []" using behind e np by simp
    ultimately show ?thesis by blast
  next
    case old
    then have "windows (rs @ [(t, d)]) s"
      using w' by (simp add: windows_def count_at_snoc latency_at_snoc window_other)
    then show ?thesis using old nt e np
      by (intro exI[of _ "requests s"] exI[of _ "latencies s"]) (simp add: record_in_window_def)
  qed
qed

definition counted :: "bool \<Rightarrow> int \<Rightarrow> SudokuStat \<Rightarrow> SudokuStat" where
  "counted ok d s =
     s\<lparr>totalResponses := totalResponses s + 1, totalSolved := totalSolved s + (if ok then 1 else 0),
       totalLatency := totalLatency s + d\<rparr>"

lemma recordResponse_eq:
  assumes "length (requests s) = length (latencies s)"
    and "record_in_window (secondsSinceEpoch now) (now - receive) (counted ok (now - receive) s) = Some s'"
    and "length (requests s') = length (latencies s')" and "receive \<le> now"
  shows "recordResponse now receive ok s = Some s'"
  using assms by (cases ok) (simp_all add: recordResponse_def record_in_window_def counted_def)

lemma recordResponse_inv:
  assumes inv: "stat_inv rs s" and t: "0 < secondsSinceEpoch now"
  shows "\<exists>s'. recordResponse now receive ok s = Some s' \<and> stat_inv (rs @ response_of (Response now receive ok)) s' \<and>
    totalResponses s' = totalResponses s + 1 \<and> totalSolved s' = totalSolved s + (if ok then 1 else 0) \<and>
    totalRequests s' = totalRequests s \<and> badRequests s' = badRequests s \<and> droppedRequests s' = droppedRequests s \<and>
    badLatency s' = badLatency s + (if receive \<le> now then 0 else 1)"
proof (cases "receive \<le> now")
  case False
  then show ?thesis using inv by (auto simp: recordResponse_def stat_inv_def)
next
  case True
  let ?t = "secondsSinceEpoch now" and ?d = "now - receive"
  let ?s = "counted ok ?d s"
  have c: "windows rs ?s" "lastSecond ?s = newest rs" "requests ?s = [] \<longleftrightarrow> rs = []" "\<forall>r\<in>set rs. 0 < fst r"
    using inv by (auto simp: stat_inv_def windows_def counted_def)
  from record_in_window_inv[OF c t] obtain q l where r:
    "record_in_window ?t ?d ?s = Some (?s\<lparr>lastSecond := newest (rs @ [(?t, ?d)]), requests := q, latencies := l\<rparr>)" "q \<noteq> []"
    "windows (rs @ [(?t, ?d)]) (?s\<lparr>lastSecond := newest (rs @ [(?t, ?d)]), requests := q, latencies := l\<rparr>)" by blast
  have "recordResponse now receive ok s = Some (?s\<lparr>lastSecond := newest (rs @ [(?t, ?d)]), requests := q, latencies := l\<rparr>)"
    using inv r True by (intro recordResponse_eq) (simp_all add: stat_inv_def windows_def)
  moreover have "stat_inv (rs @ [(?t, ?d)]) (?s\<lparr>lastSecond := newest (rs @ [(?t, ?d)]), requests := q, latencies := l\<rparr>)"
    using inv r(2,3) t by (simp add: stat_inv_def windows_def counted_def)
  ultimately show ?thesis using True by (simp add: counted_def)
qed

fun is_response :: "stat_op \<Rightarrow> bool" where
  "is_response (Response now receive ok) = True" | "is_response _ = False"

fun is_solved :: "stat_op \<Rightarrow> bool" where
  "is_solved (Response now receive ok) = ok" | "is_solved _ = False"

fun is_early :: "stat_op \<Rightarrow> bool" where
  "is_early (Response now receive ok) = (now < receive)" | "is_early _ = False"

definition num :: "(stat_op \<Rightarrow> bool) \<Rightarrow> stat_op list \<Rightarrow> int" where
  "num P xs = int (length (filter P xs))"

definition hist_inv :: "stat_op list \<Rightarrow> SudokuStat \<Rightarrow> bool" where
  "hist_inv ops s \<longleftrightarrow> stat_inv (responses ops) s \<and> droppedRequests s = num ((=) Dropped) ops \<and>
     totalRequests s = num ((=) Request) (since_reset ops) \<and> badRequests s = num ((=) Bad) (since_reset ops) \<and>
     totalResponses s = num is_response (since_reset ops) \<and> totalSolved s = num is_solved (since_reset ops) \<and>
     badLatency s = num is_early (since_reset ops)"

lemma since_reset_snoc: "since_reset (ops @ [x]) = (if x = Reset then [] else since_reset ops @ [x])"
  by (simp add: since_reset_def)

lemma responses_snoc: "responses (ops @ [x]) = (if x = Reset then [] else responses ops @ response_of x)"
  by (simp add: responses_def since_reset_snoc)

lemma num_snoc: "num P [] = 0" "num P (xs @ [x]) = num P xs + (if P x then 1 else 0)"
  by (simp_all add: num_def)

lemma stat_run_snoc: "stat_run (xs @ [x]) s = do { s' \<leftarrow> stat_run xs s; stat_step x s' }"
  by (induction xs arbitrary: s) (auto split: bind_split)

lemma stat_step_inv:
  assumes inv: "hist_inv ops s" and t: "\<And>now receive ok. x = Response now receive ok \<Longrightarrow> 0 < secondsSinceEpoch now"
  shows "\<exists>s'. stat_step x s = Some s' \<and> hist_inv (ops @ [x]) s'"
proof (cases x)
  case (Response now receive ok)
  have "0 < secondsSinceEpoch now" using t Response by simp
  moreover have "stat_inv (responses ops) s" using inv by (simp add: hist_inv_def)
  ultimately obtain s' where "recordResponse now receive ok s = Some s'" "stat_inv (responses ops @ response_of x) s'"
    "totalResponses s' = totalResponses s + 1" "totalSolved s' = totalSolved s + (if ok then 1 else 0)"
    "totalRequests s' = totalRequests s" "badRequests s' = badRequests s" "droppedRequests s' = droppedRequests s"
    "badLatency s' = badLatency s + (if receive \<le> now then 0 else 1)"
    using recordResponse_inv[of "responses ops" s now receive ok] Response by auto
  then show ?thesis using inv Response by (auto simp: hist_inv_def responses_snoc since_reset_snoc num_snoc)
next
  case Reset
  then show ?thesis using inv
    by (simp add: hist_inv_def responses_snoc since_reset_snoc num_snoc SudokuStat_reset_def stat_inv_def
        newest_def window_def)
qed (use inv in \<open>auto simp: hist_inv_def responses_snoc since_reset_snoc num_snoc stat_inv_def
       recordRequest_def recordBadRequest_def recordDroppedRequest_def\<close>)

lemma stat_run_inv:
  assumes "\<forall>x\<in>set ops. \<forall>now receive ok. x = Response now receive ok \<longrightarrow> 0 < secondsSinceEpoch now"
  shows "\<exists>s. stat_run ops SudokuStat_new = Some s \<and> hist_inv ops s"
  using assms
proof (induction ops rule: rev_induct)
  case Nil
  show ?case by (simp add: hist_inv_def SudokuStat_new_def responses_def since_reset_def stat_inv_def newest_def window_def num_def)
next
  case (snoc x ops)
  then obtain s where "stat_run ops SudokuStat_new = Some s" "hist_inv ops s" by auto
  then show ?case using stat_step_inv[of ops s x] snoc.prems by (auto simp: stat_run_snoc)
qed

text \<open>C33: The statistics of the sudoku server are exact: after any history of operations (clocks after
  the first second of the epoch, in any order) no assertion has failed, the two windows have the same
  length of at most 60, and every second of the window counts exactly the responses of that second and
  sums exactly their latencies since the last reset - also when time jumps ahead, so that the window
  is filled with zeros or starts anew, and when an answer comes late. The last entry is for the newest
  second, and all totals count the operations since the reset, but the dropped requests are never
  reset.\<close>

theorem sudoku_stat_exact:
  assumes "\<forall>now receive ok. Response now receive ok \<in> set ops \<longrightarrow> 0 < secondsSinceEpoch now"
  shows "\<exists>s. stat_run ops SudokuStat_new = Some s \<and>
    length (requests s) = length (latencies s) \<and> length (requests s) \<le> 60 \<and>
    (requests s = [] \<longleftrightarrow> responses ops = []) \<and> lastSecond s = newest (responses ops) \<and>
    (\<forall>i<length (requests s).
       requests s ! i = count_at (responses ops) (lastSecond s - int (length (requests s)) + 1 + int i) \<and>
       latencies s ! i = latency_at (responses ops) (lastSecond s - int (length (requests s)) + 1 + int i)) \<and>
    totalLatency s = sum_list (map snd (responses ops)) \<and>
    totalRequests s = num ((=) Request) (since_reset ops) \<and> badRequests s = num ((=) Bad) (since_reset ops) \<and>
    totalResponses s = num is_response (since_reset ops) \<and> totalSolved s = num is_solved (since_reset ops) \<and>
    badLatency s = num is_early (since_reset ops) \<and> droppedRequests s = num ((=) Dropped) ops"
proof -
  obtain s where "stat_run ops SudokuStat_new = Some s" "hist_inv ops s" using stat_run_inv[of ops] assms by auto
  then show ?thesis by (intro exI[of _ s]) (simp add: hist_inv_def stat_inv_def window_def kSeconds_def)
qed

theorem sudoku_stat_exact_witness:
  "\<exists>s. stat_run [Request, Response 100000000 99999990 True, Response 103000000 102999995 False,
        Response 101000000 100999980 True, Dropped] SudokuStat_new = Some s \<and>
     lastSecond s = 103 \<and> totalLatency s = 35 \<and> totalSolved s = 2 \<and> droppedRequests s = 1"
proof -
  let ?ops = "[Request, Response 100000000 99999990 True, Response 103000000 102999995 False,
        Response 101000000 100999980 True, Dropped]"
  have "\<forall>now receive ok. Response now receive ok \<in> set ?ops \<longrightarrow> 0 < secondsSinceEpoch now"
    by (auto simp: secondsSinceEpoch_def kMicroSecondsPerSecond_def)
  moreover have "newest (responses ?ops) = 103" "sum_list (map snd (responses ?ops)) = 35"
    "num is_solved (since_reset ?ops) = 2" "num ((=) Dropped) ?ops = 1"
    by (simp_all add: responses_def since_reset_def newest_def num_def secondsSinceEpoch_def kMicroSecondsPerSecond_def)
  ultimately show ?thesis using sudoku_stat_exact[of ?ops] by auto
qed

text \<open>Reset() forgets the dropped requests: every other counter and the window start at zero again, but
  the number of dropped requests is still reported.\<close>

theorem sudoku_stat_reset_keeps_dropped:
  assumes "stat_run (ops @ [Reset]) SudokuStat_new = Some s"
    and "\<forall>now receive ok. Response now receive ok \<in> set ops \<longrightarrow> 0 < secondsSinceEpoch now"
  shows "s = SudokuStat_new\<lparr>droppedRequests := num ((=) Dropped) ops\<rparr>"
proof -
  obtain s0 where s0: "stat_run ops SudokuStat_new = Some s0" "hist_inv ops s0" using stat_run_inv[of ops] assms(2) by auto
  then have "s = fst (SudokuStat_reset s0)" using assms(1) by (simp add: stat_run_snoc)
  then show ?thesis using s0(2) by (simp add: SudokuStat_reset_def SudokuStat_new_def hist_inv_def)
qed

theorem sudoku_stat_reset_keeps_dropped_witness:
  "stat_run ([Dropped, Request] @ [Reset]) SudokuStat_new = Some (SudokuStat_new\<lparr>droppedRequests := 1\<rparr>)"
proof -
  obtain s where s: "stat_run ([Dropped, Request] @ [Reset]) SudokuStat_new = Some s" by simp
  show ?thesis using s sudoku_stat_reset_keeps_dropped[OF s] by (simp add: num_def)
qed

end
