(* ===== verification/Sudoku_Server.thy ===== *)
theory Sudoku_Server
  imports Sudoku Sudoku_Stat Buffer
begin

text \<open>
  The sudoku servers (\<^verbatim>\<open>examples/sudoku\<close>: \<^verbatim>\<open>server_basic.cc\<close>, \<^verbatim>\<open>server_multiloop.cc\<close>,
  \<^verbatim>\<open>server_threadpool.cc\<close>, \<^verbatim>\<open>server_hybrid.cc\<close>).

  All of them read lines that end in CRLF from the input buffer, in a loop that needs at least 83
  readable bytes; \<open>line_loop\<close> is that loop, with what the classes do with a line, after a line that is
  refused, and with an unfinished line of more than 100 bytes as its arguments. What a server does
  to the connection is the list of its \<open>send\<close> and \<open>shutdown\<close> calls. \<open>mem\<close> gives the uninitialised
  memory that the solver finds at each call.

  The results: a server answers every request of a stream with one line, in order, with a solution
  wherever there is one, in whatever pieces TCP delivers the stream; in every
  interleaving of the threads of a pool the statistics account for every request.
\<close>

section \<open>Reading lines\<close>

partial_function (option) line_loop ::
  "(string \<Rightarrow> 's \<Rightarrow> (bool \<times> 's) option) \<Rightarrow> ('s \<Rightarrow> 's) \<Rightarrow> ('s \<Rightarrow> 's) \<Rightarrow> Buffer \<Rightarrow> 's \<Rightarrow> (Buffer \<times> 's) option" where
  "line_loop process refused too_long buf s =
    (let len = readableBytes buf in
     if len \<ge> kCells + 2
     then (case findCRLF buf of
             Some crlf \<Rightarrow>
               (let line = slice (Buffer_peek buf) crlf (buffer_vec buf) in
                do { buf \<leftarrow> retrieveUntil buf (crlf + 2);
                     x \<leftarrow> process line s;
                     (if fst x then line_loop process refused too_long buf (snd x) else Some (buf, refused (snd x))) })
           | None \<Rightarrow> Some (buf, if len > 100 then too_long s else s))
     else Some (buf, s))"

section \<open>The servers\<close>

datatype action = Send string | Shutdown

type_synonym garbage = "nat \<Rightarrow> Nodes"

definition bad_request :: string where "bad_request = ''Bad Reqeust!'' @ CRLF"
definition id_too_long :: string where "id_too_long = ''Id too long!'' @ CRLF"

text \<open>The id and the puzzle of a request, and whether there is a colon.\<close>

definition split_request :: "string \<Rightarrow> string \<times> string \<times> bool" where
  "split_request request =
    (let colon = std_find (CHR '':'') request
     in if colon \<noteq> length request then (take colon request, drop (colon + 1) request, True) else ([], request, False))"

definition answer_text :: "string \<Rightarrow> string \<Rightarrow> string" where
  "answer_text ident answer = (if ident = [] then answer @ CRLF else ident @ '':'' @ answer @ CRLF)"

text \<open>\<^verbatim>\<open>server_basic.cc\<close>, and \<^verbatim>\<open>server_multiloop.cc\<close> with the same handlers in every I/O thread.\<close>

definition basic_processRequest :: "garbage \<Rightarrow> string \<Rightarrow> action list \<Rightarrow> (bool \<times> action list) option" where
  "basic_processRequest mem request out =
    (let (ident, puzzle, _) = split_request request in
     if length puzzle = kCells
     then do { answer \<leftarrow> solveSudoku (mem (length out)) puzzle;
               Some (True, out @ [Send (answer_text ident answer)]) }
     else Some (False, out))"

definition basic_onMessage :: "garbage \<Rightarrow> Buffer \<Rightarrow> action list \<Rightarrow> (Buffer \<times> action list) option" where
  "basic_onMessage mem =
    line_loop (basic_processRequest mem) (\<lambda>out. out @ [Send bad_request, Shutdown]) (\<lambda>out. out @ [Send id_too_long, Shutdown])"

definition multiloop_processRequest :: "garbage \<Rightarrow> string \<Rightarrow> action list \<Rightarrow> (bool \<times> action list) option" where
  "multiloop_processRequest mem request out =
    (let (ident, puzzle, _) = split_request request in
     if length puzzle = kCells
     then do { answer \<leftarrow> solveSudoku (mem (length out)) puzzle;
               Some (True, out @ [Send (answer_text ident answer)]) }
     else Some (False, out))"

definition multiloop_onMessage :: "garbage \<Rightarrow> Buffer \<Rightarrow> action list \<Rightarrow> (Buffer \<times> action list) option" where
  "multiloop_onMessage mem =
    line_loop (multiloop_processRequest mem) (\<lambda>out. out @ [Send bad_request, Shutdown]) (\<lambda>out. out @ [Send id_too_long, Shutdown])"

lemma multiloop_is_basic: "multiloop_onMessage = basic_onMessage"
  by (simp add: fun_eq_iff multiloop_onMessage_def basic_onMessage_def multiloop_processRequest_def[abs_def] basic_processRequest_def[abs_def])

text \<open>
  \<^verbatim>\<open>server_threadpool.cc\<close> and \<^verbatim>\<open>server_hybrid.cc\<close>: a request becomes a task of the thread pool, which
  runs it at once when it has no threads. \<open>working\<close> are the tasks that threads have taken.
\<close>

record Request =
  req_id :: string
  req_puzzle :: string
  receiveTime :: Timestamp

record SudokuServer =
  numThreads :: int
  tasks :: "Request list"
  working :: "Request list"
  outs :: "action list"
  stat :: SudokuStat

definition pool_solve :: "garbage \<Rightarrow> Request \<Rightarrow> SudokuServer \<Rightarrow> SudokuServer option" where
  "pool_solve mem req s =
    do { answer \<leftarrow> solveSudoku (mem (length (outs s))) (req_puzzle req);
         Some (s\<lparr>outs := outs s @ [Send (answer_text (req_id req) answer)]\<rparr>) }"

definition pool_processRequest :: "garbage \<Rightarrow> string \<Rightarrow> SudokuServer \<Rightarrow> (bool \<times> SudokuServer) option" where
  "pool_processRequest mem request s =
    (let (ident, puzzle, _) = split_request request; req = \<lparr>req_id = ident, req_puzzle = puzzle, receiveTime = 0\<rparr> in
     if length puzzle = kCells
     then if numThreads s = 0 then do { s \<leftarrow> pool_solve mem req s; Some (True, s) }
          else Some (True, s\<lparr>tasks := tasks s @ [req]\<rparr>)
     else Some (False, s))"

definition pool_onMessage :: "garbage \<Rightarrow> Buffer \<Rightarrow> SudokuServer \<Rightarrow> (Buffer \<times> SudokuServer) option" where
  "pool_onMessage mem =
    line_loop (pool_processRequest mem) (\<lambda>s. s\<lparr>outs := outs s @ [Send bad_request, Shutdown]\<rparr>)
      (\<lambda>s. s\<lparr>outs := outs s @ [Send id_too_long, Shutdown]\<rparr>)"

definition hybrid_solve :: "garbage \<Rightarrow> Timestamp \<Rightarrow> Request \<Rightarrow> SudokuServer \<Rightarrow> SudokuServer option" where
  "hybrid_solve mem now req s =
    do { answer \<leftarrow> solveSudoku (mem (length (outs s))) (req_puzzle req);
         let s = s\<lparr>outs := outs s @ [Send (answer_text (req_id req) answer)]\<rparr>;
         st \<leftarrow> recordResponse now (receiveTime req) (answer \<noteq> kNoSolution) (stat s);
         Some (s\<lparr>stat := st\<rparr>) }"

definition hybrid_processRequest ::
  "garbage \<Rightarrow> Timestamp \<Rightarrow> Timestamp \<Rightarrow> string \<Rightarrow> SudokuServer \<Rightarrow> (bool \<times> SudokuServer) option" where
  "hybrid_processRequest mem now received request s =
    (let (ident, puzzle, colon) = split_request request; req = \<lparr>req_id = ident, req_puzzle = puzzle, receiveTime = received\<rparr> in
     if \<not> colon \<and> numThreads s > 1 then Some (False, s)
     else if length puzzle = kCells
     then if numThreads s = 0 then do { s \<leftarrow> hybrid_solve mem now req s; Some (True, s) }
          else Some (True, s\<lparr>tasks := tasks s @ [req]\<rparr>)
     else Some (False, s))"

definition hybrid_refuse :: "string \<Rightarrow> SudokuServer \<Rightarrow> SudokuServer" where
  "hybrid_refuse msg s = s\<lparr>outs := outs s @ [Send msg, Shutdown], stat := recordBadRequest (stat s)\<rparr>"

definition hybrid_onMessage :: "garbage \<Rightarrow> Timestamp \<Rightarrow> Timestamp \<Rightarrow> Buffer \<Rightarrow> SudokuServer \<Rightarrow> (Buffer \<times> SudokuServer) option" where
  "hybrid_onMessage mem now received =
    line_loop (\<lambda>request s. hybrid_processRequest mem now received request (s\<lparr>stat := recordRequest (stat s)\<rparr>))
      (hybrid_refuse bad_request) (hybrid_refuse id_too_long)"

section \<open>Streams of lines\<close>

text \<open>\<open>feed\<close>: the pieces of a stream arrive one after the other, and the handler runs after each.\<close>

fun feed :: "(Buffer \<Rightarrow> 's \<Rightarrow> (Buffer \<times> 's) option) \<Rightarrow> string list \<Rightarrow> Buffer \<Rightarrow> 's \<Rightarrow> (Buffer \<times> 's) option" where
  "feed onMessage [] buf s = Some (buf, s)"
| "feed onMessage (c # cs) buf s =
     do { buf \<leftarrow> Buffer_append buf c; x \<leftarrow> onMessage buf s; feed onMessage cs (fst x) (snd x) }"

fun process_lines :: "(string \<Rightarrow> 's \<Rightarrow> (bool \<times> 's) option) \<Rightarrow> string list \<Rightarrow> 's \<Rightarrow> 's option" where
  "process_lines process [] s = Some s"
| "process_lines process (l # ls) s =
     do { x \<leftarrow> process l s; if fst x then process_lines process ls (snd x) else None }"

definition line_ok :: "string \<Rightarrow> bool" where
  "line_ok l \<longleftrightarrow> CR \<notin> set l \<and> 81 \<le> length l \<and> length l \<le> 99"

definition wire :: "string list \<Rightarrow> string" where
  "wire ls = concat (map (\<lambda>l. l @ CRLF) ls)"

lemma wire_simps [simp]: "wire [] = []" "wire (l # ls) = l @ CRLF @ wire ls" "wire (ls @ ls') = wire ls @ wire ls'"
  by (simp_all add: wire_def)

text \<open>A buffer with whole lines and an unfinished one: the lines are processed, the rest stays.\<close>

lemma line_loop_lines:
  assumes "Buffer_inv buf" and "readable buf = wire ls @ rest" and "\<forall>l\<in>set ls. line_ok l"
    and "search_crlf rest = length rest" and "length rest \<le> 100"
    and "process_lines process ls s = Some s'"
  shows "\<exists>buf'. line_loop process refused too_long buf s = Some (buf', s') \<and> Buffer_inv buf' \<and> readable buf' = rest"
  using assms
proof (induction ls arbitrary: buf s)
  case Nil
  then have "findCRLF buf = None" "readableBytes buf \<le> 100"
    using buffer_no_line[of buf] length_readable[of buf] by simp_all
  then show ?case using Nil by (auto simp: line_loop.simps)
next
  case (Cons l ls)
  have l: "CR \<notin> set l" "81 \<le> length l" using Cons.prems(3) by (simp_all add: line_ok_def)
  have rd: "readable buf = l @ CRLF @ (wire ls @ rest)" using Cons.prems(2) by simp
  have s: "search_crlf (readable buf) = length l" using l rd by simp
  have ne: "search_crlf (readable buf) \<noteq> length (readable buf)" using s rd by simp
  from buffer_line[OF Cons.prems(1) ne] obtain buf' where b:
    "findCRLF buf = Some (Buffer_peek buf + length l)"
    "slice (Buffer_peek buf) (Buffer_peek buf + length l) (buffer_vec buf) = l"
    "retrieveUntil buf (Buffer_peek buf + length l + 2) = Some buf'" "Buffer_inv buf'" "readable buf' = wire ls @ rest"
    unfolding s using rd by auto
  obtain t where t: "process l s = Some (True, t)" "process_lines process ls t = Some s'"
    using Cons.prems(6) by (auto elim!: bind_SomeE split: if_splits prod.splits)
  have "readableBytes buf \<ge> kCells + 2" using l rd length_readable[OF Cons.prems(1)] by (simp add: kCells_def)
  then have "line_loop process refused too_long buf s = line_loop process refused too_long buf' t"
    using b(1,2,3) t(1) by (simp add: line_loop.simps[of _ _ _ buf])
  then show ?case using Cons.IH[OF b(4,5) _ Cons.prems(4,5) t(2)] Cons.prems(3) by simp
qed

lemma search_crlf_no_CR: "CR \<notin> set xs \<Longrightarrow> search_crlf xs = length xs"
  by (induction xs) auto

lemma search_crlf_CR_end: "CR \<notin> set xs \<Longrightarrow> search_crlf (xs @ [CR]) = length (xs @ [CR])"
  by (induction xs) auto

lemma wire_prefix:
  assumes "X @ Y = wire ls" and "\<forall>l\<in>set ls. CR \<notin> set l \<and> length l \<le> 99"
  shows "\<exists>ls1 ls2 rest. ls = ls1 @ ls2 \<and> X = wire ls1 @ rest \<and> rest @ Y = wire ls2 \<and>
    search_crlf rest = length rest \<and> length rest \<le> 100"
  using assms
proof (induction ls arbitrary: X)
  case Nil
  then show ?case by auto
next
  case (Cons l ls)
  have l: "CR \<notin> set l" "length l \<le> 99" using Cons.prems(2) by simp_all
  show ?case
  proof (cases "length (l @ CRLF) \<le> length X")
    case True
    let ?n = "length (l @ CRLF)"
    have "take ?n (X @ Y) = l @ CRLF" "drop ?n (X @ Y) = wire ls" using Cons.prems(1) by simp_all
    then have "take ?n X = l @ CRLF" "drop ?n X @ Y = wire ls" using True by simp_all
    then obtain X' where X': "X = (l @ CRLF) @ X'" "X' @ Y = wire ls" by (metis append_take_drop_id)
    then obtain ls1 ls2 rest where "ls = ls1 @ ls2" "X' = wire ls1 @ rest" "rest @ Y = wire ls2"
      "search_crlf rest = length rest" "length rest \<le> 100" using Cons.IH[OF X'(2)] Cons.prems(2) by auto
    then show ?thesis using X'(1) by (intro exI[of _ "l # ls1"] exI[of _ ls2] exI[of _ rest]) simp
  next
    case False
    let ?k = "length X"
    have k: "?k \<le> length l + 1" using False by simp
    have "X = take ?k (l @ CRLF)" using Cons.prems(1) False by (metis append_assoc append_eq_conv_conj take_append
          wire_simps(2) append_Nil2 diff_is_0_eq' linear take_0)
    then have "X = take ?k l \<or> X = l @ [CR]" using k by (cases "?k \<le> length l") (auto simp: CRLF_def take_Cons')
    moreover have "CR \<notin> set (take ?k l)" using l(1) by (meson in_set_takeD)
    ultimately have "search_crlf X = length X" using l(1) search_crlf_no_CR search_crlf_CR_end by metis
    then show ?thesis using Cons.prems(1) k l(2) by (intro exI[of _ "[]"] exI[of _ "l # ls"] exI[of _ X]) simp
  qed
qed

lemma process_lines_append:
  "process_lines process (ls @ ls') s = do { s \<leftarrow> process_lines process ls s; process_lines process ls' s }"
  by (induction ls arbitrary: s) (auto split: bind_split)

text \<open>Whatever the pieces, a handler that is a \<open>line_loop\<close> sees exactly the lines.\<close>

lemma feed_lines:
  assumes "Buffer_inv buf" and "readable buf @ concat cs = wire ls" and "\<forall>l\<in>set ls. line_ok l"
    and "search_crlf (readable buf) = length (readable buf)"
    and "process_lines process ls s = Some s'"
  shows "\<exists>buf'. feed (line_loop process refused too_long) cs buf s = Some (buf', s') \<and> Buffer_inv buf' \<and> readable buf' = []"
  using assms
proof (induction cs arbitrary: buf s ls)
  case Nil
  then have w: "readable buf = wire ls" by simp
  have "ls = []"
  proof (rule ccontr)
    assume "ls \<noteq> []"
    then obtain l ls' where ls: "ls = l # ls'" by (cases ls) auto
    then have "search_crlf (readable buf) = length l" using Nil.prems(3) by (simp add: w line_ok_def)
    then show False using Nil.prems(4) w ls by simp
  qed
  then show ?case using Nil w by simp
next
  case (Cons c cs)
  obtain buf1 where b1: "Buffer_append buf c = Some buf1" "Buffer_inv buf1" "readable buf1 = readable buf @ c"
    using buf.app_obtain[OF Cons.prems(1), of c] by blast
  have "readable buf1 @ concat cs = wire ls" using Cons.prems(2) b1(3) by simp
  moreover have "\<forall>l\<in>set ls. CR \<notin> set l \<and> length l \<le> 99" using Cons.prems(3) by (auto simp: line_ok_def)
  ultimately obtain ls1 ls2 rest where d: "ls = ls1 @ ls2" "readable buf1 = wire ls1 @ rest"
    "rest @ concat cs = wire ls2" "search_crlf rest = length rest" "length rest \<le> 100" using wire_prefix by blast
  obtain t where t: "process_lines process ls1 s = Some t" "process_lines process ls2 t = Some s'"
    using Cons.prems(5) d(1) by (auto simp: process_lines_append elim: bind_SomeE)
  have "\<forall>l\<in>set ls1. line_ok l" "\<forall>l\<in>set ls2. line_ok l" using Cons.prems(3) d(1) by simp_all
  from line_loop_lines[OF b1(2) d(2) this(1) d(4,5) t(1)] obtain buf2 where b2:
    "line_loop process refused too_long buf1 s = Some (buf2, t)" "Buffer_inv buf2" "readable buf2 = rest" by blast
  from Cons.IH[OF b2(2) _ \<open>\<forall>l\<in>set ls2. line_ok l\<close> _ t(2)] b2(3) d(3,4) show ?case
    using b1(1) b2(1) by simp
qed

section \<open>The basic server\<close>

definition correct_answer :: "string \<Rightarrow> string \<Rightarrow> bool" where
  "correct_answer puzzle answer \<longleftrightarrow> (if \<exists>g. solves puzzle g then solves puzzle answer else answer = ''NoSolution'')"

abbreviation ident_of :: "string \<Rightarrow> string" where "ident_of l \<equiv> fst (split_request l)"
abbreviation puzzle_of :: "string \<Rightarrow> string" where "puzzle_of l \<equiv> fst (snd (split_request l))"
abbreviation has_colon :: "string \<Rightarrow> bool" where "has_colon l \<equiv> snd (snd (split_request l))"

definition request_ok :: "string \<Rightarrow> bool" where
  "request_ok l \<longleftrightarrow> CR \<notin> set l \<and> length l \<le> 99 \<and> length (puzzle_of l) = kCells"

lemma length_puzzle_of: "length (puzzle_of l) \<le> length l"
  by (auto simp: split_request_def)

lemma request_line: "request_ok l \<Longrightarrow> line_ok l"
  using length_puzzle_of[of l] by (simp add: request_ok_def line_ok_def kCells_def)

lemma basic_answers:
  assumes "\<forall>l\<in>set ls. request_ok l"
  shows "\<exists>answers. length answers = length ls \<and>
     process_lines (basic_processRequest mem) ls out
       = Some (out @ map (\<lambda>(l, a). Send (answer_text (ident_of l) a)) (zip ls answers)) \<and>
     (\<forall>(l, a)\<in>set (zip ls answers). correct_answer (puzzle_of l) a)"
  using assms
proof (induction ls arbitrary: out)
  case (Cons l ls)
  have len: "length (puzzle_of l) = 81" using Cons.prems by (simp add: request_ok_def kCells_def)
  obtain a where a: "solveSudoku (mem (length out)) (puzzle_of l) = Some a" "correct_answer (puzzle_of l) a"
    using solveSudoku_total[OF len] by (auto simp: correct_answer_def)
  obtain answers where IH: "length answers = length ls"
    "process_lines (basic_processRequest mem) ls (out @ [Send (answer_text (ident_of l) a)])
       = Some ((out @ [Send (answer_text (ident_of l) a)]) @ map (\<lambda>(l, a). Send (answer_text (ident_of l) a)) (zip ls answers))"
    "\<forall>(l, a)\<in>set (zip ls answers). correct_answer (puzzle_of l) a" using Cons.IH Cons.prems by (metis list.set_intros(2))
  have "basic_processRequest mem l out = Some (True, out @ [Send (answer_text (ident_of l) a)])"
    using a(1) len by (simp add: basic_processRequest_def kCells_def case_prod_beta Let_def)
  then show ?case using IH a(2) by (intro exI[of _ "a # answers"]) simp
qed simp

lemma basic_server_answers:
  assumes "concat chunks = wire ls" and "\<forall>l\<in>set ls. request_ok l"
  shows "\<exists>buf answers. length answers = length ls \<and>
     feed (basic_onMessage mem) chunks (Buffer_new n) []
       = Some (buf, map (\<lambda>(l, a). Send (answer_text (ident_of l) a)) (zip ls answers)) \<and>
     readable buf = [] \<and> (\<forall>(l, a)\<in>set (zip ls answers). correct_answer (puzzle_of l) a)"
proof -
  obtain answers where a: "length answers = length ls"
    "process_lines (basic_processRequest mem) ls [] = Some (map (\<lambda>(l, a). Send (answer_text (ident_of l) a)) (zip ls answers))"
    "\<forall>(l, a)\<in>set (zip ls answers). correct_answer (puzzle_of l) a"
    using basic_answers[OF assms(2), of mem "[]"] by auto
  have "\<forall>l\<in>set ls. line_ok l" using assms(2) request_line by blast
  from feed_lines[OF Buffer_new_inv _ this _ a(2)] show ?thesis
    using assms(1) a(1,3) unfolding basic_onMessage_def by fastforce
qed

text \<open>C35: The basic sudoku server answers every request: whatever pieces TCP delivers a stream of request lines in
  (at most 99 bytes without the line end, 81 of them the puzzle), the handlers return, every byte is
  consumed, there is exactly one send per request in the order of the requests, each with the id of its
  request and a correct answer - a completed grid that extends the puzzle, or NoSolution if there is
  none - and the connection is not shut down.\<close>

theorem sudoku_server_answers:
  assumes "concat chunks = wire ls" and "\<forall>l\<in>set ls. request_ok l"
  shows "\<exists>buf answers. length answers = length ls \<and>
     feed (basic_onMessage mem) chunks (Buffer_new n) []
       = Some (buf, map (\<lambda>(l, a). Send (answer_text (ident_of l) a)) (zip ls answers)) \<and>
     readable buf = [] \<and> (\<forall>(l, a)\<in>set (zip ls answers). correct_answer (puzzle_of l) a)"
  by (rule basic_server_answers[OF assms])

theorem sudoku_server_answers_witness:
  "let puzzle = ''530070000600195000098000060800060003400803001700020006060000280000419005000080079'';
       chunks = [''7:'' @ take 40 puzzle, drop 40 puzzle @ [CR], [LF]]
   in \<exists>buf a. feed (basic_onMessage (\<lambda>_. zeroed)) chunks (Buffer_new 0) [] = Some (buf, [Send (answer_text ''7'' a)]) \<and>
      readable buf = [] \<and> correct_answer puzzle a"
proof -
  define puzzle :: string where "puzzle = ''530070000600195000098000060800060003400803001700020006060000280000419005000080079''"
  define line where "line = ''7:'' @ puzzle"
  let ?chunks = "[''7:'' @ take 40 puzzle, drop 40 puzzle @ [CR], [LF]]"
  have sp: "split_request line = (''7'', puzzle, True)" unfolding line_def puzzle_def by code_simp
  have "request_ok line" unfolding line_def puzzle_def by code_simp
  moreover have "concat ?chunks = wire [line]" by (simp add: line_def CRLF_def)
  ultimately obtain buf as where a: "length as = 1"
    "feed (basic_onMessage (\<lambda>_. zeroed)) ?chunks (Buffer_new 0) []
      = Some (buf, map (\<lambda>(l, a). Send (answer_text (ident_of l) a)) (zip [line] as))"
    "readable buf = []" "\<forall>(l, a)\<in>set (zip [line] as). correct_answer (puzzle_of l) a"
    using sudoku_server_answers[of ?chunks "[line]" "\<lambda>_. zeroed" 0] by auto
  then obtain a where "as = [a]" by (auto simp: length_Suc_conv)
  then show ?thesis using a(2-4) sp unfolding Let_def puzzle_def[symmetric] by auto
qed

text \<open>C1: Where a request is cut decides about its answer: a request of more than 100 bytes that arrives with its
  line end in one piece is answered like any other, but if a piece ends just before the line end, the
  server first says that the id is too long and shuts the connection down - and then, as the line
  stays in the buffer, answers it all the same when the line end arrives.\<close>

definition long_request :: "string \<Rightarrow> bool" where
  "long_request l \<longleftrightarrow> CR \<notin> set l \<and> length l > 100 \<and> length (puzzle_of l) = kCells"

lemma basic_long_line:
  assumes "Buffer_inv buf" and "readable buf = l @ CRLF" and "long_request l"
  shows "\<exists>buf' a. line_loop (basic_processRequest mem) refused too_long buf out
      = Some (buf', out @ [Send (answer_text (ident_of l) a)]) \<and> readable buf' = [] \<and> correct_answer (puzzle_of l) a"
proof -
  have l: "CR \<notin> set l" "81 \<le> length l" "length (puzzle_of l) = 81"
    using assms(3) by (simp_all add: long_request_def kCells_def)
  have s: "search_crlf (readable buf) = length l" using l(1) assms(2) search_crlf_first[OF l(1), of "[]"] by simp
  have ne: "search_crlf (readable buf) \<noteq> length (readable buf)" using s assms(2) by simp
  from buffer_line[OF assms(1) ne] obtain buf' where b:
    "findCRLF buf = Some (Buffer_peek buf + length l)"
    "slice (Buffer_peek buf) (Buffer_peek buf + length l) (buffer_vec buf) = l"
    "retrieveUntil buf (Buffer_peek buf + length l + 2) = Some buf'" "Buffer_inv buf'" "readable buf' = []"
    unfolding s using assms(2) by auto
  obtain a where a: "solveSudoku (mem (length out)) (puzzle_of l) = Some a" "correct_answer (puzzle_of l) a"
    using solveSudoku_total[OF l(3)] by (auto simp: correct_answer_def)
  have p: "basic_processRequest mem l out = Some (True, out @ [Send (answer_text (ident_of l) a)])"
    using a(1) l(3) by (simp add: basic_processRequest_def kCells_def case_prod_beta Let_def)
  have len: "kCells + 2 \<le> readableBytes buf" "readableBytes buf' = 0"
    using l(2) assms(2) b(5) length_readable[OF assms(1)] length_readable[OF b(4)] by (simp_all add: kCells_def)
  then have "line_loop (basic_processRequest mem) refused too_long buf' x = Some (buf', x)" for x
    by (simp add: line_loop.simps[of _ _ _ buf'] kCells_def)
  then have "line_loop (basic_processRequest mem) refused too_long buf out = Some (buf', out @ [Send (answer_text (ident_of l) a)])"
    using b(1,2,3) p len(1) by (simp add: line_loop.simps[of _ _ _ buf])
  then show ?thesis using b(5) a(2) by blast
qed

theorem sudoku_long_id_segmentation:
  assumes "long_request l"
  shows "\<exists>buf a buf' a'.
     feed (basic_onMessage mem) [l @ CRLF] (Buffer_new n) [] = Some (buf, [Send (answer_text (ident_of l) a)]) \<and>
     correct_answer (puzzle_of l) a \<and>
     feed (basic_onMessage mem) [l, CRLF] (Buffer_new n) []
       = Some (buf', [Send id_too_long, Shutdown, Send (answer_text (ident_of l) a')]) \<and>
     correct_answer (puzzle_of l) a'"
proof -
  obtain b1 where b1: "Buffer_append (Buffer_new n) (l @ CRLF) = Some b1" "Buffer_inv b1" "readable b1 = l @ CRLF"
    using buf.app_obtain[OF Buffer_new_inv, of n "l @ CRLF"] by auto
  obtain b2 where b2: "Buffer_append (Buffer_new n) l = Some b2" "Buffer_inv b2" "readable b2 = l"
    using buf.app_obtain[OF Buffer_new_inv, of n l] by auto
  obtain b3 where b3: "Buffer_append b2 CRLF = Some b3" "Buffer_inv b3" "readable b3 = l @ CRLF"
    using buf.app_obtain[OF b2(2), of CRLF] b2(3) by auto
  have "search_crlf (readable b2) = length (readable b2)"
    using assms b2(3) search_crlf_no_CR by (auto simp: long_request_def)
  then have "findCRLF b2 = None" using buffer_no_line[OF b2(2)] by simp
  moreover have "readableBytes b2 > 100" using assms b2 length_readable[OF b2(2)] by (simp add: long_request_def)
  ultimately have f: "basic_onMessage mem b2 [] = Some (b2, [Send id_too_long, Shutdown])"
    by (simp add: basic_onMessage_def line_loop.simps kCells_def)
  obtain buf a where "basic_onMessage mem b1 [] = Some (buf, [Send (answer_text (ident_of l) a)])" "correct_answer (puzzle_of l) a"
    using basic_long_line[OF b1(2,3) assms, of mem _ _ "[]"] unfolding basic_onMessage_def by (metis append_Nil)
  moreover obtain buf' a' where "basic_onMessage mem b3 [Send id_too_long, Shutdown]
      = Some (buf', [Send id_too_long, Shutdown] @ [Send (answer_text (ident_of l) a')])" "correct_answer (puzzle_of l) a'"
    using basic_long_line[OF b3(2,3) assms] unfolding basic_onMessage_def by metis
  ultimately show ?thesis using b1(1) b2(1) b3(1) f by auto
qed

theorem sudoku_long_id_segmentation_witness:
  "let l = ''request-number-00001:'' @ replicate 81 (CHR ''0'')
   in \<exists>buf a a'. feed (basic_onMessage (\<lambda>_. zeroed)) [l, CRLF] (Buffer_new 0) []
       = Some (buf, [Send id_too_long, Shutdown, Send (answer_text ''request-number-00001'' a')])"
proof -
  let ?l = "''request-number-00001:'' @ replicate 81 (CHR ''0'')"
  have "long_request ?l" "ident_of ?l = ''request-number-00001''" by code_simp+
  then show ?thesis using sudoku_long_id_segmentation[of ?l "\<lambda>_. zeroed" 0] unfolding Let_def by metis
qed

section \<open>Every handler that is such a loop\<close>

text \<open>
  The laws of a class with a \<open>line_loop\<close>: an invariant \<open>I\<close> that the handling of lines keeps, and the
  handling of a line returns.
\<close>

locale line_handler =
  fixes process :: "string \<Rightarrow> 's \<Rightarrow> (bool \<times> 's) option" and refused :: "'s \<Rightarrow> 's" and too_long :: "'s \<Rightarrow> 's"
    and I :: "'s \<Rightarrow> bool"
  assumes returns: "I s \<Longrightarrow> \<exists>x. process l s = Some x"
    and handled: "I s \<Longrightarrow> process l s = Some (True, s') \<Longrightarrow> I s'"
    and refused: "I s \<Longrightarrow> process l s = Some (False, s') \<Longrightarrow> I (refused s')"
    and too_long: "I s \<Longrightarrow> I (too_long s)"
begin

lemma loop_returns:
  assumes "Buffer_inv buf" and "I s"
  shows "\<exists>buf' s'. line_loop process refused too_long buf s = Some (buf', s') \<and> Buffer_inv buf' \<and> I s' \<and>
    (\<exists>k. readable buf' = drop k (readable buf))"
  using assms
proof (induction "length (readable buf)" arbitrary: buf s rule: less_induct)
  case less
  let ?n = "search_crlf (readable buf)"
  show ?case
  proof (cases "kCells + 2 \<le> readableBytes buf \<and> ?n \<noteq> length (readable buf)")
    case True
    then have ne: "?n \<noteq> length (readable buf)" by simp
    from buffer_line[OF less.prems(1) ne] obtain buf' where b:
      "findCRLF buf = Some (Buffer_peek buf + ?n)"
      "slice (Buffer_peek buf) (Buffer_peek buf + ?n) (buffer_vec buf) = take ?n (readable buf)"
      "retrieveUntil buf (Buffer_peek buf + ?n + 2) = Some buf'" "Buffer_inv buf'" "readable buf' = drop (?n + 2) (readable buf)"
      by blast
    obtain g t where p: "process (take ?n (readable buf)) s = Some (g, t)" using returns[OF less.prems(2)] by fastforce
    show ?thesis
    proof (cases g)
      case True': True
      have e: "line_loop process refused too_long buf s = line_loop process refused too_long buf' t"
        using b(1,2,3) p True' True by (simp add: line_loop.simps[of _ _ _ buf])
      have "?n < length (readable buf)" using ne search_crlf_le le_neq_implies_less by blast
      then have "length (readable buf') < length (readable buf)" using b(5) by simp
      moreover have "I t" using handled[OF less.prems(2), of _ t] p True' by simp
      ultimately obtain buf'' s' k where
        "line_loop process refused too_long buf' t = Some (buf'', s')" "Buffer_inv buf''" "I s'" "readable buf'' = drop k (readable buf')"
        using less.hyps b(4) by blast
      then show ?thesis using e b(5) by (auto simp: drop_drop)
    next
      case False
      then have "line_loop process refused too_long buf s = Some (buf', refused t)"
        using b(1,2,3) p True by (simp add: line_loop.simps[of _ _ _ buf])
      moreover have "I (refused t)" using refused[OF less.prems(2), of _ t] p False by simp
      ultimately show ?thesis using b(4,5) by blast
    qed
  next
    case False
    then have "line_loop process refused too_long buf s = Some (buf, s) \<or>
        line_loop process refused too_long buf s = Some (buf, too_long s)"
      using buffer_no_line[OF less.prems(1)] by (auto simp: line_loop.simps[of _ _ _ buf])
    then show ?thesis using less.prems too_long by (metis drop0)
  qed
qed

end

interpretation basic: line_handler "basic_processRequest mem" "\<lambda>out. out @ [Send bad_request, Shutdown]"
  "\<lambda>out. out @ [Send id_too_long, Shutdown]" "\<lambda>_. True" for mem
proof
  fix l :: string and s
  show "\<exists>x. basic_processRequest mem l s = Some x"
    using solveSudoku_total[of "puzzle_of l" "mem (length s)"] unfolding kCells_def[symmetric]
    by (cases "length (puzzle_of l) = kCells") (auto simp: basic_processRequest_def case_prod_beta Let_def)
qed simp_all

section \<open>The hybrid server and its statistics\<close>

text \<open>
  The runs of the server: an I/O thread handles a message of some connection, a thread of the pool
  takes the oldest task, or it finishes one. \<open>outs\<close> holds the actions on all connections.
\<close>

definition SudokuServer_new :: "int \<Rightarrow> SudokuServer" where
  "SudokuServer_new n = \<lparr>numThreads = n, tasks = [], working = [], outs = [], stat = SudokuStat_new\<rparr>"

inductive hybrid_run :: "garbage \<Rightarrow> int \<Rightarrow> SudokuServer \<Rightarrow> bool" for mem n where
  start: "hybrid_run mem n (SudokuServer_new n)"
| message: "hybrid_run mem n s \<Longrightarrow> Buffer_inv buf \<Longrightarrow> 0 < secondsSinceEpoch now \<Longrightarrow>
    hybrid_onMessage mem now received buf s = Some (buf', s') \<Longrightarrow> hybrid_run mem n s'"
| take: "hybrid_run mem n s \<Longrightarrow> tasks s = r # rs \<Longrightarrow>
    hybrid_run mem n (s\<lparr>tasks := rs, working := r # working s\<rparr>)"
| finish: "hybrid_run mem n s \<Longrightarrow> r \<in> set (working s) \<Longrightarrow> 0 < secondsSinceEpoch now \<Longrightarrow>
    hybrid_solve mem now r (s\<lparr>working := remove1 r (working s)\<rparr>) = Some s' \<Longrightarrow> hybrid_run mem n s'"

definition sends :: "SudokuServer \<Rightarrow> string list" where
  "sends s = concat (map (\<lambda>a. case a of Send x \<Rightarrow> [x] | Shutdown \<Rightarrow> []) (outs s))"

definition refused_long :: "SudokuServer \<Rightarrow> nat" where
  "refused_long s = count_list (sends s) id_too_long"

definition hybrid_inv :: "SudokuServer \<Rightarrow> bool" where
  "hybrid_inv s \<longleftrightarrow> (\<exists>rs. stat_inv rs (stat s)) \<and> (\<forall>r\<in>set (tasks s) \<union> set (working s). length (req_puzzle r) = kCells) \<and>
     totalRequests (stat s) + int (refused_long s)
       = totalResponses (stat s) + badRequests (stat s) + int (length (tasks s)) + int (length (working s)) \<and>
     int (length (sends s)) = totalResponses (stat s) + badRequests (stat s)"

lemma answer_text_not_refusal:
  assumes "length a = 81 \<or> a = ''NoSolution''"
  shows "answer_text i a \<noteq> id_too_long"
proof
  assume r: "answer_text i a = id_too_long"
  show False
  proof (cases "i = []")
    case True
    then have "length (a @ CRLF) = length id_too_long" using r by (simp add: answer_text_def)
    then show False using assms by (auto simp: id_too_long_def CRLF_def)
  next
    case False
    then have "id_too_long = i @ CHR '':'' # a @ CRLF" using r by (simp add: answer_text_def)
    then have "CHR '':'' \<in> set id_too_long" by (metis in_set_conv_decomp)
    then show False by (simp add: id_too_long_def CRLF_def CR_def LF_def)
  qed
qed

lemma solveSudoku_answer:
  assumes "length puzzle = kCells"
  shows "\<exists>a. solveSudoku mem puzzle = Some a \<and> (length a = 81 \<or> a = ''NoSolution'')"
proof -
  obtain a where a: "solveSudoku mem puzzle = Some a" "if \<exists>g. solves puzzle g then solves puzzle a else a = ''NoSolution''"
    using solveSudoku_total[of puzzle mem] assms unfolding kCells_def by blast
  have "solves puzzle a \<Longrightarrow> length a = 81" by (simp add: solves_def)
  then have "length a = 81 \<or> a = ''NoSolution''" using a(2) by metis
  then show ?thesis using a(1) by blast
qed

lemma stat_inv_count:
  "stat_inv rs (recordRequest s) \<longleftrightarrow> stat_inv rs s" "stat_inv rs (recordBadRequest s) \<longleftrightarrow> stat_inv rs s"
  unfolding stat_inv_def recordRequest_def recordBadRequest_def by simp_all

text \<open>A task that ends: one more response and one more send.\<close>

lemma hybrid_solve_inv:
  assumes "length (req_puzzle r) = kCells" and "0 < secondsSinceEpoch now" and "stat_inv rs (stat s)"
  shows "\<exists>s' rs'. hybrid_solve mem now r s = Some s' \<and> stat_inv rs' (stat s') \<and> numThreads s' = numThreads s \<and>
    tasks s' = tasks s \<and> working s' = working s \<and> length (sends s') = length (sends s) + 1 \<and>
    refused_long s' = refused_long s \<and> totalResponses (stat s') = totalResponses (stat s) + 1 \<and>
    badRequests (stat s') = badRequests (stat s) \<and> totalRequests (stat s') = totalRequests (stat s)"
proof -
  obtain a where a: "solveSudoku (mem (length (outs s))) (req_puzzle r) = Some a" "length a = 81 \<or> a = ''NoSolution''"
    using solveSudoku_answer assms(1) by blast
  obtain st where "recordResponse now (receiveTime r) (a \<noteq> kNoSolution) (stat s) = Some st"
    "stat_inv (rs @ response_of (Response now (receiveTime r) (a \<noteq> kNoSolution))) st"
    "totalResponses st = totalResponses (stat s) + 1" "badRequests st = badRequests (stat s)"
    "totalRequests st = totalRequests (stat s)" using recordResponse_inv[OF assms(3,2)] by blast
  then show ?thesis using a(1) answer_text_not_refusal[OF a(2)]
    by (simp add: hybrid_solve_def sends_def refused_long_def) blast
qed

lemma hybrid_line:
  assumes inv: "hybrid_inv s" and t: "0 < secondsSinceEpoch now"
  shows "\<exists>g s'. hybrid_processRequest mem now received l (s\<lparr>stat := recordRequest (stat s)\<rparr>) = Some (g, s') \<and>
    (g \<longrightarrow> hybrid_inv s') \<and> (\<not> g \<longrightarrow> s' = s\<lparr>stat := recordRequest (stat s)\<rparr>)"
proof -
  let ?s = "s\<lparr>stat := recordRequest (stat s)\<rparr>"
  let ?r = "\<lparr>req_id = ident_of l, req_puzzle = puzzle_of l, receiveTime = received\<rparr>"
  obtain rs where rs: "stat_inv rs (stat s)" using inv by (auto simp: hybrid_inv_def)
  then have rs': "stat_inv rs (stat ?s)" by (simp add: stat_inv_count)
  consider (refuse) "(\<not> has_colon l \<and> numThreads s > 1) \<or> length (puzzle_of l) \<noteq> kCells"
    | (run) "has_colon l \<or> \<not> numThreads s > 1" "length (puzzle_of l) = kCells" "numThreads s = 0"
    | (queue) "has_colon l \<or> \<not> numThreads s > 1" "length (puzzle_of l) = kCells" "numThreads s \<noteq> 0" by blast
  then show ?thesis
  proof cases
    case refuse
    then show ?thesis by (auto simp: hybrid_processRequest_def case_prod_beta Let_def)
  next
    case run
    have "length (req_puzzle ?r) = kCells" using run by simp
    from hybrid_solve_inv[OF this t rs', of mem] obtain s' rs'' where s': "hybrid_solve mem now ?r ?s = Some s'"
      "stat_inv rs'' (stat s')" "tasks s' = tasks ?s" "working s' = working ?s" "length (sends s') = length (sends ?s) + 1"
      "refused_long s' = refused_long ?s" "totalResponses (stat s') = totalResponses (stat ?s) + 1"
      "badRequests (stat s') = badRequests (stat ?s)" "totalRequests (stat s') = totalRequests (stat ?s)" by blast
    have "sends ?s = sends s" "refused_long ?s = refused_long s" by (simp_all add: sends_def refused_long_def)
    then have "hybrid_inv s'" using s'(2-) inv by (auto simp: hybrid_inv_def recordRequest_def)
    moreover have "hybrid_processRequest mem now received l ?s = Some (True, s')"
      using run s'(1) by (auto simp: hybrid_processRequest_def case_prod_beta Let_def)
    ultimately show ?thesis by blast
  next
    case queue
    then have "hybrid_processRequest mem now received l ?s = Some (True, ?s\<lparr>tasks := tasks s @ [?r]\<rparr>)"
      by (auto simp: hybrid_processRequest_def case_prod_beta Let_def)
    moreover have "hybrid_inv (?s\<lparr>tasks := tasks s @ [?r]\<rparr>)"
      using queue(2) inv rs' by (auto simp: hybrid_inv_def recordRequest_def sends_def refused_long_def)
    ultimately show ?thesis by blast
  qed
qed

lemma hybrid_refuse_inv:
  assumes "hybrid_inv s"
  shows "hybrid_inv (hybrid_refuse bad_request (s\<lparr>stat := recordRequest (stat s)\<rparr>))" "hybrid_inv (hybrid_refuse id_too_long s)"
proof -
  have ne: "bad_request \<noteq> id_too_long" by (simp add: bad_request_def id_too_long_def CRLF_def)
  obtain rs where "stat_inv rs (stat s)" using assms by (auto simp: hybrid_inv_def)
  then have "stat_inv rs (recordBadRequest (stat s))" "stat_inv rs (recordBadRequest (recordRequest (stat s)))"
    by (simp_all add: stat_inv_count)
  then show "hybrid_inv (hybrid_refuse bad_request (s\<lparr>stat := recordRequest (stat s)\<rparr>))" "hybrid_inv (hybrid_refuse id_too_long s)"
    using assms ne by (auto simp: hybrid_inv_def hybrid_refuse_def sends_def refused_long_def recordBadRequest_def recordRequest_def)
qed

interpretation hybrid: line_handler "\<lambda>request s. hybrid_processRequest mem now received request (s\<lparr>stat := recordRequest (stat s)\<rparr>)"
  "hybrid_refuse bad_request" "hybrid_refuse id_too_long" "\<lambda>s. 0 < secondsSinceEpoch now \<and> hybrid_inv s" for mem now received
proof
  fix l :: string and s s'
  assume I: "0 < secondsSinceEpoch now \<and> hybrid_inv s"
  then obtain g t where h: "hybrid_processRequest mem now received l (s\<lparr>stat := recordRequest (stat s)\<rparr>) = Some (g, t)"
    "g \<longrightarrow> hybrid_inv t" "\<not> g \<longrightarrow> t = s\<lparr>stat := recordRequest (stat s)\<rparr>" using hybrid_line by meson
  then show "\<exists>x. hybrid_processRequest mem now received l (s\<lparr>stat := recordRequest (stat s)\<rparr>) = Some x" by blast
  show "0 < secondsSinceEpoch now \<and> hybrid_inv s'"
    if "hybrid_processRequest mem now received l (s\<lparr>stat := recordRequest (stat s)\<rparr>) = Some (True, s')"
    using that h I by simp
  show "0 < secondsSinceEpoch now \<and> hybrid_inv (hybrid_refuse bad_request s')"
    if "hybrid_processRequest mem now received l (s\<lparr>stat := recordRequest (stat s)\<rparr>) = Some (False, s')"
    using that h I hybrid_refuse_inv(1) by simp
qed (use hybrid_refuse_inv(2) in blast)

lemma hybrid_run_inv: "hybrid_run mem n s \<Longrightarrow> hybrid_inv s"
proof (induction rule: hybrid_run.induct)
  case start
  have "stat_inv [] SudokuStat_new"
    by (simp add: stat_inv_def SudokuStat_new_def window_def newest_def)
  then show ?case by (auto simp: hybrid_inv_def SudokuServer_new_def sends_def refused_long_def SudokuStat_new_def)
next
  case (message s buf now received buf' s')
  then show ?case using hybrid.loop_returns[of buf now s mem received] unfolding hybrid_onMessage_def by auto
next
  case (take s r rs)
  then show ?case by (auto simp: hybrid_inv_def sends_def refused_long_def)
next
  case (finish s r now s')
  let ?s = "s\<lparr>working := remove1 r (working s)\<rparr>"
  obtain rs where rs: "stat_inv rs (stat ?s)" using finish.IH by (auto simp: hybrid_inv_def)
  have k: "length (req_puzzle r) = kCells" using finish.IH finish.hyps(2) by (auto simp: hybrid_inv_def)
  have l: "length (working s) = length (remove1 r (working s)) + 1"
    using finish.hyps(2) length_pos_if_in_set[of r "working s"] by (simp add: length_remove1)
  have "sends ?s = sends s" "refused_long ?s = refused_long s" by (simp_all add: sends_def refused_long_def)
  then show ?case using hybrid_solve_inv[OF k finish.hyps(3) rs, of mem] finish.IH finish.hyps(4) l
    by (auto simp: hybrid_inv_def dest: notin_set_remove1) 
qed



end
