(* ===== verification/Sudoku_Clients.thy ===== *)
theory Sudoku_Clients
  imports Sudoku_Server
begin

text \<open>
  The batch client of the sudoku servers: \<^verbatim>\<open>examples/sudoku/batch.cc\<close> sends every puzzle of a file and waits
  for as many answers. Its loop that reads lines is a \<open>line_loop\<close>.

  The result is about the client together with the basic server: in whatever pieces TCP delivers both
  directions, the client finishes exactly when the last puzzle has a solution, and otherwise waits for
  ever.
\<close>

section \<open>Input files\<close>

text \<open>\<^verbatim>\<open>getline\<close> until the end of the stream; \<^verbatim>\<open>push_back(line.c_str())\<close> stops at a zero byte.\<close>

function getlines :: "string \<Rightarrow> string list" where
  "getlines s = (if s = [] then []
     else takeWhile (\<lambda>c. c \<noteq> LF) s # getlines (drop 1 (dropWhile (\<lambda>c. c \<noteq> LF) s)))"
  by pat_completeness auto
termination
proof (relation "measure length")
  fix s :: string assume "s \<noteq> []"
  then have "length (dropWhile (\<lambda>c. c \<noteq> LF) s) - 1 < length s"
    using length_dropWhile_le[of "\<lambda>c. c \<noteq> LF" s] length_greater_0_conv[of s] by linarith
  then show "(drop 1 (dropWhile (\<lambda>c. c \<noteq> LF) s), s) \<in> measure length" by simp
qed simp

definition readInput :: "string \<Rightarrow> string list" where
  "readInput contents = map (takeWhile (\<lambda>c. c \<noteq> CHR 0x00)) (filter (\<lambda>l. length l = kCells) (getlines contents))"

section \<open>The batch client\<close>

definition verify_result :: "string \<Rightarrow> bool" where "verify_result result = True"

fun runLocal :: "garbage \<Rightarrow> string list \<Rightarrow> nat \<times> nat \<Rightarrow> (nat \<times> nat) option" where
  "runLocal mem [] (count, succeed) = Some (count, succeed)"
| "runLocal mem (line # rest) (count, succeed) =
     (if length line = kCells
      then do { r \<leftarrow> solveSudoku (mem count) line;
                runLocal mem rest (count + 1, if verify_result r then succeed + 1 else succeed) }
      else runLocal mem rest (count, succeed))"

record BatchClient =
  client_input :: "string list"
  client_count :: nat
  client_out :: "action list"
  finished :: nat

definition BatchClient_new :: "string list \<Rightarrow> BatchClient" where
  "BatchClient_new input = \<lparr>client_input = input, client_count = 0, client_out = [], finished = 0\<rparr>"

fun batch_requests :: "nat \<Rightarrow> string list \<Rightarrow> action list option" where
  "batch_requests i [] = Some []"
| "batch_requests i (p # ps) =
     do { b \<leftarrow> LogStream_inserts [AInt (int i + 1), ACStr (Some '':''), AStr p, ACStr (Some CRLF)] LogStream_new;
          as \<leftarrow> batch_requests (i + 1) ps;
          Some (Send (fb_data b) # as) }"

definition batch_onConnection :: "bool \<Rightarrow> BatchClient \<Rightarrow> BatchClient option" where
  "batch_onConnection conn_up c =
    (if conn_up then do { as \<leftarrow> batch_requests 0 (client_input c); Some (c\<lparr>client_out := client_out c @ as\<rparr>) } else Some c)"

definition batch_shutdown :: "BatchClient \<Rightarrow> BatchClient" where
  "batch_shutdown c = c\<lparr>client_out := client_out c @ [Shutdown]\<rparr>"

definition batch_response :: "string \<Rightarrow> BatchClient \<Rightarrow> (bool \<times> BatchClient) option" where
  "batch_response response c = Some (verify_result response, c\<lparr>client_count := client_count c + 1\<rparr>)"

definition batch_onMessage :: "Buffer \<Rightarrow> BatchClient \<Rightarrow> (Buffer \<times> BatchClient) option" where
  "batch_onMessage buf c =
    do { x \<leftarrow> line_loop batch_response batch_shutdown batch_shutdown buf c;
         let (buf, c) = x;
         Some (buf, if client_count c = length (client_input c)
                    then batch_shutdown (c\<lparr>finished := finished c + 1\<rparr>) else c) }"

text \<open>The callback \<open>done\<close>, with the three globals; \<open>quits\<close> counts the calls of \<open>runAfter(1.0, quit)\<close>.\<close>

record Batch =
  g_connections :: int
  g_finished :: int
  quits :: nat

definition batch_done :: "Batch \<Rightarrow> Batch" where
  "batch_done g =
    (let g = g\<lparr>g_finished := g_finished g + 1\<rparr>
     in if g_finished g = g_connections g then g\<lparr>quits := quits g + 1\<rparr> else g)"

section \<open>Reading a stream of answers\<close>

text \<open>A loop that accepts every line reads whole lines; it stops short of 83 bytes or without a line end.\<close>

lemma line_loop_stream:
  assumes "Buffer_inv buf" and "readable buf @ Y = wire ls" and "\<forall>l\<in>set ls. CR \<notin> set l \<and> length l \<le> 99"
    and process: "\<And>l s. process l s = Some (True, f l s)"
  shows "\<exists>buf' ls1 ls2. ls = ls1 @ ls2 \<and> line_loop process refused too_long buf s = Some (buf', fold f ls1 s) \<and>
     Buffer_inv buf' \<and> readable buf' @ Y = wire ls2 \<and>
     (length (readable buf') < 83 \<or> search_crlf (readable buf') = length (readable buf')) \<and>
     (ls \<noteq> [] \<and> length (last ls) < 81 \<longrightarrow> ls2 \<noteq> [])"
  using assms(1-3)
proof (induction ls arbitrary: buf s)
  case Nil
  then have "readableBytes buf = 0" using length_readable[of buf] by simp
  then show ?case using Nil by (auto simp: line_loop.simps kCells_def)
next
  case (Cons l ls)
  have rb: "readableBytes buf = length (readable buf)" using length_readable[OF Cons.prems(1)] by simp
  from wire_prefix[OF Cons.prems(2,3)] obtain ls1 ls2 rest where w: "l # ls = ls1 @ ls2" "readable buf = wire ls1 @ rest"
    "rest @ Y = wire ls2" "search_crlf rest = length rest" "length rest \<le> 100" by blast
  have cr: "CR \<notin> set l" using Cons.prems(3) by simp
  show ?case
  proof (cases "83 \<le> length (readable buf) \<and> ls1 \<noteq> []")
    case True
    then obtain ls1' where ls1: "ls1 = l # ls1'" "ls = ls1' @ ls2" using w(1) by (cases ls1) auto
    have rd: "readable buf = l @ CRLF @ (wire ls1' @ rest)" using w(2) ls1 by simp
    have s: "search_crlf (readable buf) = length l" using cr rd by simp
    have ne: "search_crlf (readable buf) \<noteq> length (readable buf)" using s rd by simp
    from buffer_line[OF Cons.prems(1) ne] obtain buf1 where b:
      "findCRLF buf = Some (Buffer_peek buf + length l)"
      "slice (Buffer_peek buf) (Buffer_peek buf + length l) (buffer_vec buf) = l"
      "retrieveUntil buf (Buffer_peek buf + length l + 2) = Some buf1" "Buffer_inv buf1" "readable buf1 = wire ls1' @ rest"
      unfolding s using rd by auto
    have e: "readable buf1 @ Y = wire ls" using b(5) w(3) ls1(2) by simp
    have short: "\<forall>l\<in>set ls. CR \<notin> set l \<and> length l \<le> 99" using Cons.prems(3) by simp
    obtain buf' ms1 ms2 where "ls = ms1 @ ms2 \<and>
        line_loop process refused too_long buf1 (f l s) = Some (buf', fold f ms1 (f l s)) \<and> Buffer_inv buf' \<and>
        readable buf' @ Y = wire ms2 \<and>
        (length (readable buf') < 83 \<or> search_crlf (readable buf') = length (readable buf')) \<and>
        (ls \<noteq> [] \<and> length (last ls) < 81 \<longrightarrow> ms2 \<noteq> [])"
      using Cons.IH[OF b(4) e short, of "f l s"] by (elim exE) (rule that)
    note IH = this
    have eq: "line_loop process refused too_long buf s = line_loop process refused too_long buf1 (f l s)"
      using b(1,2,3) True rb process by (simp add: line_loop.simps[of _ _ _ buf] kCells_def)
    have long: "81 \<le> length l" if "ls = []"
    proof -
      have "ls1' = []" "ls2 = []" using that ls1(2) by simp_all
      then have "readable buf = l @ CRLF" using rd w(3) by simp
      then show ?thesis using True by simp
    qed
    have imp: "ls \<noteq> [] \<and> length (last ls) < 81 \<longrightarrow> ms2 \<noteq> []" using IH by (elim conjE)
    have last: "ms2 \<noteq> []" if "length (last (l # ls)) < 81"
    proof (cases "ls = []")
      case True
      then show ?thesis using long that by simp
    next
      case False
      then show ?thesis using imp that by simp
    qed
    show ?thesis
    proof (intro exI conjI)
      show "l # ls = (l # ms1) @ ms2" using IH by simp
      show "line_loop process refused too_long buf s = Some (buf', fold f (l # ms1) s)" using IH eq by simp
    qed (use IH last in blast)+
  next
    case False
    have stop: "search_crlf (readable buf) = length (readable buf) \<and> length (readable buf) \<le> 100 \<or> length (readable buf) < 83"
    proof (cases "ls1 = []")
      case True
      then have "readable buf = rest" using w(2) by simp
      then show ?thesis using w(4,5) by simp
    next
      case ls1: False
      then show ?thesis using False by simp
    qed
    then have eq: "line_loop process refused too_long buf s = Some (buf, s)"
    proof (cases "length (readable buf) < 83")
      case True
      then show ?thesis using rb by (simp add: line_loop.simps[of _ _ _ buf] kCells_def)
    next
      case False
      then have "findCRLF buf = None" "\<not> readableBytes buf > 100" using stop buffer_no_line[OF Cons.prems(1)] rb by simp_all
      then show ?thesis by (subst line_loop.simps) (simp add: Let_def)
    qed
    show ?thesis
    proof (intro exI conjI)
      show "l # ls = [] @ (l # ls)" "line_loop process refused too_long buf s = Some (buf, fold f [] s)" using eq by simp_all
      show "length (readable buf) < 83 \<or> search_crlf (readable buf) = length (readable buf)" using stop by blast
    qed (use Cons.prems(1,2) in blast)+
  qed
qed

lemma whole_lines_left:
  assumes "X = wire ls" and "length X < 83 \<or> search_crlf X = length X" and "ls \<noteq> []" and "\<forall>l\<in>set ls. CR \<notin> set l"
  shows "length (last ls) < 81"
proof -
  obtain l ls' where ls: "ls = l # ls'" using assms(3) by (cases ls) auto
  have "X = l @ CRLF @ wire ls'" using assms(1) ls by simp
  moreover have "CR \<notin> set l" using assms(4) ls by simp
  ultimately have "length X < 83" using assms(2) by auto
  moreover have "X = wire (butlast ls) @ last ls @ CRLF"
    using assms(1,3) by (metis append_Nil2 append_butlast_last_id wire_simps)
  ultimately show ?thesis by (simp add: CRLF_def)
qed

abbreviation counted_lines :: "string list \<Rightarrow> BatchClient \<Rightarrow> BatchClient" where
  "counted_lines ls c \<equiv> c\<lparr>client_count := client_count c + length ls\<rparr>"

lemma fold_count: "fold (\<lambda>_ c. c\<lparr>client_count := client_count c + 1\<rparr>) ls c = counted_lines ls c"
  by (induction ls arbitrary: c) simp_all

text \<open>The batch client over a stream of answers: it finishes at the last line, unless that line is short.\<close>

lemma batch_feed:
  assumes "Buffer_inv buf" and "readable buf @ concat cs = wire ls" and "\<forall>l\<in>set ls. CR \<notin> set l \<and> length l \<le> 99"
    and "[] \<notin> set cs" and "ls \<noteq> []" and "client_count c + length ls = length (client_input c)"
    and "length (readable buf) < 83 \<or> search_crlf (readable buf) = length (readable buf)"
  shows "\<exists>buf' k. feed batch_onMessage cs buf c =
    Some (buf', if 81 \<le> length (last ls)
                then c\<lparr>client_count := length (client_input c), finished := finished c + 1, client_out := client_out c @ [Shutdown]\<rparr>
                else c\<lparr>client_count := k\<rparr>) \<and> k < length (client_input c)"
  using assms
proof (induction cs arbitrary: buf ls c)
  case Nil
  then have "length (last ls) < 81" using whole_lines_left[of "readable buf" ls] by auto
  then show ?case using Nil.prems(5,6) by (intro exI[of _ buf] exI[of _ "client_count c"]) (auto simp: length_greater_0_conv[symmetric] simp del: length_greater_0_conv)
next
  case (Cons x cs)
  obtain buf1 where b1: "Buffer_append buf x = Some buf1" "Buffer_inv buf1" "readable buf1 = readable buf @ x"
    using buf.app_obtain[OF Cons.prems(1), of x] by blast
  have e: "readable buf1 @ concat cs = wire ls" using Cons.prems(2) b1(3) by simp
  obtain buf2 ls1 ls2 where l: "ls = ls1 @ ls2 \<and> line_loop batch_response batch_shutdown batch_shutdown buf1 c =
      Some (buf2, fold (\<lambda>_ c. c\<lparr>client_count := client_count c + 1\<rparr>) ls1 c) \<and> Buffer_inv buf2 \<and>
      readable buf2 @ concat cs = wire ls2 \<and> (length (readable buf2) < 83 \<or> search_crlf (readable buf2) = length (readable buf2)) \<and>
      (ls \<noteq> [] \<and> length (last ls) < 81 \<longrightarrow> ls2 \<noteq> [])"
    using line_loop_stream[OF b1(2) e Cons.prems(3), of batch_response "\<lambda>_ c. c\<lparr>client_count := client_count c + 1\<rparr>" batch_shutdown batch_shutdown c]
    by (auto simp only: batch_response_def verify_result_def) 
  have ls: "ls = ls1 @ ls2" and b2: "Buffer_inv buf2" and rest: "readable buf2 @ concat cs = wire ls2"
    and stop: "length (readable buf2) < 83 \<or> search_crlf (readable buf2) = length (readable buf2)"
    and short: "ls \<noteq> [] \<and> length (last ls) < 81 \<longrightarrow> ls2 \<noteq> []" using l by blast+
  let ?c = "counted_lines ls1 c"
  have loop: "line_loop batch_response batch_shutdown batch_shutdown buf1 c = Some (buf2, ?c)" using l unfolding fold_count by blast
  show ?case
  proof (cases "ls2 = []")
    case True
    then have "concat cs = []" using rest by simp
    then have "cs = []" using Cons.prems(4) by (cases cs) auto
    moreover have "\<not> length (last ls) < 81" using short True Cons.prems(5) by blast
    moreover have "length ls1 = length ls" using ls True by simp
    moreover have "0 < length (client_input c)" unfolding Cons.prems(6)[symmetric] using Cons.prems(5) by simp
    ultimately show ?thesis using b1(1) loop Cons.prems(6)
      by (intro exI[of _ buf2] exI[of _ 0]) (simp add: batch_onMessage_def batch_shutdown_def)
  next
    case False
    have n: "length ls = length ls1 + length ls2" "0 < length ls2" "last ls2 = last ls" using ls False by simp_all
    have c: "client_count ?c + length ls2 = length (client_input ?c)" "client_count ?c \<noteq> length (client_input ?c)"
      using n(1,2) Cons.prems(6) by (simp_all del: length_greater_0_conv)
    have "\<forall>l\<in>set ls2. CR \<notin> set l \<and> length l \<le> 99" "[] \<notin> set cs" using ls Cons.prems(3,4) by simp_all
    note IH = Cons.IH[OF b2 rest this False c(1) stop]
    have "batch_onMessage buf1 c = Some (buf2, ?c)" using loop c(2) by (simp add: batch_onMessage_def)
    then have "feed batch_onMessage (x # cs) buf c = feed batch_onMessage cs buf2 ?c" using b1(1) by simp
    then show ?thesis using IH n(3) by (cases "81 \<le> length (last ls)") simp_all
  qed
qed

section \<open>The batch client and the basic server\<close>

definition sent_bytes :: "action list \<Rightarrow> string" where
  "sent_bytes as = concat (map (\<lambda>a. case a of Send x \<Rightarrow> x | Shutdown \<Rightarrow> []) as)"

definition request_line :: "nat \<Rightarrow> string \<Rightarrow> string" where
  "request_line i p = dec_nat (i + 1) @ '':'' @ p"

lemma digit_not_colon_CR: "is_digit c \<Longrightarrow> c \<noteq> CHR '':'' \<and> c \<noteq> CR"
  by (auto simp: is_digit_def CR_def)

lemma dec_nat_no_colon: "CHR '':'' \<notin> set (dec_nat n)" "CR \<notin> set (dec_nat n)"
  using dec_nat_digits[of n] digit_not_colon_CR by blast+

lemma split_request_line: "split_request (request_line i p) = (dec_nat (i + 1), p, True)"
  using dec_nat_no_colon[of "i + 1"] by (simp add: split_request_def request_line_def std_find_append)

lemma batch_requests_lines:
  assumes "\<forall>p\<in>set ps. length p = 81" and "i + length ps < 10 ^ 17"
  shows "batch_requests i ps = Some (map (\<lambda>(j, p). Send (request_line j p @ CRLF)) (zip [i..<i + length ps] ps))"
  using assms
proof (induction ps arbitrary: i)
  case (Cons p ps)
  let ?as = "[AInt (int i + 1), ACStr (Some '':''), AStr p, ACStr (Some CRLF)]"
  have d: "dec_int (int i + 1) = dec_nat (i + 1)" by (simp add: dec_int_def nat_add_distrib)
  have len: "length (dec_nat (i + 1)) \<le> 17" using Cons.prems(2) by (intro length_dec_nat_le) simp_all
  have "list_all arg_ok ?as" using Cons.prems(2) by simp
  from inserts_kept[OF this, of LogStream_new] have
    "LogStream_inserts ?as LogStream_new = Some (LogStream_new\<lparr>fb_data := kept ?as []\<rparr>)"
    by (simp add: LogStream_new_def FixedBuffer_new_def kSmallBuffer_def)
  moreover have "kept ?as [] = request_line i p @ CRLF"
    using len d Cons.prems(1) by (simp add: kSmallBuffer_def kMaxNumericSize_def CRLF_def CR_def LF_def request_line_def)
  moreover have "[i..<i + length (p # ps)] = i # [i + 1..<i + 1 + length ps]" by (subst upt_conv_Cons) simp_all
  ultimately show ?case using Cons.IH[of "i + 1"] Cons.prems by simp
qed simp

lemma solves_no_CR: "solves p a \<Longrightarrow> CR \<notin> set a"
proof
  assume s: "solves p a" and "CR \<in> set a"
  moreover have "length a = 81" using s by (simp only: solves_def)
  ultimately obtain i where i: "i < 81" "a ! i = CR" by (metis in_set_conv_nth)
  have r: "row_of \<in> set (map snd families)" "row_of i \<in> set [0..<9]" using unit_lt[OF i(1)] by (simp_all add: families_def)
  have "\<forall>un\<in>set (map snd families). \<forall>r\<in>set [0..<9]. set (map ((!) a) (cells_of un r)) = set ''123456789''"
    using s unfolding solves_def by blast
  then have row: "set (map ((!) a) (cells_of row_of (row_of i))) = set ''123456789''" using r by blast
  have "i \<in> set (cells_of row_of (row_of i))" using i(1) by (simp add: cells_of_def)
  then have "a ! i \<in> set (map ((!) a) (cells_of row_of (row_of i)))" by (simp only: set_map image_eqI)
  then have "a ! i \<in> set ''123456789''" unfolding row .
  then show False using i(2) by (auto simp: CR_def)
qed

lemma answer_line:
  assumes "correct_answer p a" and "length i \<le> 17" and "CR \<notin> set i" and "i \<noteq> []"
  shows "\<exists>l. answer_text i a = l @ CRLF \<and> CR \<notin> set l \<and> length l \<le> 99 \<and> (81 \<le> length l \<longleftrightarrow> (\<exists>g. solves p g))"
proof -
  have "(\<exists>g. solves p g) \<and> solves p a \<and> length a = 81 \<or> \<not> (\<exists>g. solves p g) \<and> a = ''NoSolution''"
    using assms(1) unfolding correct_answer_def solves_def[of p a] by metis
  moreover have "CR \<notin> set a" using calculation solves_no_CR by (auto simp: CR_def)
  ultimately show ?thesis using assms(2-4)
    by (intro exI[of _ "i @ '':'' @ a"]) (auto simp: answer_text_def CR_def)
qed

text \<open>The requests of the client, answered by the server, are a stream of short lines.\<close>

lemma batch_answers:
  assumes "length ps \<le> length is" and "\<forall>i\<in>set is. i < 10 ^ 17 - 1" and "length answers = length ps"
    and "\<forall>(l, a)\<in>set (zip (map2 request_line is ps) answers). correct_answer (puzzle_of l) a"
  shows "\<exists>ls. length ls = length ps \<and>
     sent_bytes (map (\<lambda>(l, a). Send (answer_text (ident_of l) a)) (zip (map2 request_line is ps) answers)) = wire ls \<and>
     (\<forall>l\<in>set ls. CR \<notin> set l \<and> length l \<le> 99) \<and>
     (ps \<noteq> [] \<longrightarrow> (81 \<le> length (last ls) \<longleftrightarrow> (\<exists>g. solves (last ps) g)))"
  using assms
proof (induction ps arbitrary: "is" answers)
  case Nil
  then show ?case by (intro exI[of _ "[]"]) (simp add: sent_bytes_def)
next
  case (Cons p ps)
  obtain i "is'" where "is": "is = i # is'" using Cons.prems(1) by (cases "is") auto
  obtain a as where as: "answers = a # as" using Cons.prems(3) by (cases answers) auto
  have ca: "correct_answer p a" using Cons.prems(4) "is" as by (simp add: split_request_line)
  have len: "length (dec_nat (i + 1)) \<le> 17" using Cons.prems(2) "is" by (intro length_dec_nat_le) auto
  from answer_line[OF ca len dec_nat_no_colon(2) dec_nat_nonempty] obtain l where l:
    "answer_text (dec_nat (i + 1)) a = l @ CRLF" "CR \<notin> set l" "length l \<le> 99" "81 \<le> length l \<longleftrightarrow> (\<exists>g. solves p g)" by blast
  have "length ps \<le> length is'" "\<forall>i\<in>set is'. i < 10 ^ 17 - 1" "length as = length ps"
    "\<forall>(l, a)\<in>set (zip (map2 request_line is' ps) as). correct_answer (puzzle_of l) a"
    using Cons.prems "is" as by simp_all
  from Cons.IH[OF this] obtain ls where ls: "length ls = length ps"
    "sent_bytes (map (\<lambda>(l, a). Send (answer_text (ident_of l) a)) (zip (map2 request_line is' ps) as)) = wire ls"
    "\<forall>l\<in>set ls. CR \<notin> set l \<and> length l \<le> 99" "ps \<noteq> [] \<longrightarrow> (81 \<le> length (last ls) \<longleftrightarrow> (\<exists>g. solves (last ps) g))" by blast
  have "length (l # ls) = length (p # ps)" using ls(1) by simp
  moreover have "sent_bytes (map (\<lambda>(l, a). Send (answer_text (ident_of l) a)) (zip (map2 request_line is (p # ps)) answers)) = wire (l # ls)"
    using ls(2) l(1) "is" as by (simp add: sent_bytes_def split_request_line)
  moreover have "\<forall>l\<in>set (l # ls). CR \<notin> set l \<and> length l \<le> 99" using ls(3) l(2,3) by simp
  moreover have "81 \<le> length (last (l # ls)) \<longleftrightarrow> (\<exists>g. solves (last (p # ps)) g)"
  proof (cases "ps = []")
    case True
    then show ?thesis using l(4) ls(1) by simp
  next
    case False
    then have "last (l # ls) = last ls" "last (p # ps) = last ps" using ls(1) by auto
    then show ?thesis using ls(4) False by simp
  qed
  ultimately show ?case by blast
qed

lemma sent_requests:
  "sent_bytes (map (\<lambda>(j, p). Send (request_line j p @ CRLF)) (zip is ps)) = wire (map2 request_line is ps)"
  by (simp add: sent_bytes_def wire_def o_def case_prod_beta)

lemma request_lines_ok:
  assumes "\<forall>p\<in>set input. length p = 81 \<and> CR \<notin> set p" and "length input < 10 ^ 17"
  shows "\<forall>l\<in>set (map2 request_line [0..<length input] input). request_ok l"
proof
  fix l assume "l \<in> set (map2 request_line [0..<length input] input)"
  then obtain i where "l = request_line i (input ! i)" "i < length input" by (auto simp: in_set_conv_nth)
  then obtain p where l: "l = request_line i p" "i < length input" "p \<in> set input" by auto
  have "length (dec_nat (i + 1)) \<le> 17" using l(2) assms(2) by (intro length_dec_nat_le) simp_all
  moreover have "length p = 81" "CR \<notin> set p" using assms(1) l(3) by auto
  moreover have "puzzle_of l = p" "l = dec_nat (i + 1) @ '':'' @ p" "CR \<noteq> CHR '':''"
    unfolding l(1) split_request_line by (simp_all add: request_line_def CR_def)
  ultimately show "request_ok l" using dec_nat_no_colon[of "i + 1"] by (simp add: request_ok_def kCells_def)
qed

text \<open>C34: The batch client and the basic server together: the client sends its puzzles when it is connected, the
  server answers, and whatever the pieces in which TCP delivers the two streams, no handler fails and the
  client reports that it is finished, once, exactly if the last puzzle has a solution. If it has none, the
  last answer is shorter than the 83 bytes for which the client waits, and the client never finishes.\<close>

theorem batch_finishes_iff_last_solvable:
  assumes "input \<noteq> []" and "\<forall>p\<in>set input. length p = 81 \<and> CR \<notin> set p" and "length input < 10 ^ 17"
  shows "\<exists>c. batch_onConnection True (BatchClient_new input) = Some c \<and>
    (\<forall>chunks. concat chunks = sent_bytes (client_out c) \<longrightarrow>
      (\<exists>sbuf out. feed (basic_onMessage mem) chunks (Buffer_new n) [] = Some (sbuf, out) \<and>
        (\<forall>replies. concat replies = sent_bytes out \<and> [] \<notin> set replies \<longrightarrow>
          (\<exists>buf c'. feed batch_onMessage replies (Buffer_new m) c = Some (buf, c') \<and>
            finished c' = (if \<exists>g. solves (last input) g then 1 else 0) \<and>
            (finished c' = 0 \<longrightarrow> client_count c' < length input)))))"
proof -
  let ?is = "[0..<length input]" and ?reqs = "map2 request_line [0..<length input] input"
  define c where "c = (BatchClient_new input)\<lparr>client_out := map (\<lambda>(j, p). Send (request_line j p @ CRLF)) (zip ?is input)\<rparr>"
  have con: "batch_onConnection True (BatchClient_new input) = Some c"
    using batch_requests_lines[of input 0] assms by (simp add: batch_onConnection_def BatchClient_new_def c_def)
  have sent: "sent_bytes (client_out c) = wire ?reqs" by (simp add: c_def sent_requests)
  have ok: "\<forall>l\<in>set ?reqs. request_ok l" using request_lines_ok[OF assms(2,3)] .
  show ?thesis
  proof (rule exI[of _ c], rule conjI, rule con, intro allI impI)
    fix chunks assume "concat chunks = sent_bytes (client_out c)"
    then obtain sbuf answers where a: "length answers = length ?reqs"
      "feed (basic_onMessage mem) chunks (Buffer_new n) [] = Some (sbuf, map (\<lambda>(l, a). Send (answer_text (ident_of l) a)) (zip ?reqs answers))"
      "\<forall>(l, a)\<in>set (zip ?reqs answers). correct_answer (puzzle_of l) a"
      using basic_server_answers[OF _ ok, of chunks mem n] sent by auto
    have "length input \<le> length ?is" "\<forall>i\<in>set ?is. i < 10 ^ 17 - 1" "length answers = length input"
      using assms(3) a(1) by auto
    from batch_answers[OF this a(3)] assms(1) obtain ls where ls: "length ls = length input"
      "sent_bytes (map (\<lambda>(l, a). Send (answer_text (ident_of l) a)) (zip ?reqs answers)) = wire ls"
      "\<forall>l\<in>set ls. CR \<notin> set l \<and> length l \<le> 99" "81 \<le> length (last ls) \<longleftrightarrow> (\<exists>g. solves (last input) g)" by blast
    have ne: "ls \<noteq> []" using ls(1) assms(1) by auto
    show "\<exists>sbuf out. feed (basic_onMessage mem) chunks (Buffer_new n) [] = Some (sbuf, out) \<and>
        (\<forall>replies. concat replies = sent_bytes out \<and> [] \<notin> set replies \<longrightarrow>
          (\<exists>buf c'. feed batch_onMessage replies (Buffer_new m) c = Some (buf, c') \<and>
            finished c' = (if \<exists>g. solves (last input) g then 1 else 0) \<and>
            (finished c' = 0 \<longrightarrow> client_count c' < length input)))"
    proof (rule exI, rule exI, rule conjI, rule a(2), intro allI impI)
      fix replies assume r: "concat replies = sent_bytes (map (\<lambda>(l, a). Send (answer_text (ident_of l) a)) (zip ?reqs answers)) \<and> [] \<notin> set replies"
      have c: "client_count c = 0" "client_input c = input" "finished c = 0" by (simp_all add: c_def BatchClient_new_def)
      from batch_feed[OF Buffer_new_inv _ ls(3) _ ne, of m replies c] r ls(1,2) c show
        "\<exists>buf c'. feed batch_onMessage replies (Buffer_new m) c = Some (buf, c') \<and>
            finished c' = (if \<exists>g. solves (last input) g then 1 else 0) \<and>
            (finished c' = 0 \<longrightarrow> client_count c' < length input)"
        using ls(4) by (cases "81 \<le> length (last ls)") auto
    qed
  qed
qed

definition twice_one :: string where "twice_one = ''11'' @ replicate 79 (CHR ''0'')"

lemma twice_one_unsolvable: "\<not> solves twice_one g"
proof
  assume s: "solves twice_one g"
  have r: "row_of \<in> set (map snd families)" "0 \<in> set [0..<9]" by (simp_all add: families_def)
  have "\<forall>un\<in>set (map snd families). \<forall>a\<in>set [0..<9]. set (map ((!) g) (cells_of un a)) = set ''123456789''"
    using s unfolding solves_def by blast
  then have row: "set (map ((!) g) (cells_of row_of 0)) = set ''123456789''" using r by blast
  have c: "cells_of row_of 0 = [0, 1, 2, 3, 4, 5, 6, 7, 8]" by code_simp
  have "\<forall>i\<in>set [0..<81]. twice_one ! i \<noteq> CHR ''0'' \<longrightarrow> g ! i = twice_one ! i" using s unfolding solves_def by blast
  then have "g ! 0 = CHR ''1''" "g ! 1 = CHR ''1''" by (simp_all add: twice_one_def)
  then have "set (map ((!) g) (cells_of row_of 0)) = set (map ((!) g) [1, 2, 3, 4, 5, 6, 7, 8])" unfolding c by simp
  moreover have "card (set (map ((!) g) [1, 2, 3, 4, 5, 6, 7, 8])) \<le> 8" by (rule order_trans[OF card_length]) simp
  moreover have "card (set ''123456789'') = 9" by code_simp
  ultimately show False using row by simp
qed

theorem batch_finishes_iff_last_solvable_witness:
  "\<exists>c sbuf out buf c'. batch_onConnection True (BatchClient_new [twice_one]) = Some c \<and>
     feed (basic_onMessage (\<lambda>_. zeroed)) [sent_bytes (client_out c)] (Buffer_new 0) [] = Some (sbuf, out) \<and>
     feed batch_onMessage (filter (\<lambda>x. x \<noteq> []) [sent_bytes out]) (Buffer_new 0) c = Some (buf, c') \<and>
     finished c' = 0 \<and> client_count c' = 0"
proof -
  have "\<forall>p\<in>set [twice_one]. length p = 81 \<and> CR \<notin> set p" by code_simp
  then obtain c where c: "batch_onConnection True (BatchClient_new [twice_one]) = Some c"
    "\<forall>chunks. concat chunks = sent_bytes (client_out c) \<longrightarrow>
      (\<exists>sbuf out. feed (basic_onMessage (\<lambda>_. zeroed)) chunks (Buffer_new 0) [] = Some (sbuf, out) \<and>
        (\<forall>replies. concat replies = sent_bytes out \<and> [] \<notin> set replies \<longrightarrow>
          (\<exists>buf c'. feed batch_onMessage replies (Buffer_new 0) c = Some (buf, c') \<and>
            finished c' = (if \<exists>g. solves (last [twice_one]) g then 1 else 0) \<and>
            (finished c' = 0 \<longrightarrow> client_count c' < length [twice_one]))))"
    using batch_finishes_iff_last_solvable[of "[twice_one]" "\<lambda>_. zeroed" 0 0] by auto
  moreover have "concat [sent_bytes (client_out c)] = sent_bytes (client_out c)" by simp
  ultimately obtain sbuf out where f: "feed (basic_onMessage (\<lambda>_. zeroed)) [sent_bytes (client_out c)] (Buffer_new 0) [] = Some (sbuf, out)"
    "\<forall>replies. concat replies = sent_bytes out \<and> [] \<notin> set replies \<longrightarrow>
          (\<exists>buf c'. feed batch_onMessage replies (Buffer_new 0) c = Some (buf, c') \<and>
            finished c' = (if \<exists>g. solves (last [twice_one]) g then 1 else 0) \<and>
            (finished c' = 0 \<longrightarrow> client_count c' < length [twice_one]))" by blast
  have "concat (filter (\<lambda>x. x \<noteq> []) [sent_bytes out]) = sent_bytes out \<and> [] \<notin> set (filter (\<lambda>x. x \<noteq> []) [sent_bytes out])" by simp
  from f(2)[THEN spec, THEN mp, OF this] obtain buf c' where "feed batch_onMessage (filter (\<lambda>x. x \<noteq> []) [sent_bytes out]) (Buffer_new 0) c = Some (buf, c')"
    "finished c' = (if \<exists>g. solves (last [twice_one]) g then 1 else 0)"
    "finished c' = 0 \<longrightarrow> client_count c' < length [twice_one]" by (elim exE conjE) (rule that)
  then show ?thesis using c(1) f(1) twice_one_unsolvable by (intro exI[of _ c] exI[of _ sbuf] exI[of _ out] exI[of _ buf] exI[of _ c']) simp
qed

end
