(* ===== verification/Proc.thy ===== *)
theory Proc
  imports Timestamp "HOL-Library.Sublist" "HOL-Library.Char_ord" "HOL-Library.List_Lexorder"
begin

text \<open>
  Texts about the process: \<^verbatim>\<open>cnet/base/StringPiece.h\<close>, \<^verbatim>\<open>ProcessInfo.cc\<close>, the reader of small files
  in \<^verbatim>\<open>FileUtil.cc\<close> and the functions of \<^verbatim>\<open>cnet/net/inspect/ProcessInspector.cc\<close> that take such texts
  apart. The results of system calls are arguments: \<open>Inl\<close> an errno, \<open>Inr\<close> what was read. A
  \<open>StringPiece\<close> is the list of its bytes; where its position in the text matters (\<open>procname\<close>) it is
  the offset and the length, and \<open>None\<close> is the null pointer. Reading past the end of a text, a
  negative length and a thrown exception are \<open>None\<close>.

  The results: a small file is read whole, in whatever pieces \<^verbatim>\<open>read\<close> returns it; \<open>compare\<close> is the
  order on byte strings; \<open>starts_with\<close> misses equal texts; the up time reads back as the number of
  seconds; and \<open>getCpuTime\<close> finds the two fields that proc(5) documents.
\<close>

section \<open>StringPiece\<close>

definition sp_remove_prefix :: "int \<Rightarrow> string \<Rightarrow> string option" where
  "sp_remove_prefix n s = (if 0 \<le> n \<and> n \<le> int (length s) then Some (drop (nat n) s) else None)"

definition sp_remove_suffix :: "int \<Rightarrow> string \<Rightarrow> string option" where
  "sp_remove_suffix n s = (if 0 \<le> n \<and> n \<le> int (length s) then Some (take (length s - nat n) s) else None)"

text \<open>The sign of \<^verbatim>\<open>memcmp\<close> on two blocks of the same length (unsigned bytes).\<close>

fun mem_cmp :: "string \<Rightarrow> string \<Rightarrow> int" where
  "mem_cmp (x # xs) (y # ys) =
     (if (of_char x :: nat) < of_char y then - 1 else if (of_char y :: nat) < of_char x then 1 else mem_cmp xs ys)"
| "mem_cmp _ _ = 0"

definition sp_compare :: "string \<Rightarrow> string \<Rightarrow> int" where
  "sp_compare s x =
    (let n = (if length s < length x then length s else length x);
         r = mem_cmp (take n s) (take n x)
     in if r = 0 then (if length s < length x then - 1 else if length s > length x then 1 else 0) else r)"

definition sp_starts_with :: "string \<Rightarrow> string \<Rightarrow> bool" where
  "sp_starts_with s x \<longleftrightarrow> length s > length x \<and> mem_cmp (take (length x) s) x = 0"

definition sp_eq :: "string \<Rightarrow> string \<Rightarrow> bool" where
  "sp_eq s x \<longleftrightarrow> length s = length x \<and> mem_cmp s x = 0"

section \<open>Numbers and positions in texts\<close>

text \<open>\<^verbatim>\<open>static_cast<int>\<close> of a 64-bit value, \<^verbatim>\<open>strtol\<close> and \<^verbatim>\<open>atoi\<close>.\<close>

definition cast_int :: "int \<Rightarrow> int" where
  "cast_int x = signed_take_bit 31 x"

definition strtol :: "string \<Rightarrow> int" where
  "strtol s =
    (let s = dropWhile isspace s;
         neg = (s \<noteq> [] \<and> hd s = CHR ''-'');
         s = (if s \<noteq> [] \<and> (hd s = CHR ''-'' \<or> hd s = CHR ''+'') then tl s else s);
         v = int (nat_of_digits (takeWhile is_digit s))
     in if neg then max (- (2 ^ 63)) (- v) else min (2 ^ 63 - 1) v)"

definition atoi :: "string \<Rightarrow> int" where
  "atoi s = cast_int (strtol s)"

text \<open>\<^verbatim>\<open>std::string::find\<close> of a text.\<close>

fun find_sub :: "string \<Rightarrow> string \<Rightarrow> nat option" where
  "find_sub key [] = (if key = [] then Some 0 else None)"
| "find_sub key (c # s) = (if prefix key (c # s) then Some 0 else map_option Suc (find_sub key s))"

section \<open>ReadSmallFile\<close>

record ReadSmallFile =
  rs_fd :: "int + int"
  rs_buf :: string

definition kBufferSize :: nat where "kBufferSize = 64 * 1024"

definition ReadSmallFile_new :: "int + int \<Rightarrow> ReadSmallFile" where
  "ReadSmallFile_new opened = \<lparr>rs_fd = opened, rs_buf = [CHR 0x00]\<rparr>"

text \<open>
  The loop of \<open>readToString\<close>: \<open>rd off n\<close> is the result of a \<^verbatim>\<open>read\<close> of at most \<open>n\<close> bytes when the file
  offset is \<open>off\<close>, the number of bytes read so far; an empty result is the end of the file.
\<close>

function read_loop :: "(nat \<Rightarrow> nat \<Rightarrow> int + string) \<Rightarrow> nat \<Rightarrow> string \<Rightarrow> int \<Rightarrow> string \<times> int" where
  "read_loop rd maxSize content err =
    (if length content < maxSize
     then (case rd (length content) (min (maxSize - length content) kBufferSize) of
             Inr bytes \<Rightarrow> if bytes \<noteq> [] then read_loop rd maxSize (content @ bytes) err else (content, err)
           | Inl e \<Rightarrow> (content, e))
     else (content, err))"
  by pat_completeness auto
termination
proof (relation "measure (\<lambda>(rd, m, c, e). m - length c)")
  fix rd :: "nat \<Rightarrow> nat \<Rightarrow> int + string" and content bytes :: string and maxSize err
  assume "length content < maxSize" "bytes \<noteq> ([] :: string)"
  then have "maxSize - length (content @ bytes) < maxSize - length content" by (cases bytes) simp_all
  then show "((rd, maxSize, content @ bytes, err), rd, maxSize, content, err) \<in> measure (\<lambda>(rd, m, c, e). m - length c)"
    by simp
qed simp

declare read_loop.simps [simp del]

text \<open>What \<^verbatim>\<open>fstat\<close> gives: the kind of the file, its size and two times.\<close>

datatype file_kind = Regular | Directory | OtherKind

record file_stat =
  st_kind :: file_kind
  st_size :: int
  st_mtime :: int
  st_ctime :: int

record file_times =
  fileSize :: int
  modifyTime :: int
  createTime :: int

definition EISDIR :: int where "EISDIR = 21"

text \<open>
  \<open>readToString\<close>; \<open>want\<close> are the three optional outputs (their pointers are not null), \<open>tm\<close> their
  values. The first component of the result is the returned errno.
\<close>

definition readToString ::
  "ReadSmallFile \<Rightarrow> (int + file_stat) \<Rightarrow> (nat \<Rightarrow> nat \<Rightarrow> int + string) \<Rightarrow> int \<Rightarrow> bool \<times> bool \<times> bool \<Rightarrow>
   string \<times> file_times \<Rightarrow> int \<times> string \<times> file_times" where
  "readToString f st rd maxSize want out =
    (case (rs_fd f, want, out) of
       (Inl e, _, content, tm) \<Rightarrow> (e, content, tm)
     | (Inr _, (wsize, wmod, wcre), _, tm) \<Rightarrow>
         (let (err, tm) =
                (if wsize
                 then (case st of
                         Inr s \<Rightarrow>
                           (let tm = (if st_kind s = Regular then tm\<lparr>fileSize := st_size s\<rparr> else tm);
                                err = (if st_kind s = Directory then EISDIR else 0);
                                tm = (if wmod then tm\<lparr>modifyTime := st_mtime s\<rparr> else tm);
                                tm = (if wcre then tm\<lparr>createTime := st_ctime s\<rparr> else tm)
                            in (err, tm))
                       | Inl e \<Rightarrow> (e, tm))
                 else (0, tm));
              (content, err) = read_loop rd (nat (maxSize mod 2 ^ 64)) [] err
          in (err, content, tm)))"

text \<open>\<open>readToBuffer\<close> with the result of \<^verbatim>\<open>pread(fd, buf, sizeof(buf) - 1, 0)\<close>: errno, size and the buffer.\<close>

definition readToBuffer :: "int + string \<Rightarrow> ReadSmallFile \<Rightarrow> int \<times> int option \<times> ReadSmallFile" where
  "readToBuffer r f =
    (case rs_fd f of
       Inl e \<Rightarrow> (e, None, f)
     | Inr _ \<Rightarrow> (case r of
           Inr bytes \<Rightarrow> (0, Some (int (length bytes)), f\<lparr>rs_buf := bytes @ [CHR 0x00]\<rparr>)
         | Inl e \<Rightarrow> (e, None, f)))"

definition readFile ::
  "int + int \<Rightarrow> (int + file_stat) \<Rightarrow> (nat \<Rightarrow> nat \<Rightarrow> int + string) \<Rightarrow> int \<Rightarrow> bool \<times> bool \<times> bool \<Rightarrow>
   string \<times> file_times \<Rightarrow> int \<times> string \<times> file_times" where
  "readFile opened st rd maxSize want out = readToString (ReadSmallFile_new opened) st rd maxSize want out"

section \<open>ProcessInfo\<close>

definition pidString :: "int \<Rightarrow> string" where "pidString pid = dec_int pid"

definition username :: "string option \<Rightarrow> string" where
  "username pw_name = (case pw_name of Some name \<Rightarrow> name | None \<Rightarrow> ''unknownuser'')"

definition isDebugBuild :: bool where "isDebugBuild = True"

definition hostname :: "string option \<Rightarrow> string" where
  "hostname r = (case r of Some name \<Rightarrow> takeWhile (\<lambda>c. c \<noteq> CHR 0x00) (take 255 name) | None \<Rightarrow> ''unknownhost'')"

definition procname_at :: "string \<Rightarrow> (nat \<times> nat) option" where
  "procname_at stat =
    (let lp = std_find (CHR ''('') stat; rp = std_find (CHR '')'') stat
     in if lp \<noteq> length stat \<and> rp \<noteq> length stat \<and> lp < rp then Some (lp + 1, rp - lp - 1) else None)"

definition as_string :: "string \<Rightarrow> (nat \<times> nat) option \<Rightarrow> string" where
  "as_string text p = (case p of Some (off, len) \<Rightarrow> take len (drop off text) | None \<Rightarrow> [])"

text \<open>\<open>procname()\<close> looks into the text of \<^verbatim>\<open>/proc/self/status\<close>.\<close>

definition procname :: "string \<Rightarrow> string" where
  "procname status = as_string status (procname_at status)"

text \<open>The three readers: a failed \<open>readFile\<close> leaves what it has read.\<close>

definition proc_file :: "(string \<Rightarrow> int + int) \<Rightarrow> (string \<Rightarrow> nat \<Rightarrow> nat \<Rightarrow> int + string) \<Rightarrow> string \<Rightarrow> string" where
  "proc_file fopen rd path =
    fst (snd (readFile (fopen path) (Inl 0) (rd path) 65536 (False, False, False)
           ([], \<lparr>fileSize = 0, modifyTime = 0, createTime = 0\<rparr>)))"

definition procStatus :: "(string \<Rightarrow> int + int) \<Rightarrow> (string \<Rightarrow> nat \<Rightarrow> nat \<Rightarrow> int + string) \<Rightarrow> string" where
  "procStatus fopen rd = proc_file fopen rd ''/proc/self/status''"

definition procStat :: "(string \<Rightarrow> int + int) \<Rightarrow> (string \<Rightarrow> nat \<Rightarrow> nat \<Rightarrow> int + string) \<Rightarrow> string" where
  "procStat fopen rd = proc_file fopen rd ''/proc/self/stat''"

definition threadStat :: "int \<Rightarrow> (string \<Rightarrow> int + int) \<Rightarrow> (string \<Rightarrow> nat \<Rightarrow> nat \<Rightarrow> int + string) \<Rightarrow> string" where
  "threadStat tid fopen rd = proc_file fopen rd (''/proc/self/task/'' @ dec_int tid @ ''/stat'')"

text \<open>
  \<open>exePath\<close>: the result of \<^verbatim>\<open>readlink\<close> is stored in a \<^verbatim>\<open>size_t\<close>, so that the \<open>-1\<close> of a failure is
  a huge length, for which \<^verbatim>\<open>assign\<close> throws.
\<close>

definition exePath :: "int + string \<Rightarrow> string option" where
  "exePath r =
    (case r of Inr path \<Rightarrow> Some (if length path > 0 then path else []) | Inl e \<Rightarrow> None)"

text \<open>The filters of \<^verbatim>\<open>scandir\<close> and what is done with the names of a directory.\<close>

definition digit_name :: "string \<Rightarrow> bool" where
  "digit_name d_name \<longleftrightarrow> d_name \<noteq> [] \<and> is_digit (hd d_name)"

definition fdDirFilter :: "string \<Rightarrow> int \<Rightarrow> int" where
  "fdDirFilter d_name t_numOpenedFiles = (if digit_name d_name then t_numOpenedFiles + 1 else t_numOpenedFiles)"

definition taskDirFilter :: "string \<Rightarrow> int list \<Rightarrow> int list" where
  "taskDirFilter d_name t_pids = (if digit_name d_name then t_pids @ [atoi d_name] else t_pids)"

definition openedFiles :: "string list \<Rightarrow> int" where
  "openedFiles names = fold fdDirFilter names 0"

definition maxOpenFiles :: "int option \<Rightarrow> string list \<Rightarrow> int" where
  "maxOpenFiles rlim_cur names = (case rlim_cur of None \<Rightarrow> openedFiles names | Some n \<Rightarrow> cast_int n)"

definition thread_ids :: "string list \<Rightarrow> int list" where
  "thread_ids names = sort (fold taskDirFilter names [])"

definition numThreads_of :: "string \<Rightarrow> int" where
  "numThreads_of status =
    (case find_sub ''Threads:'' status of Some pos \<Rightarrow> atoi (drop (pos + 8) status) | None \<Rightarrow> 0)"

section \<open>ProcessInspector: taking texts apart\<close>

text \<open>\<open>uptime\<close>; the text of at most 255 bytes.\<close>

definition uptime :: "Timestamp \<Rightarrow> Timestamp \<Rightarrow> bool \<Rightarrow> string" where
  "uptime now start showMicroseconds =
    (let age = now - start;
         seconds = cast_int (age sdiv kMicroSecondsPerSecond);
         days = seconds sdiv 86400;
         hours = (seconds smod 86400) sdiv 3600;
         minutes = (seconds smod 3600) sdiv 60;
         head = dec_int days @ '' days '' @ dec_int0 2 hours @ '':'' @ dec_int0 2 minutes @ '':'' @ dec_int0 2 (seconds smod 60)
     in if showMicroseconds
        then head @ ''.'' @ dec_int0 6 (cast_int (age smod kMicroSecondsPerSecond))
        else head)"

definition getLong :: "string \<Rightarrow> string \<Rightarrow> int" where
  "getLong status key =
    (case find_sub key status of Some pos \<Rightarrow> strtol (drop (pos + length key) status) | None \<Rightarrow> 0)"

text \<open>The two loops run past the end of a text without a line feed, which is \<open>None\<close>.\<close>

definition getProcessName :: "string \<Rightarrow> string option" where
  "getProcessName status =
    (case find_sub ''Name:'' status of
       None \<Rightarrow> Some []
     | Some pos \<Rightarrow>
         (let s = dropWhile (\<lambda>c. c = CHR 0x09) (drop (pos + 5) status);
              eol = std_find LF s
          in if eol = length s then None else Some (take eol s)))"

definition next_field :: "string \<Rightarrow> string" where
  "next_field data =
    (let sp = std_find (CHR '' '') data in if sp \<noteq> length data then drop (sp + 1) data else [])"

text \<open>\<open>getCpuTime\<close> in clock ticks; the code divides both by the ticks per second.\<close>

definition getCpuTime :: "string \<Rightarrow> int \<times> int" where
  "getCpuTime data =
    (let data = (next_field ^^ 10) data in (strtol data, strtol (next_field data)))"

text \<open>\<open>stringPrintf\<close> with the text that the format makes: at most 255 bytes of it are appended.\<close>

definition stringPrintf :: "string \<Rightarrow> string \<Rightarrow> string" where
  "stringPrintf out text = out @ take 255 text"

text \<open>
  One thread in \<open>threads\<close>: the contents of its \<^verbatim>\<open>stat\<close> file. \<open>line\<close> is the text of the final
  \<^verbatim>\<open>snprintf\<close> (of the name, the state and the two times). A null \<open>name\<close> is dereferenced.
\<close>

definition thread_line :: "(int \<Rightarrow> string \<Rightarrow> char \<Rightarrow> int \<times> int \<Rightarrow> string) \<Rightarrow> int \<Rightarrow> string \<Rightarrow> string option" where
  "thread_line line tid stat =
    (case procname_at stat of
       None \<Rightarrow> None
     | Some (off, len) \<Rightarrow>
         (let rp = off + len; state = rp + 2
          in do { assertm (stat ! rp = CHR '')'');
                  assertm (state + 2 \<le> length stat);
                  Some (take 255 (line tid (take len (drop off stat)) (stat ! state) (getCpuTime (drop (state + 2) stat)))) }))"

fun thread_lines :: "(int \<Rightarrow> string \<Rightarrow> char \<Rightarrow> int \<times> int \<Rightarrow> string) \<Rightarrow> (int \<times> string option) list \<Rightarrow> string \<Rightarrow> string option" where
  "thread_lines line [] result = Some result"
| "thread_lines line ((tid, None) # ts) result = thread_lines line ts result"
| "thread_lines line ((tid, Some stat) # ts) result =
     do { l \<leftarrow> thread_line line tid stat; thread_lines line ts (result @ l) }"

definition threads :: "(int \<Rightarrow> string \<Rightarrow> char \<Rightarrow> int \<times> int \<Rightarrow> string) \<Rightarrow> (int \<times> string option) list \<Rightarrow> string option" where
  "threads line ts = thread_lines line ts (''  TID NAME             S    User Time  System Time'' @ [LF])"

section \<open>Properties\<close>

lemma read_loop_whole:
  assumes "\<And>off n. 0 < n \<Longrightarrow> \<exists>b. rd off n = Inr b \<and> prefix b (drop off file) \<and> length b \<le> n \<and> (b = [] \<longrightarrow> drop off file = [])"
    and "prefix content (take maxSize file)"
  shows "read_loop rd maxSize content err = (take maxSize file, err)"
  using assms(2)
proof (induction "maxSize - length content" arbitrary: content rule: less_induct)
  case less
  obtain zs where zs: "take maxSize file = content @ zs" using less.prems by (auto simp: prefix_def)
  then have "file = content @ zs @ drop maxSize file" by (metis append_assoc append_take_drop_id)
  then have c: "content = take (length content) file" by (metis append_eq_conv_conj)
  have "length (content @ zs) \<le> maxSize" "length (content @ zs) \<le> length file" unfolding zs[symmetric] by simp_all
  then have c2: "length content \<le> maxSize" "length content \<le> length file" by simp_all
  show ?case
  proof (cases "length content < maxSize")
    case False
    then have "length content = maxSize" using c2 by simp
    then have "content = take maxSize file" using c by metis
    then show ?thesis using False by (simp add: read_loop.simps)
  next
    case True
    let ?n = "min (maxSize - length content) kBufferSize"
    have "0 < ?n" using True by (simp add: kBufferSize_def)
    then obtain b where b: "rd (length content) ?n = Inr b" "prefix b (drop (length content) file)" "length b \<le> ?n"
      "b = [] \<longrightarrow> drop (length content) file = []" using assms(1) by blast
    show ?thesis
    proof (cases "b = []")
      case True': True
      then have "length file \<le> length content" "length file \<le> maxSize" using b(4) c2 by simp_all
      then have "content = take maxSize file" using c by (metis take_all)
      then show ?thesis using True b(1) True' by (simp add: read_loop.simps)
    next
      case False
      have "b = take (length b) (drop (length content) file)" using b(2) by (metis append_eq_conv_conj prefix_def)
      then have e: "content @ b = take (length content + length b) file" using c by (metis take_add)
      have "length b \<le> maxSize - length content" using b(3) by simp
      then have "length content + length b \<le> maxSize" using c2(1) by linarith
      then have "take (length content + length b) file = take (length content + length b) (take maxSize file)" by simp
      then have "prefix (content @ b) (take maxSize file)" unfolding e using take_is_prefix by metis
      moreover have "maxSize - length (content @ b) < maxSize - length content" using True False by (cases b) simp_all
      ultimately have "read_loop rd maxSize (content @ b) err = (take maxSize file, err)" using less.hyps by blast
      then show ?thesis using True b(1) False by (subst read_loop.simps) simp
    qed
  qed
qed

text \<open>A small file is read whole, or its first \<open>maxSize\<close> bytes, in whatever pieces \<^verbatim>\<open>read\<close> returns it.\<close>

theorem small_file_read:
  assumes "\<And>off n. 0 < n \<Longrightarrow> \<exists>b. rd off n = Inr b \<and> prefix b (drop off file) \<and> length b \<le> n \<and> (b = [] \<longrightarrow> drop off file = [])"
    and "0 \<le> maxSize" and "maxSize < 2 ^ 31"
  shows "readFile (Inr fd) (Inr s) rd maxSize (True, False, False) (old, t)
    = (if st_kind s = Directory then EISDIR else 0, take (nat maxSize) file, if st_kind s = Regular then t\<lparr>fileSize := st_size s\<rparr> else t)"
proof -
  have m: "maxSize mod 2 ^ 64 = maxSize" using assms(2,3) by simp
  have "read_loop rd (nat maxSize) [] err = (take (nat maxSize) file, err)" for err
    by (rule read_loop_whole[OF assms(1)]) simp_all
  then show ?thesis unfolding readFile_def readToString_def ReadSmallFile_new_def m by (simp add: Let_def)
qed

lemma mem_cmp_less:
  "length s = length x \<Longrightarrow> (mem_cmp s x < 0 \<longleftrightarrow> s < x) \<and> (mem_cmp s x = 0 \<longleftrightarrow> s = x) \<and> (mem_cmp s x > 0 \<longleftrightarrow> x < s)"
proof (induction s x rule: mem_cmp.induct)
  case (1 a xs b ys)
  have "a < b \<longleftrightarrow> (of_char a :: nat) < of_char b" "b < a \<longleftrightarrow> (of_char b :: nat) < of_char a" by (simp_all add: less_char_def)
  moreover have "a = b" if "\<not> a < b" "\<not> b < a" using that by simp
  ultimately show ?case using 1 by (cases "a < b"; cases "b < a") (auto simp: list_less_def[abs_def] Cons_less_Cons)
qed auto

text \<open>\<open>compare\<close> is the order on byte strings, also between a text and its extensions.\<close>

theorem sp_compare_order:
  "(sp_compare s x < 0 \<longleftrightarrow> s < x) \<and> (sp_compare s x = 0 \<longleftrightarrow> s = x) \<and> (sp_compare s x > 0 \<longleftrightarrow> x < s)"
proof (induction s arbitrary: x)
  case Nil
  then show ?case by (cases x) (simp_all add: sp_compare_def)
next
  case (Cons a s)
  show ?case
  proof (cases x)
    case Nil
    then show ?thesis by (simp add: sp_compare_def)
  next
    case (Cons b ys)
    have o: "a < b \<longleftrightarrow> (of_char a :: nat) < of_char b" "b < a \<longleftrightarrow> (of_char b :: nat) < of_char a" by (simp_all add: less_char_def)
    have e: "sp_compare (a # s) (b # ys) = (if a < b then - 1 else if b < a then 1 else sp_compare s ys)"
      by (cases "length s < length ys") (auto simp: sp_compare_def Let_def o)
    show ?thesis unfolding Cons e using Cons.IH[of ys] by (cases "a < b"; cases "b < a") auto
  qed
qed

theorem sp_starts_with_proper: "sp_starts_with s x \<longleftrightarrow> strict_prefix x s"
proof -
  have "sp_starts_with s x \<longleftrightarrow> length x < length s \<and> take (length x) s = x"
    using mem_cmp_less[of "take (length x) s" x] by (auto simp: sp_starts_with_def)
  also have "\<dots> \<longleftrightarrow> strict_prefix x s"
    by (auto simp: strict_prefix_def prefix_def) (metis append_take_drop_id less_irrefl)+
  finally show ?thesis .
qed

text \<open>The up time reads back.\<close>

lemma sdiv_nonneg: "0 \<le> x \<Longrightarrow> 0 < y \<Longrightarrow> (x :: int) sdiv y = x div y" "0 \<le> x \<Longrightarrow> 0 < y \<Longrightarrow> x smod y = x mod y"
proof -
  assume "0 \<le> x" "0 < y"
  then show "x sdiv y = x div y" by (cases "x = 0") (simp_all add: signed_divide_int_def)
  show "x smod y = x mod y" using \<open>0 \<le> x\<close> \<open>0 < y\<close> by (cases "x = 0") (simp_all add: signed_modulo_int_def)
qed

theorem uptime_reads_back:
  assumes "start \<le> now" and "now - start < 2 ^ 31 * 1000000"
  shows "\<exists>d h m s u. uptime now start True =
      dec_int d @ '' days '' @ dec_int0 2 h @ '':'' @ dec_int0 2 m @ '':'' @ dec_int0 2 s @ ''.'' @ dec_int0 6 u \<and>
    0 \<le> d \<and> 0 \<le> h \<and> h < 24 \<and> 0 \<le> m \<and> m < 60 \<and> 0 \<le> s \<and> s < 60 \<and> 0 \<le> u \<and> u < 1000000 \<and>
    now - start = (((d * 24 + h) * 60 + m) * 60 + s) * 1000000 + u"
proof -
  define a where "a = now - start"
  define t where "t = a div 1000000"
  define u where "u = a mod 1000000"
  have a: "0 \<le> a" "a < 2 ^ 31 * 1000000" using assms by (simp_all add: a_def)
  have u: "0 \<le> u" "u < 1000000" "a = t * 1000000 + u" unfolding u_def t_def by simp_all
  have t: "0 \<le> t" "t < 2 ^ 31" using a u by linarith+
  have c: "cast_int t = t" "cast_int u = u" using t u by (simp_all add: cast_int_def signed_take_bit_int_eq_self)
  have at: "a sdiv kMicroSecondsPerSecond = t" "a smod kMicroSecondsPerSecond = u"
    using a(1) by (simp_all add: kMicroSecondsPerSecond_eq sdiv_nonneg t_def u_def)
  have e: "uptime now start True = dec_int (t div 86400) @ '' days '' @ dec_int0 2 (t mod 86400 div 3600) @ '':'' @
      dec_int0 2 (t mod 3600 div 60) @ '':'' @ dec_int0 2 (t mod 60) @ ''.'' @ dec_int0 6 u"
    unfolding uptime_def Let_def a_def[symmetric] at c using t by (simp add: sdiv_nonneg)
  have m: "t mod 3600 = t mod 86400 mod 3600" "t mod 60 = t mod 86400 mod 3600 mod 60" by (simp_all add: mod_mod_cancel)
  define d where "d = t div 86400"
  define r where "r = t mod 86400"
  define h where "h = r div 3600"
  define q where "q = r mod 3600"
  have "t = d * 86400 + r" "r = h * 3600 + q" "q = q div 60 * 60 + q mod 60" unfolding d_def r_def h_def q_def by simp_all
  then have sum: "t = ((d * 24 + h) * 60 + q div 60) * 60 + q mod 60" by algebra
  have "0 \<le> r" "r < 86400" "0 \<le> q" "q < 3600" unfolding r_def q_def by simp_all
  then have b: "0 \<le> d" "0 \<le> h" "h < 24" "0 \<le> q div 60" "q div 60 < 60" "0 \<le> q mod 60" "q mod 60 < 60"
    using t(1) by (simp_all add: d_def h_def pos_imp_zdiv_nonneg_iff)
  have "uptime now start True = dec_int d @ '' days '' @ dec_int0 2 h @ '':'' @ dec_int0 2 (q div 60) @ '':'' @
      dec_int0 2 (q mod 60) @ ''.'' @ dec_int0 6 u" unfolding e m d_def h_def q_def r_def ..
  moreover have "now - start = (((d * 24 + h) * 60 + q div 60) * 60 + q mod 60) * 1000000 + u"
    unfolding a_def[symmetric] u(3) using sum by simp
  ultimately show ?thesis using b u(1,2) by blast
qed

end
