(* ===== verification/Sudoku_Loadtest.thy ===== *)
theory Sudoku_Loadtest
  imports Sudoku_Clients Proc
begin

text \<open>
  The load test client of the sudoku servers: \<^verbatim>\<open>examples/sudoku/loadtest.cc\<close> and the summary of its
  latencies, \<^verbatim>\<open>percentile.h\<close>. Arithmetic of type \<^verbatim>\<open>int\<close> that overflows is \<open>None\<close>; the text of the two
  percentages in the saved histogram is what \<^verbatim>\<open>snprintf\<close> gives and a parameter.

  The results: the client sends requests that the servers accept and matches each answer to its
  request by the id, in any order of the answers; the rate is exact in the long run; the percentile
  is that of the nearest-rank method; the histogram counts every latency once in its own bucket; the
  sum behind the average overflows for as few as 3000 answers that take a second.
\<close>

section \<open>Integers\<close>

text \<open>A result of \<^verbatim>\<open>int\<close> arithmetic.\<close>

definition c_int :: "int \<Rightarrow> int option" where
  "c_int x = (if - (2 ^ 31) \<le> x \<and> x < 2 ^ 31 then Some x else None)"

lemma cast_int_id: "- (2 ^ 31) \<le> x \<Longrightarrow> x < 2 ^ 31 \<Longrightarrow> cast_int x = x"
  by (simp add: cast_int_def signed_take_bit_int_eq_self)

section \<open>The client\<close>

record LoadClient =
  lname :: string
  linput :: "string list"
  lcount :: int
  lconnected :: bool
  lrequests :: Buffer
  sendTime :: "(int \<times> Timestamp) list"
  llatencies :: "int list"
  lout :: "action list"

definition LoadClient_new :: "string \<Rightarrow> string list \<Rightarrow> LoadClient" where
  "LoadClient_new nm input =
    \<lparr>lname = nm, linput = input, lcount = 0, lconnected = False, lrequests = Buffer_new kInitialSize,
     sendTime = [], llatencies = [], lout = []\<rparr>"

definition load_onConnection :: "bool \<Rightarrow> LoadClient \<Rightarrow> LoadClient" where
  "load_onConnection conn_up c = c\<lparr>lconnected := conn_up\<rparr>"

definition load_ident :: "string \<Rightarrow> int \<Rightarrow> string" where
  "load_ident nm k = nm @ ''-'' @ dec_int0 8 k"

text \<open>
  One request: \<^verbatim>\<open>count_ % input_->size()\<close>, \<^verbatim>\<open>snprintf\<close> into 256 bytes (a longer text would make
  \<^verbatim>\<open>append\<close> read past them), the time and the counter.
\<close>

definition load_request :: "Timestamp \<Rightarrow> LoadClient \<Rightarrow> LoadClient option" where
  "load_request now c =
    do { assertm (linput c \<noteq> []);
         let req = linput c ! (nat (lcount c mod 2 ^ 64) mod length (linput c));
         let buf = load_ident (lname c) (lcount c) @ '':'' @ takeWhile (\<lambda>x. x \<noteq> CHR 0x00) req @ CRLF;
         assertm (length buf < 256);
         b \<leftarrow> Buffer_append (lrequests c) buf;
         n \<leftarrow> c_int (lcount c + 1);
         Some (c\<lparr>lrequests := b, sendTime := smap_insert (lcount c) now (sendTime c), lcount := n\<rparr>) }"

fun load_requests :: "nat \<Rightarrow> Timestamp \<Rightarrow> LoadClient \<Rightarrow> LoadClient option" where
  "load_requests 0 now c = Some c"
| "load_requests (Suc n) now c = do { c \<leftarrow> load_request now c; load_requests n now c }"

text \<open>\<^verbatim>\<open>conn_->send(&reqeusts_)\<close> in the thread of the loop sends the whole buffer and empties it.\<close>

definition load_send :: "int \<Rightarrow> Timestamp \<Rightarrow> LoadClient \<Rightarrow> LoadClient option" where
  "load_send n now c =
    do { assertm (n > 0);
         if \<not> lconnected c then Some c
         else do { c \<leftarrow> load_requests (nat n) now c;
                   Some (c\<lparr>lout := lout c @ [Send (readable (lrequests c))], lrequests := retrieveAll (lrequests c)\<rparr>) } }"

definition load_report :: "LoadClient \<Rightarrow> int list \<times> int \<Rightarrow> LoadClient \<times> int list \<times> int" where
  "load_report c r =
    (case r of (latency, infly) \<Rightarrow>
      (c\<lparr>llatencies := []\<rparr>, latency @ llatencies c, infly + int (length (sendTime c))))"

definition load_verify :: "Timestamp \<Rightarrow> string \<Rightarrow> LoadClient \<Rightarrow> (bool \<times> LoadClient) option" where
  "load_verify recvTime response c =
    (let colon = std_find (CHR '':'') response; dash = std_find (CHR ''-'') response
     in Some (True,
       if colon \<noteq> length response \<and> dash \<noteq> length response \<and> dash < colon
       then (let ident = atoi (drop (dash + 1) response)
             in case map_of (sendTime c) ident of
                  Some t \<Rightarrow> c\<lparr>llatencies := llatencies c @ [cast_int (recvTime - t)], sendTime := smap_erase ident (sendTime c)\<rparr>
                | None \<Rightarrow> c)
       else c))"

definition load_shutdown :: "LoadClient \<Rightarrow> LoadClient" where
  "load_shutdown c = c\<lparr>lout := lout c @ [Shutdown]\<rparr>"

definition load_onMessage :: "Timestamp \<Rightarrow> Buffer \<Rightarrow> LoadClient \<Rightarrow> (Buffer \<times> LoadClient) option" where
  "load_onMessage recvTime = line_loop (load_verify recvTime) load_shutdown load_shutdown"

section \<open>The load test\<close>

record SudokuLoadtest =
  lt_clients :: "LoadClient list"
  lt_count :: int
  lt_ticks :: int
  lt_sofar :: int

definition kHz :: int where "kHz = 100"

definition client_name :: "int \<Rightarrow> string" where
  "client_name i = ''c'' @ dec_int0 4 (i + 1)"

definition SudokuLoadtest_new :: "string list \<Rightarrow> nat \<Rightarrow> SudokuLoadtest" where
  "SudokuLoadtest_new input conn =
    \<lparr>lt_clients = map (\<lambda>i. LoadClient_new (client_name (int i)) input) [0..<conn], lt_count = 0, lt_ticks = 0, lt_sofar = 0\<rparr>"

fun send_each :: "int \<Rightarrow> Timestamp \<Rightarrow> LoadClient list \<Rightarrow> LoadClient list option" where
  "send_each n now [] = Some []"
| "send_each n now (c # cs) = do { c \<leftarrow> load_send n now c; cs \<leftarrow> send_each n now cs; Some (c # cs) }"

definition tick :: "int \<Rightarrow> Timestamp \<Rightarrow> SudokuLoadtest \<Rightarrow> SudokuLoadtest option" where
  "tick rps now t =
    (let t = t\<lparr>lt_ticks := lt_ticks t + 1\<rparr>;
         reqs = (rps * lt_ticks t) sdiv kHz - lt_sofar t;
         t = t\<lparr>lt_sofar := lt_sofar t + reqs\<rparr>
     in if reqs > 0
        then do { cs \<leftarrow> send_each (cast_int reqs) now (lt_clients t); Some (t\<lparr>lt_clients := cs\<rparr>) }
        else Some t)"

fun report_each :: "LoadClient list \<Rightarrow> int list \<times> int \<Rightarrow> LoadClient list \<times> int list \<times> int" where
  "report_each [] r = ([], r)"
| "report_each (c # cs) r =
     (case load_report c r of (c, r) \<Rightarrow> case report_each cs r of (cs, r) \<Rightarrow> (c # cs, r))"

section \<open>Percentiles\<close>

definition getPercentile :: "int list \<Rightarrow> nat \<Rightarrow> int option" where
  "getPercentile lat percent =
    do { assertm (lat \<noteq> []);
         if percent > 0
         then do { let idx = (length lat * percent + 99) div 100 - 1;
                   assertm (idx < length lat);
                   Some (lat ! idx) }
         else Some (lat ! 0) }"

fun accumulate :: "int list \<Rightarrow> int \<Rightarrow> int option" where
  "accumulate [] s = Some s"
| "accumulate (x # xs) s = do { s \<leftarrow> c_int (s + x); accumulate xs s }"

abbreviation str :: "string \<Rightarrow> arg" where "str s \<equiv> ACStr (Some s)"

text \<open>The constructor sorts the lat in place: the sorted list and the text of \<^verbatim>\<open>stat\<close>.\<close>

definition Percentile_new :: "int list \<Rightarrow> int \<Rightarrow> (int list \<times> string) option" where
  "Percentile_new lat infly =
    do { let head = [str ''recv '', AFmt (pad_left (CHR '' '') 6 (dec_nat (length lat))), str '' in-fly '', AInt infly];
         if lat = []
         then do { b \<leftarrow> LogStream_inserts head LogStream_new; Some ([], fb_data b) }
         else do {
           let lat = sort lat;
           s \<leftarrow> accumulate lat 0;
           let mean = s sdiv int (length lat);
           median \<leftarrow> getPercentile lat 50;
           p90 \<leftarrow> getPercentile lat 90;
           p99 \<leftarrow> getPercentile lat 99;
           b \<leftarrow> LogStream_inserts (head @ [str '' min '', AInt (hd lat), str '' max '', AInt (last lat),
                  str '' avg '', AInt mean, str '' median '', AInt median, str '' p90 '', AInt p90, str '' p99 '', AInt p99])
                LogStream_new;
           Some (lat, fb_data b) } }"

definition kInterval :: int where "kInterval = 5"

text \<open>The loop of \<^verbatim>\<open>save\<close>: a row is a bucket, its count and the sum of the counts so far.\<close>

fun save_loop :: "int list \<Rightarrow> int \<Rightarrow> int \<Rightarrow> int \<Rightarrow> ((int \<times> int \<times> int) list \<times> int \<times> int \<times> int) option" where
  "save_loop [] low count sm = Some ([], low, count, sm)"
| "save_loop (x # xs) low count sm =
     do { hi \<leftarrow> c_int (low + kInterval);
          if x < hi then save_loop xs low (count + 1) sm
          else do { let sm = sm + count;
                    _ \<leftarrow> c_int (100 * sm);
                    let low' = x sdiv kInterval * kInterval;
                    hi \<leftarrow> c_int (low' + kInterval);
                    assertm (x < hi);
                    r \<leftarrow> save_loop xs low' 1 sm;
                    Some ((low, count, sm) # fst r, snd r) } }"

definition save_rows :: "int list \<Rightarrow> (int \<times> int \<times> int) list option" where
  "save_rows lat =
    do { r \<leftarrow> save_loop lat (hd lat sdiv kInterval * kInterval) 0 0;
         let (rows, low, count, sm) = r;
         let sm = sm + count;
         assertm (sm = int (length lat));
         _ \<leftarrow> c_int (100 * sm);
         Some (rows @ [(low, count, sm)]) }"

text \<open>What is appended to the file. \<open>pct2\<close> and \<open>pct1\<close> are \<^verbatim>\<open>%5.2f\<close> and \<^verbatim>\<open>%5.1f\<close> of the percentage.\<close>

definition save_row :: "(int \<Rightarrow> int \<Rightarrow> string) \<Rightarrow> int \<Rightarrow> int \<times> int \<times> int \<Rightarrow> string" where
  "save_row pct whole r =
    (case r of (low, count, sm) \<Rightarrow>
      pad_left (CHR '' '') 4 (dec_int low) @ '' '' @ pad_left (CHR '' '') 5 (dec_int count) @ '' '' @ pct sm whole @ [LF])"

definition Percentile_save ::
  "(int \<Rightarrow> int \<Rightarrow> string) \<Rightarrow> (int \<Rightarrow> int \<Rightarrow> string) \<Rightarrow> string \<Rightarrow> int list \<Rightarrow> string option" where
  "Percentile_save pct2 pct1 stat_text lat =
    (if lat = [] then Some []
     else do { rows \<leftarrow> save_rows lat;
               let whole = int (length lat);
               Some (''# '' @ stat_text @ [LF] @
                 concat (map (\<lambda>x. ''# '' @ dec_int x @ [LF]) lat) @
                 concat (map (save_row pct2 whole) (butlast rows)) @ save_row pct1 whole (last rows)) })"

definition tock ::
  "(int \<Rightarrow> int \<Rightarrow> string) \<Rightarrow> (int \<Rightarrow> int \<Rightarrow> string) \<Rightarrow> SudokuLoadtest \<Rightarrow> (SudokuLoadtest \<times> string \<times> string \<times> string) option" where
  "tock pct2 pct1 t =
    (case report_each (lt_clients t) ([], 0) of (cs, lat, infly) \<Rightarrow>
      do { p \<leftarrow> Percentile_new lat infly;
           let file = ''r'' @ dec_int0 4 (lt_count t);
           txt \<leftarrow> Percentile_save pct2 pct1 (snd p) (fst p);
           n \<leftarrow> c_int (lt_count t + 1);
           Some (t\<lparr>lt_clients := cs, lt_count := n\<rparr>, snd p, file, txt) })"

section \<open>Matching answers with requests\<close>

definition name_ok :: "string \<Rightarrow> bool" where
  "name_ok nm \<longleftrightarrow> length nm \<le> 8 \<and> CHR ''-'' \<notin> set nm \<and> CHR '':'' \<notin> set nm \<and> CR \<notin> set nm \<and> CHR 0x00 \<notin> set nm"

lemma nat_of_digits_pad: "nat_of_digits (pad_left (CHR ''0'') w s) = nat_of_digits s"
proof -
  have "digit_val (CHR ''0'') = 0" by (simp add: digit_val_def)
  then have "foldl (\<lambda>n c. 10 * n + digit_val c) 0 (replicate k (CHR ''0'')) = 0" for k by (induction k) simp_all
  then show ?thesis by (simp add: nat_of_digits_def pad_left_def)
qed

lemma pad_digits: "\<forall>c\<in>set (pad_left (CHR ''0'') w (dec_nat n)). is_digit c"
  using dec_nat_digits[of n] by (auto simp: pad_left_def is_digit_def)

lemma digit_facts: "is_digit c \<Longrightarrow> \<not> isspace c \<and> c \<noteq> CHR ''-'' \<and> c \<noteq> CHR ''+'' \<and> c \<noteq> CHR '':'' \<and> c \<noteq> CR"
  by (auto simp: is_digit_def isspace_def CR_def)

lemma atoi_ident:
  assumes "0 \<le> k" and "k < 2 ^ 31"
  shows "atoi (dec_int0 8 k @ '':'' @ a) = k"
proof -
  let ?d = "pad_left (CHR ''0'') 8 (dec_nat (nat k))"
  obtain c ds where d: "?d = c # ds" using dec_nat_nonempty[of "nat k"] by (cases ?d) (simp_all add: pad_left_def)
  have c: "is_digit c" using pad_digits[of 8 "nat k"] d by simp
  have "takeWhile is_digit (?d @ '':'' @ a) = ?d"
    using pad_digits[of 8 "nat k"] by (simp add: takeWhile_append2 is_digit_def)
  moreover have "int (nat_of_digits ?d) = k" using assms(1) by (simp add: nat_of_digits_pad)
  ultimately have "atoi (?d @ '':'' @ a) = cast_int (min (2 ^ 63 - 1) k)"
    using digit_facts[OF c] d by (simp add: atoi_def strtol_def)
  then show ?thesis using assms by (simp add: dec_int0_def cast_int_id)
qed

lemma load_verify_match:
  assumes "name_ok nm" and "0 \<le> k" and "k < 2 ^ 31" and "map_of (sendTime c) k = Some t"
    and "- (2 ^ 31) \<le> recv - t" and "recv - t < 2 ^ 31"
  shows "load_verify recv (load_ident nm k @ '':'' @ a) c =
    Some (True, c\<lparr>llatencies := llatencies c @ [recv - t], sendTime := smap_erase k (sendTime c)\<rparr>)"
proof -
  let ?r = "load_ident nm k @ '':'' @ a"
  have d: "\<forall>x\<in>set (dec_int0 8 k). is_digit x" using assms(2) pad_digits[of 8 "nat k"] by (simp add: dec_int0_def)
  then have "CHR '':'' \<notin> set (load_ident nm k)"
    using assms(1) digit_facts by (auto simp: load_ident_def name_ok_def)
  then have colon: "std_find (CHR '':'') ?r = length (load_ident nm k)" by simp
  have dash: "std_find (CHR ''-'') ?r = length nm" using assms(1) by (simp add: load_ident_def name_ok_def)
  have "drop (length nm + 1) ?r = dec_int0 8 k @ '':'' @ a" by (simp add: load_ident_def)
  then have "atoi (drop (std_find (CHR ''-'') ?r + 1) ?r) = k" unfolding dash using atoi_ident[OF assms(2,3)] by simp
  moreover have "length nm < length (load_ident nm k)" by (simp add: load_ident_def)
  ultimately show ?thesis using assms(4-6) unfolding load_verify_def Let_def colon dash
    by (simp add: cast_int_id)
qed

text \<open>Answers one after the other, each with the time it is received.\<close>

fun load_verifies :: "(Timestamp \<times> string) list \<Rightarrow> LoadClient \<Rightarrow> LoadClient option" where
  "load_verifies [] c = Some c"
| "load_verifies ((t, r) # rs) c = do { x \<leftarrow> load_verify t r c; if fst x then load_verifies rs (snd x) else None }"

lemma load_verifies_match:
  assumes "name_ok nm" and "distinct (map fst rs)" and "fst ` set rs = dom (map_of (sendTime c))"
    and "\<forall>(k, a, recv)\<in>set rs. 0 \<le> k \<and> k < 2 ^ 31 \<and> - (2 ^ 31) \<le> recv - the (map_of (sendTime c) k) \<and> recv - the (map_of (sendTime c) k) < 2 ^ 31"
  shows "load_verifies (map (\<lambda>(k, a, recv). (recv, load_ident nm k @ '':'' @ a)) rs) c =
    Some (c\<lparr>sendTime := [], llatencies := llatencies c @ map (\<lambda>(k, a, recv). recv - the (map_of (sendTime c) k)) rs\<rparr>)"
  using assms(2-)
proof (induction rs arbitrary: c)
  case Nil
  then have "sendTime c = []" by (cases "sendTime c") (auto simp: dom_def split: if_splits)
  then show ?case by simp
next
  case (Cons r rs)
  obtain k a recv where r: "r = (k, a, recv)" by (cases r) auto
  have "k \<in> dom (map_of (sendTime c))" using Cons.prems(2) r by auto
  then obtain t where t: "map_of (sendTime c) k = Some t" by auto
  let ?c = "c\<lparr>llatencies := llatencies c @ [recv - t], sendTime := smap_erase k (sendTime c)\<rparr>"
  have v: "load_verify recv (load_ident nm k @ '':'' @ a) c = Some (True, ?c)"
    using load_verify_match[OF assms(1) _ _ t] Cons.prems(3) r t by simp
  have fresh: "k \<notin> fst ` set rs" using Cons.prems(1) r by simp
  have same: "map_of (sendTime ?c) k' = map_of (sendTime c) k'" if "k' \<in> fst ` set rs" for k' using that fresh by auto
  have "fst ` set rs = dom (map_of (sendTime ?c))" using Cons.prems(2) r fresh by auto
  moreover have "\<forall>(k, a, recv)\<in>set rs. 0 \<le> k \<and> k < 2 ^ 31 \<and> - (2 ^ 31) \<le> recv - the (map_of (sendTime ?c) k) \<and>
      recv - the (map_of (sendTime ?c) k) < 2 ^ 31"
    using Cons.prems(3) same by (fastforce simp del: map_of_smap_erase)
  moreover have "distinct (map fst rs)" using Cons.prems(1) by simp
  ultimately have "load_verifies (map (\<lambda>(k, a, recv). (recv, load_ident nm k @ '':'' @ a)) rs) ?c =
    Some (?c\<lparr>sendTime := [], llatencies := llatencies ?c @ map (\<lambda>(k, a, recv). recv - the (map_of (sendTime ?c) k)) rs\<rparr>)"
    using Cons.IH by blast
  moreover have "map (\<lambda>(k, a, recv). recv - the (map_of (sendTime ?c) k)) rs = map (\<lambda>(k, a, recv). recv - the (map_of (sendTime c) k)) rs"
    using same by (intro map_cong) (force simp del: map_of_smap_erase)+
  ultimately show ?case using v r t by simp
qed

text \<open>Sending: the lines, their ids and the times.\<close>

definition puzzles_ok :: "string list \<Rightarrow> bool" where
  "puzzles_ok input \<longleftrightarrow> input \<noteq> [] \<and> (\<forall>p\<in>set input. length p = 81 \<and> CR \<notin> set p \<and> CHR 0x00 \<notin> set p)"

abbreviation nth_puzzle :: "string list \<Rightarrow> int \<Rightarrow> string" where
  "nth_puzzle input k \<equiv> input ! (nat k mod length input)"

lemma takeWhile_notin: "x \<notin> set xs \<Longrightarrow> takeWhile (\<lambda>y. y \<noteq> x) xs = xs"
  by (induction xs) auto

lemma length_ident: "name_ok nm \<Longrightarrow> 0 \<le> k \<Longrightarrow> k < 10 ^ 8 \<Longrightarrow> length (load_ident nm k) \<le> 17"
proof -
  assume "name_ok nm" "0 \<le> k" "k < 10 ^ 8"
  moreover have "length (dec_nat (nat k)) \<le> 8" using calculation by (intro length_dec_nat_le) simp_all
  ultimately show ?thesis by (simp add: load_ident_def name_ok_def dec_int0_def pad_left_def)
qed

lemma ident_chars:
  assumes "name_ok nm" and "0 \<le> k"
  shows "CHR '':'' \<notin> set (load_ident nm k)" "CR \<notin> set (load_ident nm k)"
  using assms pad_digits[of 8 "nat k"] digit_facts by (auto simp: load_ident_def name_ok_def dec_int0_def CR_def)

lemma load_line_ok:
  assumes "name_ok nm" and "0 \<le> k" and "k < 10 ^ 8" and "length p = 81" and "CR \<notin> set p"
  shows "request_ok (load_ident nm k @ '':'' @ p)" "ident_of (load_ident nm k @ '':'' @ p) = load_ident nm k"
    "puzzle_of (load_ident nm k @ '':'' @ p) = p"
proof -
  let ?l = "load_ident nm k @ '':'' @ p"
  have s: "split_request ?l = (load_ident nm k, p, True)"
    using ident_chars(1)[OF assms(1,2)] by (simp add: split_request_def)
  then show "ident_of ?l = load_ident nm k" "puzzle_of ?l = p" by simp_all
  have "CR \<noteq> CHR '':''" by (simp add: CR_def)
  then show "request_ok ?l" using s length_ident[OF assms(1-3)] ident_chars(2)[OF assms(1,2)] assms(4,5)
    by (simp add: request_ok_def kCells_def)
qed

lemma load_request_ok:
  assumes "name_ok (lname c)" and "puzzles_ok (linput c)" and "0 \<le> lcount c" and "lcount c < 10 ^ 8" and "Buffer_inv (lrequests c)"
  shows "\<exists>b. load_request now c = Some (c\<lparr>lrequests := b, sendTime := smap_insert (lcount c) now (sendTime c), lcount := lcount c + 1\<rparr>) \<and>
    Buffer_inv b \<and>
    readable b = readable (lrequests c) @ (load_ident (lname c) (lcount c) @ '':'' @ nth_puzzle (linput c) (lcount c)) @ CRLF"
proof -
  let ?p = "nth_puzzle (linput c) (lcount c)"
  have p: "linput c \<noteq> []" "length ?p = 81" "CHR 0x00 \<notin> set ?p" using assms(2) by (auto simp: puzzles_ok_def)
  let ?l = "load_ident (lname c) (lcount c) @ '':'' @ ?p @ CRLF"
  have "length ?l < 256" using length_ident[OF assms(1,3,4)] p(2) by (simp add: CRLF_def)
  moreover obtain b where "Buffer_append (lrequests c) ?l = Some b" "Buffer_inv b" "readable b = readable (lrequests c) @ ?l"
    using buf.app_obtain[OF assms(5), of ?l] by blast
  moreover have "c_int (lcount c + 1) = Some (lcount c + 1)" using assms(3,4) by (simp add: c_int_def)
  moreover have "nat (lcount c mod 2 ^ 64) = nat (lcount c)" using assms(3,4) by simp
  ultimately show ?thesis using p(1,3) by (intro exI[of _ b]) (simp add: load_request_def takeWhile_notin)
qed

lemma load_requests_ok:
  assumes "name_ok (lname c)" and "puzzles_ok (linput c)" and "0 \<le> lcount c" and "lcount c + int n \<le> 10 ^ 8" and "Buffer_inv (lrequests c)"
  shows "\<exists>c'. load_requests n now c = Some c' \<and> Buffer_inv (lrequests c') \<and>
    readable (lrequests c') = readable (lrequests c) @
      wire (map (\<lambda>k. load_ident (lname c) k @ '':'' @ nth_puzzle (linput c) k) [lcount c..lcount c + int n - 1]) \<and>
    lcount c' = lcount c + int n \<and> lout c' = lout c \<and> llatencies c' = llatencies c \<and>
    (\<forall>k. map_of (sendTime c') k = (if lcount c \<le> k \<and> k < lcount c + int n then Some now else map_of (sendTime c) k))"
  using assms
proof (induction n arbitrary: c)
  case (Suc n)
  have "lcount c < 10 ^ 8" using Suc.prems(4) by simp
  from load_request_ok[OF Suc.prems(1-3) this Suc.prems(5), of now] obtain b where b:
    "load_request now c = Some (c\<lparr>lrequests := b, sendTime := smap_insert (lcount c) now (sendTime c), lcount := lcount c + 1\<rparr>)"
    "Buffer_inv b" "readable b = readable (lrequests c) @ (load_ident (lname c) (lcount c) @ '':'' @ nth_puzzle (linput c) (lcount c)) @ CRLF"
    by blast
  let ?c = "c\<lparr>lrequests := b, sendTime := smap_insert (lcount c) now (sendTime c), lcount := lcount c + 1\<rparr>"
  have "name_ok (lname ?c)" "puzzles_ok (linput ?c)" "0 \<le> lcount ?c" "lcount ?c + int n \<le> 10 ^ 8" "Buffer_inv (lrequests ?c)"
    using Suc.prems b(2) by simp_all
  from Suc.IH[OF this] obtain c' where c': "load_requests n now ?c = Some c'" "Buffer_inv (lrequests c')"
    "readable (lrequests c') = readable b @
      wire (map (\<lambda>k. load_ident (lname c) k @ '':'' @ nth_puzzle (linput c) k) [lcount c + 1..lcount c + 1 + int n - 1])"
    "lcount c' = lcount c + 1 + int n" "lout c' = lout c" "llatencies c' = llatencies c"
    "\<forall>k. map_of (sendTime c') k = (if lcount c + 1 \<le> k \<and> k < lcount c + 1 + int n then Some now
       else map_of (smap_insert (lcount c) now (sendTime c)) k)" by auto
  have "[lcount c..lcount c + int (Suc n) - 1] = lcount c # [lcount c + 1..lcount c + 1 + int n - 1]"
    by (subst upto_rec1) (simp_all add: algebra_simps)
  moreover have "map_of (sendTime c') k = (if lcount c \<le> k \<and> k < lcount c + int (Suc n) then Some now else map_of (sendTime c) k)" for k
    using c'(7) by auto
  ultimately show ?case using b c'(1-6) by simp
qed auto

lemma distinct_idents:
  assumes "n \<le> 10 ^ 8"
  shows "distinct (map (load_ident nm) [0..n - 1])"
proof -
  have "inj_on (load_ident nm) {0..n - 1}"
  proof (rule inj_onI)
    fix j k assume jk: "j \<in> {0..n - 1}" "k \<in> {0..n - 1}" "load_ident nm j = load_ident nm k"
    then have "dec_int0 8 j @ '':'' @ [] = dec_int0 8 k @ '':'' @ []" by (simp add: load_ident_def)
    moreover have "atoi (dec_int0 8 j @ '':'' @ []) = j" by (rule atoi_ident) (use jk(1) assms in simp_all)
    moreover have "atoi (dec_int0 8 k @ '':'' @ []) = k" by (rule atoi_ident) (use jk(2) assms in simp_all)
    ultimately show "j = k" by argo
  qed
  then show ?thesis by (simp add: distinct_map)
qed

lemma sent_line_ok:
  assumes "name_ok nm" and "puzzles_ok input" and "0 \<le> k" and "k < 10 ^ 8"
  shows "request_ok (load_ident nm k @ '':'' @ nth_puzzle input k)"
    "ident_of (load_ident nm k @ '':'' @ nth_puzzle input k) = load_ident nm k"
proof -
  have "nth_puzzle input k \<in> set input" using assms(2) by (simp add: puzzles_ok_def)
  then have "length (nth_puzzle input k) = 81" "CR \<notin> set (nth_puzzle input k)" using assms(2) by (auto simp: puzzles_ok_def)
  then show "request_ok (load_ident nm k @ '':'' @ nth_puzzle input k)"
    "ident_of (load_ident nm k @ '':'' @ nth_puzzle input k) = load_ident nm k"
    using load_line_ok[OF assms(1,3)] assms(4) by blast+
qed



section \<open>Percentiles and histograms\<close>

lemma count_le_nth: "sorted xs \<Longrightarrow> k < length xs \<Longrightarrow> k + 1 \<le> length (filter (\<lambda>x. x \<le> xs ! k) (xs :: int list))"
proof -
  assume s: "sorted xs" and k: "k < length xs"
  have "x \<le> xs ! k" if x: "x \<in> set (take (k + 1) xs)" for x
  proof -
    obtain j where "j \<le> k" "x = xs ! j" using x by (auto simp: in_set_conv_nth less_Suc_eq_le)
    then show ?thesis using s k by (simp add: sorted_iff_nth_mono)
  qed
  then have "filter (\<lambda>x. x \<le> xs ! k) (take (k + 1) xs) = take (k + 1) xs" by (simp add: filter_id_conv)
  then have "filter (\<lambda>x. x \<le> xs ! k) xs = take (k + 1) xs @ filter (\<lambda>x. x \<le> xs ! k) (drop (k + 1) xs)"
    by (metis append_take_drop_id filter_append)
  then show ?thesis using k by simp
qed

lemma count_less_nth: "sorted xs \<Longrightarrow> k < length xs \<Longrightarrow> length (filter (\<lambda>x. x < xs ! k) (xs :: int list)) \<le> k"
proof -
  assume s: "sorted xs" and k: "k < length xs"
  have "\<not> x < xs ! k" if x: "x \<in> set (drop k xs)" for x
  proof -
    obtain j where "j < length xs - k" "x = drop k xs ! j" using x by (auto simp: in_set_conv_nth)
    then have "k + j < length xs" "x = xs ! (k + j)" by auto
    then show ?thesis using s k by (simp add: sorted_iff_nth_mono not_less)
  qed
  then have "filter (\<lambda>x. x < xs ! k) (drop k xs) = []" by (simp add: filter_empty_conv)
  then have "filter (\<lambda>x. x < xs ! k) xs = filter (\<lambda>x. x < xs ! k) (take k xs)"
    by (metis append_Nil2 append_take_drop_id filter_append)
  then show ?thesis by (metis length_filter_le length_take min.bounded_iff)
qed

lemma rank_index:
  assumes "0 < (m :: nat)" and "m \<le> n * 100"
  shows "(m + 99) div 100 - 1 < n" "m \<le> 100 * ((m + 99) div 100 - 1 + 1)" "100 * ((m + 99) div 100 - 1) < m"
proof -
  define q where "q = (m + 99) div 100"
  define j where "j = (m + 99) mod 100"
  have qj: "m + 99 = 100 * q + j" "j < 100" unfolding q_def j_def by simp_all
  then obtain r where "q = Suc r" using assms(1) by (cases q) simp_all
  then have "q - 1 < n" "m \<le> 100 * (q - 1 + 1)" "100 * (q - 1) < m" using qj assms by simp_all
  then show "(m + 99) div 100 - 1 < n" "m \<le> 100 * ((m + 99) div 100 - 1 + 1)" "100 * ((m + 99) div 100 - 1) < m"
    unfolding q_def by blast+
qed

lemma getPercentile_rank:
  assumes "sorted lat" and "lat \<noteq> []" and "0 < p" and "p \<le> 100"
  shows "\<exists>v. getPercentile lat p = Some v \<and> v \<in> set lat \<and>
    length lat * p \<le> 100 * length (filter (\<lambda>x. x \<le> v) lat) \<and> 100 * length (filter (\<lambda>x. x < v) lat) < length lat * p"
proof -
  let ?n = "length lat" and ?i = "(length lat * p + 99) div 100 - 1"
  have n: "0 < ?n" using assms(2) by simp
  have pos: "0 < ?n * p" using n assms(3) by simp
  have le: "?n * p \<le> ?n * 100" using assms(4) by simp
  note i = rank_index[OF pos le]
  have "100 * (?i + 1) \<le> 100 * length (filter (\<lambda>x. x \<le> lat ! ?i) lat)"
    using count_le_nth[OF assms(1) i(1)] by simp
  moreover have "100 * length (filter (\<lambda>x. x < lat ! ?i) lat) \<le> 100 * ?i"
    using count_less_nth[OF assms(1) i(1)] by simp
  moreover have "getPercentile lat p = Some (lat ! ?i)" using assms(2,3) i(1) by (simp add: getPercentile_def)
  ultimately show ?thesis using i nth_mem[OF i(1)] by (intro exI[of _ "lat ! ?i"]) linarith
qed

lemma accumulate_nonneg:
  "0 \<le> s \<Longrightarrow> s < 2 ^ 31 \<Longrightarrow> \<forall>x\<in>set xs. 0 \<le> x \<Longrightarrow> accumulate xs s = (if s + sum_list xs < 2 ^ 31 then Some (s + sum_list xs) else None)"
proof (induction xs arbitrary: s)
  case (Cons x xs)
  have x: "0 \<le> x" "0 \<le> sum_list xs" using Cons.prems(3) by (auto intro: sum_list_nonneg)
  show ?case
  proof (cases "s + x < 2 ^ 31")
    case True
    then show ?thesis using Cons x by (simp add: c_int_def add.assoc)
  next
    case False
    then show ?thesis using x by (simp add: c_int_def)
  qed
qed simp

definition nearest_rank :: "int list \<Rightarrow> nat \<Rightarrow> int \<Rightarrow> bool" where
  "nearest_rank lat p v \<longleftrightarrow> v \<in> set lat \<and> length lat * p \<le> 100 * length (filter (\<lambda>x. x \<le> v) lat) \<and>
     100 * length (filter (\<lambda>x. x < v) lat) < length lat * p"

lemma nearest_rank_sort: "nearest_rank (sort lat) p v \<longleftrightarrow> nearest_rank lat p v"
proof -
  have "length (filter P (sort lat)) = length (filter P lat)" for P :: "int \<Rightarrow> bool" by (simp add: filter_sort)
  then show ?thesis by (simp add: nearest_rank_def)
qed

lemma kept_all:
  "list_all arg_ok as \<Longrightarrow> length s + sum_list (map room as) \<le> kSmallBuffer \<Longrightarrow> kept as s = s @ concat (map piece as)"
proof (induction as arbitrary: s)
  case (Cons a as)
  have "length (piece a) < room a" using room_piece[of a] Cons.prems(1) by simp
  then show ?case using Cons by simp
qed simp

lemma inserts_all:
  assumes "list_all arg_ok as" and "sum_list (map room as) \<le> kSmallBuffer"
  shows "\<exists>b. LogStream_inserts as LogStream_new = Some b \<and> fb_data b = concat (map piece as)"
  using inserts_kept[OF assms(1), of LogStream_new] kept_all[OF assms(1), of "[]"] assms(2)
  by (simp add: LogStream_new_def FixedBuffer_new_def kSmallBuffer_def)

lemma sum_list_bounds: "\<forall>x\<in>set xs. 0 \<le> x \<Longrightarrow> y \<in> set xs \<Longrightarrow> y \<le> sum_list (xs :: int list)"
proof (induction xs)
  case (Cons x xs)
  have n: "0 \<le> x" "0 \<le> sum_list xs" using Cons.prems(1) by (simp_all add: sum_list_nonneg)
  show ?case
  proof (cases "y = x")
    case True
    then show ?thesis using n by simp
  next
    case False
    then have "y \<le> sum_list xs" using Cons by simp
    then show ?thesis using n by simp
  qed
qed simp

lemma sum_list_sort: "sum_list (sort xs) = sum_list (xs :: int list)"
proof (induction xs)
  case (Cons x xs)
  have "sum_list (insort x ys) = x + sum_list ys" for ys :: "int list" by (induction ys) simp_all
  then show ?case using Cons by simp
qed simp

lemma sorted_Min_Max: "sorted xs \<Longrightarrow> xs \<noteq> [] \<Longrightarrow> hd xs = Min (set xs) \<and> last xs = Max (set (xs :: int list))"
proof -
  assume s: "sorted xs" and ne: "xs \<noteq> []"
  have "xs ! 0 \<le> x \<and> x \<le> xs ! (length xs - 1)" if "x \<in> set xs" for x
    using that s by (auto simp: in_set_conv_nth intro!: sorted_nth_mono)
  then have "Min (set xs) = hd xs" "Max (set xs) = last xs" using ne
    by (auto intro!: Min_eqI Max_eqI simp: hd_conv_nth last_conv_nth)
  then show ?thesis by simp
qed

lemma mean_bounds:
  assumes "lat \<noteq> []" and "\<forall>x\<in>set lat. 0 \<le> (x :: int)"
  shows "sum_list lat sdiv int (length lat) = sum_list lat div int (length lat)"
    "0 \<le> sum_list lat div int (length lat)" "sum_list lat div int (length lat) \<le> sum_list lat"
proof -
  have S: "0 \<le> sum_list lat" "0 < int (length lat)" using assms by (simp_all add: sum_list_nonneg)
  then show "sum_list lat sdiv int (length lat) = sum_list lat div int (length lat)" "0 \<le> sum_list lat div int (length lat)"
    by (simp_all add: sdiv_nonneg pos_imp_zdiv_nonneg_iff)
  show "sum_list lat div int (length lat) \<le> sum_list lat" using zdiv_mono2[OF S(1), of 1 "int (length lat)"] S(2) by simp
qed

text \<open>C38: The summary of the latencies (non-negative, fewer than \<open>2 ^ 31\<close>): the three percentiles are those of the
  nearest-rank method - at least that share of the latencies is not above the value, and less than
  that share is below it - and the report is never cut; but the sum behind the average is an \<^verbatim>\<open>int\<close>:
  when the latencies of a second add up to \<open>2 ^ 31\<close> microseconds or more it overflows.\<close>

theorem percentile_summary:
  assumes "lat \<noteq> []" and "\<forall>x\<in>set lat. 0 \<le> x" and "length lat < 2 ^ 31" and "\<bar>infly\<bar> < 2 ^ 31"
  shows "if sum_list lat < 2 ^ 31
    then \<exists>m n v. nearest_rank lat 50 m \<and> nearest_rank lat 90 n \<and> nearest_rank lat 99 v \<and>
      Percentile_new lat infly = Some (sort lat,
        ''recv '' @ pad_left (CHR '' '') 6 (dec_nat (length lat)) @ '' in-fly '' @ dec_int infly @
        '' min '' @ dec_int (Min (set lat)) @ '' max '' @ dec_int (Max (set lat)) @
        '' avg '' @ dec_int (sum_list lat div int (length lat)) @
        '' median '' @ dec_int m @ '' p90 '' @ dec_int n @ '' p99 '' @ dec_int v)
    else Percentile_new lat infly = None"
proof -
  let ?s = "sort lat"
  have "?s \<noteq> []" using assms(1) by (metis length_0_conv length_sort)
  then have s: "sorted ?s" "?s \<noteq> []" "set ?s = set lat" "length ?s = length lat" "sum_list ?s = sum_list lat"
    by (simp_all add: sum_list_sort)
  have acc: "accumulate ?s 0 = (if sum_list lat < 2 ^ 31 then Some (sum_list lat) else None)"
    using accumulate_nonneg[of 0 ?s] assms(2) s by simp
  show ?thesis
  proof (cases "sum_list lat < 2 ^ 31")
    case False
    then show ?thesis using acc assms(1) by (simp add: Percentile_new_def Let_def)
  next
    case True
    obtain m n v where p: "getPercentile ?s 50 = Some m" "getPercentile ?s 90 = Some n" "getPercentile ?s 99 = Some v"
      "nearest_rank ?s 50 m" "nearest_rank ?s 90 n" "nearest_rank ?s 99 v"
      using getPercentile_rank[OF s(1,2), of 50] getPercentile_rank[OF s(1,2), of 90] getPercentile_rank[OF s(1,2), of 99]
      unfolding nearest_rank_def by auto
    have hd: "hd ?s \<in> set lat" "last ?s \<in> set lat" using s(2,3) hd_in_set last_in_set by metis+
    have minmax: "hd ?s = Min (set lat)" "last ?s = Max (set lat)" using sorted_Min_Max[OF s(1,2)] s(3) by simp_all
    let ?mean = "sum_list lat div int (length lat)"
    have mean: "sum_list lat sdiv int (length lat) = ?mean" "0 \<le> ?mean" "?mean \<le> sum_list lat"
      by (rule mean_bounds[OF assms(1,2)])+
    let ?args = "[str ''recv '', AFmt (pad_left (CHR '' '') 6 (dec_nat (length lat))), str '' in-fly '', AInt infly] @
      [str '' min '', AInt (hd ?s), str '' max '', AInt (last ?s), str '' avg '', AInt ?mean,
       str '' median '', AInt m, str '' p90 '', AInt n, str '' p99 '', AInt v]"
    have small: "\<bar>x\<bar> < 2 ^ 64" if "x \<in> set lat" for x using that sum_list_bounds[OF assms(2) that] assms(2) True by auto
    have len: "length (dec_nat (length lat)) \<le> 10" using assms(3) by (intro length_dec_nat_le) simp_all
    have vs: "m \<in> set lat" "n \<in> set lat" "v \<in> set lat" using p(4-6) s(3) by (simp_all add: nearest_rank_def)
    have ok: "list_all arg_ok ?args" using small[OF hd(1)] small[OF hd(2)] small[OF vs(1)] small[OF vs(2)] small[OF vs(3)]
        mean(2,3) True assms(4) len by (simp add: pad_left_def)
    have rooms: "sum_list (map room ?args) \<le> kSmallBuffer" using len by (simp add: kMaxNumericSize_def kSmallBuffer_def pad_left_def)
    from inserts_all[OF ok rooms] obtain b where b: "LogStream_inserts ?args LogStream_new = Some b" "fb_data b = concat (map piece ?args)" by blast
    have acc': "accumulate ?s 0 = Some (sum_list lat)" using acc True by simp
    have "Percentile_new lat infly = Some (?s, concat (map piece ?args))"
      unfolding Percentile_new_def Let_def using assms(1)
      by (simp add: acc' p(1-3) mean(1) b s(4) del: LogStream_inserts.simps append.simps piece.simps list.map concat.simps)
    then show ?thesis using p(4-6) unfolding nearest_rank_sort minmax if_P[OF True]
      by - (rule exI[of _ m], rule exI[of _ n], rule exI[of _ v], simp)
  qed
qed

theorem percentile_summary_witness:
  "Percentile_new (replicate 3000 1000000) 0 = None \<and>
   (\<exists>m txt. nearest_rank [30, 10, 20] 50 m \<and> Percentile_new [30, 10, 20] 7 = Some ([10, 20, 30], txt))"
proof
  have "Percentile_new (replicate n 1000000) 0 = None" if "n = 3000" for n
  proof -
    have "replicate n 1000000 \<noteq> ([] :: int list)" "\<not> sum_list (replicate n 1000000 :: int list) < 2 ^ 31"
      using that by (simp_all add: sum_list_replicate)
    moreover have "\<forall>x\<in>set (replicate n 1000000 :: int list). 0 \<le> x" "length (replicate n (1000000 :: int)) < 2 ^ 31"
      using that by simp_all
    ultimately show ?thesis using percentile_summary[of "replicate n 1000000" 0] by (simp only: if_False abs_zero zero_less_power zero_less_numeral not_False_eq_True simp_thms)
  qed
  then show "Percentile_new (replicate 3000 1000000) 0 = None" by blast
  have "sort [30, 10, 20] = [10, 20, 30 :: int]" by simp
  then show "\<exists>m txt. nearest_rank [30, 10, 20] 50 m \<and> Percentile_new [30, 10, 20] 7 = Some ([10, 20, 30], txt)"
    using percentile_summary[of "[30, 10, 20]" 7] by auto
qed

text \<open>Buckets of five microseconds.\<close>

abbreviation bucket :: "int \<Rightarrow> int" where "bucket x \<equiv> x div kInterval * kInterval"

definition bucket_row :: "int list \<Rightarrow> int \<Rightarrow> int \<times> int \<times> int" where
  "bucket_row lat low =
    (low, int (length (filter (\<lambda>x. low \<le> x \<and> x < low + kInterval) lat)), int (length (filter (\<lambda>x. x < low + kInterval) lat)))"

lemma bucket_bounds: "bucket x \<le> x" "x < bucket x + kInterval" "0 \<le> x \<Longrightarrow> 0 \<le> bucket x"
proof -
  have "x div 5 * 5 + x mod 5 = x" "0 \<le> x mod 5" "x mod 5 < 5" by simp_all
  then show "bucket x \<le> x" "x < bucket x + kInterval" unfolding kInterval_def by linarith+
  show "0 \<le> x \<Longrightarrow> 0 \<le> bucket x" by (simp add: kInterval_def pos_imp_zdiv_nonneg_iff)
qed

lemma bucket_same: "low = bucket y \<Longrightarrow> low \<le> x \<Longrightarrow> x < low + kInterval \<Longrightarrow> bucket x = low"
proof -
  assume "low = bucket y" "low \<le> x" "x < low + kInterval"
  then have "x = 5 * (y div 5) + (x - low)" "0 \<le> x - low" "x - low < 5" by (simp_all add: kInterval_def)
  then have "x div 5 = y div 5" by (rule int_div_pos_eq)
  then show "bucket x = low" using \<open>low = bucket y\<close> by (simp add: kInterval_def)
qed

lemma bucket_later: "low = bucket y \<Longrightarrow> low + kInterval \<le> x \<Longrightarrow> low + kInterval \<le> bucket x"
  unfolding kInterval_def by presburger

lemma save_loop_rows:
  assumes "low = bucket y" and "0 \<le> low" and "low < 2 ^ 31 - 10"
    and "sorted xs" and "\<forall>x\<in>set xs. low \<le> x \<and> x < 2 ^ 31 - 10"
    and "\<forall>x\<in>set pre. x < low + kInterval" and "cnt = int (length (filter (\<lambda>x. low \<le> x) pre))"
    and "sm + cnt = int (length pre)" and "0 \<le> sm" and "100 * int (length (pre @ xs)) < 2 ^ 31"
  shows "\<exists>rows low' cnt' sm'. save_loop xs low cnt sm = Some (rows, low', cnt', sm') \<and>
     rows @ [(low', cnt', sm' + cnt')] = map (bucket_row (pre @ xs)) (remdups_adj (low # map bucket xs)) \<and>
     sm' + cnt' = int (length (pre @ xs))"
  using assms
proof (induction xs arbitrary: low y cnt sm pre)
  case Nil
  have "filter (\<lambda>x. low \<le> x \<and> x < low + kInterval) pre = filter (\<lambda>x. low \<le> x) pre" "filter (\<lambda>x. x < low + kInterval) pre = pre"
    using Nil(6) by (auto intro: filter_cong simp: filter_id_conv)
  then show ?case using Nil(7,8) by (simp add: bucket_row_def)
next
  case (Cons x xs)
  have hi: "c_int (low + kInterval) = Some (low + kInterval)" using Cons.prems(2,3) by (simp add: c_int_def kInterval_def)
  have x: "low \<le> x" "x < 2 ^ 31 - 10" "0 \<le> x" using Cons.prems(2,5) by auto
  have xs: "sorted xs" "\<forall>z\<in>set xs. x \<le> z \<and> z < 2 ^ 31 - 10" using Cons.prems(4,5) by auto
  have len: "100 * int (length ((pre @ [x]) @ xs)) < 2 ^ 31" using Cons.prems(10) by simp
  show ?case
  proof (cases "x < low + kInterval")
    case True
    have "\<forall>z\<in>set xs. low \<le> z \<and> z < 2 ^ 31 - 10" using xs(2) x(1) by auto
    moreover have "\<forall>z\<in>set (pre @ [x]). z < low + kInterval" using True Cons.prems(6) by simp
    moreover have "cnt + 1 = int (length (filter (\<lambda>x. low \<le> x) (pre @ [x])))" using Cons.prems(7) x(1) by simp
    moreover have "sm + (cnt + 1) = int (length (pre @ [x]))" using Cons.prems(8) by simp
    ultimately obtain rows low' cnt' sm' where IH: "save_loop xs low (cnt + 1) sm = Some (rows, low', cnt', sm')"
      "rows @ [(low', cnt', sm' + cnt')] = map (bucket_row ((pre @ [x]) @ xs)) (remdups_adj (low # map bucket xs))"
      "sm' + cnt' = int (length ((pre @ [x]) @ xs))"
      using Cons.IH[OF Cons.prems(1-3) xs(1) _ _ _ _ Cons.prems(9) len, of "cnt + 1"] by blast
    have "bucket x = low" by (rule bucket_same[OF Cons.prems(1) x(1) True])
    then show ?thesis using IH hi True by simp
  next
    case False
    let ?b = "bucket x"
    have b: "0 \<le> ?b" "?b \<le> x" "x < ?b + kInterval" using bucket_bounds[of x] x(3) by simp_all
    have later: "low + kInterval \<le> ?b" using bucket_later[OF Cons.prems(1), of x] False by simp
    have cnt0: "0 \<le> cnt" using Cons.prems(7) by simp
    have "\<forall>z\<in>set xs. ?b \<le> z \<and> z < 2 ^ 31 - 10" using xs(2) b(2) by auto
    moreover have "\<forall>z\<in>set (pre @ [x]). z < ?b + kInterval" using b(3) later Cons.prems(6) by (auto simp: kInterval_def)
    moreover have "filter (\<lambda>z. ?b \<le> z) pre = []" using later Cons.prems(6) by (auto simp: filter_empty_conv)
    then have "(1 :: int) = int (length (filter (\<lambda>z. ?b \<le> z) (pre @ [x])))" using b(2) by simp
    moreover have "sm + cnt + 1 = int (length (pre @ [x]))" using Cons.prems(8) by simp
    moreover have "0 \<le> sm + cnt" "?b < 2 ^ 31 - 10" using Cons.prems(9) cnt0 b(2) x(2) by simp_all
    ultimately obtain rows low' cnt' sm' where IH: "save_loop xs ?b 1 (sm + cnt) = Some (rows, low', cnt', sm')"
      "rows @ [(low', cnt', sm' + cnt')] = map (bucket_row ((pre @ [x]) @ xs)) (remdups_adj (?b # map bucket xs))"
      "sm' + cnt' = int (length ((pre @ [x]) @ xs))"
      using Cons.IH[OF refl b(1) _ xs(1) _ _ _ _ _ len, of 1 "sm + cnt"] by blast
    have c: "c_int (100 * (sm + cnt)) = Some (100 * (sm + cnt))" "c_int (?b + kInterval) = Some (?b + kInterval)"
      using Cons.prems(8-10) cnt0 b x(2) by (simp_all add: c_int_def kInterval_def)
    have sd: "x sdiv kInterval = x div kInterval" using x(3) by (simp add: sdiv_nonneg kInterval_def)
    have nb: "low \<noteq> ?b" using later by (simp add: kInterval_def)
    have rest: "\<not> z < low + kInterval" if "z \<in> set (x # xs)" for z using that False xs(2) by auto
    have "filter (\<lambda>z. low \<le> z \<and> z < low + kInterval) (pre @ x # xs) = filter (\<lambda>z. low \<le> z) pre"
      "filter (\<lambda>z. z < low + kInterval) (pre @ x # xs) = pre"
      using Cons.prems(6) rest by (auto simp: filter_empty_conv filter_id_conv intro!: filter_cong)
    then have row: "bucket_row (pre @ x # xs) low = (low, cnt, sm + cnt)"
      using Cons.prems(7,8) by (simp add: bucket_row_def)
    have "save_loop (x # xs) low cnt sm = Some ((low, cnt, sm + cnt) # rows, low', cnt', sm')"
      using hi False IH(1) c b(3) sd by simp
    then show ?thesis using IH(2,3) row nb by simp
  qed
qed

text \<open>The saved histogram of a sorted list of latencies: no assertion fails, there is one row per non-empty
  bucket of five microseconds, in ascending order, with exactly the number of latencies in the bucket,
  and the running sum is the number of latencies up to the end of the bucket.\<close>

theorem percentile_histogram:
  assumes "sorted lat" and "lat \<noteq> []" and "\<forall>x\<in>set lat. 0 \<le> x \<and> x < 2 ^ 31 - 10" and "100 * int (length lat) < 2 ^ 31"
  shows "save_rows lat = Some (map (bucket_row lat) (remdups_adj (map bucket lat)))"
proof -
  let ?low = "bucket (hd lat)"
  have hd: "hd lat \<in> set lat" using assms(2) by simp
  then have h: "0 \<le> hd lat" "hd lat < 2 ^ 31 - 10" "0 \<le> ?low" "?low \<le> hd lat" using assms(3) bucket_bounds by blast+
  have all: "\<forall>x\<in>set lat. ?low \<le> x \<and> x < 2 ^ 31 - 10"
  proof
    fix x assume "x \<in> set lat"
    moreover have "hd lat \<le> x" using assms(1) calculation by (cases lat) auto
    ultimately show "?low \<le> x \<and> x < 2 ^ 31 - 10" using h(4) assms(3) by auto
  qed
  have "?low < 2 ^ 31 - 10" using h by simp
  from save_loop_rows[OF refl h(3) this assms(1) all, of "[]" 0 0] assms(4) obtain rows low cnt sm where r:
    "save_loop lat ?low 0 0 = Some (rows, low, cnt, sm)"
    "rows @ [(low, cnt, sm + cnt)] = map (bucket_row lat) (remdups_adj (?low # map bucket lat))"
    "sm + cnt = int (length lat)" by auto
  have sd: "hd lat sdiv kInterval = hd lat div kInterval" using h(1) by (simp add: sdiv_nonneg kInterval_def)
  have "remdups_adj (?low # map bucket lat) = remdups_adj (map bucket lat)" using assms(2) by (cases lat) simp_all
  then show ?thesis using r assms(4) sd by (simp add: save_rows_def c_int_def)
qed

theorem percentile_histogram_witness:
  "save_rows [3, 11, 12, 30] = Some [(0, 1, 1), (10, 2, 3), (30, 1, 4)]"
proof -
  have "save_rows [3, 11, 12, 30] = Some (map (bucket_row [3, 11, 12, 30]) (remdups_adj (map bucket [3, 11, 12, 30])))"
    by (rule percentile_histogram) simp_all
  also have "\<dots> = Some [(0, 1, 1), (10, 2, 3), (30, 1, 4)]" by (simp add: kInterval_def bucket_row_def)
  finally show ?thesis .
qed

end
