(* ===== verification/Inspector.thy ===== *)
theory Inspector
  imports Http Proc
begin

text \<open>
  The inspector: \<^verbatim>\<open>cnet/net/inspect\<close>, an HTTP server with pages \<^verbatim>\<open>/module/command/args\<close>. The two
  tables are ordered maps of ordered maps; a callback is a function of the method and the arguments
  (\<open>None\<close> is an empty \<^verbatim>\<open>boost::function\<close>). The pages about the process and the system are texts of
  values that the operating system gives, which are the fields of a record; the texts of floating
  point numbers are arguments.

  The results: whatever is added and removed, a page exists exactly for the commands that are
  registered and calls the callback registered last, everything else is answered with 404, and the
  index lists exactly the registered commands, in order. \<open>onRequest\<close> reads the table of the
  callbacks without the mutex; the model is of runs without that race.
\<close>

section \<open>The Inspector\<close>

type_synonym Callback = "(Method \<Rightarrow> string list \<Rightarrow> string) option"

record Inspector =
  modules :: "(string \<times> (string \<times> Callback) list) list"
  helps :: "(string \<times> (string \<times> string) list) list"

definition inner :: "('k \<times> ('l \<times> 'v) list) list \<Rightarrow> 'k \<Rightarrow> ('l \<times> 'v) list" where
  "inner m k = (case map_of m k of Some l \<Rightarrow> l | None \<Rightarrow> [])"

text \<open>\<open>split\<close>: the parts between slashes that are not empty.\<close>

function split_loop :: "string \<Rightarrow> nat \<Rightarrow> string list \<times> nat" where
  "split_loop str start =
    (let pos = start + std_find (CHR ''/'') (drop start str)
     in if pos < length str
        then (let r = split_loop str (pos + 1)
              in ((if pos > start then [take (pos - start) (drop start str)] else []) @ fst r, snd r))
        else ([], start))"
  by pat_completeness auto
termination by (relation "measure (\<lambda>(str, start). length str - start)") auto

declare split_loop.simps [simp del]

definition split_path :: "string \<Rightarrow> string list" where
  "split_path str =
    (let r = split_loop str 0; start = snd r
     in fst r @ (if start < length str then [drop start str] else []))"

definition Inspector_add :: "string \<Rightarrow> string \<Rightarrow> Callback \<Rightarrow> string \<Rightarrow> Inspector \<Rightarrow> Inspector" where
  "Inspector_add md command cb help ins =
    ins\<lparr>modules := smap_insert md (smap_insert command cb (inner (modules ins) md)) (modules ins),
        helps := smap_insert md (smap_insert command help (inner (helps ins) md)) (helps ins)\<rparr>"

definition Inspector_remove :: "string \<Rightarrow> string \<Rightarrow> Inspector \<Rightarrow> Inspector" where
  "Inspector_remove md command ins =
    (case map_of (modules ins) md of
       Some l \<Rightarrow> ins\<lparr>modules := smap_insert md (smap_erase command l) (modules ins),
                     helps := smap_insert md (smap_erase command (inner (helps ins) md)) (helps ins)\<rparr>
     | None \<Rightarrow> ins)"

definition index_line :: "string \<times> string \<times> string \<Rightarrow> string" where
  "index_line l =
    (case l of (md, command, help) \<Rightarrow>
      (let len = length md + length command
       in ''/'' @ md @ ''/'' @ command @ replicate (if len \<ge> 25 then 1 else 25 - len) (CHR '' '') @ help @ [LF]))"

definition index_text :: "Inspector \<Rightarrow> string" where
  "index_text ins =
    concat (map (\<lambda>(md, l). concat (map (\<lambda>(command, help). index_line (md, command, help)) l)) (helps ins))"

definition ok_page :: "string \<Rightarrow> string \<Rightarrow> HttpResponse \<Rightarrow> HttpResponse" where
  "ok_page content_type text resp =
    (setContentType content_type (resp\<lparr>statusCode := k200OK, statusMessage := ''OK''\<rparr>))\<lparr>body := text\<rparr>"

definition not_found :: "HttpResponse \<Rightarrow> HttpResponse" where
  "not_found resp = resp\<lparr>statusCode := k404NotFound, statusMessage := ''NOT FOUND''\<rparr>"

text \<open>The icon, a PNG image, from its bytes in hexadecimal.\<close>

definition hex_digit :: "char \<Rightarrow> nat" where
  "hex_digit c = std_find c ''0123456789abcdef''"

fun bytes_of_hex :: "string \<Rightarrow> string" where
  "bytes_of_hex (a # b # s) = char_of (16 * hex_digit a + hex_digit b) # bytes_of_hex s"
| "bytes_of_hex _ = []"

definition favicon :: string where
  "favicon = concat (map bytes_of_hex [
    ''89504e470d0a1a0a0000000d49484452000000100000001008060000001ff3ff6100000004734249'',
    ''54080808087c086488000000097048597300000b1200000b1201d2dd7efc0000001c74455874536f'',
    ''6674776172650041646f62652046697265776f726b732043533398d6460300000015744558744372'',
    ''656174696f6e2054696d6500322f31372f3038209caa580000041174455874584d4c3a636f6d2e61'',
    ''646f62652e786d70003c3f787061636b657420626567696e3d22202020222069643d2257354d304d'',
    ''7043656869487a7265537a4e54637a6b633964223f3e0a3c783a786d706d65746120786d6c6e733a'',
    ''783d2261646f62653a6e733a6d6574612f2220783a786d70746b3d2241646f626520584d5020436f'',
    ''726520342e312d633033342034362e3237323937362c20536174204a616e20323720323030372032'',
    ''323a31313a34312020202020202020223e0a2020203c7264663a52444620786d6c6e733a7264663d'',
    ''22687474703a2f2f7777772e77332e6f72672f313939392f30322f32322d7264662d73796e746178'',
    ''2d6e7323223e0a2020202020203c7264663a4465736372697074696f6e207264663a61626f75743d'',
    ''22220a202020202020202020202020786d6c6e733a7861703d22687474703a2f2f6e732e61646f62'',
    ''652e636f6d2f7861702f312e302f223e0a2020202020202020203c7861703a43726561746f72546f'',
    ''6f6c3e41646f62652046697265776f726b73204353333c2f7861703a43726561746f72546f6f6c3e'',
    ''0a2020202020202020203c7861703a437265617465446174653e323030382d30322d31375430323a'',
    ''33363a34355a3c2f7861703a437265617465446174653e0a2020202020202020203c7861703a4d6f'',
    ''64696679446174653e323030382d30332d32345431393a30303a34325a3c2f7861703a4d6f646966'',
    ''79446174653e0a2020202020203c2f7264663a4465736372697074696f6e3e0a2020202020203c72'',
    ''64663a4465736372697074696f6e207264663a61626f75743d22220a202020202020202020202020'',
    ''786d6c6e733a64633d22687474703a2f2f7075726c2e6f72672f64632f656c656d656e74732f312e'',
    ''312f223e0a2020202020202020203c64633a666f726d61743e696d6167652f706e673c2f64633a66'',
    ''6f726d61743e0a2020202020203c2f7264663a4465736372697074696f6e3e0a2020203c2f726466'',
    ''3a5244463e0a3c2f783a786d706d6574613e0a202020202020202020202020202020202020202020'',
    ''20202020202020202020202020202020202020202020202020202020202020202020202020202020'',
    ''2020202020202020202020202020202020202020202020202020202020202020202020202020200a'',
    ''20202020202020202020202020202020202020202020202020202020202020202020202020202020'',
    ''20202020202020202020202020202020202020202020202020202020202020202020202020202020'',
    ''20202020202020202020202020202020202020200a20202020202020202020202020202020202020'',
    ''20202020202020202020202020202020202020202020202020202020202020202020202020202020'',
    ''2020202020202020202020202020202020202020202020202020202020202020351d52640000020b'',
    ''49444154388da593416b1a4118869f8906232e74f5204a0e6b20e4e2a578c8a1788982178582823d'',
    ''26625872cd4ff1184b1b2fa532e0b59e351a582fe90fe8656d84a2842c0a6b5862a787686813a1a5'',
    ''79e13b0cc3fbcc37ef7c239452bc447e00210400ad56cb188fc70ddbb6d38ee3f883c1a08ac7e33f'',
    ''128944b95c2ef756a6df0f154a298410349bcd7796657d360c43e47239e2f138b7b7b7f4fb7d0683'',
    ''01a954ea43a552397e0a402945abd5324e4f4f7f4a29d5ddddddb3eaf57aeae4e4444929d32bcfaa'',
    ''3600c6e37163676747e4f379003ccfa35028e0ba2e9ee7914aa5d8dbdb63341a7d7c9ac106806ddb'',
    ''e96c368bcfe7c3f33c5cd70560369be1ba2e8bc5824c26836ddbbb6b43741cc71f8bc50028168b8f'',
    ''9bd56a150029259aa6319fcfc55ac0d6d6969a4c2622140a21a564369b51ad56a9d56a689a06c0f5'',
    ''f535baaedfafbd826118df2ccb7a20fafd04020100344d231008b0582ce876bb2412898bb51d6c6f'',
    ''6f1f753a9d7e381c2697cb2184404a09c0e6e626ed769bc964a2a6d3e92778989bd5533ecec1f9f9'',
    ''f9fbc160709c4c26d9dfdf271289301c0eb9bcbce4e6e646f97cbe2fd3e9340f34eaf57ae5196019'',
    ''d69bd168d4180e87bbf3f95ce8ba7e6f18c645341a3d2c954adf4dd3bc025e035f8183b3b333e70f'',
    ''c0df649aa6b134eb80031c6cfc9373a97abd6e0347cba50ebce27f7ea3699a87a669be554a3d64f0'',
    ''12fd020d530624883fe1690000000049454e44ae426082''])"

definition Inspector_onRequest :: "Inspector \<Rightarrow> HttpRequest \<Rightarrow> HttpResponse \<Rightarrow> HttpResponse" where
  "Inspector_onRequest ins req resp =
    (let path = upath (uri req)
     in if path = ''/'' then ok_page ''text/plain'' (index_text ins) resp
        else (case split_path path of
            [] \<Rightarrow> not_found resp
          | [md] \<Rightarrow> if md = ''favicon.ico'' then ok_page ''image/png'' favicon resp else not_found resp
          | md # command # args \<Rightarrow>
              (case map_of (modules ins) md of
                 None \<Rightarrow> not_found resp
               | Some commList \<Rightarrow>
                   (case map_of commList command of
                      Some (Some cb) \<Rightarrow> ok_page ''text/plain'' (cb (rmethod req) args) resp
                    | _ \<Rightarrow> not_found resp))))"

section \<open>The pages that the constructor registers\<close>

text \<open>What a thread lists and prints is in \<open>Proc\<close>; here are the pages with the values of one call.\<close>

record ProcValues =
  pv_now_text :: string
  pv_start_text :: string
  pv_now :: Timestamp
  pv_start :: Timestamp
  pv_status :: string
  pv_exe :: string
  pv_user :: string
  pv_host :: string
  pv_pid :: int
  pv_opened :: int
  pv_max_open :: int
  pv_cpu_text :: string
  pv_threads :: string

definition ProcessInspector_overview :: "(int \<Rightarrow> string) \<Rightarrow> ProcValues \<Rightarrow> string option" where
  "ProcessInspector_overview mib v =
    (let result = ''Page generated at '' @ pv_now_text v @ '' (UTC)'' @ [LF] @ ''Started at '' @ pv_start_text v @
           '' (UTC), up for '' @ uptime (pv_now v) (pv_start v) True @ [LF]
     in do { pname \<leftarrow> getProcessName (pv_status v);
          let result = result @ pname @ '' ('' @ pv_exe v @ '') running as '' @ pv_user v @ '' on '' @ pv_host v @ [LF];
          let result = (if isDebugBuild then result @ ''WARNING: debug build!'' @ [LF] else result);
          let result = stringPrintf result (''pid '' @ dec_int (pv_pid v) @ '', num of threads '' @
                dec_int (getLong (pv_status v) ''Threads:'') @ '', bits 64'' @ [LF]);
          let result = stringPrintf (result @ ''Virtual memory: '') (mib (getLong (pv_status v) ''VmSize:'') @ '' MiB, '');
          let result = stringPrintf (result @ ''RSS memory: '') (mib (getLong (pv_status v) ''VmRSS:'') @ '' MiB'' @ [LF]);
          let result = stringPrintf result (''Opened files: '' @ dec_int (pv_opened v) @ '', limit: '' @ dec_int (pv_max_open v) @ [LF]);
          Some (stringPrintf result (pv_cpu_text v)) })"

definition process_commands :: "(string \<times> string) list" where
  "process_commands =
    [(''overview'', ''print basic overview''), (''pid'', ''print pid''), (''status'', ''print /proc/self/status''),
     (''threads'', ''list /proc/self/task'')]"

text \<open>The page of a command; \<open>overview\<close> is the text that was computed.\<close>

definition process_page :: "string \<Rightarrow> ProcValues \<Rightarrow> string \<Rightarrow> Method \<Rightarrow> string list \<Rightarrow> string" where
  "process_page overview v cmd meth args =
    (if cmd = ''overview'' then overview
     else if cmd = ''pid'' then dec_int (pv_pid v)
     else if cmd = ''status'' then pv_status v
     else pv_threads v)"

record SysValues =
  sv_now_text :: string
  sv_now :: Timestamp
  sv_uname :: "(string \<times> string \<times> string \<times> string \<times> string) option"
  sv_stat :: string
  sv_loadavg :: string
  sv_meminfo :: string
  sv_version :: string
  sv_cpuinfo :: string

definition mem_line :: "string \<Rightarrow> int \<Rightarrow> string \<Rightarrow> string" where
  "mem_line label kb result = stringPrintf result (label @ pad_left (CHR '' '') 6 (dec_int (kb sdiv 1024)) @ '' MiB'' @ [LF])"

text \<open>\<open>boot_text\<close> is \<open>toFormattedString(false)\<close> of the boot time.\<close>

definition SystemInspector_overview :: "(Timestamp \<Rightarrow> string) \<Rightarrow> SysValues \<Rightarrow> string" where
  "SystemInspector_overview boot_text v =
    (let result = ''Page generated at '' @ sv_now_text v @ '' (UTC)'' @ [LF];
         result = (case sv_uname v of
             None \<Rightarrow> result
           | Some (sysname, nodename, release, vers, machine) \<Rightarrow>
               stringPrintf (stringPrintf (stringPrintf result (''Hostname: '' @ nodename @ [LF])) (''Machine: '' @ machine @ [LF]))
                 (''OS: '' @ sysname @ '' '' @ release @ '' '' @ vers @ [LF]));
         bootTime = kMicroSecondsPerSecond * getLong (sv_stat v) ''btime '';
         result = result @ ''Boot time: '' @ boot_text bootTime @ '' (UTC)'' @ [LF] @
           ''Up time: '' @ uptime (sv_now v) bootTime False @ [LF];
         result = stringPrintf result (''Processes created: '' @ dec_int (getLong (sv_stat v) ''processes '') @ [LF]);
         result = stringPrintf result (''Loadavg: '' @ takeWhile (\<lambda>c. c \<noteq> CHR 0x00) (sv_loadavg v) @ [LF]);
         total_kb = getLong (sv_meminfo v) ''MemTotal:'';
         free_kb = getLong (sv_meminfo v) ''MemFree:'';
         buffers_kb = getLong (sv_meminfo v) ''Buffers:'';
         cached_kb = getLong (sv_meminfo v) ''Cached:'';
         result = mem_line ''Total Memory: '' total_kb result;
         result = mem_line ''Free Memory:  '' free_kb result;
         result = mem_line ''Buffers:      '' buffers_kb result;
         result = mem_line ''Cached:       '' cached_kb result;
         result = mem_line ''Real Used:    '' (total_kb - free_kb - buffers_kb - cached_kb) result
     in mem_line ''Real Free:    '' (free_kb + buffers_kb + cached_kb) result)"

definition system_commands :: "(string \<times> string) list" where
  "system_commands =
    [(''overview'', ''print system overview''), (''loadavg'', ''print /proc/loadavg''), (''version'', ''print /proc/version''),
     (''cpuinfo'', ''print /proc/cpuinfo''), (''meminfo'', ''print /proc/meminfo''), (''stat'', ''print /proc/stat'')]"

definition system_page :: "(Timestamp \<Rightarrow> string) \<Rightarrow> SysValues \<Rightarrow> string \<Rightarrow> Method \<Rightarrow> string list \<Rightarrow> string" where
  "system_page boot_text v cmd meth args =
    (if cmd = ''overview'' then SystemInspector_overview boot_text v
     else if cmd = ''loadavg'' then sv_loadavg v
     else if cmd = ''version'' then sv_version v
     else if cmd = ''cpuinfo'' then sv_cpuinfo v
     else if cmd = ''meminfo'' then sv_meminfo v
     else sv_stat v)"

definition registerCommands :: "string \<Rightarrow> (string \<times> string) list \<Rightarrow> (string \<Rightarrow> Method \<Rightarrow> string list \<Rightarrow> string) \<Rightarrow> Inspector \<Rightarrow> Inspector" where
  "registerCommands md cmds page ins =
    fold (\<lambda>(cmd, help) ins. Inspector_add md cmd (Some (page cmd)) help ins) cmds ins"

text \<open>The constructor; \<open>global\<close> says whether there is an inspector already.\<close>

definition Inspector_new ::
  "bool \<Rightarrow> bool \<Rightarrow> (string \<Rightarrow> Method \<Rightarrow> string list \<Rightarrow> string) \<Rightarrow> (string \<Rightarrow> Method \<Rightarrow> string list \<Rightarrow> string) \<Rightarrow> (Inspector \<times> bool) option" where
  "Inspector_new main_thread global proc sys =
    do { assertm main_thread;
         assertm (\<not> global);
         Some (registerCommands ''sys'' system_commands sys
                (registerCommands ''proc'' process_commands proc \<lparr>modules = [], helps = []\<rparr>), True) }"

section \<open>Paths\<close>

definition part_ok :: "string \<Rightarrow> bool" where
  "part_ok p \<longleftrightarrow> p \<noteq> [] \<and> CHR ''/'' \<notin> set p"

definition path_of :: "string list \<Rightarrow> string" where
  "path_of parts = concat (map (\<lambda>p. CHR ''/'' # p) parts)"

lemma split_loop_parts:
  assumes "list_all part_ok (p # ps)"
  shows "let str = pre @ p @ path_of ps; r = split_loop str (length pre)
    in fst r @ [drop (snd r) str] = p # ps \<and> snd r < length str"
  using assms
proof (induction ps arbitrary: pre p)
  case Nil
  then have "std_find (CHR ''/'') p = length p" by (simp add: std_find_eq_length part_ok_def)
  then show ?case using Nil by (simp add: split_loop.simps[of "pre @ p"] path_of_def part_ok_def Let_def)
next
  case (Cons q ps)
  let ?str = "pre @ p @ path_of (q # ps)" and ?pre = "pre @ p @ ''/''"
  have p: "p \<noteq> []" "CHR ''/'' \<notin> set p" using Cons.prems by (simp_all add: part_ok_def)
  have str: "?str = ?pre @ q @ path_of ps" by (simp add: path_of_def)
  have "path_of (q # ps) = CHR ''/'' # q @ path_of ps" by (simp add: path_of_def)
  then have pos: "std_find (CHR ''/'') (p @ path_of (q # ps)) = length p" "path_of (q # ps) \<noteq> []" using p(2) by simp_all
  have "split_loop ?str (length pre) = (p # fst (split_loop ?str (length ?pre)), snd (split_loop ?str (length ?pre)))"
    using p(1) pos(2) by (subst split_loop.simps) (simp add: Let_def pos(1))
  then show ?case using Cons.IH[of q ?pre] Cons.prems unfolding str Let_def by simp
qed

lemma split_path_of: "list_all part_ok parts \<Longrightarrow> split_path (path_of parts) = parts"
proof (cases parts)
  case Nil
  then show ?thesis by (simp add: path_of_def split_path_def split_loop.simps)
next
  case (Cons p ps)
  assume ok: "list_all part_ok parts"
  have str: "path_of parts = ''/'' @ p @ path_of ps" using Cons by (simp add: path_of_def)
  have "split_loop (path_of parts) 0 = (fst (split_loop (path_of parts) 1), snd (split_loop (path_of parts) 1))"
    unfolding str by (subst split_loop.simps) (simp add: Let_def)
  moreover have "fst (split_loop (path_of parts) 1) @ [drop (snd (split_loop (path_of parts) 1)) (path_of parts)] = parts \<and>
      snd (split_loop (path_of parts) 1) < length (path_of parts)"
    using split_loop_parts[of p ps "''/''"] ok Cons unfolding str by (simp add: Let_def)
  ultimately show ?thesis unfolding split_path_def Let_def by simp
qed

section \<open>The table of commands\<close>

datatype inspector_op = Add string string Callback string | Remove string string

fun run_inspector :: "inspector_op \<Rightarrow> Inspector \<Rightarrow> Inspector" where
  "run_inspector (Add md cmd cb help) ins = Inspector_add md cmd cb help ins"
| "run_inspector (Remove md cmd) ins = Inspector_remove md cmd ins"

text \<open>What the operations promise: one finite map.\<close>

fun spec_inspector :: "inspector_op \<Rightarrow> (string \<times> string \<rightharpoonup> Callback \<times> string) \<Rightarrow> (string \<times> string \<rightharpoonup> Callback \<times> string)" where
  "spec_inspector (Add md cmd cb help) t = t((md, cmd) \<mapsto> (cb, help))"
| "spec_inspector (Remove md cmd) t = t((md, cmd) := None)"

definition represents_table :: "Inspector \<Rightarrow> (string \<times> string \<rightharpoonup> Callback \<times> string) \<Rightarrow> bool" where
  "represents_table ins t \<longleftrightarrow>
     (\<forall>md cmd. map_of (inner (modules ins) md) cmd = map_option fst (t (md, cmd)) \<and>
               map_of (inner (helps ins) md) cmd = map_option snd (t (md, cmd))) \<and>
     smap_ok (helps ins) \<and> (\<forall>md. smap_ok (inner (helps ins) md))"

lemma inner_insert: "inner (smap_insert k l m) k' = (if k' = k then l else inner m k')"
  by (simp add: inner_def)

lemma represents_run:
  assumes "represents_table ins t"
  shows "represents_table (run_inspector act ins) (spec_inspector act t)"
proof (cases act)
  case (Add md cmd cb h)
  then show ?thesis using assms
    by (auto simp: represents_table_def Inspector_add_def inner_insert intro: smap_ok_insert)
next
  case (Remove md cmd)
  show ?thesis
  proof (cases "map_of (modules ins) md")
    case None
    moreover have "map_of (inner (modules ins) md) cmd = map_option fst (t (md, cmd))" using assms by (simp add: represents_table_def)
    ultimately have "t (md, cmd) = None" by (simp add: inner_def)
    then have "t((md, cmd) := None) = t" by auto
    then show ?thesis using assms None Remove by (simp add: Inspector_remove_def)
  next
    case (Some l)
    then have "l = inner (modules ins) md" by (simp add: inner_def)
    then show ?thesis using assms Remove Some
      by (auto simp: represents_table_def Inspector_remove_def inner_insert intro: smap_ok_insert smap_ok_erase)
  qed
qed

definition Inspector_empty :: Inspector where "Inspector_empty = \<lparr>modules = [], helps = []\<rparr>"

lemma represents_history: "represents_table (fold run_inspector ops Inspector_empty) (fold spec_inspector ops Map.empty)"
proof -
  have "represents_table ins t \<Longrightarrow> represents_table (fold run_inspector ops ins) (fold spec_inspector ops t)" for ins t
    by (induction ops arbitrary: ins t) (auto intro: represents_run)
  moreover have "represents_table Inspector_empty Map.empty" by (simp add: represents_table_def Inspector_empty_def inner_def)
  ultimately show ?thesis .
qed

text \<open>The index as a list of entries.\<close>

definition entries :: "Inspector \<Rightarrow> (string \<times> string \<times> string) list" where
  "entries ins = concat (map (\<lambda>(md, l). map (\<lambda>(cmd, help). (md, cmd, help)) l) (helps ins))"

definition before :: "string \<times> string \<times> string \<Rightarrow> string \<times> string \<times> string \<Rightarrow> bool" where
  "before e e' \<longleftrightarrow> fst e < fst e' \<or> fst e = fst e' \<and> fst (snd e) < fst (snd e')"

lemma index_entries: "index_text ins = concat (map index_line (entries ins))"
proof -
  have "concat (map (\<lambda>(md, l). concat (map (\<lambda>(cmd, help). index_line (md, cmd, help)) l)) hs) =
    concat (map index_line (concat (map (\<lambda>(md, l). map (\<lambda>(cmd, help). (md, cmd, help)) l) hs)))" for hs
    by (induction hs) (auto simp: o_def case_prod_beta)
  then show ?thesis by (simp add: index_text_def entries_def)
qed

lemma entries_iff:
  assumes "represents_table ins t"
  shows "(md, cmd, help) \<in> set (entries ins) \<longleftrightarrow> (\<exists>cb. t (md, cmd) = Some (cb, help))"
proof -
  have h: "smap_ok (helps ins)" and i: "smap_ok (inner (helps ins) md)"
    and m: "map_of (inner (helps ins) md) cmd = map_option snd (t (md, cmd))" using assms by (simp_all add: represents_table_def)
  have "(md, cmd, help) \<in> set (entries ins) \<longleftrightarrow> (\<exists>l. (md, l) \<in> set (helps ins) \<and> (cmd, help) \<in> set l)"
    by (auto simp: entries_def)
  also have "\<dots> \<longleftrightarrow> (\<exists>l. map_of (helps ins) md = Some l \<and> (cmd, help) \<in> set l)"
    using smap_ok_distinct[OF h] by simp
  also have "\<dots> \<longleftrightarrow> (cmd, help) \<in> set (inner (helps ins) md)" by (cases "map_of (helps ins) md") (auto simp: inner_def)
  also have "\<dots> \<longleftrightarrow> map_of (inner (helps ins) md) cmd = Some help" using smap_ok_distinct[OF i] by simp
  also have "\<dots> \<longleftrightarrow> (\<exists>cb. t (md, cmd) = Some (cb, help))" unfolding m by auto
  finally show ?thesis .
qed

lemma entries_sorted:
  assumes "represents_table ins t"
  shows "sorted_wrt before (entries ins)"
proof -
  have "sorted_wrt before (concat (map (\<lambda>(md, l). map (\<lambda>(cmd, help). (md, cmd, help)) l) hs))"
    if "smap_ok hs" "\<forall>(md, l)\<in>set hs. smap_ok l" for hs
    using that
  proof (induction hs)
    case (Cons e hs)
    obtain md l where e: "e = (md, l)" by (cases e)
    have "sorted_wrt before (map (\<lambda>(cmd, help). (md, cmd, help)) l)"
      using Cons.prems(2) e by (auto simp: sorted_wrt_map before_def case_prod_beta elim: sorted_wrt_mono_rel[rotated])
    moreover have "before (md, x) y" if "y \<in> set (concat (map (\<lambda>(md, l). map (\<lambda>(cmd, help). (md, cmd, help)) l) hs))" for x y
      using that Cons.prems(1) e by (fastforce simp: before_def)
    ultimately show ?case using Cons e by (auto simp: sorted_wrt_append) (force simp: before_def)
  qed simp
  moreover have "\<forall>(md, l)\<in>set (helps ins). smap_ok l"
  proof clarify
    fix md l assume "(md, l) \<in> set (helps ins)"
    moreover have "distinct (map fst (helps ins))" using assms by (simp add: represents_table_def smap_ok_distinct)
    ultimately have "inner (helps ins) md = l" by (simp add: inner_def)
    then show "smap_ok l" using assms by (auto simp: represents_table_def)
  qed
  ultimately show ?thesis using assms unfolding entries_def represents_table_def by blast
qed

text \<open>C39: The inspector implements one table of commands: after any sequence of additions and removals, the request
  for \<^verbatim>\<open>/module/command/args\<close> is answered with what the callback that was registered last, and not
  removed since, returns for the method and the arguments, and with 404 if there is none; and the
  index page has one line for every registered command, in the order of module and command, with
  its help text.\<close>

theorem inspector_refines_table:
  assumes "list_all part_ok (md # cmd # args)" and "upath (uri req) = path_of (md # cmd # args)"
    and "upath (uri index) = ''/''"
  shows "\<exists>L. let ins = fold run_inspector ops Inspector_empty; table = fold spec_inspector ops Map.empty in
    Inspector_onRequest ins req resp =
      (case table (md, cmd) of Some (Some cb, _) \<Rightarrow> ok_page ''text/plain'' (cb (rmethod req) args) resp | _ \<Rightarrow> not_found resp) \<and>
    Inspector_onRequest ins index resp = ok_page ''text/plain'' (concat (map index_line L)) resp \<and>
    sorted_wrt before L \<and> (\<forall>m c h. (m, c, h) \<in> set L \<longleftrightarrow> (\<exists>cb. table (m, c) = Some (cb, h)))"
proof -
  let ?ins = "fold run_inspector ops Inspector_empty" and ?t = "fold spec_inspector ops Map.empty"
  note r = represents_history[of ops]
  have ne: "path_of (md # cmd # args) \<noteq> ''/''" using assms(1) by (auto simp: path_of_def part_ok_def)
  have m: "map_of (inner (modules ?ins) md) cmd = map_option fst (?t (md, cmd))" using r by (simp add: represents_table_def)
  have "Inspector_onRequest ?ins req resp =
      (case map_of (inner (modules ?ins) md) cmd of Some (Some cb) \<Rightarrow> ok_page ''text/plain'' (cb (rmethod req) args) resp | _ \<Rightarrow> not_found resp)"
    using assms(2) ne split_path_of[OF assms(1)] by (simp add: Inspector_onRequest_def inner_def split: option.splits)
  also have "\<dots> = (case ?t (md, cmd) of Some (Some cb, _) \<Rightarrow> ok_page ''text/plain'' (cb (rmethod req) args) resp | _ \<Rightarrow> not_found resp)"
    unfolding m by (auto split: option.splits)
  finally have page: "Inspector_onRequest ?ins req resp = \<dots>" .
  have "Inspector_onRequest ?ins index resp = ok_page ''text/plain'' (concat (map index_line (entries ?ins))) resp"
    using assms(3) by (simp add: Inspector_onRequest_def index_entries)
  then show ?thesis using page entries_sorted[OF r] entries_iff[OF r] unfolding Let_def by blast
qed

theorem inspector_refines_table_witness:
  "\<exists>req. let ins = fold run_inspector [Add ''a'' ''b'' (Some (\<lambda>meth args. concat args)) ''help''] Inspector_empty in
     Inspector_onRequest ins req (HttpResponse_new True) = ok_page ''text/plain'' ''xy'' (HttpResponse_new True)"
proof -
  define req where "req = HttpRequest_new\<lparr>uri := HttpUri_zero\<lparr>upath := ''/a/b/x/y''\<rparr>\<rparr>"
  define index where "index = HttpRequest_new\<lparr>uri := HttpUri_zero\<lparr>upath := ''/''\<rparr>\<rparr>"
  have "list_all part_ok [''a'', ''b'', ''x'', ''y'']" by (simp add: part_ok_def)
  moreover have "upath (uri req) = path_of [''a'', ''b'', ''x'', ''y'']" by (simp add: req_def path_of_def)
  moreover have "upath (uri index) = ''/''" by (simp add: index_def)
  ultimately show ?thesis
    using inspector_refines_table[of "''a''" "''b''" "[''x'', ''y'']" req index
        "[Add ''a'' ''b'' (Some (\<lambda>meth args. concat args)) ''help'']" "HttpResponse_new True"]
    by (intro exI[of _ req]) (auto simp: Let_def)
qed

end
