(* ===== verification/TcpClient.thy ===== *)
theory TcpClient
  imports Connector
begin

text \<open>
  \<^verbatim>\<open>cnet::net::TcpClient\<close> (\<^verbatim>\<open>cnet/net/TcpClient.h\<close>, \<^verbatim>\<open>TcpClient.cc\<close>) together with its connector.
  Every \<^verbatim>\<open>TcpConnection\<close> that the client creates is an entry of a list, with its phase and the calls that
  it gets from the client; \<open>connection\<close> is the index of the current one. \<open>tc_queue\<close> are the functors
  that the client has put into the loop. A socket call's result is an argument as in \<open>Connector\<close>, and
  so is the text of the peer's address. User callbacks and the destruction of the connector after
  the client are left out.

  The results: in every history the client has at most one live connection, which is the one it
  refers to, every other one has been or will be destroyed exactly once, and every socket belongs to
  one connection or is accounted for by the connector; a lost connection is re-established when
  retrying is enabled; but without it \<open>connect\<close> can not be called a second time, and a client that is
  destroyed in another thread can be called by its connection afterwards.
\<close>

section \<open>State\<close>

datatype client_phase = Live | Gone | Destroyed

datatype client_conn_call = CallEstablished | CallShutdown | CallForceClose | CallDestroyed

record client_conn =
  kname :: string
  kfd :: int
  kphase :: client_phase
  kcalls :: "client_conn_call list"
  detached :: bool

datatype client_functor = FDestroyConn nat | FSetClose nat

record TcpClient =
  tc_connector :: Connector
  tc_name :: string
  tc_retry :: bool
  tc_connect :: bool
  nextConnId :: int
  connection :: "nat option"
  conns :: "client_conn list"
  tc_queue :: "client_functor list"
  alive :: bool

definition TcpClient_new :: "string \<Rightarrow> TcpClient" where
  "TcpClient_new nm =
    \<lparr>tc_connector = Connector_new, tc_name = nm, tc_retry = False, tc_connect = True, nextConnId = 1,
     connection = None, conns = [], tc_queue = [], alive = True\<rparr>"

definition upd_conn :: "nat \<Rightarrow> (client_conn \<Rightarrow> client_conn) \<Rightarrow> TcpClient \<Rightarrow> TcpClient" where
  "upd_conn n f c = c\<lparr>conns := (conns c)[n := f (conns c ! n)]\<rparr>"

abbreviation client_call :: "nat \<Rightarrow> client_conn_call \<Rightarrow> TcpClient \<Rightarrow> TcpClient" where
  "client_call n call \<equiv> upd_conn n (\<lambda>k. k\<lparr>kcalls := kcalls k @ [call]\<rparr>)"

section \<open>Operations\<close>

definition enableRetry :: "TcpClient \<Rightarrow> TcpClient" where
  "enableRetry c = c\<lparr>tc_retry := True\<rparr>"

definition TcpClient_connect :: "bool \<Rightarrow> int \<times> int \<Rightarrow> TcpClient \<Rightarrow> TcpClient option" where
  "TcpClient_connect inLoop sk c =
    do { k \<leftarrow> Connector_start inLoop sk (tc_connector c); Some (c\<lparr>tc_connect := True, tc_connector := k\<rparr>) }"

definition TcpClient_disconnect :: "TcpClient \<Rightarrow> TcpClient" where
  "TcpClient_disconnect c =
    (let c = c\<lparr>tc_connect := False\<rparr> in case connection c of Some n \<Rightarrow> client_call n CallShutdown c | None \<Rightarrow> c)"

definition TcpClient_stop :: "TcpClient \<Rightarrow> TcpClient" where
  "TcpClient_stop c = c\<lparr>tc_connect := False, tc_connector := Connector_stop (tc_connector c)\<rparr>"

text \<open>\<^verbatim>\<open>snprintf(buf, sizeof buf, ":%s#%d", ...)\<close> into 32 bytes.\<close>

definition client_conn_name :: "string \<Rightarrow> string \<Rightarrow> int \<Rightarrow> string" where
  "client_conn_name nm peer connId = nm @ take 31 ('':'' @ peer @ ''#'' @ dec_int connId)"

definition client_newConnection :: "string \<Rightarrow> int \<Rightarrow> TcpClient \<Rightarrow> TcpClient" where
  "client_newConnection peer sockfd c =
    (let connName = client_conn_name (tc_name c) peer (nextConnId c);
         c = c\<lparr>nextConnId := nextConnId c + 1\<rparr>;
         n = length (conns c);
         c = c\<lparr>conns := conns c @ [\<lparr>kname = connName, kfd = sockfd, kphase = Live, kcalls = [], detached = False\<rparr>]\<rparr>;
         c = c\<lparr>connection := Some n\<rparr>
     in client_call n CallEstablished c)"

definition client_removeConnection :: "nat \<Rightarrow> int \<times> int \<Rightarrow> TcpClient \<Rightarrow> TcpClient option" where
  "client_removeConnection n sk c =
    do { assertm (connection c = Some n);
         let c = c\<lparr>connection := None\<rparr>;
         let c = c\<lparr>tc_queue := tc_queue c @ [FDestroyConn n]\<rparr>;
         if tc_retry c \<and> tc_connect c
         then do { k \<leftarrow> Connector_restart sk (tc_connector c); Some (c\<lparr>tc_connector := k\<rparr>) }
         else Some c }"

text \<open>\<open>detail::removeConnection\<close>, the close callback of a connection that outlives its client.\<close>

definition detail_removeConnection :: "nat \<Rightarrow> TcpClient \<Rightarrow> TcpClient" where
  "detail_removeConnection n c = c\<lparr>tc_queue := tc_queue c @ [FDestroyConn n]\<rparr>"

text \<open>\<open>handleClose\<close> of a connection calls its close callback, which is bound to the client's \<open>this\<close>.\<close>

definition conn_closed :: "nat \<Rightarrow> int \<times> int \<Rightarrow> TcpClient \<Rightarrow> TcpClient option" where
  "conn_closed n sk c =
    (let c = upd_conn n (\<lambda>k. k\<lparr>kphase := Gone\<rparr>) c
     in if detached (conns c ! n) then Some (detail_removeConnection n c)
        else do { assertm (alive c); client_removeConnection n sk c })"

text \<open>The events of the connector; \<open>handleWrite\<close> gives a connected socket to \<open>newConnection\<close>.\<close>

definition client_handleWrite :: "string \<Rightarrow> int \<Rightarrow> bool \<Rightarrow> TcpClient \<Rightarrow> TcpClient option" where
  "client_handleWrite peer err self c =
    do { k \<leftarrow> Connector_handleWrite err self (tc_connector c);
         let given = drop (length (handed (tc_connector c))) (handed k);
         let c = c\<lparr>tc_connector := k\<rparr>;
         if given = [] then Some c else do { assertm (alive c); Some (client_newConnection peer (hd given) c) } }"

definition run_client_functor :: "client_functor \<Rightarrow> TcpClient \<Rightarrow> TcpClient" where
  "run_client_functor f c =
    (case f of
       FDestroyConn n \<Rightarrow> client_call n CallDestroyed (upd_conn n (\<lambda>k. k\<lparr>kphase := Destroyed\<rparr>) c)
     | FSetClose n \<Rightarrow> upd_conn n (\<lambda>k. k\<lparr>detached := True\<rparr>) c)"

text \<open>
  The destructor; \<open>unique\<close> says whether nobody else holds the connection. \<open>runInLoop\<close> runs its functor
  at once in the loop's thread. \<open>forceClose\<close> on the connection only queues.
\<close>

definition TcpClient_dtor :: "bool \<Rightarrow> bool \<Rightarrow> TcpClient \<Rightarrow> TcpClient" where
  "TcpClient_dtor inLoop unique c =
    (let c = (case connection c of
         Some n \<Rightarrow>
           (let c = (if inLoop then run_client_functor (FSetClose n) c else c\<lparr>tc_queue := tc_queue c @ [FSetClose n]\<rparr>)
            in if unique then client_call n CallForceClose c else c)
       | None \<Rightarrow> c\<lparr>tc_connector := Connector_stop (tc_connector c)\<rparr>)
     in c\<lparr>alive := False\<rparr>)"

section \<open>Histories\<close>

text \<open>
  Calls of the user and events of the loop. An event of a channel comes after the functors that were
  queued before it have run, so a connection closes only when no \<open>resetChannel\<close> is waiting.
\<close>

datatype client_op =
    Connect bool "int \<times> int" | Disconnect | Stop | EnableRetry
  | ConnectorFunctor "int \<times> int" | ConnectorTimer "int \<times> int" | Writable string int bool | ConnectorError
  | CloseConn nat "int \<times> int" | ClientFunctor

definition lift_connector :: "connector_op \<Rightarrow> TcpClient \<Rightarrow> TcpClient option" where
  "lift_connector a c = do { k \<leftarrow> run_connector_op a (tc_connector c); Some (c\<lparr>tc_connector := k\<rparr>) }"

fun run_client_op :: "client_op \<Rightarrow> TcpClient \<Rightarrow> TcpClient option" where
  "run_client_op (Connect inLoop sk) c = TcpClient_connect inLoop sk c"
| "run_client_op Disconnect c = Some (TcpClient_disconnect c)"
| "run_client_op Stop c = Some (TcpClient_stop c)"
| "run_client_op EnableRetry c = Some (enableRetry c)"
| "run_client_op (ConnectorFunctor sk) c = lift_connector (OpFunctor sk) c"
| "run_client_op (ConnectorTimer sk) c = lift_connector (OpTimer sk) c"
| "run_client_op (Writable peer err self) c =
     (if chan_enabled (tc_connector c) then client_handleWrite peer err self c else Some c)"
| "run_client_op ConnectorError c = lift_connector OpError c"
| "run_client_op (CloseConn n sk) c =
     (if n < length (conns c) \<and> kphase (conns c ! n) = Live \<and> RunResetChannel \<notin> set (cpending (tc_connector c))
      then conn_closed n sk c else Some c)"
| "run_client_op ClientFunctor c =
     (case tc_queue c of [] \<Rightarrow> Some c | f # fs \<Rightarrow> Some (run_client_functor f (c\<lparr>tc_queue := fs\<rparr>)))"

fun run_client_ops :: "client_op list \<Rightarrow> TcpClient \<Rightarrow> TcpClient option" where
  "run_client_ops [] c = Some c"
| "run_client_ops (a # as) c = run_client_op a c \<bind> run_client_ops as"

section \<open>Invariant\<close>

definition destroys :: "nat \<Rightarrow> TcpClient \<Rightarrow> nat" where
  "destroys n c = count_list (tc_queue c) (FDestroyConn n)"

definition client_inv :: "TcpClient \<Rightarrow> bool" where
  "client_inv c \<longleftrightarrow> Connector_inv (tc_connector c) \<and> map kfd (conns c) = handed (tc_connector c) \<and>
     nextConnId c = int (length (conns c)) + 1 \<and> alive c \<and>
     (\<forall>n. connection c = Some n \<longrightarrow> n < length (conns c) \<and> cstate (tc_connector c) = Connected) \<and>
     (\<forall>n<length (conns c). kphase (conns c ! n) = Live \<longleftrightarrow> connection c = Some n) \<and>
     (\<forall>n<length (conns c). destroys n c = (if kphase (conns c ! n) = Gone then 1 else 0)) \<and>
     (\<forall>n<length (conns c). count_list (kcalls (conns c ! n)) CallDestroyed = (if kphase (conns c ! n) = Destroyed then 1 else 0)) \<and>
     (\<forall>f\<in>set (tc_queue c). \<exists>n<length (conns c). f = FDestroyConn n) \<and>
     (\<forall>k\<in>set (conns c). \<not> detached k)"

lemma connector_op_frame:
  assumes "run_connector_op a k = Some k'" and "a \<in> range OpFunctor \<union> range OpTimer \<union> {OpError, OpStop} \<union> range (case_prod OpStart)"
  shows "handed k' = handed k \<and> (cstate k = Connected \<longrightarrow> cstate k' = Connected)"
proof -
  have start: "handed k' = handed k \<and> cstate k \<noteq> Connected" if "startInLoop sk k = Some k'" for sk k k'
    using that by (cases sk) (auto simp: connector_defs elim!: bind_SomeE split: if_splits)
  show ?thesis
  proof (cases a)
    case (OpStart b sk)
    then show ?thesis using assms(1) start[of sk "k\<lparr>connect_flag := True\<rparr>" k'] by (auto simp: Connector_start_def split: if_splits)
  next
    case OpStop
    then show ?thesis using assms(1) by (auto simp: Connector_stop_def)
  next
    case (OpFunctor sk)
    then show ?thesis using assms(1) start[of sk]
      by (fastforce simp: stopInLoop_def resetChannel_def removeAndResetChannel_def retry_def sock_close_def elim!: bind_SomeE
          split: list.splits connector_functor.splits if_splits option.splits)
  next
    case (OpTimer sk)
    then show ?thesis using assms(1) start[of sk] by (fastforce split: list.splits)
  next
    case OpError
    then show ?thesis using assms(1)
      by (auto simp: Connector_handleError_def removeAndResetChannel_def retry_def sock_close_def elim!: bind_SomeE split: if_splits)
  qed (use assms(2) in auto)
qed

lemma Connector_handleWrite_frame:
  assumes "Connector_handleWrite err self k = Some k'"
  shows "handed k' = handed k \<and> (cstate k = Connected \<longrightarrow> cstate k' = Connected) \<or>
    (\<exists>fd. handed k' = handed k @ [fd] \<and> cstate k' = Connected \<and> cstate k \<noteq> Connected)"
  using assms
  by (auto simp: Connector_handleWrite_def removeAndResetChannel_def retry_def sock_close_def Let_def elim!: bind_SomeE split: if_splits)

lemma client_inv_connector:
  assumes "client_inv c" and "Connector_inv k" and "handed k = handed (tc_connector c)"
    and "connection c \<noteq> None \<Longrightarrow> cstate k = Connected"
  shows "client_inv (c\<lparr>tc_connector := k\<rparr>)"
  using assms by (auto simp: client_inv_def destroys_def)

lemma client_inv_flags:
  "client_inv (c\<lparr>tc_connect := b\<rparr>) = client_inv c" "client_inv (c\<lparr>tc_retry := b\<rparr>) = client_inv c"
  by (simp_all add: client_inv_def destroys_def)

lemma lift_connector_inv:
  assumes "client_inv c" and "lift_connector a c = Some c'"
    and "a \<in> range OpFunctor \<union> range OpTimer \<union> {OpError, OpStop} \<union> range (case_prod OpStart)"
  shows "client_inv c'"
proof -
  obtain k where k: "run_connector_op a (tc_connector c) = Some k" "c' = c\<lparr>tc_connector := k\<rparr>"
    using assms(2) by (auto simp: lift_connector_def elim!: bind_SomeE)
  have "Connector_inv k" using run_connector_op_inv k(1) assms(1) by (auto simp: client_inv_def)
  then show ?thesis unfolding k(2) using connector_op_frame[OF k(1) assms(3)] assms(1)
    by (intro client_inv_connector) (auto simp: client_inv_def)
qed

lemma nth_upd_conn:
  "conns (upd_conn n f c) ! m = (if m = n \<and> n < length (conns c) then f (conns c ! n) else conns c ! m)"
  by (cases "n < length (conns c)"; cases "m = n") (simp_all add: upd_conn_def list_update_beyond)

lemma upd_conn_simps [simp]:
  "length (conns (upd_conn n f c)) = length (conns c)" "tc_connector (upd_conn n f c) = tc_connector c"
  "connection (upd_conn n f c) = connection c" "tc_queue (upd_conn n f c) = tc_queue c"
  "nextConnId (upd_conn n f c) = nextConnId c" "alive (upd_conn n f c) = alive c"
  "tc_retry (upd_conn n f c) = tc_retry c" "tc_connect (upd_conn n f c) = tc_connect c"
  "destroys m (upd_conn n f c) = destroys m c"
  by (simp_all add: upd_conn_def destroys_def)

lemma map_kfd_upd: "(\<And>k. kfd (f k) = kfd k) \<Longrightarrow> map kfd (conns (upd_conn n f c)) = map kfd (conns c)"
  by (cases "n < length (conns c)") (auto simp: upd_conn_def map_update intro!: list_update_id nth_equalityI simp: nth_list_update)

lemma detached_upd: "(\<And>k. detached (f k) = detached k) \<Longrightarrow> (\<forall>k\<in>set (conns (upd_conn n f c)). \<not> detached k) \<longleftrightarrow> (\<forall>k\<in>set (conns c). \<not> detached k)"
  unfolding all_set_conv_all_nth by (auto simp: nth_upd_conn)

text \<open>A call on a connection that is not its destruction.\<close>

lemma client_inv_call:
  assumes "client_inv c" and "call \<noteq> CallDestroyed"
  shows "client_inv (client_call n call c)"
proof -
  let ?c = "client_call n call c"
  have "kphase (conns ?c ! m) = kphase (conns c ! m)"
    "count_list (kcalls (conns ?c ! m)) CallDestroyed = count_list (kcalls (conns c ! m)) CallDestroyed" for m
    using assms(2) by (auto simp: nth_upd_conn)
  moreover have "map kfd (conns ?c) = map kfd (conns c)" "(\<forall>k\<in>set (conns ?c). \<not> detached k) \<longleftrightarrow> (\<forall>k\<in>set (conns c). \<not> detached k)"
    by (rule map_kfd_upd detached_upd; simp)+
  ultimately show ?thesis using assms(1) unfolding client_inv_def by simp
qed

lemma client_newConnection_inv:
  assumes "client_inv (c\<lparr>tc_connector := k0\<rparr>)" and "Connector_inv k" and "handed k = handed k0 @ [fd]"
    and "cstate k = Connected" and "connection c = None"
  shows "client_inv (client_newConnection peer fd (c\<lparr>tc_connector := k\<rparr>))"
proof -
  let ?n = "length (conns c)"
  let ?k = "\<lparr>kname = client_conn_name (tc_name c) peer (nextConnId c), kfd = fd, kphase = Live, kcalls = [], detached = False\<rparr>"
  let ?c = "c\<lparr>tc_connector := k, nextConnId := nextConnId c + 1, conns := conns c @ [?k], connection := Some ?n\<rparr>"
  have "count_list (tc_queue c) (FDestroyConn ?n) = 0"
    using assms(1) by (auto simp: client_inv_def count_list_0_iff)
  then have "client_inv ?c" using assms by (auto simp: client_inv_def destroys_def nth_append less_Suc_eq)
  then have "client_inv (client_call ?n CallEstablished ?c)" by (rule client_inv_call) simp
  then show ?thesis by (simp add: client_newConnection_def Let_def)
qed

lemma client_no_channel:
  assumes "client_inv c" and "connection c = Some n" and "RunResetChannel \<notin> set (cpending (tc_connector c))"
  shows "cchannel (tc_connector c) = None"
proof -
  have ci: "Connector_inv (tc_connector c)" "cstate (tc_connector c) = Connected" using assms(1,2) by (auto simp: client_inv_def)
  have "count_list (cpending (tc_connector c)) RunResetChannel = 0" using assms(3) by simp
  moreover have "\<not> chan_enabled (tc_connector c)" using ci by (simp add: Connector_inv_def)
  ultimately show ?thesis using ci(1) by (simp add: Connector_inv_def split: if_splits)
qed

lemma conn_closed_inv:
  assumes inv: "client_inv c" and n: "n < length (conns c)" "kphase (conns c ! n) = Live"
    and reset: "RunResetChannel \<notin> set (cpending (tc_connector c))"
  shows "\<exists>c'. conn_closed n sk c = Some c' \<and> client_inv c'"
proof -
  have cn: "connection c = Some n" and st: "cstate (tc_connector c) = Connected" and al: "alive c"
    using inv n by (auto simp: client_inv_def)
  have ci: "Connector_inv (tc_connector c)" using inv by (simp add: client_inv_def)
  let ?g = "upd_conn n (\<lambda>k. k\<lparr>kphase := Gone\<rparr>) c"
  let ?c = "?g\<lparr>connection := None, tc_queue := tc_queue ?g @ [FDestroyConn n]\<rparr>"
  have det: "\<not> detached (conns ?g ! n)" using inv n(1) by (simp add: client_inv_def nth_upd_conn)
  have closed: "conn_closed n sk c = (if tc_retry c \<and> tc_connect c
      then do { k \<leftarrow> Connector_restart sk (tc_connector c); Some (?c\<lparr>tc_connector := k\<rparr>) } else Some ?c)"
    using det cn al by (simp add: conn_closed_def client_removeConnection_def Let_def)
  have kfds: "map kfd (conns ?c) = map kfd (conns c)" using map_kfd_upd[of "\<lambda>k. k\<lparr>kphase := Gone\<rparr>" n c] by simp
  have dets: "\<forall>k\<in>set (conns ?c). \<not> detached k"
    using inv detached_upd[of "\<lambda>k. k\<lparr>kphase := Gone\<rparr>" n c] by (simp add: client_inv_def)
  have phases: "\<forall>m<length (conns ?c). kphase (conns ?c ! m) = Live \<longleftrightarrow> connection ?c = Some m"
    using inv cn n by (auto simp: client_inv_def nth_upd_conn)
  have queue: "\<forall>m<length (conns ?c). destroys m ?c = (if kphase (conns ?c ! m) = Gone then 1 else 0)"
  proof (intro allI impI)
    fix m assume "m < length (conns ?c)"
    then have m: "destroys m c = (if kphase (conns c ! m) = Gone then 1 else 0)" using inv by (simp add: client_inv_def)
    show "destroys m ?c = (if kphase (conns ?c ! m) = Gone then 1 else 0)"
      using m n by (cases "m = n") (auto simp: destroys_def nth_upd_conn)
  qed
  have calls: "\<forall>m<length (conns ?c). count_list (kcalls (conns ?c ! m)) CallDestroyed = (if kphase (conns ?c ! m) = Destroyed then 1 else 0)"
    using inv n(2) by (auto simp: client_inv_def nth_upd_conn)
  have funs: "\<forall>f\<in>set (tc_queue ?c). \<exists>n<length (conns ?c). f = FDestroyConn n" using inv n(1) by (auto simp: client_inv_def)
  have inv': "client_inv ?c" unfolding client_inv_def using kfds dets phases queue calls funs ci al inv by (simp add: client_inv_def)
  show ?thesis
  proof (cases "tc_retry c \<and> tc_connect c")
    case False
    then show ?thesis using closed inv' by auto
  next
    case True
    have ch: "cchannel (tc_connector c) = None" using inv cn reset by (rule client_no_channel)
    obtain fd e where sk: "sk = (fd, e)" by (cases sk)
    have "\<exists>k. Connector_restart sk (tc_connector c) = Some k \<and> handed k = handed (tc_connector c)"
      using ch unfolding sk by (simp add: Connector_restart_def connector_defs)
    then obtain k where k: "Connector_restart sk (tc_connector c) = Some k" "handed k = handed (tc_connector c)" by blast
    have "run_connector_op (OpRestart sk) (tc_connector c) = Some k" using k(1) st by simp
    then have "Connector_inv k" using run_connector_op_inv ci by blast
    then have "client_inv (?c\<lparr>tc_connector := k\<rparr>)" using client_inv_connector[OF inv'] k(2) by simp
    then show ?thesis using closed True k(1) by simp
  qed
qed

lemma run_client_functor_inv:
  assumes inv: "client_inv c" and q: "tc_queue c = f # fs"
  shows "client_inv (run_client_functor f (c\<lparr>tc_queue := fs\<rparr>))"
proof -
  obtain n where n: "n < length (conns c)" "f = FDestroyConn n" using inv q by (auto simp: client_inv_def)
  have d: "destroys m c = (if m = n then 1 else 0) + count_list fs (FDestroyConn m)" for m
    using q n(2) by (simp add: destroys_def)
  have gone: "kphase (conns c ! n) = Gone" using inv n(1) d[of n] by (auto simp: client_inv_def split: if_splits)
  let ?c = "run_client_functor f (c\<lparr>tc_queue := fs\<rparr>)"
  let ?f = "\<lambda>k. k\<lparr>kphase := Destroyed, kcalls := kcalls k @ [CallDestroyed]\<rparr>"
  have c: "?c = upd_conn n ?f (c\<lparr>tc_queue := fs\<rparr>)" using n by (simp add: run_client_functor_def upd_conn_def)
  have "map kfd (conns ?c) = map kfd (conns c)" unfolding c using map_kfd_upd[of ?f n "c\<lparr>tc_queue := fs\<rparr>"] by simp
  moreover have "\<forall>k\<in>set (conns ?c). \<not> detached k"
    unfolding c using inv detached_upd[of ?f n "c\<lparr>tc_queue := fs\<rparr>"] by (simp add: client_inv_def)
  moreover have "\<forall>m<length (conns ?c). kphase (conns ?c ! m) = Live \<longleftrightarrow> connection ?c = Some m"
    unfolding c using inv gone n(1) by (auto simp: client_inv_def nth_upd_conn)
  moreover have "\<forall>m<length (conns ?c). destroys m ?c = (if kphase (conns ?c ! m) = Gone then 1 else 0)"
  proof (intro allI impI)
    fix m assume "m < length (conns ?c)"
    then have "destroys m c = (if kphase (conns c ! m) = Gone then 1 else 0)" using inv unfolding c by (simp add: client_inv_def)
    then show "destroys m ?c = (if kphase (conns ?c ! m) = Gone then 1 else 0)"
      unfolding c using d[of m] gone n(1) by (cases "m = n") (simp_all add: nth_upd_conn destroys_def)
  qed
  moreover have "\<forall>m<length (conns ?c). count_list (kcalls (conns ?c ! m)) CallDestroyed = (if kphase (conns ?c ! m) = Destroyed then 1 else 0)"
    unfolding c using inv gone n(1) by (auto simp: client_inv_def nth_upd_conn)
  moreover have "\<forall>g\<in>set (tc_queue ?c). \<exists>n<length (conns ?c). g = FDestroyConn n" unfolding c using inv q by (auto simp: client_inv_def)
  ultimately show ?thesis unfolding client_inv_def using inv c by (simp add: client_inv_def)
qed

lemma run_client_op_inv:
  assumes inv: "client_inv c" and run: "run_client_op a c = Some c'"
  shows "client_inv c'"
proof (cases a)
  case (Connect b sk)
  then have "lift_connector (OpStart b sk) (c\<lparr>tc_connect := True\<rparr>) = Some c'"
    using run by (auto simp: TcpClient_connect_def lift_connector_def elim!: bind_SomeE)
  then show ?thesis by (rule lift_connector_inv[rotated]) (use inv client_inv_flags(1) in auto)
next
  case Disconnect
  have "client_inv (c\<lparr>tc_connect := False\<rparr>)" using inv client_inv_flags(1) by simp
  then show ?thesis using Disconnect run client_inv_call
    by (auto simp: TcpClient_disconnect_def Let_def split: option.splits)
next
  case Stop
  then have "lift_connector OpStop (c\<lparr>tc_connect := False\<rparr>) = Some c'"
    using run by (simp add: TcpClient_stop_def lift_connector_def)
  then show ?thesis by (rule lift_connector_inv[rotated]) (use inv client_inv_flags(1) in auto)
next
  case EnableRetry
  then show ?thesis using run inv client_inv_flags(2) by (auto simp: enableRetry_def)
next
  case (Writable peer err self)
  show ?thesis
  proof (cases "chan_enabled (tc_connector c)")
    case True
    then obtain k where k: "Connector_handleWrite err self (tc_connector c) = Some k"
      using run Writable by (auto simp: client_handleWrite_def elim!: bind_SomeE)
    have ik: "Connector_inv k" using Connector_handleWrite_inv k inv by (auto simp: client_inv_def)
    from Connector_handleWrite_frame[OF k] show ?thesis
    proof
      assume "handed k = handed (tc_connector c) \<and> (cstate (tc_connector c) = Connected \<longrightarrow> cstate k = Connected)"
      moreover have "client_inv (c\<lparr>tc_connector := k\<rparr>)"
        using calculation inv ik by (intro client_inv_connector) (auto simp: client_inv_def)
      ultimately show ?thesis using run Writable True k by (simp add: client_handleWrite_def)
    next
      assume "\<exists>fd. handed k = handed (tc_connector c) @ [fd] \<and> cstate k = Connected \<and> cstate (tc_connector c) \<noteq> Connected"
      then obtain fd where fd: "handed k = handed (tc_connector c) @ [fd]" "cstate k = Connected" "connection c = None"
        using inv by (auto simp: client_inv_def)
      have "client_inv (c\<lparr>tc_connector := tc_connector c\<rparr>)" using inv by simp
      then have "client_inv (client_newConnection peer fd (c\<lparr>tc_connector := k\<rparr>))"
        by (rule client_newConnection_inv[OF _ ik fd])
      then show ?thesis using run Writable True k fd(1) inv by (simp add: client_handleWrite_def client_inv_def[of c])
    qed
  qed (use run Writable inv in simp)
next
  case (CloseConn n sk)
  then show ?thesis using run inv conn_closed_inv[OF inv, of n sk] by (auto split: if_splits)
next
  case ClientFunctor
  then show ?thesis using run inv run_client_functor_inv[OF inv] by (auto split: list.splits)
qed (use run inv lift_connector_inv[OF inv] in auto)

lemma client_inv_new: "client_inv (TcpClient_new nm)"
  using Connector_new_inv by (simp add: client_inv_def TcpClient_new_def Connector_new_def)

lemma run_client_ops_inv: "client_inv c \<Longrightarrow> run_client_ops as c = Some c' \<Longrightarrow> client_inv c'"
  by (induction as arbitrary: c) (auto elim!: bind_SomeE dest: run_client_op_inv)

section \<open>Properties\<close>

text \<open>
  What a lost connection leads to. The errors of \<^verbatim>\<open>connect\<close> that leave the socket connecting, and a client
  that has got a new live connection on the socket \<open>fd\<close>.
\<close>

definition in_progress :: "int \<Rightarrow> bool" where
  "in_progress e \<longleftrightarrow> e = 0 \<or> e = EINPROGRESS \<or> e = EINTR_c \<or> e = EISCONN"

definition reconnected :: "TcpClient \<Rightarrow> int \<Rightarrow> TcpClient \<Rightarrow> bool" where
  "reconnected c fd c' \<longleftrightarrow> connection c' = Some (length (conns c)) \<and> length (conns c') = Suc (length (conns c))
     \<and> kfd (conns c' ! length (conns c)) = fd \<and> kphase (conns c' ! length (conns c)) = Live"

definition attempt_on :: "int \<Rightarrow> Connector \<Rightarrow> bool" where
  "attempt_on fd k \<longleftrightarrow> cstate k = Connecting \<and> connect_flag k \<and> cchannel k = Some \<lparr>cc_fd = fd, cc_enabled = True\<rparr>"

lemma startInLoop_results:
  assumes "cstate k = Disconnected" and "connect_flag k" and "cchannel k = None"
  shows "in_progress e \<Longrightarrow> \<exists>k'. startInLoop (fd, e) k = Some k' \<and> attempt_on fd k' \<and> created k' = created k @ [fd]"
    and "\<not> in_progress e \<Longrightarrow> e \<in> set retry_errnos \<Longrightarrow> \<exists>k'. startInLoop (fd, e) k = Some k' \<and> cstate k' = Disconnected \<and> connect_flag k'
      \<and> cchannel k' = None \<and> created k' = created k @ [fd] \<and> closed k' = closed k @ [fd]
      \<and> ctimers k' = ctimers k @ [of_int (retryDelayMs k) / 1000]"
    and "\<not> in_progress e \<Longrightarrow> e \<notin> set retry_errnos \<Longrightarrow> \<exists>k'. startInLoop (fd, e) k = Some k'
      \<and> created k' = created k @ [fd] \<and> closed k' = closed k @ [fd] \<and> ctimers k' = ctimers k"
  using assms by (auto simp: in_progress_def attempt_on_def connector_defs)

lemma attempt_writable:
  assumes "attempt_on fd (tc_connector c)" and "alive c"
  shows "\<exists>c'. run_client_op (Writable peer 0 False) c = Some c' \<and> reconnected c fd c'"
  using assms
  by (simp add: attempt_on_def chan_enabled_def client_handleWrite_def Connector_handleWrite_def removeAndResetChannel_def
      client_newConnection_def upd_conn_def reconnected_def)

lemma attempt_timer:
  assumes "cstate (tc_connector c) = Disconnected" and "connect_flag (tc_connector c)" and "cchannel (tc_connector c) = None"
    and "ctimers (tc_connector c) = [t]" and "in_progress e" and "alive c"
  shows "\<exists>c'. run_client_ops [ConnectorTimer (fd, e), Writable peer 0 False] c = Some c' \<and> reconnected c fd c'"
proof -
  let ?k = "(tc_connector c)\<lparr>ctimers := []\<rparr>"
  obtain k' where k': "startInLoop (fd, e) ?k = Some k'" "attempt_on fd k'"
    using startInLoop_results(1)[of ?k, OF _ _ _ assms(5)] assms(1-3) by auto
  then have "run_client_op (ConnectorTimer (fd, e)) c = Some (c\<lparr>tc_connector := k'\<rparr>)"
    using assms(4) by (simp add: lift_connector_def)
  moreover obtain c' where "run_client_op (Writable peer 0 False) (c\<lparr>tc_connector := k'\<rparr>) = Some c'"
      "reconnected (c\<lparr>tc_connector := k'\<rparr>) fd c'"
    using attempt_writable[of fd "c\<lparr>tc_connector := k'\<rparr>" peer] k'(2) assms(6) by auto
  ultimately show ?thesis by (simp add: reconnected_def del: run_client_op.simps)
qed

text \<open>
  The new attempt on the socket \<open>fd\<close>. In progress, its becoming writable without an error gives a live connection
  again. Refused for the moment, the socket is closed and the attempt is repeated after half a second, with the same
  effect. After any other error the socket is closed and the client gives up.
\<close>

definition new_attempt :: "int \<Rightarrow> int \<Rightarrow> TcpClient \<Rightarrow> TcpClient \<Rightarrow> bool" where
  "new_attempt fd e c c' \<longleftrightarrow>
    created (tc_connector c') = created (tc_connector c) @ [fd] \<and>
    (if in_progress e
     then \<forall>peer. \<exists>c2. run_client_op (Writable peer 0 False) c' = Some c2 \<and> reconnected c fd c2
     else closed (tc_connector c') = closed (tc_connector c) @ [fd] \<and>
       (if e \<in> set retry_errnos
        then ctimers (tc_connector c') = ctimers (tc_connector c) @ [1 / 2] \<and>
          (ctimers (tc_connector c) = [] \<longrightarrow> (\<forall>fd' e' peer. in_progress e' \<longrightarrow>
            (\<exists>c2. run_client_ops [ConnectorTimer (fd', e'), Writable peer 0 False] c' = Some c2 \<and> reconnected c fd' c2)))
        else ctimers (tc_connector c') = ctimers (tc_connector c)))"

lemma conn_closed_connector:
  assumes inv: "client_inv c" and cl: "conn_closed n (fd, e) c = Some c'" and n: "connection c = Some n" "n < length (conns c)"
    and ch: "cchannel (tc_connector c) = None"
  shows "if tc_retry c \<and> tc_connect c then new_attempt fd e c c' else tc_connector c' = tc_connector c"
proof (cases "tc_retry c \<and> tc_connect c")
  case retry: True
  let ?g = "upd_conn n (\<lambda>k. k\<lparr>kphase := Gone\<rparr>) c"
  have det: "\<not> detached (conns ?g ! n)" and al: "alive c" using inv n(2) by (simp_all add: client_inv_def nth_upd_conn)
  let ?k = "(tc_connector c)\<lparr>cstate := Disconnected, retryDelayMs := kInitRetryDelayMs, connect_flag := True\<rparr>"
  obtain k where k: "startInLoop (fd, e) ?k = Some k" "tc_connector c' = k" "alive c'" "length (conns c') = length (conns c)"
    using cl det retry al n(1)
    by (auto simp: conn_closed_def client_removeConnection_def Connector_restart_def Let_def elim!: bind_SomeE)
  have st: "cstate ?k = Disconnected" "connect_flag ?k" "cchannel ?k = None" using ch by simp_all
  note res = startInLoop_results[of ?k, OF st]
  have rc: "reconnected c' f d \<Longrightarrow> reconnected c f d" for f d using k(4) by (simp add: reconnected_def)
  consider (go) "in_progress e" | (again) "\<not> in_progress e" "e \<in> set retry_errnos" | (no) "\<not> in_progress e" "e \<notin> set retry_errnos" by blast
  then have "new_attempt fd e c c'"
  proof cases
    case go
    then have a: "attempt_on fd (tc_connector c')" "created (tc_connector c') = created (tc_connector c) @ [fd]"
      using res(1)[OF go, of fd] k(1,2) by auto
    have "\<exists>c2. run_client_op (Writable peer 0 False) c' = Some c2 \<and> reconnected c fd c2" for peer
      using attempt_writable[OF a(1) k(3), of peer] rc by blast
    then show ?thesis using go a(2) by (simp add: new_attempt_def del: run_client_op.simps)
  next
    case again
    have a: "cstate (tc_connector c') = Disconnected" "connect_flag (tc_connector c')" "cchannel (tc_connector c') = None"
        "created (tc_connector c') = created (tc_connector c) @ [fd]" "closed (tc_connector c') = closed (tc_connector c) @ [fd]"
        "ctimers (tc_connector c') = ctimers (tc_connector c) @ [1 / 2]"
      using res(2)[OF again, of fd] k(1,2) by (auto simp: kInitRetryDelayMs_def)
    have "\<exists>c2. run_client_ops [ConnectorTimer (fd', e'), Writable peer 0 False] c' = Some c2 \<and> reconnected c fd' c2"
      if "ctimers (tc_connector c) = []" "in_progress e'" for fd' e' peer
      using attempt_timer[OF a(1-3) a(6)[unfolded that(1), simplified append_Nil] that(2) k(3), of fd' peer] rc by blast
    then show ?thesis using again a(4-6) by (simp add: new_attempt_def del: run_client_ops.simps)
  next
    case no
    have "created (tc_connector c') = created (tc_connector c) @ [fd]" "closed (tc_connector c') = closed (tc_connector c) @ [fd]"
        "ctimers (tc_connector c') = ctimers (tc_connector c)"
      using res(3)[OF no, of fd] k(1,2) by auto
    then show ?thesis using no by (simp add: new_attempt_def)
  qed
  then show ?thesis using retry by simp
next
  case False
  have "\<not> detached (conns (upd_conn n (\<lambda>k. k\<lparr>kphase := Gone\<rparr>) c) ! n)" using inv n(2) by (simp add: client_inv_def nth_upd_conn)
  then show ?thesis using cl False
    by (auto simp: conn_closed_def client_removeConnection_def Let_def elim!: bind_SomeE split: if_splits)
qed

text \<open>C16: A client and its connector in every history: every socket that was created is closed by the connector,
  is the one being connected, or belongs to exactly one connection of the client; a connection is live
  exactly if it is the one the client refers to, so there is at most one, and every other one has been
  destroyed, or will be by a queued functor, exactly once; and when the live connection closes, after the
  functors queued while it was made, no assertion fails. If retrying is enabled and the user wants to be connected,
  a new attempt is made (\<open>new_attempt\<close>), which ends in a live connection if the socket gets connected; otherwise the
  connector is left as it is.\<close>

theorem client_connections_managed:
  assumes "run_client_ops as (TcpClient_new nm) = Some c" and "n < length (conns c)"
  shows "mset (created (tc_connector c)) = mset (closed (tc_connector c)) + mset (map kfd (conns c)) + inflight (tc_connector c) \<and>
    (kphase (conns c ! n) = Live \<longleftrightarrow> connection c = Some n) \<and>
    destroys n c + count_list (kcalls (conns c ! n)) CallDestroyed = (if connection c = Some n then 0 else 1) \<and>
    (connection c = Some n \<and> RunResetChannel \<notin> set (cpending (tc_connector c)) \<longrightarrow>
      (\<exists>c'. conn_closed n (fd, e) c = Some c' \<and> connection c' = None \<and> destroys n c' = 1 \<and>
        (if tc_retry c \<and> tc_connect c then new_attempt fd e c c' else tc_connector c' = tc_connector c)))"
proof -
  have inv: "client_inv c" using run_client_ops_inv[OF client_inv_new assms(1)] .
  then have "Connector_inv (tc_connector c)" "map kfd (conns c) = handed (tc_connector c)"
    and live: "kphase (conns c ! n) = Live \<longleftrightarrow> connection c = Some n"
    and d: "destroys n c = (if kphase (conns c ! n) = Gone then 1 else 0)"
      "count_list (kcalls (conns c ! n)) CallDestroyed = (if kphase (conns c ! n) = Destroyed then 1 else 0)"
    using assms(2) by (simp_all add: client_inv_def)
  then have "mset (created (tc_connector c)) = mset (closed (tc_connector c)) + mset (map kfd (conns c)) + inflight (tc_connector c)"
    by (simp add: Connector_inv_def)
  moreover have "destroys n c + count_list (kcalls (conns c ! n)) CallDestroyed = (if connection c = Some n then 0 else 1)"
    using d live by (cases "kphase (conns c ! n)") auto
  moreover have "\<exists>c'. conn_closed n (fd, e) c = Some c' \<and> connection c' = None \<and> destroys n c' = 1 \<and>
      (if tc_retry c \<and> tc_connect c then new_attempt fd e c c' else tc_connector c' = tc_connector c)"
    if r: "connection c = Some n" "RunResetChannel \<notin> set (cpending (tc_connector c))"
  proof -
    have l: "kphase (conns c ! n) = Live" using live r(1) by simp
    obtain c' where c': "conn_closed n (fd, e) c = Some c'" "client_inv c'" using conn_closed_inv[OF inv assms(2) l r(2)] by blast
    have det: "\<not> detached (conns c ! n)" using inv assms(2) by (simp add: client_inv_def)
    have "connection c' = None \<and> conns c' = conns (upd_conn n (\<lambda>k. k\<lparr>kphase := Gone\<rparr>) c)"
      using c'(1) det assms(2)
      by (auto simp: conn_closed_def client_removeConnection_def nth_upd_conn Let_def elim!: bind_SomeE split: if_splits)
    then have "connection c' = None" "n < length (conns c')" "kphase (conns c' ! n) = Gone" using assms(2) by (simp_all add: nth_upd_conn)
    moreover have "destroys n c' = 1" using c'(2) calculation by (simp add: client_inv_def)
    ultimately show ?thesis
      using c'(1) conn_closed_connector[OF inv c'(1) r(1) assms(2) client_no_channel[OF inv r]] by blast
  qed
  ultimately show ?thesis using live by blast
qed

lemma conn_closed_no_retry:
  assumes "conn_closed n sk c = Some c'" and "\<not> detached (conns c ! n)" and "\<not> tc_retry c"
  shows "tc_connector c' = tc_connector c"
proof -
  have "\<not> detached (conns (upd_conn n (\<lambda>k. k\<lparr>kphase := Gone\<rparr>) c) ! n)" using assms(2) by (simp add: nth_upd_conn)
  then show ?thesis using assms(1,3)
    by (simp add: conn_closed_def client_removeConnection_def Let_def) (auto elim!: bind_SomeE split: if_splits)
qed

text \<open>C40: A client whose connection was lost can not be connected again with \<open>connect()\<close> unless retrying is enabled:
  the connector stays in state connected, and the assertion of \<open>startInLoop\<close> fails - at once in the
  thread of the loop.\<close>

theorem client_connect_again_aborts:
  assumes "run_client_ops as (TcpClient_new nm) = Some c" and "connection c = Some n" and "\<not> tc_retry c"
  shows "run_client_ops [CloseConn n sk, Connect True sk'] c = None"
proof -
  have inv: "client_inv c" using run_client_ops_inv[OF client_inv_new assms(1)] .
  then have st: "cstate (tc_connector c) = Connected" and det: "\<not> detached (conns c ! n)"
    using assms(2) by (auto simp: client_inv_def)
  have again: "TcpClient_connect True sk' c' = None" if "cstate (tc_connector c') = Connected" for c'
    using that by (simp add: TcpClient_connect_def Connector_start_def startInLoop_def)
  show ?thesis
  proof (cases "run_client_op (CloseConn n sk) c")
    case (Some c')
    then have "tc_connector c' = tc_connector c"
      using conn_closed_no_retry[OF _ det assms(3)] by (auto split: if_splits)
    then have "TcpClient_connect True sk' c' = None" using again st by simp
    then show ?thesis using Some by simp
  qed (simp del: run_client_op.simps)
qed

text \<open>
  The destructor: in the thread of the loop a connection that outlives the client is destroyed when
  it closes; in another thread the functor that changes its close callback may come too late, and the
  connection calls the destroyed client.
\<close>

theorem client_dtor_race:
  assumes "run_client_ops as (TcpClient_new nm) = Some c" and "connection c = Some n"
  shows "conn_closed n sk (TcpClient_dtor False unique c) = None \<and>
    (\<exists>c'. conn_closed n sk (TcpClient_dtor True unique c) = Some c' \<and> FDestroyConn n \<in> set (tc_queue c'))"
proof -
  have inv: "client_inv c" using run_client_ops_inv[OF client_inv_new assms(1)] .
  then have n: "n < length (conns c)" "\<not> detached (conns c ! n)" using assms(2) by (simp_all add: client_inv_def)
  then show ?thesis using assms(2)
    by (auto simp: TcpClient_dtor_def run_client_functor_def conn_closed_def detail_removeConnection_def Let_def upd_conn_def)
qed

text \<open>The number of the connection is cut off behind a long address, such as one of IPv6, and the names collide.\<close>

lemma client_names_collide:
  assumes "30 \<le> length peer"
  shows "client_conn_name nm peer i = client_conn_name nm peer j"
  using assms by (simp add: client_conn_name_def)

theorem client_connections_managed_witness:
  "\<exists>c. run_client_ops [EnableRetry, Connect True (7, 115), Writable ''1.2.3.4:80'' 0 False, ConnectorFunctor (0, 0)] (TcpClient_new ''c'') = Some c \<and>
     connection c = Some 0 \<and> (\<exists>c' c2. conn_closed 0 (8, 115) c = Some c' \<and> connection c' = None \<and>
       run_client_op (Writable ''1.2.3.4:80'' 0 False) c' = Some c2 \<and> connection c2 = Some 1 \<and> kfd (conns c2 ! 1) = 8)"
proof -
  let ?as = "[EnableRetry, Connect True (7, 115), Writable ''1.2.3.4:80'' 0 False, ConnectorFunctor (0, 0)]"
  define c where "c = the (run_client_ops ?as (TcpClient_new ''c''))"
  have r: "run_client_ops ?as (TcpClient_new ''c'') = Some c" unfolding c_def by code_simp
  have c: "length (conns c) = 1" "connection c = Some 0" "RunResetChannel \<notin> set (cpending (tc_connector c))"
    "tc_retry c" "tc_connect c" unfolding c_def by code_simp+
  have "in_progress 115" by (simp add: in_progress_def EINPROGRESS_def)
  then obtain c' where "conn_closed 0 (8, 115) c = Some c'" "connection c' = None"
      "\<exists>c2. run_client_op (Writable ''1.2.3.4:80'' 0 False) c' = Some c2 \<and> reconnected c 8 c2"
    using client_connections_managed[OF r, of 0 8 115] c by (auto simp: new_attempt_def simp del: run_client_op.simps)
  then show ?thesis using r c by (auto simp: reconnected_def simp del: run_client_op.simps)
qed

theorem client_connect_again_aborts_witness:
  "run_client_ops [Connect True (7, 115), Writable ''1.2.3.4:80'' 0 False, ConnectorFunctor (0, 0), CloseConn 0 (0, 0), Connect True (8, 115)]
     (TcpClient_new ''c'') = None"
proof -
  let ?as = "[Connect True (7, 115), Writable ''1.2.3.4:80'' 0 False, ConnectorFunctor (0, 0)]"
  define c where "c = the (run_client_ops ?as (TcpClient_new ''c''))"
  have r: "run_client_ops ?as (TcpClient_new ''c'') = Some c" unfolding c_def by code_simp
  have c: "connection c = Some 0" "\<not> tc_retry c" unfolding c_def by code_simp+
  have app: "run_client_ops (xs @ ys) d = run_client_ops xs d \<bind> run_client_ops ys" for xs ys d
    by (induction xs arbitrary: d) (auto split: bind_split)
  have "run_client_ops (?as @ [CloseConn 0 (0, 0), Connect True (8, 115)]) (TcpClient_new ''c'') = None"
    unfolding app r using client_connect_again_aborts[OF r c, of "(0, 0)" "(8, 115)"] by (simp only: bind.bind_lunit)
  then show ?thesis by (simp only: append.simps)
qed

end
