(* ===== verification/Spec2Isabelle.thy ===== *)
theory Spec2Isabelle
  imports Buffer TimerQueue Poller EventLoop TcpConnection Connector Inet TcpServer Calendar Http Memcache_Session
    AsyncLog Monitors Sudoku_Loadtest Inspector TcpClient
begin

text \<open>
  A verification of \<^bold>\<open>cnet\<close>, a C++ network library in the reactor style: one event loop per thread
  dispatches the readiness of file descriptors, expired timers and functors queued by other threads;
  TCP connections, servers and clients are built on it, and an HTTP layer on these. Its examples include
  a memcached server and a family of sudoku servers with their clients.

  \<^bold>\<open>What is modelled.\<close> The debug build of the sources under \<^verbatim>\<open>src/cnet\<close> and of two of the examples
  under \<^verbatim>\<open>src/examples\<close>, memcached and sudoku: a failed \<^verbatim>\<open>assert\<close>, a
  \<^verbatim>\<open>LOG_FATAL\<close> and undefined behaviour are the value \<open>None\<close> of the operation (a release build goes on
  from there). Objects are records with the members of the class, operations are functions on them,
  objects that are shared through pointers live in an explicit heap. The results of system calls and
  of libraries that are not part of the repository are arguments of the operations, restricted in the
  theorems by their documented behaviour where that is needed. Logging has no effect on the state and
  is left out.

  \<^bold>\<open>Theories, from the bottom up.\<close>

  \<^item> \<open>Cnet_Prelude\<close>: assertions, byte ranges and the parts of the C++ library used on them, decimal
    numbers, ordered maps.
  \<^item> \<open>Endian\<close> (\<^verbatim>\<open>cnet/net/Endian.h\<close>): integers in memory and in network order.
  \<^item> \<open>Buffer\<close> (\<^verbatim>\<open>cnet/net/Buffer.h\<close>, \<^verbatim>\<open>Buffer.cc\<close>): the growing byte buffer. It refines a plain byte
    string under all its operations; the locale \<open>byte_stream\<close> is the contract its users rely on.
  \<^item> \<open>Timestamp\<close> (\<^verbatim>\<open>cnet/base/Timestamp.h\<close>, \<^verbatim>\<open>Timestamp.cc\<close>) and \<open>TimerQueue\<close>
    (\<^verbatim>\<open>cnet/net/Timer.h\<close>, \<^verbatim>\<open>TimerQueue.cc\<close>): timers in a heap with the two ordered sets of the source.
    Exactly the expired timers run, cancelling is effective even from callbacks, nothing leaks.
  \<^item> \<open>Channel\<close> (\<^verbatim>\<open>cnet/net/Channel.cc\<close>), \<open>Poller\<close> (\<^verbatim>\<open>cnet/net/Poller.cc\<close>, \<^verbatim>\<open>poller/EPollPoller.cc\<close>,
    \<^verbatim>\<open>poller/PollPoller.cc\<close>): event masks, dispatch, and the two pollers over a kernel given by the
    locale \<open>epoll_kernel\<close>. The epoll poller delivers what the kernel reports; the poll poller has
    two defects.
  \<^item> \<open>EventLoop\<close> (\<^verbatim>\<open>cnet/net/EventLoop.cc\<close>): the loop, its functor queue and its wake-up descriptor,
    with an \<open>inductive\<close> step relation for the interleaving of the loop thread with threads that queue
    functors. No wake-up is lost and every queued functor is eventually run; the channels and the
    kernel's interest set stay in step.
  \<^item> \<open>TcpConnection\<close> (\<^verbatim>\<open>cnet/net/TcpConnection.cc\<close>): connection states, sending and closing, on top of
    the loop and the buffer. Over all histories the bytes written to the socket followed by the output
    buffer are the bytes the user sent, in order; the user sees each life-cycle event once.
  \<^item> \<open>Connector\<close> (\<^verbatim>\<open>cnet/net/Connector.cc\<close>): active opening with back-off; no descriptor leaks.
  \<^item> \<open>TcpClient\<close> (\<^verbatim>\<open>cnet/net/TcpClient.cc\<close>): the client on its connector. Over all histories at most one
    connection is live, every other is destroyed once, every socket is accounted for, and a lost connection is
    re-established when retrying; three defects are shown.
  \<^item> \<open>Inet\<close> (\<^verbatim>\<open>cnet/net/InetAddress.cc\<close>, \<^verbatim>\<open>SocketsOps.cc\<close>): addresses and their text form.
  \<^item> \<open>TcpServer\<close> (\<^verbatim>\<open>cnet/net/Acceptor.cc\<close>, \<^verbatim>\<open>EventLoopThreadPool.cc\<close>, \<^verbatim>\<open>TcpServer.cc\<close>): accepting,
    distribution over the worker loops, and the life of every connection across loops.
  \<^item> \<open>Calendar\<close> (\<^verbatim>\<open>cnet/base/Date.cc\<close>, \<^verbatim>\<open>TimeZone.cc\<close>): Julian day numbers, UTC conversion, zone files.
  \<^item> \<open>Http\<close> (\<^verbatim>\<open>cnet/net/http\<close>): requests, responses, URL parsing, the incremental parser, the server's
    and the client's callbacks.
  \<^item> \<open>Monitors\<close> (\<^verbatim>\<open>cnet/base/BlockingQueue.h\<close>, \<^verbatim>\<open>BoundedBlockingQueue.h\<close>, \<^verbatim>\<open>CountDownLatch.cc\<close>, \<^verbatim>\<open>ThreadPool.cc\<close>):
    monitors as step relations over their critical sections. The locale \<open>condition\<close> carries the argument that no
    wake-up is lost; it is interpreted for both ends of the queue and of the pool, and \<open>fifo\<close> for the two queues.
  \<^item> \<open>LogStream\<close> (\<^verbatim>\<open>cnet/base/LogStream.cc\<close>) and \<open>AsyncLog\<close> (\<^verbatim>\<open>FileUtil.cc\<close>, \<^verbatim>\<open>LogFile.cc\<close>, \<^verbatim>\<open>AsyncLogging.cc\<close>):
    formatting, rolling files, and the double-buffered back end interleaved with appending threads.
  \<^item> \<open>Memcache_Store\<close> and \<open>Memcache_Session\<close> (\<^verbatim>\<open>examples/memcached/server\<close>): items, the sharded table, and the
    text protocol of a session. The locale \<open>item_table\<close> is the contract between the two; the table refines
    a map, a session returns on any input, and what is set is what a get answers.
  \<^item> \<open>Dancing_Links\<close> and \<open>Sudoku\<close> (\<^verbatim>\<open>examples/sudoku/sudoku.cc\<close>): the solver's pool of linked nodes with
    \<open>cover\<close> and \<open>uncover\<close>, which refine an exact cover problem and undo each other, and the constructor, the
    search and \<open>solveSudoku\<close>, which is totally correct.
  \<^item> \<open>Sudoku_Stat\<close> (\<^verbatim>\<open>stat.h\<close>): the statistics with their window of sixty seconds, exact for every order of
    the clocks.
  \<^item> \<open>Sudoku_Server\<close> (\<^verbatim>\<open>server_basic.cc\<close>, \<^verbatim>\<open>server_multiloop.cc\<close>, \<^verbatim>\<open>server_threadpool.cc\<close>,
    \<^verbatim>\<open>server_hybrid.cc\<close>): every request of a stream is answered, in order, in whatever pieces it arrives; with a
    thread pool the statistics account for every request. The locale \<open>line_handler\<close> is what their loops share.
  \<^item> \<open>Sudoku_Clients\<close> (\<^verbatim>\<open>batch.cc\<close>) and \<open>Sudoku_Loadtest\<close> (\<^verbatim>\<open>loadtest.cc\<close>, \<^verbatim>\<open>percentile.h\<close>): the batch client
    composed with the server, which ends exactly if the last puzzle has a solution; the load test, which matches
    answers with requests by their ids; percentiles and histogram of the latencies.
  \<^item> \<open>Proc\<close> (\<^verbatim>\<open>cnet/base/StringPiece.h\<close>, \<^verbatim>\<open>ProcessInfo.cc\<close>, \<^verbatim>\<open>FileUtil.cc\<close>) and \<open>Inspector\<close>
    (\<^verbatim>\<open>cnet/net/inspect\<close>): small files, texts about the process, and the inspector's table of commands, which is a
    map from pairs of names to callbacks behind the HTTP server.

  \<^bold>\<open>Bounds and loops.\<close> No model uses fuel. Loops are structural recursions, functions with a measure,
  or, where the source may spin for ever (the HTTP parser in a state it does not handle, the loop of
  the event loop, the chains and the search of the sudoku solver, the loop over lines of its servers), a
  \<open>partial_function\<close> or a given number of iterations; termination is then a theorem. Machine
  integers are words where the source relies on their width; identifiers and counters are integers and
  the theorems bound the length of the history.

  \<^bold>\<open>Interfaces.\<close> \<open>byte_stream\<close> (buffer), \<open>channel_view\<close> (what an event handler may do to its channel),
  \<open>poller_registry\<close>, \<open>poller_watch\<close> and \<open>epoll_kernel\<close> (pollers), \<open>item_table\<close> (the memcached table), \<open>condition\<close> and
  \<open>fifo\<close> (monitors), \<open>line_handler\<close> (sudoku servers), each interpreted on the definitions of the component that
  provides it.

  \<^bold>\<open>Not modelled.\<close> Wrappers of system calls and of pthreads, zlib and tcmalloc (sockets, threads, mutexes,
  conditions, thread-local data, \<^verbatim>\<open>GzipFile\<close>, \<^verbatim>\<open>PerformanceInspector\<close>), whose results are arguments here; the
  formatting of a log line's header; the text of floating point numbers; constructors and \<^verbatim>\<open>main\<close> functions that
  only configure other objects; the procmon example, which draws charts of floating point values; and tests.
\<close>

end
